(* ===== verification/Prelude.thy ===== *)
theory Prelude
  imports Main "HOL-Library.Sublist" "HOL-Library.Multiset"
begin

text \<open>
  Shared vocabulary of the development.  A C++ \<open>std::string\<close> (or \<open>std::string_view\<close>) is a
  sequence of bytes and is modelled as \<^typ>\<open>string\<close>, whose characters are exactly the 256 byte
  values; a \<open>std::size_t\<close> offset is a \<^typ>\<open>nat\<close>.  This theory holds the byte classes, the
  substring searches, decimal printing and the comparison sort that several components of
  \<open>src/src/guard\<close> use, with the lemmas about them that carry the component proofs.
\<close>

named_theorems byte_defs "byte class predicates, unfolded to comparisons of byte values"

section \<open>Bytes\<close>

abbreviation byte :: "char \<Rightarrow> nat" where
  "byte c \<equiv> of_char c"

definition is_digit_char :: "char \<Rightarrow> bool" where
  [byte_defs]: "is_digit_char c \<longleftrightarrow> 48 \<le> byte c \<and> byte c \<le> 57"

definition is_lower_char :: "char \<Rightarrow> bool" where
  [byte_defs]: "is_lower_char c \<longleftrightarrow> 97 \<le> byte c \<and> byte c \<le> 122"

definition is_upper_char :: "char \<Rightarrow> bool" where
  [byte_defs]: "is_upper_char c \<longleftrightarrow> 65 \<le> byte c \<and> byte c \<le> 90"

text \<open>The value of a decimal digit, \<open>c - '0'\<close>.\<close>

definition digit_val :: "char \<Rightarrow> nat" where
  "digit_val c = byte c - 48"

definition digit_char :: "nat \<Rightarrow> char" where
  "digit_char n = char_of (48 + n)"

lemma byte_less_256 [simp]: "byte c < 256"
  using of_char_mod_256 [of c, where 'a = nat] by (metis mod_less_divisor zero_less_numeral)

lemma byte_char_of [simp]: "n < 256 \<Longrightarrow> byte (char_of n) = n"
  by simp

lemma byte_eq_iff: "byte c = byte d \<longleftrightarrow> c = d"
  by simp

lemma digit_val_digit_char [simp]: "n < 10 \<Longrightarrow> digit_val (digit_char n) = n"
  by (simp add: digit_val_def digit_char_def)

lemma is_digit_digit_char [simp]: "n < 10 \<Longrightarrow> is_digit_char (digit_char n)"
  by (simp add: is_digit_char_def digit_char_def)

lemma digit_char_digit_val [simp]: "is_digit_char c \<Longrightarrow> digit_char (digit_val c) = c"
  by (simp add: is_digit_char_def digit_val_def digit_char_def)

lemma digit_val_less [simp]: "is_digit_char c \<Longrightarrow> digit_val c < 10"
  by (auto simp: is_digit_char_def digit_val_def)

lemma digit_val_inject: "is_digit_char c \<Longrightarrow> is_digit_char d \<Longrightarrow> digit_val c = digit_val d \<longleftrightarrow> c = d"
  by (metis digit_char_digit_val)

section \<open>Decimal numbers\<close>

text \<open>\<open>std::to_string\<close> on a non-negative integer.\<close>

fun nat_to_string :: "nat \<Rightarrow> string" where
  "nat_to_string n =
     (if n < 10 then [digit_char n] else nat_to_string (n div 10) @ [digit_char (n mod 10)])"

declare nat_to_string.simps [simp del]

text \<open>The accumulation \<open>v = v * 10 + (c - '0')\<close> over a digit string.\<close>

definition digits_value :: "string \<Rightarrow> nat" where
  "digits_value s = foldl (\<lambda>v c. v * 10 + digit_val c) 0 s"

lemma digits_value_Nil [simp]: "digits_value [] = 0"
  by (simp add: digits_value_def)

lemma digits_value_snoc [simp]: "digits_value (s @ [c]) = digits_value s * 10 + digit_val c"
  by (simp add: digits_value_def)

lemma digits_value_single [simp]: "digits_value [c] = digit_val c"
  by (simp add: digits_value_def)

lemma digits_value_nat_to_string [simp]: "digits_value (nat_to_string n) = n"
proof (induction n rule: nat_to_string.induct)
  case (1 n)
  then show ?case
    by (cases "n < 10") (simp_all add: nat_to_string.simps [of n])
qed

lemma nat_to_string_inject [simp]: "nat_to_string m = nat_to_string n \<longleftrightarrow> m = n"
  by (metis digits_value_nat_to_string)

lemma nat_to_string_digits: "c \<in> set (nat_to_string n) \<Longrightarrow> is_digit_char c"
proof (induction n rule: nat_to_string.induct)
  case (1 n)
  then show ?case
    by (cases "n < 10") (auto simp: nat_to_string.simps [of n])
qed

lemma nat_to_string_not_Nil [simp]: "nat_to_string n \<noteq> []"
  by (subst nat_to_string.simps) simp

lemma length_nat_to_string_pos [simp]: "0 < length (nat_to_string n)"
  by simp

lemma length_nat_to_string_le: "n < 10 ^ k \<Longrightarrow> 0 < k \<Longrightarrow> length (nat_to_string n) \<le> k"
proof (induction n arbitrary: k rule: nat_to_string.induct)
  case (1 n)
  show ?case
  proof (cases "n < 10")
    case True
    then show ?thesis using "1.prems" by (simp add: nat_to_string.simps [of n])
  next
    case False
    then have "1 < k" using "1.prems" by (cases k) (auto intro: Nat.gr0I)
    then obtain j where j: "k = Suc j" "0 < j" by (cases k) auto
    then have "n div 10 < 10 ^ j" using "1.prems" by (simp add: less_mult_imp_div_less)
    then have "length (nat_to_string (n div 10)) \<le> j"
      using "1.IH" [OF False] j by simp
    then show ?thesis using False j by (simp add: nat_to_string.simps [of n])
  qed
qed

lemma hd_nat_to_string: "0 < n \<Longrightarrow> hd (nat_to_string n) \<noteq> CHR ''0''"
proof (induction n rule: nat_to_string.induct)
  case (1 n)
  show ?case
  proof (cases "n < 10")
    case True
    then have "byte (digit_char n) = 48 + n" by (simp add: digit_char_def)
    then have "digit_char n \<noteq> CHR ''0''" using "1.prems" by auto
    with True show ?thesis by (simp add: nat_to_string.simps [of n])
  next
    case False
    then show ?thesis using "1.IH" by (simp add: nat_to_string.simps [of n])
  qed
qed

text \<open>A digit string without a leading zero is the printed form of its value.\<close>

lemma nat_to_string_digits_value:
  "s \<noteq> [] \<Longrightarrow> list_all is_digit_char s \<Longrightarrow> (1 < length s \<Longrightarrow> hd s \<noteq> CHR ''0'') \<Longrightarrow>
     nat_to_string (digits_value s) = s"
proof (induction s rule: rev_induct)
  case Nil
  then show ?case by simp
next
  case (snoc c s)
  have c: "is_digit_char c" using snoc.prems by simp
  show ?case
  proof (cases "s = []")
    case True
    then show ?thesis using c by (simp add: nat_to_string.simps [of "digit_val c"])
  next
    case False
    have hd: "hd s \<noteq> CHR ''0''" using snoc.prems(3) False by (simp add: Suc_lessI)
    have IH: "nat_to_string (digits_value s) = s" using snoc False hd by simp
    have "digits_value s \<noteq> 0"
    proof
      assume "digits_value s = 0"
      moreover have "nat_to_string 0 = ''0''" by code_simp
      ultimately have "s = ''0''" using IH by simp
      then show False using hd by simp
    qed
    then show ?thesis using IH c digit_val_less [OF c]
      by (simp add: nat_to_string.simps [of "digits_value s * 10 + digit_val c"])
  qed
qed

lemma nat_to_string_no_leading_zero: "1 < length (nat_to_string n) \<Longrightarrow> hd (nat_to_string n) \<noteq> CHR ''0''"
  by (cases "n = 0") (auto simp: hd_nat_to_string nat_to_string.simps [of 0])

section \<open>Results\<close>

text \<open>The next step of a computation that may have failed, its error on the left.\<close>

definition ebind :: "'e + 'a \<Rightarrow> ('a \<Rightarrow> 'e + 'b) \<Rightarrow> 'e + 'b" where
  "ebind m f = (case m of Inl e \<Rightarrow> Inl e | Inr a \<Rightarrow> f a)"

lemma ebind_simps [simp]: "ebind (Inl e) f = Inl e" "ebind (Inr a) f = f a"
  by (simp_all add: ebind_def)

lemma ebind_Inr_iff [simp]: "ebind m f = Inr b \<longleftrightarrow> (\<exists>a. m = Inr a \<and> f a = Inr b)"
  by (cases m) simp_all

section \<open>Substrings and searches\<close>

text \<open>\<open>s.substr(pos, n)\<close> for \<open>pos \<le> s.size()\<close>.\<close>

definition substr :: "'a list \<Rightarrow> nat \<Rightarrow> nat \<Rightarrow> 'a list" where
  "substr s pos n = take n (drop pos s)"

text \<open>\<open>s.find(p)\<close>: the first offset at which \<open>p\<close> occurs, \<^const>\<open>None\<close> for \<open>npos\<close>.\<close>

fun find_sub :: "'a list \<Rightarrow> 'a list \<Rightarrow> nat option" where
  "find_sub p [] = (if p = [] then Some 0 else None)"
| "find_sub p (x # xs) =
     (if prefix p (x # xs) then Some 0 else map_option Suc (find_sub p xs))"

text \<open>\<open>s.find(c)\<close> for a single byte.\<close>

definition find_char :: "char \<Rightarrow> string \<Rightarrow> nat option" where
  "find_char c s = find_sub [c] s"

lemma find_sub_SomeD:
  "find_sub p s = Some i \<Longrightarrow> i \<le> length s \<and> prefix p (drop i s) \<and> (\<forall>j<i. \<not> prefix p (drop j s))"
proof (induction s arbitrary: i)
  case Nil
  then show ?case by (auto split: if_splits)
next
  case (Cons x xs)
  show ?case
  proof (cases "prefix p (x # xs)")
    case True
    then show ?thesis using Cons.prems by auto
  next
    case False
    with Cons.prems obtain k where k: "find_sub p xs = Some k" "i = Suc k" by auto
    show ?thesis
      using Cons.IH [OF k(1)] False k(2) by (auto simp: less_Suc_eq_0_disj)
  qed
qed

lemma find_sub_NoneD: "find_sub p s = None \<Longrightarrow> \<not> prefix p (drop j s)"
proof (induction s arbitrary: j)
  case Nil
  then show ?case by (auto split: if_splits)
next
  case (Cons x xs)
  then show ?case
    by (cases j) (auto split: if_splits)
qed

lemma find_sub_Some_intro:
  assumes "prefix p (drop i s)" "i \<le> length s" "\<And>j. j < i \<Longrightarrow> \<not> prefix p (drop j s)"
  shows "find_sub p s = Some i"
proof (cases "find_sub p s")
  case None
  then show ?thesis using find_sub_NoneD assms(1) by blast
next
  case (Some k)
  then show ?thesis using find_sub_SomeD [OF Some] assms by (metis linorder_neqE_nat)
qed

lemma find_sub_length: "find_sub p s = Some i \<Longrightarrow> i + length p \<le> length s"
  using find_sub_SomeD [of p s i] prefix_length_le [of p "drop i s"] by auto

lemma find_sub_None_iff: "find_sub p s = None \<longleftrightarrow> \<not> sublist p s"
proof
  assume none: "find_sub p s = None"
  show "\<not> sublist p s"
  proof
    assume "sublist p s"
    then obtain ps ss where "s = ps @ p @ ss" by (auto simp: sublist_def)
    then have "prefix p (drop (length ps) s)" by simp
    then show False using find_sub_NoneD [OF none] by blast
  qed
next
  assume no: "\<not> sublist p s"
  show "find_sub p s = None"
  proof (cases "find_sub p s")
    case (Some i)
    then obtain zs where "drop i s = p @ zs" by (auto dest!: find_sub_SomeD simp: prefix_def)
    then have "s = take i s @ p @ zs" by (metis append_take_drop_id)
    then have "sublist p s" unfolding sublist_def by blast
    with no show ?thesis by simp
  qed simp
qed

lemma find_char_None_iff: "find_char c s = None \<longleftrightarrow> c \<notin> set s"
proof -
  have "sublist [c] s \<longleftrightarrow> c \<in> set s"
    by (auto simp: sublist_def in_set_conv_decomp)
  then show ?thesis by (simp add: find_char_def find_sub_None_iff)
qed

lemma find_char_SomeD:
  assumes "find_char c s = Some i"
  shows "i < length s \<and> s ! i = c \<and> c \<notin> set (take i s)"
proof -
  from assms have i: "i + 1 \<le> length s" "prefix [c] (drop i s)"
    and least: "\<And>j. j < i \<Longrightarrow> \<not> prefix [c] (drop j s)"
    using find_sub_length [of "[c]" s i] find_sub_SomeD [of "[c]" s i] by (auto simp: find_char_def)
  have "s ! j \<noteq> c" if "j < i" for j
    using least [OF that] that i(1) by (auto simp: Cons_nth_drop_Suc [symmetric])
  with i show ?thesis
    by (auto simp: in_set_conv_nth Cons_nth_drop_Suc [symmetric])
qed

lemma find_char_append: "c \<notin> set p \<Longrightarrow> find_char c (p @ c # q) = Some (length p)"
  by (induction p) (auto simp: find_char_def)

lemma find_char_SomeE:
  assumes "find_char c s = Some i"
  obtains p q where "s = p @ c # q" "length p = i" "c \<notin> set p" "take i s = p" "drop (i + 1) s = q"
  using find_char_SomeD [OF assms] id_take_nth_drop [of i s] that [of "take i s" "drop (Suc i) s"] by auto

text \<open>Joining parts with a separator byte.\<close>

fun join_char :: "char \<Rightarrow> string list \<Rightarrow> string" where
  "join_char c [] = []"
| "join_char c [p] = p"
| "join_char c (p # ps) = p @ c # join_char c ps"

lemma join_char_Cons: "ps \<noteq> [] \<Longrightarrow> join_char c (p # ps) = p @ c # join_char c ps"
  by (cases ps) auto

lemma set_join_char: "set (join_char c ps) \<subseteq> insert c (\<Union> (set ` set ps))"
  by (induction c ps rule: join_char.induct) auto

section \<open>Comparison sort\<close>

text \<open>
  \<open>std::sort\<close> and \<open>std::stable_sort\<close> with a comparator \<open>less\<close>.  The insertion sort below is
  stable; \<open>std::sort\<close> leaves the order of equivalent elements open, and where a component uses it
  the component's lemmas show that its result does not depend on that order.
\<close>

fun insert_by :: "('a \<Rightarrow> 'a \<Rightarrow> bool) \<Rightarrow> 'a \<Rightarrow> 'a list \<Rightarrow> 'a list" where
  "insert_by lt x [] = [x]"
| "insert_by lt x (y # ys) = (if lt y x then y # insert_by lt x ys else x # y # ys)"

definition sort_by :: "('a \<Rightarrow> 'a \<Rightarrow> bool) \<Rightarrow> 'a list \<Rightarrow> 'a list" where
  "sort_by lt xs = foldr (insert_by lt) xs []"

lemma sort_by_simps [simp]:
  "sort_by lt [] = []"
  "sort_by lt (x # xs) = insert_by lt x (sort_by lt xs)"
  by (simp_all add: sort_by_def)

lemma mset_insert_by [simp]: "mset (insert_by lt x xs) = add_mset x (mset xs)"
  by (induction xs) auto

lemma mset_sort_by [simp]: "mset (sort_by lt xs) = mset xs"
  by (induction xs) auto

lemma set_sort_by [simp]: "set (sort_by lt xs) = set xs"
  by (metis mset_sort_by set_mset_mset)

lemma length_sort_by [simp]: "length (sort_by lt xs) = length xs"
  by (metis mset_sort_by size_mset)

text \<open>
  A comparator that refines a key: elements come out with ascending keys.
\<close>

lemma sorted_insert_by:
  fixes key :: "'a \<Rightarrow> 'b::linorder"
  assumes "\<And>x y. lt x y \<Longrightarrow> key x \<le> key y" "\<And>x y. \<not> lt x y \<Longrightarrow> key y \<le> key x"
    "sorted (map key xs)"
  shows "sorted (map key (insert_by lt x xs))"
  using assms(3)
proof (induction xs)
  case Nil
  then show ?case by simp
next
  case (Cons y ys)
  have "set (map key (insert_by lt x ys)) = insert (key x) (set (map key ys))"
    by (metis mset_insert_by set_map set_mset_add_mset_insert set_mset_mset image_insert)
  with Cons show ?case
    using assms(1) [of y x] assms(2) [of y x] by fastforce
qed

lemma sorted_sort_by:
  fixes key :: "'a \<Rightarrow> 'b::linorder"
  assumes "\<And>x y. lt x y \<Longrightarrow> key x \<le> key y" "\<And>x y. \<not> lt x y \<Longrightarrow> key y \<le> key x"
  shows "sorted (map key (sort_by lt xs))"
  by (induction xs) (simp_all add: sorted_insert_by [OF assms])

text \<open>The lexicographic order of byte strings, \<open>std::string::operator<\<close>.\<close>

fun string_less :: "string \<Rightarrow> string \<Rightarrow> bool" where
  "string_less [] [] = False"
| "string_less [] (y # ys) = True"
| "string_less (x # xs) [] = False"
| "string_less (x # xs) (y # ys) =
     (if byte x < byte y then True else if byte y < byte x then False else string_less xs ys)"

lemma string_less_irrefl [simp]: "\<not> string_less s s"
  by (induction s) auto

lemma string_less_total: "s \<noteq> t \<Longrightarrow> string_less s t \<or> string_less t s"
proof (induction s t rule: string_less.induct)
  case (4 x xs y ys)
  then show ?case
    by (metis byte_eq_iff linorder_neqE_nat string_less.simps(4))
qed auto

lemma string_less_asym: "string_less s t \<Longrightarrow> \<not> string_less t s"
  by (induction s t rule: string_less.induct) (auto split: if_splits)

lemma string_less_trans: "string_less s t \<Longrightarrow> string_less t u \<Longrightarrow> string_less s u"
proof (induction s t arbitrary: u rule: string_less.induct)
  case (2 y ys)
  then show ?case by (cases u) auto
next
  case (4 x xs y ys)
  then show ?case
    by (cases u) (auto split: if_splits)
qed auto


section \<open>The contract of a comparator\<close>

text \<open>
  \<open>std::sort\<close> asks its comparator for a strict weak ordering.  Under that law the sorted list is in
  order, and it is determined by the elements alone as soon as equivalent elements are equal.
\<close>

locale strict_weak_order =
  fixes lt :: "'a \<Rightarrow> 'a \<Rightarrow> bool"
  assumes irrefl: "\<not> lt x x"
    and trans: "lt x y \<Longrightarrow> lt y z \<Longrightarrow> lt x z"
    and incomparable_trans: "\<not> lt x y \<Longrightarrow> \<not> lt y z \<Longrightarrow> \<not> lt x z"
begin

lemma asym: "lt x y \<Longrightarrow> \<not> lt y x"
  using irrefl trans by blast

lemma sorted_insert: "sorted_wrt (\<lambda>a b. \<not> lt b a) xs \<Longrightarrow> sorted_wrt (\<lambda>a b. \<not> lt b a) (insert_by lt x xs)"
proof (induction xs)
  case (Cons y ys)
  have "set (insert_by lt x ys) = insert x (set ys)"
    by (metis mset_insert_by set_mset_add_mset_insert set_mset_mset)
  moreover have "\<forall>z\<in>set ys. \<not> lt z y" "sorted_wrt (\<lambda>a b. \<not> lt b a) ys" using Cons.prems by auto
  moreover have "\<forall>z\<in>set ys. \<not> lt z x" if "\<not> lt y x"
    using incomparable_trans [OF _ that] calculation(2) by blast
  ultimately show ?case using Cons.IH by (cases "lt y x") (simp_all add: asym)
qed simp

lemma sorted_sort: "sorted_wrt (\<lambda>a b. \<not> lt b a) (sort_by lt xs)"
  by (induction xs) (simp_all add: sorted_insert)

lemma sorted_unique:
  assumes "\<forall>x\<in>set xs. \<forall>y\<in>set xs. \<not> lt x y \<and> \<not> lt y x \<longrightarrow> x = y"
    and "mset xs = mset ys" "sorted_wrt (\<lambda>a b. \<not> lt b a) xs" "sorted_wrt (\<lambda>a b. \<not> lt b a) ys"
  shows "xs = ys"
  using assms
proof (induction xs arbitrary: ys)
  case (Cons x xs)
  obtain y ys' where ys: "ys = y # ys'" using Cons.prems(2) by (cases ys) auto
  have sets: "set (x # xs) = set (y # ys')" using Cons.prems(2) ys mset_eq_setD by blast
  have "\<not> lt y x"
  proof (cases "y = x")
    case False
    then have "y \<in> set xs" using sets by (metis list.set_intros(1) set_ConsD)
    then show ?thesis using Cons.prems(3) by simp
  qed (simp add: irrefl)
  moreover have "\<not> lt x y"
  proof (cases "x = y")
    case False
    then have "x \<in> set ys'" using sets by (metis list.set_intros(1) set_ConsD)
    then show ?thesis using Cons.prems(4) ys by simp
  qed (simp add: irrefl)
  moreover have "y \<in> set (x # xs)" using sets by simp
  ultimately have eq: "x = y" using Cons.prems(1) by (meson list.set_intros(1))
  have "xs = ys'"
    using Cons.prems ys eq by (intro Cons.IH) auto
  then show ?case using eq ys by simp
qed simp

lemma sort_by_cong:
  assumes "mset xs = mset ys" "\<forall>x\<in>set xs. \<forall>y\<in>set xs. \<not> lt x y \<and> \<not> lt y x \<longrightarrow> x = y"
  shows "sort_by lt xs = sort_by lt ys"
  using assms by (intro sorted_unique) (simp_all add: sorted_sort)

end

lemma string_less_negative_trans:
  assumes "\<not> string_less s t" "\<not> string_less t u"
  shows "\<not> string_less s u"
proof (cases "t = u")
  case False
  then have "string_less u t" using assms(2) string_less_total by blast
  then show ?thesis using assms(1) string_less_trans by blast
qed (use assms in simp)

interpretation bytewise: strict_weak_order string_less
  by (unfold_locales, simp, erule (1) string_less_trans, erule (1) string_less_negative_trans)


section \<open>The contract of an encoding\<close>

text \<open>
  What an encoder and a decoder promise each other: what was encoded is read back.  A strict decoder
  reads nothing else, up to the differences that \<open>norm\<close> removes; it then accepts exactly the encodings,
  and two texts have the same value if and only if they are the same up to \<open>norm\<close>.
\<close>

locale codec =
  fixes enc :: "'a \<Rightarrow> 'b"
    and dec :: "'b \<Rightarrow> 'a option"
    and ok :: "'a \<Rightarrow> bool"
  assumes dec_enc: "ok x \<Longrightarrow> dec (enc x) = Some x"
begin

lemma enc_inject: "ok x \<Longrightarrow> ok y \<Longrightarrow> enc x = enc y \<longleftrightarrow> x = y"
  by (metis dec_enc option.inject)

end

locale strict_codec = codec enc dec ok
  for enc :: "'a \<Rightarrow> 'b" and dec :: "'b \<Rightarrow> 'a option" and ok :: "'a \<Rightarrow> bool" +
  fixes norm :: "'b \<Rightarrow> 'b"
  assumes dec_SomeD: "dec s = Some x \<Longrightarrow> ok x \<and> norm s = enc x"
    and dec_norm: "dec (norm s) = dec s"
begin

lemma dec_iff: "dec s = Some x \<longleftrightarrow> ok x \<and> norm s = enc x"
  by (metis dec_SomeD dec_enc dec_norm)

lemma dec_None_iff: "dec s = None \<longleftrightarrow> norm s \<notin> enc ` Collect ok"
  using dec_iff [of s] by (cases "dec s") auto

lemma same_value: "dec s = Some x \<Longrightarrow> dec t = Some x \<longleftrightarrow> norm t = norm s"
  by (simp add: dec_iff)

end

section \<open>The contract of a stream consumer\<close>

text \<open>
  A consumer takes the input piece by piece, hands out what is finished and keeps a state.  When taking
  two pieces at once is taking one after the other, the pieces do not matter: only their
  concatenation does.
\<close>

primrec run_pieces :: "('a list \<Rightarrow> 's \<Rightarrow> 'o list \<times> 's) \<Rightarrow> 'a list list \<Rightarrow> 's \<Rightarrow> 'o list \<times> 's" where
  "run_pieces step [] s = ([], s)"
| "run_pieces step (p # ps) s =
     (let (out, s1) = step p s; (out', s2) = run_pieces step ps s1 in (out @ out', s2))"

locale piecewise =
  fixes step :: "'a list \<Rightarrow> 's \<Rightarrow> 'o list \<times> 's"
    and start :: 's
  assumes step_append: "step (p @ q) s = (let (out, s1) = step p s; (out', s2) = step q s1 in (out @ out', s2))"
    and step_start: "step [] start = ([], start)"
begin

lemma run_pieces_Cons: "run_pieces step (p # ps) s = step (p @ concat ps) s"
proof (induction ps arbitrary: p s)
  case (Cons q ps)
  show ?case by (subst run_pieces.simps) (simp only: Cons.IH concat.simps step_append [of p])
qed (simp add: split_beta)

lemma run_pieces_concat: "run_pieces step ps start = step (concat ps) start"
  by (cases ps) (simp_all add: step_start run_pieces_Cons del: run_pieces.simps(2))

lemma pieces_irrelevant: "concat ps = concat qs \<Longrightarrow> run_pieces step ps start = run_pieces step qs start"
  by (simp add: run_pieces_concat)

end

section \<open>The contract of a global instance\<close>

text \<open>
  Every module has one global instance, made by its start: \<open>starts g r g'\<close> says that a start that found
  \<open>g\<close> ended with \<open>r\<close> and left \<open>g'\<close>.  A start is refused when there is an instance, and one that succeeds
  leaves an instance that is up.  The modules differ in what a failure leaves: a clean one nothing, a
  sticky one an instance that is not up and blocks every later start.
\<close>

locale global_instance =
  fixes starts :: "'m option \<Rightarrow> 'e + unit \<Rightarrow> 'm option \<Rightarrow> bool"
    and is_up :: "'m \<Rightarrow> bool"
  assumes refused: "starts (Some m) r g \<Longrightarrow> (\<exists>e. r = Inl e) \<and> g = Some m"
    and started: "starts None (Inr ()) g \<Longrightarrow> \<exists>m. g = Some m \<and> is_up m"
begin

lemma success: "starts g (Inr u) g' \<Longrightarrow> g = None \<and> (\<exists>m. g' = Some m \<and> is_up m)"
  by (cases g) (auto dest: refused started)

lemma once: "starts g r g' \<Longrightarrow> g \<noteq> None \<Longrightarrow> r \<noteq> Inr u \<and> g' = g"
  by (auto dest: refused)

end

locale clean_instance = global_instance starts is_up
  for starts :: "'m option \<Rightarrow> 'e + unit \<Rightarrow> 'm option \<Rightarrow> bool" and is_up :: "'m \<Rightarrow> bool" +
  assumes nothing_left: "starts None (Inl e) g \<Longrightarrow> g = None"
begin

lemma failure_keeps: "starts g (Inl e) g' \<Longrightarrow> g' = g"
  by (cases g) (auto dest: refused nothing_left)

end

locale sticky_instance = global_instance starts is_up
  for starts :: "'m option \<Rightarrow> 'e + unit \<Rightarrow> 'm option \<Rightarrow> bool" and is_up :: "'m \<Rightarrow> bool" +
  assumes left_behind: "starts None (Inl e) g \<Longrightarrow> \<exists>m. g = Some m \<and> \<not> is_up m"
begin

lemma failure_blocks: "starts g (Inl e) g' \<Longrightarrow> starts g' r g'' \<Longrightarrow> r \<noteq> Inr u \<and> g'' = g'"
  by (cases g) (auto dest!: refused left_behind)

end

end
