(* ===== verification/Json.thy ===== *)
theory Json
  imports Prelude "HOL-Library.Word"
begin

unbundle bit_operations_syntax

text \<open>
  \<open>src/src/guard/json/Json.hpp\<close>: a scanner that finds and replaces JSON values in place, by byte
  spans, without building a tree.  Offsets are \<^typ>\<open>nat\<close>s; \<open>std::nullopt\<close> is \<^const>\<open>None\<close>.
\<close>

section \<open>Spans, paths and leaves\<close>

record value_span =
  vs_start :: nat
  vs_end :: nat
  is_string :: bool

record path_seg =
  seg_key :: string
  seg_index :: nat
  is_index :: bool

record string_leaf =
  leaf_path :: "path_seg list"
  leaf_span :: value_span

definition key_seg :: "string \<Rightarrow> path_seg" where
  "key_seg k = \<lparr>seg_key = k, seg_index = 0, is_index = False\<rparr>"

definition index_seg :: "nat \<Rightarrow> path_seg" where
  "index_seg i = \<lparr>seg_key = [], seg_index = i, is_index = True\<rparr>"

section \<open>Skipping one value\<close>

definition is_ws :: "char \<Rightarrow> bool" where
  "is_ws c \<longleftrightarrow> c = CHR '' '' \<or> c = CHR 0x09 \<or> c = CHR 0x0A \<or> c = CHR 0x0D"

function skip_ws :: "string \<Rightarrow> nat \<Rightarrow> nat" where
  "skip_ws doc pos = (if pos < length doc \<and> is_ws (doc ! pos) then skip_ws doc (pos + 1) else pos)"
  by pat_completeness auto
termination by (relation "measure (\<lambda>(doc, pos). length doc - pos)") auto

declare skip_ws.simps [simp del]

definition is_hex_digit :: "char \<Rightarrow> bool" where
  "is_hex_digit c \<longleftrightarrow> is_digit_char c \<or> (97 \<le> byte c \<and> byte c \<le> 102) \<or> (65 \<le> byte c \<and> byte c \<le> 70)"

definition match_literal :: "string \<Rightarrow> nat \<Rightarrow> string \<Rightarrow> bool" where
  "match_literal doc pos lit \<longleftrightarrow>
     (if pos + length lit > length doc then False else substr doc pos (length lit) = lit)"

definition is_short_escape :: "char \<Rightarrow> bool" where
  "is_short_escape e \<longleftrightarrow>
     e = CHR 0x22 \<or> e = CHR 0x5C \<or> e = CHR ''/'' \<or> e = CHR ''b'' \<or> e = CHR ''f'' \<or> e = CHR ''n'' \<or>
     e = CHR ''r'' \<or> e = CHR ''t''"

text \<open>The loop of \<open>skip_string\<close>, from the byte after the opening quote.\<close>

function skip_string_loop :: "string \<Rightarrow> nat \<Rightarrow> nat option" where
  "skip_string_loop doc pos =
     (if pos \<ge> length doc then None
      else let c = doc ! pos in
        if c = CHR 0x22 then Some (pos + 1)
        else if c = CHR 0x5C then
          (if pos + 1 \<ge> length doc then None
           else let e = doc ! (pos + 1) in
             if is_short_escape e then skip_string_loop doc (pos + 2)
             else if e = CHR ''u'' then
               (if pos + 2 + 4 > length doc then None
                else if list_all is_hex_digit (substr doc (pos + 2) 4) then skip_string_loop doc (pos + 6)
                else None)
             else None)
        else if byte c < 0x20 then None
        else skip_string_loop doc (pos + 1))"
  by pat_completeness auto
termination by (relation "measure (\<lambda>(doc, pos). length doc - pos)") auto

declare skip_string_loop.simps [simp del]

definition skip_string :: "string \<Rightarrow> nat \<Rightarrow> nat option" where
  "skip_string doc pos =
     (if pos \<ge> length doc \<or> doc ! pos \<noteq> CHR 0x22 then None else skip_string_loop doc (pos + 1))"

function skip_digits :: "string \<Rightarrow> nat \<Rightarrow> nat" where
  "skip_digits doc pos = (if pos < length doc \<and> is_digit_char (doc ! pos) then skip_digits doc (pos + 1) else pos)"
  by pat_completeness auto
termination by (relation "measure (\<lambda>(doc, pos). length doc - pos)") auto

declare skip_digits.simps [simp del]

definition digit_at :: "string \<Rightarrow> nat \<Rightarrow> bool" where
  "digit_at doc pos \<longleftrightarrow> pos < length doc \<and> is_digit_char (doc ! pos)"

text \<open>The three parts of \<open>skip_number\<close>: the integer part, the fraction and the exponent.\<close>

definition skip_int :: "string \<Rightarrow> nat \<Rightarrow> nat option" where
  "skip_int doc pos =
     (let p = (if pos < length doc \<and> doc ! pos = CHR ''-'' then pos + 1 else pos) in
      if \<not> digit_at doc p then None
      else if doc ! p = CHR ''0'' then Some (p + 1)
      else Some (skip_digits doc p))"

definition skip_frac :: "string \<Rightarrow> nat \<Rightarrow> nat option" where
  "skip_frac doc pos =
     (if pos < length doc \<and> doc ! pos = CHR ''.''
      then (if \<not> digit_at doc (pos + 1) then None else Some (skip_digits doc (pos + 1)))
      else Some pos)"

definition skip_exp :: "string \<Rightarrow> nat \<Rightarrow> nat option" where
  "skip_exp doc pos =
     (if pos < length doc \<and> (doc ! pos = CHR ''e'' \<or> doc ! pos = CHR ''E'')
      then
        let p = (if pos + 1 < length doc \<and> (doc ! (pos + 1) = CHR ''+'' \<or> doc ! (pos + 1) = CHR ''-'')
                 then pos + 2 else pos + 1)
        in if \<not> digit_at doc p then None else Some (skip_digits doc p)
      else Some pos)"

definition skip_number :: "string \<Rightarrow> nat \<Rightarrow> nat option" where
  "skip_number doc start =
     (case skip_int doc start of
        None \<Rightarrow> None
      | Some p1 \<Rightarrow>
          (case skip_frac doc p1 of
             None \<Rightarrow> None
           | Some p2 \<Rightarrow>
               (case skip_exp doc p2 of
                  None \<Rightarrow> None
                | Some p3 \<Rightarrow> if p3 = start then None else Some p3)))"

datatype walk_state =
    ArrayStart
  | ArrayAfterValue
  | ArrayAfterComma
  | ObjectStart
  | ObjectAfterKey
  | ObjectAfterColon
  | ObjectAfterValue
  | ObjectAfterComma

text \<open>A frame of the container stack: its bracket and its state.  The top of the stack is the head.\<close>

type_synonym walk_frame = "char \<times> walk_state"

definition open_or_scalar :: "string \<Rightarrow> nat \<Rightarrow> walk_frame list \<Rightarrow> (nat \<times> walk_frame list) option" where
  "open_or_scalar doc p frames =
     (if p \<ge> length doc then None
      else let c = doc ! p in
        if c = CHR 0x22 then map_option (\<lambda>e. (e, frames)) (skip_string doc p)
        else if c = CHR ''-'' \<or> is_digit_char c then map_option (\<lambda>e. (e, frames)) (skip_number doc p)
        else if c = CHR ''t'' then (if match_literal doc p ''true'' then Some (p + 4, frames) else None)
        else if c = CHR ''f'' then (if match_literal doc p ''false'' then Some (p + 5, frames) else None)
        else if c = CHR ''n'' then (if match_literal doc p ''null'' then Some (p + 4, frames) else None)
        else if c = CHR ''{'' then Some (p + 1, (CHR ''{'', ObjectStart) # frames)
        else if c = CHR ''['' then Some (p + 1, (CHR ''['', ArrayStart) # frames)
        else None)"

fun set_top :: "walk_state \<Rightarrow> walk_frame list \<Rightarrow> walk_frame list" where
  "set_top s [] = []"
| "set_top s ((k, _) # fs) = (k, s) # fs"

fun complete_value_in_parent :: "walk_frame list \<Rightarrow> walk_frame list" where
  "complete_value_in_parent [] = []"
| "complete_value_in_parent ((k, _) # fs) =
     (k, if k = CHR ''['' then ArrayAfterValue else ObjectAfterValue) # fs"

text \<open>A value is next for the top frame, which moves on to \<open>after\<close> if that value is a scalar.\<close>

definition walk_value :: "string \<Rightarrow> nat \<Rightarrow> walk_frame list \<Rightarrow> walk_state \<Rightarrow> (nat \<times> walk_frame list) option" where
  "walk_value doc pos frames after =
     (case open_or_scalar doc pos frames of
        None \<Rightarrow> None
      | Some (pos', frames') \<Rightarrow>
          Some (pos', if length frames' = length frames then set_top after frames' else frames'))"

definition walk_key :: "string \<Rightarrow> nat \<Rightarrow> walk_frame list \<Rightarrow> (nat \<times> walk_frame list) option" where
  "walk_key doc pos frames =
     (if doc ! pos \<noteq> CHR 0x22 then None
      else map_option (\<lambda>e. (e, set_top ObjectAfterKey frames)) (skip_string doc pos))"

definition walk_close :: "nat \<Rightarrow> walk_frame list \<Rightarrow> (nat \<times> walk_frame list) option" where
  "walk_close pos frames = Some (pos + 1, complete_value_in_parent (drop 1 frames))"

text \<open>One round of the loop of \<open>skip_value\<close>.\<close>

definition walk_step :: "string \<Rightarrow> nat \<Rightarrow> walk_frame list \<Rightarrow> (nat \<times> walk_frame list) option" where
  "walk_step doc pos0 frames =
     (let pos = skip_ws doc pos0 in
      if pos \<ge> length doc then None
      else case snd (hd frames) of
        ArrayStart \<Rightarrow>
          if doc ! pos = CHR '']'' then walk_close pos frames else walk_value doc pos frames ArrayAfterValue
      | ArrayAfterComma \<Rightarrow> walk_value doc pos frames ArrayAfterValue
      | ArrayAfterValue \<Rightarrow>
          if doc ! pos = CHR '']'' then walk_close pos frames
          else if doc ! pos = CHR '','' then Some (pos + 1, set_top ArrayAfterComma frames)
          else None
      | ObjectStart \<Rightarrow>
          if doc ! pos = CHR ''}'' then walk_close pos frames else walk_key doc pos frames
      | ObjectAfterComma \<Rightarrow> walk_key doc pos frames
      | ObjectAfterKey \<Rightarrow>
          if doc ! pos \<noteq> CHR '':'' then None else Some (pos + 1, set_top ObjectAfterColon frames)
      | ObjectAfterColon \<Rightarrow> walk_value doc pos frames ObjectAfterValue
      | ObjectAfterValue \<Rightarrow>
          if doc ! pos = CHR ''}'' then walk_close pos frames
          else if doc ! pos = CHR '','' then Some (pos + 1, set_top ObjectAfterComma frames)
          else None)"

subsection \<open>Progress\<close>

lemma skip_ws_ge: "pos \<le> skip_ws doc pos"
proof (induction doc pos rule: skip_ws.induct)
  case (1 doc pos)
  then show ?case by (subst skip_ws.simps) auto
qed

lemma skip_ws_le: "pos \<le> length doc \<Longrightarrow> skip_ws doc pos \<le> length doc"
proof (induction doc pos rule: skip_ws.induct)
  case (1 doc pos)
  then show ?case by (subst skip_ws.simps) auto
qed

lemma skip_digits_ge: "pos \<le> skip_digits doc pos"
proof (induction doc pos rule: skip_digits.induct)
  case (1 doc pos)
  then show ?case by (subst skip_digits.simps) auto
qed

lemma skip_digits_le: "pos \<le> length doc \<Longrightarrow> skip_digits doc pos \<le> length doc"
proof (induction doc pos rule: skip_digits.induct)
  case (1 doc pos)
  then show ?case by (subst skip_digits.simps) auto
qed

lemma skip_digits_gt: "digit_at doc pos \<Longrightarrow> pos < skip_digits doc pos \<and> skip_digits doc pos \<le> length doc"
  using skip_digits_ge [of "pos + 1" doc] skip_digits_le [of "pos + 1" doc]
  by (subst (1 2) skip_digits.simps) (auto simp: digit_at_def)

lemma skip_string_loop_bounds: "skip_string_loop doc pos = Some e \<Longrightarrow> pos < e \<and> e \<le> length doc"
proof (induction "length doc - pos" arbitrary: pos rule: less_induct)
  case less
  have lt: "pos < length doc" using less.prems by (subst (asm) skip_string_loop.simps) (simp split: if_splits)
  have step: "pos' < e \<and> e \<le> length doc" if "pos < pos'" "skip_string_loop doc pos' = Some e" for pos'
    using less.hyps [OF _ that(2)] that(1) lt by simp
  show ?case
    using less.prems lt step [of "pos + 1"] step [of "pos + 2"] step [of "pos + 6"]
    by (subst (asm) skip_string_loop.simps) (simp add: Let_def split: if_splits)
qed

lemma skip_string_bounds: "skip_string doc pos = Some e \<Longrightarrow> pos + 1 < e \<and> e \<le> length doc"
  using skip_string_loop_bounds [of doc "pos + 1" e] by (auto simp: skip_string_def split: if_splits)

lemma skip_number_bounds: "skip_number doc pos = Some e \<Longrightarrow> pos < e \<and> e \<le> length doc"
proof -
  assume "skip_number doc pos = Some e"
  then obtain p1 p2 where p: "skip_int doc pos = Some p1" "skip_frac doc p1 = Some p2" "skip_exp doc p2 = Some e"
    by (auto simp: skip_number_def split: option.splits if_splits)
  have "pos < p1 \<and> p1 \<le> length doc" using p(1) skip_digits_gt [of doc pos] skip_digits_gt [of doc "pos + 1"]
    by (auto simp: skip_int_def Let_def digit_at_def split: if_splits)
  moreover have "p1 \<le> p2 \<and> (p1 \<le> length doc \<longrightarrow> p2 \<le> length doc)" using p(2) skip_digits_gt [of doc "p1 + 1"]
    by (auto simp: skip_frac_def split: if_splits)
  moreover have "p2 \<le> e \<and> (p2 \<le> length doc \<longrightarrow> e \<le> length doc)"
    using p(3) skip_digits_gt [of doc "p2 + 1"] skip_digits_gt [of doc "p2 + 2"]
    by (auto simp: skip_exp_def Let_def split: if_splits)
  ultimately show ?thesis by linarith
qed

lemma match_literal_bounds: "match_literal doc p lit \<Longrightarrow> p + length lit \<le> length doc"
  by (auto simp: match_literal_def split: if_splits)

lemma open_or_scalar_bounds:
  assumes "open_or_scalar doc p frames = Some (q, frames')"
  shows "p < q \<and> q \<le> length doc"
  using assms skip_string_bounds [of doc p q] skip_number_bounds [of doc p q]
    match_literal_bounds [of doc p "''true''"] match_literal_bounds [of doc p "''false''"]
    match_literal_bounds [of doc p "''null''"]
  by (auto simp: open_or_scalar_def Let_def split: if_splits)

lemma walk_value_bounds: "walk_value doc p frames a = Some (q, frames') \<Longrightarrow> p < q \<and> q \<le> length doc"
  using open_or_scalar_bounds by (auto simp: walk_value_def split: option.splits)

lemma walk_key_bounds: "walk_key doc p frames = Some (q, frames') \<Longrightarrow> p < q \<and> q \<le> length doc"
  using skip_string_bounds by (fastforce simp: walk_key_def split: if_splits)

lemma walk_step_bounds:
  assumes "walk_step doc p frames = Some (q, frames')"
  shows "p < q \<and> q \<le> length doc"
proof -
  let ?p = "skip_ws doc p"
  have "?p < q \<and> q \<le> length doc"
    using assms walk_value_bounds [of doc ?p frames _ q frames'] walk_key_bounds [of doc ?p frames q frames']
    by (auto simp: walk_step_def Let_def walk_close_def split: if_splits walk_state.splits)
  then show ?thesis using skip_ws_ge [of p doc] by simp
qed

subsection \<open>The loop\<close>

function walk_loop :: "string \<Rightarrow> nat \<Rightarrow> walk_frame list \<Rightarrow> nat option" where
  "walk_loop doc pos frames =
     (if frames = [] then Some pos
      else case walk_step doc pos frames of
        None \<Rightarrow> None
      | Some (pos', frames') \<Rightarrow> walk_loop doc pos' frames')"
  by pat_completeness auto
termination
  by (relation "measure (\<lambda>(doc, pos, frames). length doc - pos)") (auto dest: walk_step_bounds)

declare walk_loop.simps [simp del]

definition skip_value :: "string \<Rightarrow> nat \<Rightarrow> nat option" where
  "skip_value doc pos0 =
     (let pos = skip_ws doc pos0 in
      if pos \<ge> length doc then None
      else case open_or_scalar doc pos [] of
        None \<Rightarrow> None
      | Some (pos', frames) \<Rightarrow> walk_loop doc pos' frames)"

definition valid :: "string \<Rightarrow> bool" where
  "valid doc =
     (let start = skip_ws doc 0 in
      if start \<ge> length doc then False
      else case skip_value doc start of
        None \<Rightarrow> False
      | Some e \<Rightarrow> skip_ws doc e = length doc)"


lemma walk_loop_bounds: "walk_loop doc p frames = Some q \<Longrightarrow> p \<le> length doc \<Longrightarrow> p \<le> q \<and> q \<le> length doc"
proof (induction doc p frames rule: walk_loop.induct)
  case (1 doc p frames)
  show ?case
  proof (cases "frames = []")
    case True
    then show ?thesis using "1.prems" by (simp add: walk_loop.simps [of doc p])
  next
    case False
    then obtain p' frames' where st: "walk_step doc p frames = Some (p', frames')"
      "walk_loop doc p' frames' = Some q"
      using "1.prems"(1) by (auto simp: walk_loop.simps [of doc p] split: option.splits)
    then show ?thesis using "1.IH" [OF False st(1) refl st(2)] walk_step_bounds [OF st(1)] by simp
  qed
qed

lemma skip_value_bounds: "skip_value doc p = Some e \<Longrightarrow> skip_ws doc p < e \<and> e \<le> length doc"
  using open_or_scalar_bounds walk_loop_bounds
  by (fastforce simp: skip_value_def Let_def split: if_splits option.splits)

lemma skip_value_gt: "skip_value doc p = Some e \<Longrightarrow> p < e \<and> e \<le> length doc"
  using skip_value_bounds [of doc p e] skip_ws_ge [of p doc] by simp

section \<open>Decoding and encoding strings\<close>

text \<open>\<open>static_cast<char>\<close> of a value below 256, and \<open>append_utf8\<close> as the bytes it appends.\<close>

definition utf8_bytes :: "nat \<Rightarrow> string" where
  "utf8_bytes cp =
     (if cp \<le> 0x7F then [char_of cp]
      else if cp \<le> 0x7FF then [char_of (0xC0 OR drop_bit 6 cp), char_of (0x80 OR (cp AND 0x3F))]
      else if cp \<le> 0xFFFF then
        [char_of (0xE0 OR drop_bit 12 cp), char_of (0x80 OR (drop_bit 6 cp AND 0x3F)), char_of (0x80 OR (cp AND 0x3F))]
      else
        [char_of (0xF0 OR drop_bit 18 cp), char_of (0x80 OR (drop_bit 12 cp AND 0x3F)),
         char_of (0x80 OR (drop_bit 6 cp AND 0x3F)), char_of (0x80 OR (cp AND 0x3F))])"

definition hex_val :: "char \<Rightarrow> nat option" where
  "hex_val c =
     (if is_digit_char c then Some (byte c - 48)
      else if 97 \<le> byte c \<and> byte c \<le> 102 then Some (byte c - 97 + 10)
      else if 65 \<le> byte c \<and> byte c \<le> 70 then Some (byte c - 65 + 10)
      else None)"

text \<open>
  \<open>read_hex4(body, p)\<close>, on the bytes of \<open>body\<close> from \<open>p\<close> on.  The accumulator is a 16-bit word in the
  code; four digits never overflow it.
\<close>

fun read_hex_digits :: "nat \<Rightarrow> nat \<Rightarrow> string \<Rightarrow> nat option" where
  "read_hex_digits 0 v s = Some v"
| "read_hex_digits (Suc n) v [] = None"
| "read_hex_digits (Suc n) v (c # cs) =
     (case hex_val c of None \<Rightarrow> None | Some d \<Rightarrow> read_hex_digits n (push_bit 4 v OR d) cs)"

definition read_hex4 :: "string \<Rightarrow> nat option" where
  "read_hex4 s = (if length s < 4 then None else read_hex_digits 4 0 s)"

definition unescape_char :: "char \<Rightarrow> char option" where
  "unescape_char e =
     (if e = CHR 0x22 then Some (CHR 0x22)
      else if e = CHR 0x5C then Some (CHR 0x5C)
      else if e = CHR ''/'' then Some (CHR ''/'')
      else if e = CHR ''b'' then Some (CHR 0x08)
      else if e = CHR ''f'' then Some (CHR 0x0C)
      else if e = CHR ''n'' then Some (CHR 0x0A)
      else if e = CHR ''r'' then Some (CHR 0x0D)
      else if e = CHR ''t'' then Some (CHR 0x09)
      else None)"

text \<open>The second half of a surrogate pair right after a high surrogate, as its code unit.\<close>

definition low_surrogate :: "string \<Rightarrow> nat option" where
  "low_surrogate s =
     (case s of
        a # b # rest \<Rightarrow>
          if a = CHR 0x5C \<and> b = CHR ''u'' then
            (case read_hex4 rest of
               Some h2 \<Rightarrow> if 0xDC00 \<le> h2 \<and> h2 \<le> 0xDFFF then Some h2 else None
             | None \<Rightarrow> None)
          else None
      | _ \<Rightarrow> None)"

text \<open>The loop of \<open>decode_string\<close>; the string is what is left of \<open>body\<close> at offset \<open>i\<close>.\<close>

function decode_body :: "string \<Rightarrow> string" where
  "decode_body [] = []"
| "decode_body (c # cs) =
     (if c \<noteq> CHR 0x5C then c # decode_body cs
      else case cs of
        [] \<Rightarrow> []
      | e # s \<Rightarrow>
          (case unescape_char e of
             Some d \<Rightarrow> d # decode_body s
           | None \<Rightarrow>
               if e = CHR ''u'' then
                 (case read_hex4 s of
                    None \<Rightarrow> utf8_bytes 0xFFFD @ decode_body s
                  | Some r \<Rightarrow>
                      let s4 = drop 4 s in
                      if 0xD800 \<le> r \<and> r \<le> 0xDBFF then
                        (case low_surrogate s4 of
                           Some h2 \<Rightarrow>
                             utf8_bytes (0x10000 + push_bit 10 (r - 0xD800) + (h2 - 0xDC00)) @ decode_body (drop 6 s4)
                         | None \<Rightarrow> utf8_bytes 0xFFFD @ decode_body s4)
                      else if 0xDC00 \<le> r \<and> r \<le> 0xDFFF then utf8_bytes 0xFFFD @ decode_body s4
                      else utf8_bytes r @ decode_body s4)
               else e # decode_body s))"
  by pat_completeness auto
termination by (relation "measure length") auto

definition decode_string :: "string \<Rightarrow> string" where
  "decode_string quoted =
     (if length quoted < 2 \<or> hd quoted \<noteq> CHR 0x22 \<or> last quoted \<noteq> CHR 0x22 then quoted
      else decode_body (substr quoted 1 (length quoted - 2)))"

definition hex_char :: "nat \<Rightarrow> char" where
  "hex_char n = (if n < 10 then digit_char n else char_of (87 + n))"

text \<open>The escape of a byte by the \<open>switch\<close> and, for other control bytes, by \<open>snprintf("\u%04x")\<close>.\<close>

definition short_escape :: "char \<Rightarrow> char option" where
  "short_escape c =
     (if c = CHR 0x22 then Some (CHR 0x22)
      else if c = CHR 0x5C then Some (CHR 0x5C)
      else if c = CHR 0x08 then Some (CHR ''b'')
      else if c = CHR 0x0C then Some (CHR ''f'')
      else if c = CHR 0x0A then Some (CHR ''n'')
      else if c = CHR 0x0D then Some (CHR ''r'')
      else if c = CHR 0x09 then Some (CHR ''t'')
      else None)"

definition escape_byte :: "char \<Rightarrow> string option" where
  "escape_byte c =
     (case short_escape c of
        Some x \<Rightarrow> Some [CHR 0x5C, x]
      | None \<Rightarrow>
          if byte c < 0x20 then Some ([CHR 0x5C] @ ''u00'' @ [hex_char (byte c div 16), hex_char (byte c mod 16)])
          else None)"

text \<open>U+2028 and U+2029 in UTF-8 are \<open>E2 80 A8\<close> and \<open>E2 80 A9\<close>.\<close>

definition line_separator :: "char \<Rightarrow> string \<Rightarrow> bool" where
  "line_separator c rest \<longleftrightarrow>
     c = CHR 0xE2 \<and> 2 \<le> length rest \<and> rest ! 0 = CHR 0x80 \<and> (rest ! 1 = CHR 0xA8 \<or> rest ! 1 = CHR 0xA9)"

function encode_body :: "string \<Rightarrow> string" where
  "encode_body [] = []"
| "encode_body (c # rest) =
     (case escape_byte c of
        Some e \<Rightarrow> e @ encode_body rest
      | None \<Rightarrow>
          if line_separator c rest
          then (if rest ! 1 = CHR 0xA8 then [CHR 0x5C] @ ''u2028'' else [CHR 0x5C] @ ''u2029'') @
            encode_body (drop 2 rest)
          else c # encode_body rest)"
  by pat_completeness auto
termination by (relation "measure length") auto

definition encode_string :: "string \<Rightarrow> bool \<Rightarrow> string" where
  "encode_string raw with_quotes =
     (if with_quotes then [CHR 0x22] @ encode_body raw @ [CHR 0x22] else encode_body raw)"

section \<open>Looking up a value\<close>

text \<open>
  The search loop of an index segment from the byte after \<open>[\<close>, and that of a key segment from the
  byte after \<open>{\<close>: start and end of the value the segment selects.
\<close>

function find_element :: "string \<Rightarrow> nat \<Rightarrow> nat \<Rightarrow> nat \<Rightarrow> (nat \<times> nat) option" where
  "find_element doc pos0 idx target =
     (let pos = skip_ws doc pos0 in
      if pos \<ge> length doc \<or> doc ! pos = CHR '']'' then None
      else case skip_value doc pos of
        None \<Rightarrow> None
      | Some ve \<Rightarrow>
          if idx = target then Some (pos, ve)
          else let p = skip_ws doc ve in
            if p < length doc \<and> doc ! p = CHR '','' then find_element doc (p + 1) (idx + 1) target else None)"
  by pat_completeness auto
termination
proof (relation "measure (\<lambda>(doc, pos, idx, target). length doc - pos)")
  fix doc pos0 idx target pos ve p
  assume "pos = skip_ws doc pos0" "skip_value doc pos = Some ve" "p = skip_ws doc ve"
    "p < length doc \<and> doc ! p = CHR '',''"
  moreover from this have "pos0 \<le> pos" "pos < ve" "ve \<le> p"
    using skip_ws_ge skip_value_gt by blast+
  ultimately show "((doc, p + 1, idx + 1, target), doc, pos0, idx, target)
      \<in> measure (\<lambda>(doc, pos, idx, target). length doc - pos)" by auto
qed simp

function find_member :: "string \<Rightarrow> nat \<Rightarrow> string \<Rightarrow> (nat \<times> nat) option" where
  "find_member doc pos0 target =
     (let pos = skip_ws doc pos0 in
      if pos \<ge> length doc \<or> doc ! pos \<noteq> CHR 0x22 then None
      else case skip_string doc pos of
        None \<Rightarrow> None
      | Some ke \<Rightarrow>
          let key = decode_string (substr doc pos (ke - pos)); colon = skip_ws doc ke in
          if colon \<ge> length doc \<or> doc ! colon \<noteq> CHR '':'' then None
          else let v = skip_ws doc (colon + 1) in
            if v \<ge> length doc then None
            else case skip_value doc v of
              None \<Rightarrow> None
            | Some ve \<Rightarrow>
                if key = target then Some (v, ve)
                else let p = skip_ws doc ve in
                  if p < length doc \<and> doc ! p = CHR '','' then find_member doc (p + 1) target else None)"
  by pat_completeness auto
termination
proof (relation "measure (\<lambda>(doc, pos, target). length doc - pos)")
  fix doc pos0 target pos ke key colon v ve p
  assume "pos = skip_ws doc pos0" "skip_string doc pos = Some ke" "colon = skip_ws doc ke"
    "v = skip_ws doc (colon + 1)" "skip_value doc v = Some ve" "p = skip_ws doc ve"
    "p < length doc \<and> doc ! p = CHR '',''"
  moreover from this have "pos0 \<le> pos" "pos + 1 < ke" "ke \<le> colon" "colon + 1 \<le> v" "v < ve" "ve \<le> p"
    using skip_ws_ge skip_value_gt skip_string_bounds by blast+
  ultimately show "((doc, p + 1, target), doc, pos0, target) \<in> measure (\<lambda>(doc, pos, target). length doc - pos)"
    by auto
qed simp

declare find_element.simps [simp del] find_member.simps [simp del]

definition span_at :: "string \<Rightarrow> nat \<times> nat \<Rightarrow> value_span" where
  "span_at doc se = \<lparr>vs_start = fst se, vs_end = snd se, is_string = (doc ! fst se = CHR 0x22)\<rparr>"

definition find_child :: "string \<Rightarrow> nat \<Rightarrow> path_seg \<Rightarrow> (nat \<times> nat) option" where
  "find_child doc pos seg =
     (if is_index seg
      then (if doc ! pos \<noteq> CHR ''['' then None else find_element doc (pos + 1) 0 (seg_index seg))
      else (if doc ! pos \<noteq> CHR ''{'' then None else find_member doc (pos + 1) (seg_key seg)))"

fun find_from :: "string \<Rightarrow> nat \<Rightarrow> path_seg list \<Rightarrow> value_span option" where
  "find_from doc pos [] = map_option (\<lambda>ve. span_at doc (pos, ve)) (skip_value doc pos)"
| "find_from doc pos0 (seg # path) =
     (let pos = skip_ws doc pos0 in
      if pos \<ge> length doc then None
      else case find_child doc pos seg of
        None \<Rightarrow> None
      | Some (p, ve) \<Rightarrow> if path = [] then Some (span_at doc (p, ve)) else find_from doc p path)"

definition find_value :: "string \<Rightarrow> path_seg list \<Rightarrow> value_span option" where
  "find_value doc path =
     (let pos = skip_ws doc 0 in if pos \<ge> length doc then None else find_from doc pos path)"

definition in_doc :: "string \<Rightarrow> value_span \<Rightarrow> bool" where
  "in_doc doc sp \<longleftrightarrow> \<not> (vs_start sp > vs_end sp \<or> vs_end sp > length doc)"

definition sub_doc :: "string \<Rightarrow> value_span \<Rightarrow> string" where
  "sub_doc doc sp = substr doc (vs_start sp) (vs_end sp - vs_start sp)"

definition shift_span :: "nat \<Rightarrow> value_span \<Rightarrow> value_span" where
  "shift_span n sp = sp\<lparr>vs_start := vs_start sp + n, vs_end := vs_end sp + n\<rparr>"

definition find_value_in :: "string \<Rightarrow> value_span \<Rightarrow> path_seg list \<Rightarrow> value_span option" where
  "find_value_in doc container relative_path =
     (if \<not> in_doc doc container then None
      else map_option (shift_span (vs_start container)) (find_value (sub_doc doc container) relative_path))"

text \<open>
  The loop of \<open>array_elements\<close>.  Unlike the other loops it does not skip whitespace after a comma
  before it records where the next element starts.
\<close>

function elements_loop :: "string \<Rightarrow> nat \<Rightarrow> value_span list" where
  "elements_loop doc pos =
     (case skip_value doc pos of
        None \<Rightarrow> []
      | Some ve \<Rightarrow>
          let p = skip_ws doc ve in
          span_at doc (pos, ve) #
            (if p < length doc \<and> doc ! p = CHR '','' then elements_loop doc (p + 1) else []))"
  by pat_completeness auto
termination
proof (relation "measure (\<lambda>(doc, pos). length doc - pos)")
  fix doc pos ve p
  assume "skip_value doc pos = Some ve" "p = skip_ws doc ve" "p < length doc \<and> doc ! p = CHR '',''"
  moreover from this have "pos < ve" "ve \<le> p" using skip_ws_ge skip_value_gt by blast+
  ultimately show "((doc, p + 1), doc, pos) \<in> measure (\<lambda>(doc, pos). length doc - pos)" by auto
qed simp

declare elements_loop.simps [simp del]

definition array_elements :: "string \<Rightarrow> value_span \<Rightarrow> value_span list" where
  "array_elements doc sp =
     (if \<not> in_doc doc sp then []
      else if is_string sp \<or> vs_start sp \<ge> vs_end sp \<or> doc ! vs_start sp \<noteq> CHR ''['' then []
      else
        let pos = skip_ws doc (vs_start sp + 1) in
        if pos \<ge> length doc \<or> doc ! pos = CHR '']'' then [] else elements_loop doc pos)"

section \<open>Replacing spans\<close>

text \<open>\<open>std::runtime_error\<close> and its message.\<close>

datatype splice_error = SpliceError string

definition splice :: "string \<Rightarrow> value_span \<Rightarrow> string \<Rightarrow> splice_error + string" where
  "splice doc sp replacement =
     (if \<not> in_doc doc sp then Inl (SpliceError ''Guard::Json::splice: span out of bounds for this document'')
      else Inr (take (vs_start sp) doc @ replacement @ drop (vs_end sp) doc))"

fun check_edits :: "string \<Rightarrow> value_span option \<Rightarrow> (value_span \<times> string) list \<Rightarrow> splice_error option" where
  "check_edits doc prev [] = None"
| "check_edits doc prev ((s, _) # edits) =
     (if \<not> in_doc doc s
      then Some (SpliceError ''Guard::Json::splice_all: span out of bounds for this document'')
      else if prev \<noteq> None \<and> vs_start s < vs_end (the prev)
      then Some (SpliceError ''Guard::Json::splice_all: overlapping edit spans'')
      else check_edits doc (Some s) edits)"

fun apply_edits :: "string \<Rightarrow> (value_span \<times> string) list \<Rightarrow> splice_error + string" where
  "apply_edits out [] = Inr out"
| "apply_edits out ((s, r) # edits) =
     (case splice out s r of Inl e \<Rightarrow> Inl e | Inr out' \<Rightarrow> apply_edits out' edits)"

definition splice_all :: "string \<Rightarrow> (value_span \<times> string) list \<Rightarrow> splice_error + string" where
  "splice_all doc edits =
     (if edits = [] then Inr doc
      else
        let order = sort_by (\<lambda>a b. vs_start (fst a) < vs_start (fst b)) edits in
        case check_edits doc None order of
          Some e \<Rightarrow> Inl e
        | None \<Rightarrow> apply_edits doc (rev order))"

section \<open>All string leaves\<close>

text \<open>\<open>struct WalkTask\<close>.\<close>

type_synonym walk_task = "path_seg list \<times> nat"

text \<open>The children of an object from the byte after \<open>{\<close>; \<^const>\<open>None\<close> for \<open>ok == false\<close>.\<close>

function object_children :: "string \<Rightarrow> path_seg list \<Rightarrow> nat \<Rightarrow> walk_task list option" where
  "object_children doc path p0 =
     (let p = skip_ws doc p0 in
      if p \<ge> length doc then None
      else if doc ! p = CHR ''}'' then Some []
      else if doc ! p \<noteq> CHR 0x22 then None
      else case skip_string doc p of
        None \<Rightarrow> None
      | Some ke \<Rightarrow>
          let key = decode_string (substr doc p (ke - p)); colon = skip_ws doc ke in
          if colon \<ge> length doc \<or> doc ! colon \<noteq> CHR '':'' then None
          else let v = skip_ws doc (colon + 1) in
            if v \<ge> length doc then None
            else case skip_value doc v of
              None \<Rightarrow> None
            | Some ve \<Rightarrow>
                let q = skip_ws doc ve; child = (path @ [key_seg key], v) in
                if q \<ge> length doc then None
                else if doc ! q = CHR '','' then map_option ((#) child) (object_children doc path (q + 1))
                else if doc ! q = CHR ''}'' then Some [child]
                else None)"
  by pat_completeness auto
termination
proof (relation "measure (\<lambda>(doc, path, pos). length doc - pos)")
  fix doc path p0 p ke key colon v ve q and child :: walk_task
  assume "p = skip_ws doc p0" "skip_string doc p = Some ke" "colon = skip_ws doc ke"
    "v = skip_ws doc (colon + 1)" "skip_value doc v = Some ve" "q = skip_ws doc ve" "\<not> q \<ge> length doc"
  moreover from this have "p0 \<le> p" "p + 1 < ke" "ke \<le> colon" "colon + 1 \<le> v" "v < ve" "ve \<le> q"
    using skip_ws_ge skip_value_gt skip_string_bounds by blast+
  ultimately show "((doc, path, q + 1), doc, path, p0) \<in> measure (\<lambda>(doc, path, pos). length doc - pos)" by simp
qed simp

function array_children :: "string \<Rightarrow> path_seg list \<Rightarrow> nat \<Rightarrow> nat \<Rightarrow> walk_task list option" where
  "array_children doc path idx p0 =
     (let p = skip_ws doc p0 in
      if p \<ge> length doc then None
      else case skip_value doc p of
        None \<Rightarrow> None
      | Some ve \<Rightarrow>
          let q = skip_ws doc ve; child = (path @ [index_seg idx], p) in
          if q \<ge> length doc then None
          else if doc ! q = CHR '','' then map_option ((#) child) (array_children doc path (idx + 1) (q + 1))
          else if doc ! q = CHR '']'' then Some [child]
          else None)"
  by pat_completeness auto
termination
proof (relation "measure (\<lambda>(doc, path, idx, pos). length doc - pos)")
  fix doc path idx p0 p ve q and child :: walk_task
  assume "p = skip_ws doc p0" "skip_value doc p = Some ve" "q = skip_ws doc ve" "\<not> q \<ge> length doc"
  moreover from this have "p0 \<le> p" "p < ve" "ve \<le> q" using skip_ws_ge skip_value_gt by blast+
  ultimately show "((doc, path, idx + 1, q + 1), doc, path, idx, p0)
      \<in> measure (\<lambda>(doc, path, idx, pos). length doc - pos)" by simp
qed simp

declare object_children.simps [simp del] array_children.simps [simp del]

text \<open>One round of the walk: the leaf a task contributes and the tasks of its children.\<close>

definition visit :: "string \<Rightarrow> walk_task \<Rightarrow> string_leaf list \<times> walk_task list" where
  "visit doc task =
     (let path = fst task; pos = skip_ws doc (snd task) in
      if pos \<ge> length doc then ([], [])
      else if doc ! pos = CHR 0x22 then
        (case skip_string doc pos of
           None \<Rightarrow> ([], [])
         | Some e \<Rightarrow> ([\<lparr>leaf_path = path, leaf_span = \<lparr>vs_start = pos, vs_end = e, is_string = True\<rparr>\<rparr>], []))
      else if doc ! pos = CHR ''{'' then
        (case object_children doc path (pos + 1) of None \<Rightarrow> ([], []) | Some cs \<Rightarrow> ([], cs))
      else if doc ! pos = CHR ''['' then
        (let p = skip_ws doc (pos + 1) in
         if p < length doc \<and> doc ! p = CHR '']'' then ([], [])
         else case array_children doc path 0 p of None \<Rightarrow> ([], []) | Some cs \<Rightarrow> ([], cs))
      else ([], []))"


lemma object_children_pos:
  "object_children doc path p0 = Some cs \<Longrightarrow> t \<in> set cs \<Longrightarrow> p0 < snd t \<and> snd t < length doc"
proof (induction doc path p0 arbitrary: cs rule: object_children.induct)
  case (1 doc path p0)
  let ?p = "skip_ws doc p0"
  show ?case
  proof (cases "?p \<ge> length doc \<or> doc ! ?p = CHR ''}'' \<or> doc ! ?p \<noteq> CHR 0x22")
    case True
    then show ?thesis using "1.prems" by (auto simp: object_children.simps [of doc path p0] Let_def split: if_splits)
  next
    case p: False
    obtain ke where ke: "skip_string doc ?p = Some ke"
      using "1.prems"(1) p by (auto simp: object_children.simps [of doc path p0] Let_def split: option.splits)
    let ?colon = "skip_ws doc ke" let ?v = "skip_ws doc (?colon + 1)"
    let ?child = "(path @ [key_seg (decode_string (substr doc ?p (ke - ?p)))], ?v)"
    have v: "\<not> (?colon \<ge> length doc \<or> doc ! ?colon \<noteq> CHR '':'')" "\<not> ?v \<ge> length doc"
      using "1.prems"(1) p ke by (auto simp: object_children.simps [of doc path p0] Let_def split: if_splits)
    obtain ve where ve: "skip_value doc ?v = Some ve"
      using "1.prems"(1) p ke v
      by (auto simp: object_children.simps [of doc path p0] Let_def split: if_splits option.splits)
    let ?q = "skip_ws doc ve"
    have le: "p0 \<le> ?p" "?p + 1 < ke" "ke \<le> ?colon" "?colon + 1 \<le> ?v" "?v < ve" "ve \<le> ?q"
      using ke ve skip_ws_ge skip_value_gt skip_string_bounds by blast+
    have eq: "object_children doc path p0 =
        (if ?q \<ge> length doc then None
         else if doc ! ?q = CHR '','' then map_option ((#) ?child) (object_children doc path (?q + 1))
         else if doc ! ?q = CHR ''}'' then Some [?child] else None)"
      using p ke v ve by (simp add: object_children.simps [of doc path p0] Let_def)
    then have q: "\<not> ?q \<ge> length doc" using "1.prems"(1) by (auto split: if_splits)
    show ?thesis
    proof (cases "t = ?child")
      case True
      then show ?thesis using le v(2) by simp
    next
      case False
      then obtain cs' where cs': "doc ! ?q = CHR '',''" "object_children doc path (?q + 1) = Some cs'" "t \<in> set cs'"
        using trans [OF eq [symmetric] "1.prems"(1)] q "1.prems"(2) False by (auto split: if_splits)
      have "?q + 1 < snd t \<and> snd t < length doc"
        using "1.IH" [OF refl _ _ _ ke refl refl v(1) refl v(2) ve refl refl q cs'(1,2,3)] p by blast
      then show ?thesis using le by simp
    qed
  qed
qed

lemma array_children_pos:
  "array_children doc path idx p0 = Some cs \<Longrightarrow> t \<in> set cs \<Longrightarrow> p0 \<le> snd t \<and> snd t < length doc"
proof (induction doc path idx p0 arbitrary: cs rule: array_children.induct)
  case (1 doc path idx p0)
  let ?p = "skip_ws doc p0"
  have p: "\<not> ?p \<ge> length doc" using "1.prems"(1)
    by (auto simp: array_children.simps [of doc path idx p0] Let_def split: if_splits)
  obtain ve where ve: "skip_value doc ?p = Some ve"
    using "1.prems"(1) p by (auto simp: array_children.simps [of doc path idx p0] Let_def split: option.splits)
  let ?q = "skip_ws doc ve" let ?child = "(path @ [index_seg idx], ?p)"
  have le: "p0 \<le> ?p" "?p < ve" "ve \<le> ?q" using ve skip_ws_ge skip_value_gt by blast+
  have eq: "array_children doc path idx p0 =
      (if ?q \<ge> length doc then None
       else if doc ! ?q = CHR '','' then map_option ((#) ?child) (array_children doc path (idx + 1) (?q + 1))
       else if doc ! ?q = CHR '']'' then Some [?child] else None)"
    using p ve by (simp add: array_children.simps [of doc path idx p0] Let_def)
  then have q: "\<not> ?q \<ge> length doc" using "1.prems"(1) by (auto split: if_splits)
  show ?case
  proof (cases "t = ?child")
    case True
    then show ?thesis using le p by simp
  next
    case False
    then obtain cs' where cs': "doc ! ?q = CHR '',''" "array_children doc path (idx + 1) (?q + 1) = Some cs'" "t \<in> set cs'"
      using trans [OF eq [symmetric] "1.prems"(1)] q "1.prems"(2) False by (auto split: if_splits)
    have "?q + 1 \<le> snd t \<and> snd t < length doc"
      using "1.IH" [OF refl p ve refl refl q cs'(1,2,3)] by blast
    then show ?thesis using le by simp
  qed
qed

lemma visit_children_later:
  assumes "visit doc t = (ls, cs)" "c \<in> set cs"
  shows "snd t < snd c \<and> snd c < length doc"
proof -
  let ?pos = "skip_ws doc (snd t)"
  have "snd t \<le> ?pos" "?pos + 1 \<le> skip_ws doc (?pos + 1)" by (rule skip_ws_ge)+
  then show ?thesis
    using assms object_children_pos [of doc "fst t" "?pos + 1" cs c]
      array_children_pos [of doc "fst t" 0 "skip_ws doc (?pos + 1)" cs c]
    by (auto simp: visit_def Let_def split: if_splits option.splits)
qed

function leaves_loop :: "string \<Rightarrow> walk_task list \<Rightarrow> string_leaf list \<Rightarrow> string_leaf list" where
  "leaves_loop doc [] result = result"
| "leaves_loop doc (task # stack) result =
     (let (ls, cs) = visit doc task in leaves_loop doc (cs @ stack) (result @ ls))"
  by pat_completeness auto
termination
proof (relation "inv_image (mult less_than) (\<lambda>(doc, stack, result). mset (map (\<lambda>t. length doc - snd t) stack))")
  fix doc and task :: walk_task and stack :: "walk_task list" and result x and ls :: "string_leaf list" and cs
  assume "x = visit doc task" "(ls, cs) = x"
  then have v: "visit doc task = (ls, cs)" by simp
  have "(mset (map (\<lambda>t. length doc - snd t) stack) + mset (map (\<lambda>t. length doc - snd t) cs),
      mset (map (\<lambda>t. length doc - snd t) stack) + {#length doc - snd task#}) \<in> mult less_than"
    using visit_children_later [OF v] by (intro one_step_implies_mult) fastforce+
  then show "((doc, cs @ stack, result @ ls), doc, task # stack, result)
      \<in> inv_image (mult less_than) (\<lambda>(doc, stack, result). mset (map (\<lambda>t. length doc - snd t) stack))"
    by (simp add: add.commute)
qed (simp add: wf_mult)

definition string_leaves :: "string \<Rightarrow> path_seg list \<Rightarrow> string_leaf list" where
  "string_leaves doc root =
     (case find_value doc root of
        None \<Rightarrow> []
      | Some sp \<Rightarrow> leaves_loop doc [(root, vs_start sp)] [])"

definition string_leaves_in :: "string \<Rightarrow> value_span \<Rightarrow> path_seg list \<Rightarrow> string_leaf list" where
  "string_leaves_in doc container relative_root =
     (if \<not> in_doc doc container then []
      else map (\<lambda>leaf. leaf\<lparr>leaf_span := shift_span (vs_start container) (leaf_span leaf)\<rparr>)
        (string_leaves (sub_doc doc container) relative_root))"

section \<open>Encoding and decoding\<close>

lemma read_hex_digits_append: "length s = n \<Longrightarrow> read_hex_digits n v (s @ t) = read_hex_digits n v s"
proof (induction n v s rule: read_hex_digits.induct)
  case (3 n v c cs)
  then show ?case by (cases "hex_val c") simp_all
qed simp_all

lemma read_hex4_append: "length s = 4 \<Longrightarrow> read_hex4 (s @ t) = read_hex4 s"
  by (simp add: read_hex4_def read_hex_digits_append)

lemma push_or: "d < 16 \<Longrightarrow> push_bit 4 v OR d = 16 * v + d" for v d :: nat
proof -
  assume "d < 16"
  then have "take_bit 4 d = d" by (simp add: take_bit_eq_mod)
  then have "\<forall>n. bit d n \<longrightarrow> n < 4" by (metis bit_take_bit_iff)
  then have "push_bit 4 v + d = push_bit 4 v OR d"
    by (intro disjunctive_add) (metis bit_push_bit_iff not_less)
  then show ?thesis by (simp add: push_bit_eq_mult)
qed

lemma hex_char_byte: "n < 16 \<Longrightarrow> byte (hex_char n) = (if n < 10 then 48 + n else 87 + n)"
  by (simp add: hex_char_def digit_char_def)

lemma hex_val_hex_char [simp]: "n < 16 \<Longrightarrow> hex_val (hex_char n) = Some n"
  using hex_char_byte [of n] by (auto simp: hex_val_def is_digit_char_def)

lemma hex_val_0 [simp]: "hex_val CHR ''0'' = Some 0"
  by (simp add: hex_val_def is_digit_char_def)

lemma hex_val_less: "hex_val c = Some d \<Longrightarrow> d < 16"
  by (auto simp: hex_val_def is_digit_char_def split: if_splits)

lemma read_hex4_four:
  assumes "hex_val a = Some x" "hex_val b = Some y" "hex_val c = Some z" "hex_val d = Some w"
  shows "read_hex4 [a, b, c, d] = Some (16 * (16 * (16 * x + y) + z) + w)"
proof -
  have "(4 :: nat) = Suc (Suc (Suc (Suc 0)))" by simp
  then have "read_hex4 [a, b, c, d] = read_hex_digits (Suc (Suc (Suc (Suc 0)))) 0 [a, b, c, d]"
    by (simp only: read_hex4_def) simp
  also have "\<dots> = Some (16 * (16 * (16 * x + y) + z) + w)"
    using assms hex_val_less by (simp add: push_or)
  finally show ?thesis .
qed

lemma control_hex:
  assumes "n < 32"
  shows "read_hex4 [CHR ''0'', CHR ''0'', hex_char (n div 16), hex_char (n mod 16)] = Some n"
  using assms by (subst read_hex4_four [of _ 0 _ 0 _ "n div 16" _ "n mod 16"]) simp_all

lemma separator_hex:
  "read_hex4 ''2028'' = Some 0x2028" "read_hex4 ''2029'' = Some 0x2029"
  "utf8_bytes 0x2028 = [CHR 0xE2, CHR 0x80, CHR 0xA8]" "utf8_bytes 0x2029 = [CHR 0xE2, CHR 0x80, CHR 0xA9]"
proof -
  have h: "hex_val CHR ''2'' = Some 2" "hex_val CHR ''8'' = Some 8" "hex_val CHR ''9'' = Some 9"
    by (simp_all add: hex_val_def is_digit_char_def)
  show "read_hex4 ''2028'' = Some 0x2028" "read_hex4 ''2029'' = Some 0x2029"
    using read_hex4_four [OF h(1) hex_val_0 h(1,2)] read_hex4_four [OF h(1) hex_val_0 h(1,3)] by simp_all
  show "utf8_bytes 0x2028 = [CHR 0xE2, CHR 0x80, CHR 0xA8]" "utf8_bytes 0x2029 = [CHR 0xE2, CHR 0x80, CHR 0xA9]"
    by (simp_all add: utf8_bytes_def char_of_def bit_Suc_0_iff)
qed

lemma decode_body_plain: "c \<noteq> CHR 0x5C \<Longrightarrow> decode_body (c # s) = c # decode_body s"
  by simp

lemma decode_body_u:
  assumes "length h = 4" "read_hex4 h = Some r" "r < 0xD800"
  shows "decode_body (CHR 0x5C # CHR ''u'' # h @ s) = utf8_bytes r @ decode_body s"
  using assms by (simp add: unescape_char_def read_hex4_append Let_def)

lemma short_escape_SomeD:
  "short_escape c = Some x \<Longrightarrow> unescape_char x = Some c \<and> is_short_escape x"
  by (auto simp: short_escape_def unescape_char_def is_short_escape_def split: if_splits)

lemma escape_byte_SomeE:
  assumes "escape_byte c = Some e"
  obtains x where "e = [CHR 0x5C, x]" "unescape_char x = Some c" "is_short_escape x"
  | "byte c < 32" "e = CHR 0x5C # CHR ''u'' # [CHR ''0'', CHR ''0'', hex_char (byte c div 16), hex_char (byte c mod 16)]"
  using assms short_escape_SomeD [of c]
  by (cases "short_escape c") (auto simp: escape_byte_def split: if_splits)

lemma escape_byte_NoneD: "escape_byte c = None \<Longrightarrow> c \<noteq> CHR 0x22 \<and> c \<noteq> CHR 0x5C \<and> 0x20 \<le> byte c"
  by (auto simp: escape_byte_def short_escape_def split: option.splits if_splits)

lemma decode_escape:
  assumes "escape_byte c = Some e"
  shows "decode_body (e @ s) = c # decode_body s"
  using assms
proof (cases rule: escape_byte_SomeE)
  case (1 x)
  then show ?thesis by simp
next
  case 2
  have "utf8_bytes (byte c) = [c]" using 2(1) by (simp add: utf8_bytes_def)
  then show ?thesis using decode_body_u [of _ "byte c" s, OF _ control_hex [OF 2(1)]] 2 by simp
qed

lemma line_separatorE:
  assumes "line_separator c rest"
  obtains x s where "c = CHR 0xE2" "rest = CHR 0x80 # x # s" "x = CHR 0xA8 \<or> x = CHR 0xA9"
proof -
  obtain y x s where "rest = y # x # s" using assms
    by (cases rest; cases "tl rest") (auto simp: line_separator_def)
  then show ?thesis using assms that by (auto simp: line_separator_def)
qed

lemma decode_encode_body: "decode_body (encode_body raw) = raw"
proof (induction raw rule: encode_body.induct)
  case (2 c rest)
  show ?case
  proof (cases "escape_byte c")
    case (Some e)
    then show ?thesis using 2 decode_escape [OF Some] by simp
  next
    case None
    then have bs: "c \<noteq> CHR 0x5C" using escape_byte_NoneD by blast
    show ?thesis
    proof (cases "line_separator c rest")
      case True
      then obtain x s where x: "c = CHR 0xE2" "rest = CHR 0x80 # x # s" "x = CHR 0xA8 \<or> x = CHR 0xA9"
        by (rule line_separatorE)
      have "decode_body (encode_body s) = s" using 2(1) [OF None True] x(2) by simp
      moreover have "decode_body (CHR 0x5C # CHR ''u'' # ''2028'' @ t) = utf8_bytes 0x2028 @ decode_body t"
        "decode_body (CHR 0x5C # CHR ''u'' # ''2029'' @ t) = utf8_bytes 0x2029 @ decode_body t" for t
        by (rule decode_body_u; simp add: separator_hex)+
      ultimately show ?thesis using None True x separator_hex(3,4) by auto
    next
      case False
      then show ?thesis using 2(2) [OF None False] None bs by simp
    qed
  qed
qed simp

text \<open>C11. Decoding undoes encoding: for every byte string, valid UTF-8 or not, the decoder applied to
  the quoted encoding gives the string back.\<close>

theorem decode_encode_string: "decode_string (encode_string raw True) = raw"
  by (simp add: decode_string_def encode_string_def substr_def decode_encode_body)

section \<open>Scanning what the encoder wrote\<close>

lemma skip_string_plain:
  assumes "c \<noteq> CHR 0x22" "c \<noteq> CHR 0x5C" "0x20 \<le> byte c"
  shows "skip_string_loop (pre @ c # rest) (length pre) = skip_string_loop ((pre @ [c]) @ rest) (length (pre @ [c]))"
  using assms by (subst skip_string_loop.simps) (simp add: Let_def nth_append)

lemma skip_string_escape:
  assumes "is_short_escape e"
  shows "skip_string_loop (pre @ CHR 0x5C # e # rest) (length pre) =
    skip_string_loop ((pre @ [CHR 0x5C, e]) @ rest) (length (pre @ [CHR 0x5C, e]))"
  using assms by (subst skip_string_loop.simps) (simp add: Let_def nth_append)

lemma hex_digits_0: "is_hex_digit CHR ''0''" "\<not> is_short_escape CHR ''u''"
  by (simp_all add: is_hex_digit_def is_digit_char_def is_short_escape_def)

lemma skip_string_unicode:
  assumes "length h = 4" "list_all is_hex_digit h"
  shows "skip_string_loop (pre @ CHR 0x5C # CHR ''u'' # h @ rest) (length pre) =
    skip_string_loop ((pre @ CHR 0x5C # CHR ''u'' # h) @ rest) (length (pre @ CHR 0x5C # CHR ''u'' # h))"
  using assms by (subst skip_string_loop.simps) (simp add: Let_def nth_append substr_def hex_digits_0)

lemma hex_char_digit: "n < 16 \<Longrightarrow> is_hex_digit (hex_char n)"
  using hex_char_byte [of n] by (auto simp: is_hex_digit_def is_digit_char_def)

lemma skip_escape:
  assumes "escape_byte c = Some e"
  shows "skip_string_loop (pre @ e @ rest) (length pre) = skip_string_loop ((pre @ e) @ rest) (length (pre @ e))"
  using assms
proof (cases rule: escape_byte_SomeE)
  case (1 x)
  then show ?thesis using skip_string_escape [of x pre rest] by simp
next
  case 2
  then show ?thesis
    using skip_string_unicode [of "[CHR ''0'', CHR ''0'', hex_char (byte c div 16), hex_char (byte c mod 16)]" pre rest]
      hex_char_digit hex_digits_0 by simp
qed

lemma skip_string_loop_encode:
  "skip_string_loop (pre @ encode_body raw @ CHR 0x22 # post) (length pre) = Some (length pre + length (encode_body raw) + 1)"
proof (induction raw arbitrary: pre rule: encode_body.induct)
  case 1
  then show ?case by (subst skip_string_loop.simps) (simp add: Let_def nth_append)
next
  case (2 c rest)
  show ?case
  proof (cases "escape_byte c")
    case (Some e)
    then show ?thesis
      using 2(3) [OF Some, of "pre @ e"] skip_escape [OF Some, of pre "encode_body rest @ CHR 0x22 # post"] by simp
  next
    case None
    then have c: "c \<noteq> CHR 0x22" "c \<noteq> CHR 0x5C" "0x20 \<le> byte c"
      using escape_byte_NoneD by blast+
    show ?thesis
    proof (cases "line_separator c rest")
      case True
      then obtain x s where x: "c = CHR 0xE2" "rest = CHR 0x80 # x # s" "x = CHR 0xA8 \<or> x = CHR 0xA9"
        by (rule line_separatorE)
      let ?h = "if x = CHR 0xA8 then ''2028'' else ''2029''"
      let ?e = "CHR 0x5C # CHR ''u'' # ?h"
      have h: "length ?h = 4" "list_all is_hex_digit ?h" by (simp_all add: is_hex_digit_def is_digit_char_def)
      have e: "encode_body (c # rest) = ?e @ encode_body s" using None True x by simp
      have "skip_string_loop ((pre @ ?e) @ encode_body s @ CHR 0x22 # post) (length (pre @ ?e)) =
          Some (length (pre @ ?e) + length (encode_body s) + 1)"
        using 2(1) [OF None True, of "pre @ ?e"] x(2) by simp
      then show ?thesis
        using skip_string_unicode [OF h, of pre "encode_body s @ CHR 0x22 # post"] e by simp
    next
      case False
      then show ?thesis
        using 2(2) [OF None False, of "pre @ [c]"] skip_string_plain [OF c, of pre "encode_body rest @ CHR 0x22 # post"]
          None by simp
    qed
  qed
qed

lemma skip_string_encode: "skip_string (encode_string raw True) 0 = Some (length (encode_string raw True))"
  using skip_string_loop_encode [of "[CHR 0x22]" raw "[]"]
  by (simp add: skip_string_def encode_string_def)

lemma skip_ws_stop: "\<not> (pos < length doc \<and> is_ws (doc ! pos)) \<Longrightarrow> skip_ws doc pos = pos"
  by (subst skip_ws.simps) auto

lemma quote_not_ws [simp]: "\<not> is_ws (CHR 0x22)"
  by (simp add: is_ws_def)

lemma skip_value_string:
  assumes "pos < length doc" "doc ! pos = CHR 0x22"
  shows "skip_value doc pos = skip_string doc pos"
  using assms skip_ws_stop [of pos doc]
  by (cases "skip_string doc pos") (simp_all add: skip_value_def open_or_scalar_def walk_loop.simps)

text \<open>Every encoded string is a valid JSON document.\<close>

theorem encode_string_valid: "valid (encode_string raw True)"
proof -
  let ?doc = "encode_string raw True"
  have doc: "0 < length ?doc" "?doc ! 0 = CHR 0x22" by (simp_all add: encode_string_def)
  have "skip_ws ?doc 0 = 0" using doc by (intro skip_ws_stop) simp
  moreover have "skip_value ?doc 0 = Some (length ?doc)"
    using skip_value_string [OF doc] skip_string_encode by simp
  moreover have "skip_ws ?doc (length ?doc) = length ?doc" by (rule skip_ws_stop) simp
  ultimately show ?thesis using doc(1) by (simp add: valid_def)
qed

section \<open>Lookup\<close>

lemma skip_ws_idem [simp]: "skip_ws doc (skip_ws doc pos) = skip_ws doc pos"
proof (induction doc pos rule: skip_ws.induct)
  case (1 doc pos)
  show ?case
  proof (cases "pos < length doc \<and> is_ws (doc ! pos)")
    case True
    then have "skip_ws doc pos = skip_ws doc (pos + 1)" by (simp add: skip_ws.simps [of doc pos])
    then show ?thesis using "1.IH" [OF True] by simp
  qed (simp add: skip_ws_stop)
qed

text \<open>What a span returned by a lookup means.\<close>

definition complete_value :: "string \<Rightarrow> nat \<Rightarrow> nat \<Rightarrow> bool" where
  "complete_value doc p ve \<longleftrightarrow> skip_ws doc p = p \<and> p < length doc \<and> skip_value doc p = Some ve"

lemma find_element_complete: "find_element doc pos idx target = Some (p, ve) \<Longrightarrow> complete_value doc p ve"
proof (induction "length doc - pos" arbitrary: pos idx rule: less_induct)
  case less
  let ?pos = "skip_ws doc pos"
  have pos: "\<not> (?pos \<ge> length doc \<or> doc ! ?pos = CHR '']'')"
    using less.prems by (subst (asm) find_element.simps) (auto simp: Let_def)
  obtain e where e: "skip_value doc ?pos = Some e"
    using less.prems pos by (subst (asm) find_element.simps) (auto simp: Let_def split: option.splits)
  let ?q = "skip_ws doc e"
  have le: "pos \<le> ?pos" "?pos < e" "e \<le> ?q" using e skip_ws_ge skip_value_gt by blast+
  show ?case
  proof (cases "idx = target")
    case True
    then have "p = ?pos \<and> ve = e" using less.prems pos e
      by (subst (asm) find_element.simps) (simp add: Let_def)
    then show ?thesis using pos e by (simp add: complete_value_def)
  next
    case False
    then have "?q < length doc \<and> doc ! ?q = CHR '',''" "find_element doc (?q + 1) (idx + 1) target = Some (p, ve)"
      using less.prems pos e by (subst (asm) find_element.simps; simp add: Let_def split: if_splits)+
    then show ?thesis using less.hyps [of "?q + 1" "idx + 1"] le by auto
  qed
qed

lemma find_member_complete: "find_member doc pos target = Some (p, ve) \<Longrightarrow> complete_value doc p ve"
proof (induction "length doc - pos" arbitrary: pos rule: less_induct)
  case less
  let ?pos = "skip_ws doc pos"
  have pos: "\<not> (?pos \<ge> length doc \<or> doc ! ?pos \<noteq> CHR 0x22)"
    using less.prems by (subst (asm) find_member.simps) (simp add: Let_def split: if_splits)
  obtain ke where ke: "skip_string doc ?pos = Some ke"
    using less.prems pos by (subst (asm) find_member.simps) (auto simp: Let_def split: option.splits)
  let ?colon = "skip_ws doc ke" let ?v = "skip_ws doc (?colon + 1)"
  have v: "\<not> (?colon \<ge> length doc \<or> doc ! ?colon \<noteq> CHR '':'')" "\<not> ?v \<ge> length doc"
    using less.prems pos ke by (subst (asm) find_member.simps; simp add: Let_def split: if_splits)+
  obtain e where e: "skip_value doc ?v = Some e"
    using less.prems pos ke v
    by (subst (asm) find_member.simps) (simp add: Let_def split: option.splits)
  let ?q = "skip_ws doc e"
  have le: "pos \<le> ?pos" "?pos + 1 < ke" "ke \<le> ?colon" "?colon + 1 \<le> ?v" "?v < e" "e \<le> ?q"
    using ke e skip_ws_ge skip_value_gt skip_string_bounds by blast+
  have eq: "find_member doc pos target =
      (if decode_string (substr doc ?pos (ke - ?pos)) = target then Some (?v, e)
       else if ?q < length doc \<and> doc ! ?q = CHR '','' then find_member doc (?q + 1) target else None)"
    using pos ke v e by (subst find_member.simps) (simp add: Let_def)
  show ?case
  proof (cases "decode_string (substr doc ?pos (ke - ?pos)) = target")
    case True
    then have "p = ?v \<and> ve = e" using less.prems eq by simp
    then show ?thesis using e v(2) by (simp add: complete_value_def)
  next
    case False
    then have "?q < length doc \<and> doc ! ?q = CHR '',''" "find_member doc (?q + 1) target = Some (p, ve)"
      using trans [OF eq [symmetric] less.prems] by (simp_all split: if_splits)
    then show ?thesis using less.hyps [of "?q + 1"] le by auto
  qed
qed


lemma find_child_complete: "find_child doc pos seg = Some (p, ve) \<Longrightarrow> complete_value doc p ve"
  using find_element_complete find_member_complete by (auto simp: find_child_def split: if_splits)

text \<open>A span that a lookup returned: a complete value, tagged as a string exactly when it is one.\<close>

definition value_span_ok :: "string \<Rightarrow> value_span \<Rightarrow> bool" where
  "value_span_ok doc sp \<longleftrightarrow>
     skip_value doc (vs_start sp) = Some (vs_end sp) \<and> vs_start sp < vs_end sp \<and> vs_end sp \<le> length doc \<and>
     \<not> is_ws (doc ! vs_start sp) \<and> is_string sp = (doc ! vs_start sp = CHR 0x22)"

lemma skip_ws_fix: "skip_ws doc p = p \<Longrightarrow> p < length doc \<Longrightarrow> \<not> is_ws (doc ! p)"
  using skip_ws_ge [of "p + 1" doc] by (subst (asm) skip_ws.simps) (auto split: if_splits)

lemma complete_value_span: "complete_value doc p ve \<Longrightarrow> value_span_ok doc (span_at doc (p, ve))"
  using skip_value_gt skip_ws_fix by (auto simp: complete_value_def value_span_ok_def span_at_def)

lemma find_from_ok:
  "find_from doc pos path = Some sp \<Longrightarrow> skip_ws doc pos = pos \<Longrightarrow> pos < length doc \<Longrightarrow> value_span_ok doc sp"
proof (induction doc pos path rule: find_from.induct)
  case (1 doc pos)
  then show ?case by (auto simp: complete_value_def intro!: complete_value_span)
next
  case (2 doc pos0 seg path)
  obtain p ve where child: "find_child doc (skip_ws doc pos0) seg = Some (p, ve)"
    using "2.prems" by (auto simp: Let_def split: if_splits option.splits)
  note c = find_child_complete [OF child]
  then have "skip_ws doc p = p" "p < length doc" by (simp_all add: complete_value_def)
  then show ?case
    using "2.IH" [OF refl _ child refl] "2.prems" child complete_value_span [OF c]
    by (auto simp: Let_def split: if_splits)
qed

text \<open>C12. A lookup returns exactly one complete JSON value: the span is non-empty, inside the document,
  starts at the value's first byte, and skipping the value there ends at the span's end; it is tagged
  as a string exactly when it opens with a quote.\<close>

theorem find_value_complete:
  assumes "find_value doc path = Some sp"
  shows "skip_value doc (vs_start sp) = Some (vs_end sp) \<and> vs_start sp < vs_end sp \<and> vs_end sp \<le> length doc \<and>
    \<not> is_ws (doc ! vs_start sp) \<and> is_string sp = (doc ! vs_start sp = CHR 0x22)"
proof -
  have "value_span_ok doc sp"
    using assms find_from_ok [of doc "skip_ws doc 0" path sp] by (auto simp: find_value_def Let_def split: if_splits)
  then show ?thesis by (simp add: value_span_ok_def)
qed

theorem find_value_complete_witness:
  "let doc = ''{'' @ encode_string ''a'' True @ '': [10, 2]}'' in
     find_value doc [key_seg ''a'', index_seg 1] = Some \<lparr>vs_start = 11, vs_end = 12, is_string = False\<rparr> \<and>
     skip_value doc 11 = Some 12"
proof -
  let ?doc = "''{'' @ encode_string ''a'' True @ '': [10, 2]}''"
  have "find_value ?doc [key_seg ''a'', index_seg 1] = Some \<lparr>vs_start = 11, vs_end = 12, is_string = False\<rparr>"
    by code_simp
  then show ?thesis using find_value_complete [of ?doc "[key_seg ''a'', index_seg 1]"] by (simp add: Let_def)
qed

text \<open>The walk over an array's elements does not skip the whitespace after a comma: in
  \<open>[1, "a"]\<close> the span of the second element starts at the blank and is not tagged as a string, while
  the lookup of the same element starts at the quote and is.\<close>

theorem array_elements_leading_blank:
  "let doc = ''[1, '' @ encode_string ''a'' True @ '']'' in
     array_elements doc \<lparr>vs_start = 0, vs_end = 8, is_string = False\<rparr> =
       [\<lparr>vs_start = 1, vs_end = 2, is_string = False\<rparr>, \<lparr>vs_start = 3, vs_end = 7, is_string = False\<rparr>] \<and>
     find_value doc [index_seg 1] = Some \<lparr>vs_start = 4, vs_end = 7, is_string = True\<rparr>"
  by code_simp

lemma elements_loop_order:
  "sorted_wrt (\<lambda>a b. vs_end a \<le> vs_start b) (elements_loop doc pos) \<and>
   (\<forall>sp\<in>set (elements_loop doc pos). pos \<le> vs_start sp \<and> vs_start sp < vs_end sp \<and> vs_end sp \<le> length doc \<and>
      skip_value doc (vs_start sp) = Some (vs_end sp))"
proof (induction doc pos rule: elements_loop.induct)
  case (1 doc pos)
  show ?case
  proof (cases "skip_value doc pos")
    case (Some ve)
    let ?p = "skip_ws doc ve"
    have le: "pos < ve" "ve \<le> length doc" "ve \<le> ?p" using Some skip_value_gt skip_ws_ge by blast+
    have eq: "elements_loop doc pos = span_at doc (pos, ve) #
        (if ?p < length doc \<and> doc ! ?p = CHR '','' then elements_loop doc (?p + 1) else [])"
      using Some by (subst elements_loop.simps) (simp add: Let_def)
    show ?thesis
    proof (cases "?p < length doc \<and> doc ! ?p = CHR '',''")
      case True
      then show ?thesis using "1.IH" [OF Some refl True] le Some unfolding eq by (fastforce simp: span_at_def)
    next
      case False
      then show ?thesis using le Some unfolding eq if_not_P [OF False] by (simp add: span_at_def)
    qed
  qed (simp add: elements_loop.simps [of doc pos])
qed

text \<open>The elements of an array come out in document order, pairwise disjoint, each of them the span
  of one complete value after the opening bracket.\<close>

theorem array_elements_ordered:
  "sorted_wrt (\<lambda>a b. vs_end a \<le> vs_start b) (array_elements doc sp) \<and>
   list_all (\<lambda>e. vs_start sp < vs_start e \<and> vs_start e < vs_end e \<and> vs_end e \<le> length doc \<and>
     skip_value doc (vs_start e) = Some (vs_end e)) (array_elements doc sp)"
proof -
  have "vs_start sp < skip_ws doc (vs_start sp + 1)" using skip_ws_ge [of "vs_start sp + 1" doc] by simp
  then show ?thesis
    using elements_loop_order [of doc "skip_ws doc (vs_start sp + 1)"]
    by (auto simp: array_elements_def Let_def list_all_iff)
qed

section \<open>Edits\<close>

text \<open>The reference: one forward pass that copies what lies between the edits.\<close>

fun splice_spec :: "string \<Rightarrow> nat \<Rightarrow> (value_span \<times> string) list \<Rightarrow> string" where
  "splice_spec doc pos [] = drop pos doc"
| "splice_spec doc pos ((s, r) # edits) =
     substr doc pos (vs_start s - pos) @ r @ splice_spec doc (vs_end s) edits"

definition edits_ok :: "string \<Rightarrow> (value_span \<times> string) list \<Rightarrow> bool" where
  "edits_ok doc edits \<longleftrightarrow>
     (\<forall>e\<in>set edits. in_doc doc (fst e)) \<and> sorted_wrt (\<lambda>a b. vs_end (fst a) \<le> vs_start (fst b)) edits"

lemma check_edits_None:
  "check_edits doc prev edits = None \<longleftrightarrow>
     edits_ok doc edits \<and> (case prev of None \<Rightarrow> True | Some p \<Rightarrow> edits = [] \<or> vs_end p \<le> vs_start (fst (hd edits)))"
proof (induction doc prev edits rule: check_edits.induct)
  case (2 doc prev s r edits)
  show ?case
  proof (cases "in_doc doc s \<and> \<not> (prev \<noteq> None \<and> vs_start s < vs_end (the prev))")
    case False
    then show ?thesis by (auto simp: edits_ok_def split: option.split)
  next
    case True
    then have "check_edits doc prev ((s, r) # edits) = None \<longleftrightarrow>
        edits_ok doc edits \<and> (edits = [] \<or> vs_end s \<le> vs_start (fst (hd edits)))"
      using "2.IH" by auto
    also have "\<dots> \<longleftrightarrow> edits_ok doc ((s, r) # edits)"
      using True by (cases edits) (force simp: edits_ok_def in_doc_def)+
    finally show ?thesis using True by (auto split: option.split)
  qed
qed (auto simp: edits_ok_def split: option.split)

lemma apply_edits_append:
  "apply_edits out (xs @ ys) = (case apply_edits out xs of Inl e \<Rightarrow> Inl e | Inr out' \<Rightarrow> apply_edits out' ys)"
  by (induction out xs rule: apply_edits.induct) (auto split: sum.split)

lemma apply_edits_rev:
  assumes "edits_ok doc edits" "\<forall>e\<in>set edits. pos \<le> vs_start (fst e)" "pos \<le> length doc"
  shows "apply_edits doc (rev edits) = Inr (take pos doc @ splice_spec doc pos edits)"
  using assms
proof (induction edits arbitrary: pos)
  case (Cons e edits)
  obtain s r where e: "e = (s, r)" by force
  have s: "vs_start s \<le> vs_end s" "vs_end s \<le> length doc" "pos \<le> vs_start s"
    and rest: "edits_ok doc edits" "\<forall>x\<in>set edits. vs_end s \<le> vs_start (fst x)"
    using Cons.prems e by (auto simp: edits_ok_def in_doc_def)
  have "apply_edits doc (rev edits) = Inr (take (vs_end s) doc @ splice_spec doc (vs_end s) edits)"
    using Cons.IH rest s(2) by blast
  moreover have "take (vs_start s) doc = take pos doc @ substr doc pos (vs_start s - pos)"
    using s(3) by (metis add_diff_inverse_nat not_less substr_def take_add)
  ultimately show ?case using s
    by (simp add: e apply_edits_append splice_def in_doc_def min_def)
qed simp

text \<open>C14. Applying many edits at once equals the one-pass reference: the edits are put in order, all text
  between them is copied unchanged, and an edit outside the document or two overlapping edits are
  rejected instead.\<close>

theorem splice_all_spec:
  "splice_all doc edits =
     (let order = sort_by (\<lambda>a b. vs_start (fst a) < vs_start (fst b)) edits in
      if edits_ok doc order then Inr (splice_spec doc 0 order)
      else Inl (the (check_edits doc None order)))"
proof (cases "edits = []")
  case True
  then show ?thesis by (simp add: splice_all_def edits_ok_def)
next
  case False
  let ?order = "sort_by (\<lambda>a b. vs_start (fst a) < vs_start (fst b)) edits"
  show ?thesis
  proof (cases "edits_ok doc ?order")
    case True
    then have "check_edits doc None ?order = None" by (simp add: check_edits_None)
    then show ?thesis using False True apply_edits_rev [OF True, of 0] by (simp add: splice_all_def Let_def)
  next
    case no: False
    then have "check_edits doc None ?order \<noteq> None" by (simp add: check_edits_None)
    then show ?thesis using False no by (auto simp: splice_all_def Let_def)
  qed
qed


section \<open>String leaves\<close>

text \<open>The walk over a nested value does not depend on the frames below it.\<close>

lemma set_top_append: "us \<noteq> [] \<Longrightarrow> set_top s (us @ fs) = set_top s us @ fs"
  by (cases us; cases "hd us") auto

lemma complete_append: "us \<noteq> [] \<Longrightarrow> complete_value_in_parent (us @ fs) = complete_value_in_parent us @ fs"
  by (cases us; cases "hd us") auto

lemma set_top_Nil [simp]: "set_top s us = [] \<longleftrightarrow> us = []"
  by (cases us; cases "hd us") auto

lemma complete_Nil [simp]: "complete_value_in_parent us = [] \<longleftrightarrow> us = []"
  by (cases us; cases "hd us") auto

lemma open_or_scalar_append:
  "open_or_scalar doc p (us @ fs) = map_option (\<lambda>(q, t). (q, t @ fs)) (open_or_scalar doc p us)"
  by (simp add: open_or_scalar_def Let_def option.map_comp comp_def)

lemma open_or_scalar_length:
  "open_or_scalar doc p us = Some (q, t) \<Longrightarrow> t = us \<or> (\<exists>f. t = f # us)"
  by (auto simp: open_or_scalar_def Let_def split: if_splits)

definition below :: "walk_frame list \<Rightarrow> walk_frame list \<Rightarrow> walk_frame list" where
  "below fs t = (if t = [] then complete_value_in_parent fs else t @ fs)"

lemma walk_value_append:
  assumes "us \<noteq> []"
  shows "walk_value doc p (us @ fs) a = map_option (\<lambda>(q, t). (q, below fs t)) (walk_value doc p us a)"
proof (cases "open_or_scalar doc p us")
  case (Some qt)
  obtain q t where qt: "qt = (q, t)" by force
  have "t \<noteq> []" using open_or_scalar_length Some qt assms by blast
  then show ?thesis using Some qt assms
    by (auto simp: walk_value_def open_or_scalar_append below_def set_top_append)
qed (simp add: walk_value_def open_or_scalar_append)

lemma walk_step_append:
  assumes "us \<noteq> []"
  shows "walk_step doc p (us @ fs) = map_option (\<lambda>(q, t). (q, below fs t)) (walk_step doc p us)"
proof -
  have close: "walk_close q (us @ fs) = map_option (\<lambda>(q, t). (q, below fs t)) (walk_close q us)" for q
    using assms by (cases us) (auto simp: walk_close_def below_def complete_append)
  have key: "walk_key doc q (us @ fs) = map_option (\<lambda>(q, t). (q, below fs t)) (walk_key doc q us)" for q
    using assms by (auto simp: walk_key_def below_def set_top_append option.map_comp comp_def)
  have comma: "Some (q, set_top s (us @ fs)) = map_option (\<lambda>(q, t). (q, below fs t)) (Some (q, set_top s us))" for q s
    using assms by (simp add: below_def set_top_append)
  have hd: "hd (us @ fs) = hd us" using assms by simp
  show ?thesis
    unfolding walk_step_def Let_def hd walk_value_append [OF assms] close key comma
    by (auto split: walk_state.split)
qed

lemma walk_loop_append:
  assumes "us \<noteq> []"
  shows "walk_loop doc p (us @ fs) =
    (case walk_loop doc p us of None \<Rightarrow> None | Some q \<Rightarrow> walk_loop doc q (complete_value_in_parent fs))"
  using assms
proof (induction doc p us rule: walk_loop.induct)
  case (1 doc p us)
  show ?case
  proof (cases "walk_step doc p us")
    case None
    then show ?thesis using "1.prems" by (simp add: walk_loop.simps [of doc p] walk_step_append)
  next
    case (Some qt)
    obtain q t where qt: "qt = (q, t)" by force
    have "walk_loop doc p (us @ fs) = walk_loop doc q (below fs t)"
      using "1.prems" Some qt by (simp add: walk_loop.simps [of doc p] walk_step_append)
    moreover have "walk_loop doc p us = walk_loop doc q t"
      using "1.prems" Some qt by (simp add: walk_loop.simps [of doc p])
    moreover have "walk_loop doc q (t @ fs) =
        (case walk_loop doc q t of None \<Rightarrow> None | Some q \<Rightarrow> walk_loop doc q (complete_value_in_parent fs))" if "t \<noteq> []"
      using "1.IH" [OF "1.prems" Some [unfolded qt] refl that] .
    ultimately show ?thesis by (cases "t = []") (simp_all add: below_def walk_loop.simps [of doc q "[]"])
  qed
qed

text \<open>So a container's walk is: its first value, then the walk on with that value behind it.\<close>

lemma walk_value_then:
  assumes "skip_ws doc p = p" "p < length doc"
  shows "(case walk_value doc p [(k, s)] a of None \<Rightarrow> None | Some (q, t) \<Rightarrow> walk_loop doc q t) =
    (case skip_value doc p of None \<Rightarrow> None
     | Some ve \<Rightarrow> walk_loop doc ve (if length (the (map_option snd (open_or_scalar doc p []))) = 0
         then [(k, a)] else complete_value_in_parent [(k, s)]))"
proof (cases "open_or_scalar doc p []")
  case None
  then show ?thesis using assms open_or_scalar_append [of doc p "[]" "[(k, s)]"]
    by (simp add: walk_value_def skip_value_def)
next
  case (Some qt)
  obtain q t where qt: "qt = (q, t)" by force
  consider "t = []" | f where "t = [f]" using open_or_scalar_length [of doc p "[]" q t] Some qt by auto
  then show ?thesis
  proof cases
    case 1
    then show ?thesis using assms open_or_scalar_append [of doc p "[]" "[(k, s)]"] Some qt
      by (simp add: walk_value_def skip_value_def walk_loop.simps [of doc q "[]"])
  next
    case (2 f)
    then show ?thesis using assms open_or_scalar_append [of doc p "[]" "[(k, s)]"] Some qt
        walk_loop_append [of "[f]" doc q "[(k, s)]"]
      by (simp add: walk_value_def skip_value_def)
  qed
qed


lemma walk_array_value:
  assumes "skip_ws doc p = p" "p < length doc"
  shows "(case walk_value doc p [(CHR ''['', s)] ArrayAfterValue of None \<Rightarrow> None | Some (q, t) \<Rightarrow> walk_loop doc q t) =
    (case skip_value doc p of None \<Rightarrow> None | Some ve \<Rightarrow> walk_loop doc ve [(CHR ''['', ArrayAfterValue)])"
  unfolding walk_value_then [OF assms] by (cases "skip_value doc p") simp_all

lemma walk_object_value:
  assumes "skip_ws doc p = p" "p < length doc"
  shows "(case walk_value doc p [(CHR ''{'', s)] ObjectAfterValue of None \<Rightarrow> None | Some (q, t) \<Rightarrow> walk_loop doc q t) =
    (case skip_value doc p of None \<Rightarrow> None | Some ve \<Rightarrow> walk_loop doc ve [(CHR ''{'', ObjectAfterValue)])"
  unfolding walk_value_then [OF assms] by (cases "skip_value doc p") simp_all

text \<open>Tasks in document order: each starts a complete value that ends before the next one starts.\<close>

fun ordered_tasks :: "string \<Rightarrow> nat \<Rightarrow> nat \<Rightarrow> walk_task list \<Rightarrow> bool" where
  "ordered_tasks doc lo hi [] \<longleftrightarrow> lo \<le> hi"
| "ordered_tasks doc lo hi (t # ts) \<longleftrightarrow>
     lo \<le> snd t \<and> (\<exists>ve. skip_value doc (snd t) = Some ve \<and> ordered_tasks doc ve hi ts)"

lemma ordered_tasks_mono: "ordered_tasks doc lo hi ts \<Longrightarrow> lo' \<le> lo \<Longrightarrow> hi \<le> hi' \<Longrightarrow> ordered_tasks doc lo' hi' ts"
  by (induction doc lo hi ts arbitrary: lo' rule: ordered_tasks.induct) auto

lemma ordered_tasks_append:
  "ordered_tasks doc lo mid ts \<Longrightarrow> ordered_tasks doc mid hi us \<Longrightarrow> ordered_tasks doc lo hi (ts @ us)"
  by (induction doc lo mid ts rule: ordered_tasks.induct) (auto elim: ordered_tasks_mono)

text \<open>The rest of an array after a value.\<close>

lemma walk_after_value:
  assumes "walk_loop doc ve [(CHR ''['', ArrayAfterValue)] = Some e"
  shows "skip_ws doc ve < length doc \<and>
    (doc ! skip_ws doc ve = CHR '']'' \<and> e = skip_ws doc ve + 1 \<or>
     doc ! skip_ws doc ve = CHR '','' \<and> walk_loop doc (skip_ws doc ve + 1) [(CHR ''['', ArrayAfterComma)] = Some e)"
  using assms
  by (auto simp: walk_loop.simps [of doc ve] walk_step_def Let_def walk_close_def walk_loop.simps [of doc _ "[]"]
      split: if_splits)

lemma walk_after_member:
  assumes "walk_loop doc ve [(CHR ''{'', ObjectAfterValue)] = Some e"
  shows "skip_ws doc ve < length doc \<and>
    (doc ! skip_ws doc ve = CHR ''}'' \<and> e = skip_ws doc ve + 1 \<or>
     doc ! skip_ws doc ve = CHR '','' \<and> walk_loop doc (skip_ws doc ve + 1) [(CHR ''{'', ObjectAfterComma)] = Some e)"
  using assms
  by (auto simp: walk_loop.simps [of doc ve] walk_step_def Let_def walk_close_def walk_loop.simps [of doc _ "[]"]
      split: if_splits)

lemma walk_array_elem:
  assumes "walk_loop doc p0 [(CHR ''['', s)] = Some e"
    and "s = ArrayAfterComma \<or> s = ArrayStart \<and> doc ! skip_ws doc p0 \<noteq> CHR '']''"
  shows "skip_ws doc p0 < length doc \<and> (\<exists>ve. skip_value doc (skip_ws doc p0) = Some ve \<and>
    walk_loop doc ve [(CHR ''['', ArrayAfterValue)] = Some e)"
proof -
  let ?p = "skip_ws doc p0"
  have lt: "?p < length doc"
    using assms(1) by (auto simp: walk_loop.simps [of doc p0] walk_step_def Let_def split: if_splits)
  have "walk_loop doc p0 [(CHR ''['', s)] =
      (case walk_value doc ?p [(CHR ''['', s)] ArrayAfterValue of None \<Rightarrow> None | Some (q, t) \<Rightarrow> walk_loop doc q t)"
    using assms(2) lt by (auto simp: walk_loop.simps [of doc p0] walk_step_def Let_def)
  then show ?thesis
    using assms(1) lt walk_array_value [of doc ?p s] by (auto split: option.splits)
qed

lemma array_children_ordered:
  "walk_loop doc p0 [(CHR ''['', s)] = Some e \<Longrightarrow>
   s = ArrayAfterComma \<or> s = ArrayStart \<and> doc ! skip_ws doc p0 \<noteq> CHR '']'' \<Longrightarrow>
   \<exists>cs. array_children doc path idx p0 = Some cs \<and> ordered_tasks doc p0 e cs"
proof (induction "length doc - p0" arbitrary: p0 idx s rule: less_induct)
  case less
  let ?p = "skip_ws doc p0"
  obtain ve where ve: "?p < length doc" "skip_value doc ?p = Some ve"
      "walk_loop doc ve [(CHR ''['', ArrayAfterValue)] = Some e"
    using walk_array_elem [OF less.prems] by blast
  let ?q = "skip_ws doc ve" let ?child = "(path @ [index_seg idx], ?p)"
  have le: "p0 \<le> ?p" "?p < ve" "ve \<le> ?q" "?q < length doc"
    using ve skip_ws_ge skip_value_gt walk_after_value by blast+
  have eq: "array_children doc path idx p0 =
      (if doc ! ?q = CHR '','' then map_option ((#) ?child) (array_children doc path (idx + 1) (?q + 1))
       else if doc ! ?q = CHR '']'' then Some [?child] else None)"
    using ve le by (simp add: array_children.simps [of doc path idx p0] Let_def)
  consider "doc ! ?q = CHR '']''" "e = ?q + 1"
    | "doc ! ?q = CHR '',''" "walk_loop doc (?q + 1) [(CHR ''['', ArrayAfterComma)] = Some e"
    using walk_after_value [OF ve(3)] by blast
  then show ?case
  proof cases
    case 1
    then show ?thesis using eq ve le by simp
  next
    case 2
    have lt: "length doc - (?q + 1) < length doc - p0" using le by linarith
    obtain cs where "array_children doc path (idx + 1) (?q + 1) = Some cs" "ordered_tasks doc (?q + 1) e cs"
      using less.hyps [OF lt 2(2)] by blast
    then show ?thesis using eq 2(1) ve le by (auto elim: ordered_tasks_mono)
  qed
qed

lemma walk_object_member:
  assumes "walk_loop doc p0 [(CHR ''{'', s)] = Some e"
    and "s = ObjectAfterComma \<or> s = ObjectStart \<and> doc ! skip_ws doc p0 \<noteq> CHR ''}''"
  shows "skip_ws doc p0 < length doc \<and> doc ! skip_ws doc p0 = CHR 0x22 \<and>
    (\<exists>ke. skip_string doc (skip_ws doc p0) = Some ke \<and>
       skip_ws doc ke < length doc \<and> doc ! skip_ws doc ke = CHR '':'' \<and>
       (let v = skip_ws doc (Suc (skip_ws doc ke)) in v < length doc \<and>
         (\<exists>ve. skip_value doc v = Some ve \<and> walk_loop doc ve [(CHR ''{'', ObjectAfterValue)] = Some e)))"
proof -
  let ?p = "skip_ws doc p0"
  have lt: "?p < length doc"
    using assms(1) by (auto simp: walk_loop.simps [of doc p0] walk_step_def Let_def split: if_splits)
  have "walk_loop doc p0 [(CHR ''{'', s)] =
      (case walk_key doc ?p [(CHR ''{'', s)] of None \<Rightarrow> None | Some (q, t) \<Rightarrow> walk_loop doc q t)"
    using assms(2) lt by (auto simp: walk_loop.simps [of doc p0] walk_step_def Let_def)
  then obtain ke where ke: "doc ! ?p = CHR 0x22" "skip_string doc ?p = Some ke"
      "walk_loop doc ke [(CHR ''{'', ObjectAfterKey)] = Some e"
    using assms(1) by (auto simp: walk_key_def split: option.splits if_splits)
  let ?c = "skip_ws doc ke"
  have c: "?c < length doc" "doc ! ?c = CHR '':''" "walk_loop doc (Suc ?c) [(CHR ''{'', ObjectAfterColon)] = Some e"
    using ke(3) by (auto simp: walk_loop.simps [of doc ke] walk_step_def Let_def split: if_splits)
  let ?v = "skip_ws doc (Suc ?c)"
  have v: "?v < length doc"
    using c(3) by (auto simp: walk_loop.simps [of doc "Suc ?c"] walk_step_def Let_def split: if_splits)
  have "walk_loop doc (Suc ?c) [(CHR ''{'', ObjectAfterColon)] =
      (case walk_value doc ?v [(CHR ''{'', ObjectAfterColon)] ObjectAfterValue of None \<Rightarrow> None
       | Some (q, t) \<Rightarrow> walk_loop doc q t)"
    using v by (auto simp: walk_loop.simps [of doc "Suc ?c"] walk_step_def Let_def)
  then obtain ve where "skip_value doc ?v = Some ve" "walk_loop doc ve [(CHR ''{'', ObjectAfterValue)] = Some e"
    using c(3) v walk_object_value [of doc ?v ObjectAfterColon] by (auto split: option.splits)
  then show ?thesis using lt ke c(1,2) v by (auto simp: Let_def)
qed

lemma object_children_ordered:
  "walk_loop doc p0 [(CHR ''{'', s)] = Some e \<Longrightarrow>
   s = ObjectAfterComma \<or> s = ObjectStart \<and> doc ! skip_ws doc p0 \<noteq> CHR ''}'' \<Longrightarrow>
   \<exists>cs. object_children doc path p0 = Some cs \<and> ordered_tasks doc p0 e cs"
proof (induction "length doc - p0" arbitrary: p0 s rule: less_induct)
  case less
  let ?p = "skip_ws doc p0"
  obtain ke ve where m: "?p < length doc" "doc ! ?p = CHR 0x22" "skip_string doc ?p = Some ke"
      "skip_ws doc ke < length doc" "doc ! skip_ws doc ke = CHR '':''"
      "skip_ws doc (skip_ws doc ke + 1) < length doc" "skip_value doc (skip_ws doc (skip_ws doc ke + 1)) = Some ve"
      "walk_loop doc ve [(CHR ''{'', ObjectAfterValue)] = Some e"
    using walk_object_member [OF less.prems] by (auto simp: Let_def)
  let ?v = "skip_ws doc (skip_ws doc ke + 1)"
  let ?q = "skip_ws doc ve" let ?child = "(path @ [key_seg (decode_string (substr doc ?p (ke - ?p)))], ?v)"
  have le: "p0 \<le> ?p" "?p + 1 < ke" "ke \<le> skip_ws doc ke" "skip_ws doc ke + 1 \<le> ?v" "?v < ve" "ve \<le> ?q" "?q < length doc"
    using m skip_ws_ge skip_value_gt skip_string_bounds walk_after_member by blast+
  have eq: "object_children doc path p0 =
      (if doc ! ?q = CHR '','' then map_option ((#) ?child) (object_children doc path (?q + 1))
       else if doc ! ?q = CHR ''}'' then Some [?child] else None)"
    using m le by (simp add: object_children.simps [of doc path p0] Let_def)
  consider "doc ! ?q = CHR ''}''" "e = ?q + 1"
    | "doc ! ?q = CHR '',''" "walk_loop doc (?q + 1) [(CHR ''{'', ObjectAfterComma)] = Some e"
    using walk_after_member [OF m(8)] by blast
  then show ?case
  proof cases
    case 1
    then show ?thesis using eq m(7) le by simp
  next
    case 2
    have lt: "length doc - (?q + 1) < length doc - p0" using le by linarith
    obtain cs where "object_children doc path (?q + 1) = Some cs" "ordered_tasks doc (?q + 1) e cs"
      using less.hyps [OF lt 2(2)] by blast
    then show ?thesis using eq 2(1) m(7) le by (auto elim: ordered_tasks_mono)
  qed
qed


lemma skip_value_skip_ws [simp]: "skip_value doc (skip_ws doc p) = skip_value doc p"
  by (simp add: skip_value_def)

lemma skip_value_open:
  assumes "skip_value doc p = Some ve" "doc ! skip_ws doc p = k" "k = CHR ''{'' \<and> s = ObjectStart \<or> k = CHR ''['' \<and> s = ArrayStart"
  shows "walk_loop doc (skip_ws doc p + 1) [(k, s)] = Some ve"
proof -
  have "\<not> is_digit_char CHR ''{''" "\<not> is_digit_char CHR ''[''" by (simp_all add: is_digit_char_def)
  then have "open_or_scalar doc (skip_ws doc p) [] = Some (skip_ws doc p + 1, [(k, s)])"
    if "skip_ws doc p < length doc"
    using assms(2,3) that by (auto simp: open_or_scalar_def Let_def)
  then show ?thesis using assms(1) by (auto simp: skip_value_def Let_def split: if_splits)
qed

lemma array_children_skip_ws: "array_children doc path idx (skip_ws doc p) = array_children doc path idx p"
  by (subst (1 2) array_children.simps) simp

lemma walk_close_start:
  assumes "walk_loop doc p [(k, s)] = Some e" "s = ObjectStart \<and> doc ! skip_ws doc p = CHR ''}'' \<or>
      s = ArrayStart \<and> doc ! skip_ws doc p = CHR '']''"
  shows "p < e \<and> skip_ws doc p < length doc"
  using assms walk_step_bounds [of doc p "[(k, s)]"] skip_ws_ge [of p doc]
  by (auto simp: walk_loop.simps [of doc p] walk_step_def Let_def walk_close_def walk_loop.simps [of doc _ "[]"]
      split: if_splits)

lemma visit_ordered:
  assumes "skip_value doc (snd t) = Some ve" "visit doc t = (ls, cs)"
  shows "ls = [] \<and> ordered_tasks doc (snd t) ve cs \<or>
    (\<exists>pos. cs = [] \<and> snd t \<le> pos \<and> doc ! pos = CHR 0x22 \<and> skip_string doc pos = Some ve \<and>
       ls = [\<lparr>leaf_path = fst t, leaf_span = \<lparr>vs_start = pos, vs_end = ve, is_string = True\<rparr>\<rparr>])"
proof -
  let ?pos = "skip_ws doc (snd t)"
  have b: "snd t \<le> ?pos" "?pos < ve" "ve \<le> length doc" using assms(1) skip_value_bounds skip_ws_ge by blast+
  consider "doc ! ?pos = CHR 0x22" | "doc ! ?pos = CHR ''{''" | "doc ! ?pos = CHR ''[''"
    | "doc ! ?pos \<noteq> CHR 0x22" "doc ! ?pos \<noteq> CHR ''{''" "doc ! ?pos \<noteq> CHR ''[''" by blast
  then show ?thesis
  proof cases
    case 1
    then have "skip_string doc ?pos = Some ve"
      using skip_value_string [of ?pos doc] assms(1) b by simp
    then show ?thesis using assms(2) 1 b by (auto simp: visit_def Let_def intro: exI [of _ ?pos])
  next
    case 2
    note w = skip_value_open [OF assms(1) refl, unfolded 2, of ObjectStart, simplified]
    show ?thesis
    proof (cases "doc ! skip_ws doc (?pos + 1) = CHR ''}''")
      case True
      then have "object_children doc (fst t) (?pos + 1) = Some []"
        using walk_close_start [OF w] by (subst object_children.simps) simp
      then show ?thesis using assms(2) 2 b by (simp add: visit_def Let_def)
    next
      case False
      then obtain cs' where "object_children doc (fst t) (Suc ?pos) = Some cs'" "ordered_tasks doc (Suc ?pos) ve cs'"
        using object_children_ordered [OF w, of "fst t"] by auto
      then show ?thesis using assms(2) 2 b by (auto simp: visit_def Let_def elim: ordered_tasks_mono)
    qed
  next
    case 3
    note w = skip_value_open [OF assms(1) refl, unfolded 3, of ArrayStart, simplified]
    show ?thesis
    proof (cases "doc ! skip_ws doc (?pos + 1) = CHR '']''")
      case True
      then have "skip_ws doc (?pos + 1) < length doc" using walk_close_start [OF w] by simp
      then show ?thesis using assms(2) 3 b True by (simp add: visit_def Let_def)
    next
      case False
      then obtain cs' where "array_children doc (fst t) 0 (Suc ?pos) = Some cs'" "ordered_tasks doc (Suc ?pos) ve cs'"
        using array_children_ordered [OF w, of "fst t" 0] by auto
      then show ?thesis using assms(2) 3 b False
        by (auto simp: visit_def Let_def array_children_skip_ws elim: ordered_tasks_mono)
    qed
  next
    case 4
    then show ?thesis using assms(2) b by (auto simp: visit_def Let_def)
  qed
qed

definition leaf_ok :: "string \<Rightarrow> string_leaf \<Rightarrow> bool" where
  "leaf_ok doc l \<longleftrightarrow> is_string (leaf_span l) \<and> skip_string doc (vs_start (leaf_span l)) = Some (vs_end (leaf_span l))"

definition leaves_ordered :: "string \<Rightarrow> nat \<Rightarrow> string_leaf list \<Rightarrow> bool" where
  "leaves_ordered doc hi ls \<longleftrightarrow>
     sorted_wrt (\<lambda>a b. vs_end (leaf_span a) \<le> vs_start (leaf_span b)) ls \<and>
     (\<forall>l\<in>set ls. leaf_ok doc l \<and> vs_end (leaf_span l) \<le> hi)"

lemma leaves_loop_ordered:
  "ordered_tasks doc lo hi stack \<Longrightarrow> leaves_ordered doc lo result \<Longrightarrow>
     leaves_ordered doc hi (leaves_loop doc stack result)"
proof (induction doc stack result arbitrary: lo rule: leaves_loop.induct)
  case (1 doc result)
  then show ?case by (auto simp: leaves_ordered_def)
next
  case (2 doc task stack result)
  obtain ls cs where v: "visit doc task = (ls, cs)" by force
  obtain ve where ve: "lo \<le> snd task" "skip_value doc (snd task) = Some ve" "ordered_tasks doc ve hi stack"
    using "2.prems"(1) by auto
  from visit_ordered [OF ve(2) v] have "leaves_ordered doc hi (leaves_loop doc (cs @ stack) (result @ ls))"
  proof (elim disjE exE conjE)
    assume "ls = []" "ordered_tasks doc (snd task) ve cs"
    then have "ordered_tasks doc lo hi (cs @ stack)"
      using ve ordered_tasks_append ordered_tasks_mono by blast
    then show ?thesis using "2.IH" [OF v [symmetric] refl] "2.prems"(2) \<open>ls = []\<close> by simp
  next
    fix pos
    assume l: "cs = []" "snd task \<le> pos" "doc ! pos = CHR 0x22" "skip_string doc pos = Some ve"
      "ls = [\<lparr>leaf_path = fst task, leaf_span = \<lparr>vs_start = pos, vs_end = ve, is_string = True\<rparr>\<rparr>]"
    have "pos + 1 < ve" using l(4) skip_string_bounds by blast
    then have "leaves_ordered doc ve (result @ ls)"
      using "2.prems"(2) l ve(1) by (fastforce simp: leaves_ordered_def leaf_ok_def sorted_wrt_append)
    then show ?thesis using "2.IH" [OF v [symmetric] refl] ve(3) l(1) by simp
  qed
  then show ?case using v by simp
qed

text \<open>The string leaves of a document come out in document order and pairwise disjoint, and each of
  them is exactly one string literal: skipping the string at its start ends at its end.\<close>

theorem string_leaves_ordered:
  "sorted_wrt (\<lambda>a b. vs_end (leaf_span a) \<le> vs_start (leaf_span b)) (string_leaves doc root) \<and>
   list_all (\<lambda>l. is_string (leaf_span l) \<and>
     skip_string doc (vs_start (leaf_span l)) = Some (vs_end (leaf_span l))) (string_leaves doc root)"
proof (cases "find_value doc root")
  case (Some sp)
  have "value_span_ok doc sp"
    using Some find_from_ok [of doc "skip_ws doc 0" root sp] by (auto simp: find_value_def Let_def split: if_splits)
  then have "ordered_tasks doc 0 (vs_end sp) [(root, vs_start sp)]" by (simp add: value_span_ok_def)
  then have "leaves_ordered doc (vs_end sp) (leaves_loop doc [(root, vs_start sp)] [])"
    by (rule leaves_loop_ordered) (simp add: leaves_ordered_def)
  then show ?thesis using Some by (simp add: string_leaves_def leaves_ordered_def leaf_ok_def list_all_iff)
qed (simp add: string_leaves_def)

end
