(* ===== verification/Unicode.thy ===== *)
theory Unicode
  imports Prelude
begin

text \<open>
  \<open>src/src/guard/Unicode.hpp\<close>: the ASCII case and trim helpers, and the Unicode-aware
  \<open>to_lower_utf8\<close>.  The code point decoder, the lowercase table and the encoder belong to the
  \<open>utf8proc\<close> library; they are the fields of the parameter \<open>utf8proc\<close>.
\<close>

section \<open>ASCII helpers\<close>

text \<open>\<open>std::toupper\<close>, \<open>std::tolower\<close> and \<open>std::isspace\<close> in the "C" locale.\<close>

definition ascii_upper_byte :: "char \<Rightarrow> char" where
  "ascii_upper_byte c = (if is_lower_char c then char_of (byte c - 32) else c)"

definition ascii_lower_byte :: "char \<Rightarrow> char" where
  "ascii_lower_byte c = (if is_upper_char c then char_of (byte c + 32) else c)"

definition is_space_char :: "char \<Rightarrow> bool" where
  [byte_defs]: "is_space_char c \<longleftrightarrow> byte c = 32 \<or> 9 \<le> byte c \<and> byte c \<le> 13"

definition ascii_to_upper :: "string \<Rightarrow> string" where
  "ascii_to_upper s = map ascii_upper_byte s"

definition ascii_trim :: "string \<Rightarrow> string" where
  "ascii_trim s = rev (dropWhile is_space_char (rev (dropWhile is_space_char s)))"

definition is_ascii :: "string \<Rightarrow> bool" where
  "is_ascii s \<longleftrightarrow> (\<forall>c\<in>set s. byte c < 128)"

lemma ascii_trim_no_space:
  "ascii_trim s = [] \<or> \<not> is_space_char (hd (ascii_trim s)) \<and> \<not> is_space_char (last (ascii_trim s))"
proof -
  let ?t = "dropWhile is_space_char s"
  let ?u = "dropWhile is_space_char (rev ?t)"
  show ?thesis
  proof (cases "?u = []")
    case True
    then show ?thesis by (simp add: ascii_trim_def)
  next
    case False
    have "\<not> is_space_char (hd ?u)" using False by (rule hd_dropWhile)
    moreover have "\<not> is_space_char (last ?u)"
    proof -
      have ne: "?t \<noteq> []" using False by (metis dropWhile.simps(1) rev.simps(1))
      have "suffix ?u (rev ?t)" by (simp add: suffix_dropWhile)
      then have "last ?u = last (rev ?t)" using False by (metis suffix_def last_appendR)
      also have "\<dots> = hd ?t" using ne by (simp add: last_rev)
      finally show ?thesis using ne by (simp add: hd_dropWhile)
    qed
    ultimately show ?thesis using False by (simp add: ascii_trim_def hd_rev last_rev)
  qed
qed

lemma ascii_trim_id:
  "(s \<noteq> [] \<Longrightarrow> \<not> is_space_char (hd s) \<and> \<not> is_space_char (last s)) \<Longrightarrow> ascii_trim s = s"
  by (cases "s = []")
    (simp_all add: ascii_trim_def dropWhile_eq_self_iff [THEN iffD2] hd_rev)

lemma ascii_trim_idem [simp]: "ascii_trim (ascii_trim s) = ascii_trim s"
  using ascii_trim_no_space [of s] by (intro ascii_trim_id) auto

lemma set_ascii_trim: "set (ascii_trim s) \<subseteq> set s"
  by (auto simp: ascii_trim_def dest!: set_dropWhileD)

lemma ascii_trim_Nil_iff: "ascii_trim s = [] \<longleftrightarrow> (\<forall>c\<in>set s. is_space_char c)"
proof -
  let ?u = "dropWhile is_space_char s"
  have "ascii_trim s = [] \<longleftrightarrow> dropWhile is_space_char ?u = []"
    by (simp only: ascii_trim_def rev_is_Nil_conv dropWhile_eq_Nil_conv set_rev)
  also have "\<dots> \<longleftrightarrow> ?u = []" by (simp only: dropWhile_idem)
  finally show ?thesis by (simp add: dropWhile_eq_Nil_conv)
qed

section \<open>Lowercasing UTF-8 text\<close>

text \<open>
  \<open>u8_iterate bytes = (consumed, cp)\<close> is \<open>utf8proc_iterate\<close>; \<open>consumed = 0\<close> stands for a
  result \<open>\<le> 0\<close>, an undecodable byte.  \<open>u8_encode cp\<close> is the byte string \<open>utf8proc_encode_char\<close>
  writes, empty when it writes none.
\<close>

record utf8proc =
  u8_iterate :: "string \<Rightarrow> nat \<times> nat"
  u8_tolower :: "nat \<Rightarrow> nat"
  u8_encode :: "nat \<Rightarrow> string"

function to_lower_loop :: "utf8proc \<Rightarrow> string \<Rightarrow> string" where
  "to_lower_loop u [] = []"
| "to_lower_loop u (c # cs) =
     (case u8_iterate u (c # cs) of (consumed, cp) \<Rightarrow>
        if consumed = 0 then c # to_lower_loop u cs
        else
          (let w = u8_encode u (u8_tolower u cp) in
           (if w \<noteq> [] then w else take consumed (c # cs))
             @ to_lower_loop u (drop consumed (c # cs))))"
  by pat_completeness auto
termination
  by (relation "measure (\<lambda>(u, s). length s)") auto

definition to_lower_utf8 :: "utf8proc \<Rightarrow> string \<Rightarrow> string" where
  "to_lower_utf8 u s = (if is_ascii s then map ascii_lower_byte s else to_lower_loop u s)"

lemma ascii_lower_byte_idem [simp]: "ascii_lower_byte (ascii_lower_byte c) = ascii_lower_byte c"
  by (auto simp: ascii_lower_byte_def byte_defs)

lemma ascii_lower_byte_ascii: "byte c < 128 \<Longrightarrow> byte (ascii_lower_byte c) < 128"
  by (auto simp: ascii_lower_byte_def byte_defs)

lemma to_lower_utf8_ascii: "is_ascii s \<Longrightarrow> to_lower_utf8 u s = map ascii_lower_byte s"
  by (simp add: to_lower_utf8_def)

lemma to_lower_utf8_ascii_idem:
  "is_ascii s \<Longrightarrow> to_lower_utf8 u (to_lower_utf8 u s) = to_lower_utf8 u s"
  by (auto simp: to_lower_utf8_def is_ascii_def ascii_lower_byte_ascii)

end
