(* ===== verification/Rules.thy ===== *)
theory Rules
  imports Complex_Main Unicode
begin

text \<open>
  The data shared by the masking engine: \<open>src/src/guard/Rule.hpp\<close> (data types, rules),
  \<open>MaskingState.hpp\<close> (the outcome of masking) and \<open>Errors.hpp\<close> (the one exception type of the
  loader and compiler).
\<close>

section \<open>Data types\<close>

text \<open>
  \<open>enum class DataType : int\<close>.  The loader casts an arbitrary YAML integer to it and the masker
  is written for values outside the declared ones, so the type is the underlying \<^typ>\<open>int\<close> and the
  enumerators are constants.
\<close>

type_synonym data_type = int

abbreviation (input) dt_unspecified :: data_type where "dt_unspecified \<equiv> 0"
abbreviation (input) dt_credentials :: data_type where "dt_credentials \<equiv> 1"
abbreviation (input) dt_api_keys :: data_type where "dt_api_keys \<equiv> 2"
abbreviation (input) dt_access_tokens :: data_type where "dt_access_tokens \<equiv> 3"
abbreviation (input) dt_ip_addresses :: data_type where "dt_ip_addresses \<equiv> 4"
abbreviation (input) dt_personal_data :: data_type where "dt_personal_data \<equiv> 5"
abbreviation (input) dt_custom :: data_type where "dt_custom \<equiv> 6"

text \<open>The loop over the numeric form stops as soon as the value exceeds 6.\<close>

fun data_type_digits :: "int \<Rightarrow> string \<Rightarrow> data_type option" where
  "data_type_digits v [] = Some v"
| "data_type_digits v (c # cs) =
     (let v' = v * 10 + int (digit_val c) in
      if v' > 6 then None else data_type_digits v' cs)"

definition data_type_from_string :: "string \<Rightarrow> data_type option" where
  "data_type_from_string s =
     (if s = [] then None
      else if list_all is_digit_char s then data_type_digits 0 s
      else let upper = ascii_to_upper s in
        if upper = ''UNSPECIFIED'' then Some dt_unspecified
        else if upper = ''CREDENTIALS'' then Some dt_credentials
        else if upper = ''API_KEYS'' then Some dt_api_keys
        else if upper = ''ACCESS_TOKENS'' then Some dt_access_tokens
        else if upper = ''IP_ADDRESSES'' then Some dt_ip_addresses
        else if upper = ''PERSONAL_DATA'' then Some dt_personal_data
        else if upper = ''CUSTOM'' then Some dt_custom
        else None)"

definition data_type_name :: "data_type \<Rightarrow> string" where
  "data_type_name t =
     (if t = dt_unspecified then ''UNSPECIFIED''
      else if t = dt_credentials then ''CREDENTIALS''
      else if t = dt_api_keys then ''API_KEYS''
      else if t = dt_access_tokens then ''ACCESS_TOKENS''
      else if t = dt_ip_addresses then ''IP_ADDRESSES''
      else if t = dt_personal_data then ''PERSONAL_DATA''
      else if t = dt_custom then ''CUSTOM''
      else ''UNSPECIFIED'')"

lemma data_type_digits_range: "data_type_digits v s = Some d \<Longrightarrow> 0 \<le> v \<Longrightarrow> v \<le> 6 \<Longrightarrow> 0 \<le> d \<and> d \<le> 6"
  by (induction v s rule: data_type_digits.induct) (auto simp: Let_def split: if_splits)

lemma data_type_from_string_range: "data_type_from_string s = Some d \<Longrightarrow> 0 \<le> d \<and> d \<le> 6"
  by (auto simp: data_type_from_string_def Let_def split: if_splits dest: data_type_digits_range)

lemma declared_data_type_cases:
  fixes d :: data_type
  assumes "0 \<le> d" "d \<le> 6"
  obtains "d = 0" | "d = 1" | "d = 2" | "d = 3" | "d = 4" | "d = 5" | "d = 6"
  using assms by linarith

section \<open>Rules\<close>

record masking =
  capture_groups :: "int list"
  placeholder :: string

text \<open>\<open>entropy\<close> is a C++ \<open>double\<close>; the model takes exact real arithmetic for it.\<close>

record rule =
  rule_id :: string
  rule_name :: string
  rule_group :: string
  rule_data_type :: data_type
  regex :: string
  rule_keywords :: "string list"
  validators :: "string list"
  min_length :: nat
  entropy :: real
  banlist :: "string list"
  default_on :: bool
  rule_masking :: masking

definition default_rule :: rule where
  "default_rule =
     \<lparr>rule_id = [], rule_name = [], rule_group = [], rule_data_type = dt_unspecified, regex = [],
      rule_keywords = [], validators = [], min_length = 0, entropy = 0, banlist = [], default_on = True,
      rule_masking = \<lparr>capture_groups = [], placeholder = []\<rparr>\<rparr>"

record data_type_group =
  group_data_type :: data_type
  group_priority :: int
  group_name :: string
  group_display_name :: string
  group_description :: string

section \<open>Masking state\<close>

record replacement =
  rep_rule_id :: string
  rep_data_type :: data_type
  rep_original :: string
  rep_placeholder :: string

record masking_state =
  triggered_rule_ids :: "string list"
  triggered_data_types :: "data_type list"
  replacements :: "replacement list"
  state_format :: string

section \<open>Errors\<close>

datatype rule_error_code =
    InvalidId
  | DuplicateId
  | UnknownValidator
  | BadRegex
  | BadCaptureGroup
  | UnboundedPlaceholder
  | ParseError

record rule_error =
  error_code :: rule_error_code
  error_what :: string

text \<open>\<open>std::runtime_error\<close> and its message, where a component throws no type of its own.\<close>

datatype runtime_error = RuntimeError string

end
