(* ===== verification/Checksums.thy ===== *)
theory Checksums
  imports Rules
begin

text \<open>
  The checksum validators of \<open>src/src/guard/Validators.hpp\<close>: Luhn, SNILS, INN, OGRN, OGRNIP and
  IBAN.  The digit arithmetic of the numeric ones only ever sees ASCII digits (each caller checks),
  so it is over \<^typ>\<open>nat\<close>; the IBAN arithmetic also sees bytes that are no digits, so it is over
  \<^typ>\<open>int\<close> with C's signed \<open>char\<close> and truncating remainder.
\<close>

section \<open>Definitions\<close>

definition strip_non_digits :: "string \<Rightarrow> string" where
  "strip_non_digits s = filter is_digit_char s"

text \<open>The loop of \<open>luhn_sum\<close>: \<open>i\<close> is the position, \<open>parity\<close> selects the doubled ones.\<close>

definition luhn_term :: "nat \<Rightarrow> nat \<Rightarrow> char \<Rightarrow> nat" where
  "luhn_term parity i c =
     (let d = digit_val c in
      if i mod 2 = parity then (let e = d * 2 in if e > 9 then e - 9 else e) else d)"

fun luhn_loop :: "nat \<Rightarrow> nat \<Rightarrow> string \<Rightarrow> nat" where
  "luhn_loop parity i [] = 0"
| "luhn_loop parity i (c # cs) = luhn_term parity i c + luhn_loop parity (Suc i) cs"

definition luhn_sum :: "string \<Rightarrow> nat" where
  "luhn_sum digits = luhn_loop (length digits mod 2) 0 digits"

definition luhn_check_digit :: "string \<Rightarrow> char" where
  "luhn_check_digit pre =
     digit_char ((10 - luhn_loop ((length pre + 1) mod 2) 0 pre mod 10) mod 10)"

definition luhn_valid :: "string \<Rightarrow> bool" where
  "luhn_valid digits \<longleftrightarrow>
     digits \<noteq> [] \<and> list_all is_digit_char digits \<and> luhn_sum digits mod 10 = 0"

text \<open>A sum of digits times weights.\<close>

fun weighted_sum :: "nat list \<Rightarrow> nat list \<Rightarrow> nat" where
  "weighted_sum (d # ds) (w # ws) = d * w + weighted_sum ds ws"
| "weighted_sum _ _ = 0"

definition two_digits :: "nat \<Rightarrow> string" where
  "two_digits n = [digit_char (n div 10), digit_char (n mod 10)]"

definition snils_checksum :: "string \<Rightarrow> string" where
  "snils_checksum nine_digits =
     (if length nine_digits \<noteq> 9 then ''00''
      else let checksum = weighted_sum (map digit_val nine_digits) [9, 8, 7, 6, 5, 4, 3, 2, 1] mod 101
           in two_digits (if checksum > 99 then 0 else checksum))"

definition snils_valid :: "string \<Rightarrow> bool" where
  "snils_valid digits \<longleftrightarrow>
     length digits = 11 \<and> list_all is_digit_char digits \<and>
     (let checksum = snils_checksum (take 9 digits)
      in digits ! 9 = checksum ! 0 \<and> digits ! 10 = checksum ! 1)"

definition inn_person_checksums :: "string \<Rightarrow> char \<times> char" where
  "inn_person_checksums ten_digits =
     (let d = map digit_val ten_digits;
          v1 = (weighted_sum d [7, 2, 4, 10, 3, 5, 9, 4, 6, 8] mod 11) mod 10;
          v2 = (weighted_sum (d @ [v1]) [3, 7, 2, 4, 10, 3, 5, 9, 4, 6, 8] mod 11) mod 10
      in (digit_char v1, digit_char v2))"

definition inn_person_valid :: "string \<Rightarrow> bool" where
  "inn_person_valid digits \<longleftrightarrow>
     length digits = 12 \<and> list_all is_digit_char digits \<and>
     (case inn_person_checksums (take 10 digits) of (c1, c2) \<Rightarrow>
        digits ! 10 = c1 \<and> digits ! 11 = c2)"

definition inn_org_checksum :: "string \<Rightarrow> char" where
  "inn_org_checksum nine_digits =
     digit_char ((weighted_sum (map digit_val nine_digits) [2, 4, 10, 3, 5, 9, 4, 6, 8] mod 11) mod 10)"

definition inn_org_valid :: "string \<Rightarrow> bool" where
  "inn_org_valid digits \<longleftrightarrow>
     length digits = 10 \<and> list_all is_digit_char digits \<and>
     digits ! 9 = inn_org_checksum (take 9 digits)"

text \<open>The accumulator of \<open>ogrn_check_digit\<close> is an \<open>int64_t\<close>; twelve digits stay far below its range.\<close>

definition ogrn_check_digit :: "string \<Rightarrow> char" where
  "ogrn_check_digit twelve_digits = digit_char ((digits_value twelve_digits mod 11) mod 10)"

definition ogrn_valid :: "string \<Rightarrow> bool" where
  "ogrn_valid digits \<longleftrightarrow>
     length digits = 13 \<and> list_all is_digit_char digits \<and>
     digits ! 12 = ogrn_check_digit (take 12 digits)"

definition ogrnip_check_digit :: "string \<Rightarrow> char" where
  "ogrnip_check_digit fourteen_digits =
     digit_char (foldl (\<lambda>r c. (r * 10 + digit_val c) mod 13) 0 fourteen_digits mod 10)"

definition ogrnip_valid :: "string \<Rightarrow> bool" where
  "ogrnip_valid digits \<longleftrightarrow>
     length digits = 15 \<and> list_all is_digit_char digits \<and>
     digits ! 14 = ogrnip_check_digit (take 14 digits)"

text \<open>C's \<open>char\<close> as a signed byte, and the remainder that truncates towards zero.\<close>

definition char_int :: "char \<Rightarrow> int" where
  "char_int c = (if byte c < 128 then int (byte c) else int (byte c) - 256)"

definition c_rem :: "int \<Rightarrow> int \<Rightarrow> int" where
  "c_rem a b = (if a < 0 then - ((- a) mod b) else a mod b)"

definition mod97_decimal_string :: "string \<Rightarrow> int" where
  "mod97_decimal_string s = foldl (\<lambda>r c. c_rem (r * 10 + (char_int c - 48)) 97) 0 s"

definition ascii_upper_char :: "char \<Rightarrow> char" where
  "ascii_upper_char c = (if is_lower_char c then char_of (byte c - 32) else c)"

text \<open>The letter expansion loop shared by \<open>iban_mod97\<close> and \<open>iban_valid\<close>.\<close>

definition iban_num_str :: "string \<Rightarrow> string" where
  "iban_num_str rearranged =
     concat (map (\<lambda>c. if is_upper_char c then nat_to_string (byte c - 65 + 10) else [c]) rearranged)"

definition iban_mod97 :: "string \<Rightarrow> string \<Rightarrow> string" where
  "iban_mod97 country_code bban =
     (let rearranged = map ascii_upper_char (bban @ country_code @ ''00'');
          check = 98 - mod97_decimal_string (iban_num_str rearranged)
      in two_digits (nat check))"

definition iban_valid :: "string \<Rightarrow> bool" where
  "iban_valid iban_in =
     (let iban = map ascii_upper_char (filter (\<lambda>c. c \<noteq> CHR '' '') iban_in) in
      if length iban < 4 then False
      else mod97_decimal_string (iban_num_str (drop 4 iban @ take 4 iban)) = 1)"

section \<open>Luhn\<close>

lemma luhn_loop_append:
  "luhn_loop p i (xs @ ys) = luhn_loop p i xs + luhn_loop p (i + length xs) ys"
  by (induction xs arbitrary: i) simp_all

lemma luhn_sum_snoc:
  "luhn_sum (xs @ [c]) = luhn_loop ((length xs + 1) mod 2) 0 xs + digit_val c"
proof -
  have "length xs mod 2 \<noteq> Suc (length xs) mod 2" by presburger
  then show ?thesis by (simp add: luhn_sum_def luhn_loop_append luhn_term_def)
qed

lemma luhn_term_less: "is_digit_char c \<Longrightarrow> luhn_term p i c < 10"
  by (auto simp: luhn_term_def Let_def dest: digit_val_less)

lemma luhn_double_inject:
  fixes a b :: nat
  assumes "a < 10" "b < 10"
    and eq: "(if a * 2 > 9 then a * 2 - 9 else a * 2) = (if b * 2 > 9 then b * 2 - 9 else b * 2)"
  shows "a = b"
proof -
  have "a \<in> {0,1,2,3,4,5,6,7,8,9}" "b \<in> {0,1,2,3,4,5,6,7,8,9}" using assms(1,2) by auto
  then show ?thesis using eq by auto
qed

lemma luhn_term_inject:
  "is_digit_char c \<Longrightarrow> is_digit_char d \<Longrightarrow> luhn_term p i c = luhn_term p i d \<Longrightarrow> c = d"
  using luhn_double_inject [of "digit_val c" "digit_val d"] digit_val_inject [of c d]
  by (auto simp: luhn_term_def Let_def split: if_splits)

lemma luhn_sum_update:
  assumes "i < length xs"
  shows "luhn_sum (xs[i := c]) + luhn_term (length xs mod 2) i (xs ! i)
       = luhn_sum xs + luhn_term (length xs mod 2) i c"
proof -
  have "xs = take i xs @ xs ! i # drop (Suc i) xs" using assms by (rule id_take_nth_drop)
  then have "luhn_sum xs = luhn_loop (length xs mod 2) 0 (take i xs @ xs ! i # drop (Suc i) xs)"
    by (simp add: luhn_sum_def)
  moreover have "luhn_sum (xs[i := c]) = luhn_loop (length xs mod 2) 0 (take i xs @ c # drop (Suc i) xs)"
    unfolding luhn_sum_def length_list_update using assms by (simp only: upd_conv_take_nth_drop)
  ultimately show ?thesis using assms by (simp add: luhn_loop_append)
qed

lemma complement_mod_10:
  fixes s d :: nat
  assumes "d < 10"
  shows "(s + d) mod 10 = 0 \<longleftrightarrow> d = (10 - s mod 10) mod 10"
proof -
  define r where "r = s mod 10"
  have r: "r < 10" by (simp add: r_def)
  have "(s + d) mod 10 = (r + d) mod 10" by (simp add: r_def mod_add_left_eq)
  also have "\<dots> = (if r + d < 10 then r + d else r + d - 10)"
    using r assms by (simp add: mod_if)
  also have "(\<dots> = 0) \<longleftrightarrow> d = (if r = 0 then 0 else 10 - r)" using r assms by auto
  also have "(if r = 0 then 0 else 10 - r) = (10 - r) mod 10" using r by simp
  finally show ?thesis by (simp add: r_def)
qed

text \<open>Luhn round trip: a digit string followed by its check digit passes the validator, and no
  other final digit does.\<close>

theorem luhn_check_digit_valid:
  assumes "list_all is_digit_char p" "is_digit_char c"
  shows "luhn_valid (p @ [c]) \<longleftrightarrow> c = luhn_check_digit p"
proof -
  let ?s = "luhn_loop ((length p + 1) mod 2) 0 p"
  have "luhn_valid (p @ [c]) \<longleftrightarrow> (?s + digit_val c) mod 10 = 0"
    using assms by (simp add: luhn_valid_def luhn_sum_snoc)
  also have "\<dots> \<longleftrightarrow> digit_val c = (10 - ?s mod 10) mod 10"
    by (rule complement_mod_10 [OF digit_val_less [OF assms(2)]])
  also have "\<dots> \<longleftrightarrow> c = digit_char ((10 - ?s mod 10) mod 10)"
    using assms(2) by (metis digit_char_digit_val digit_val_digit_char mod_less_divisor zero_less_numeral)
  finally show ?thesis by (simp add: luhn_check_digit_def)
qed

theorem luhn_check_digit_valid_witness:
  "luhn_valid ''79927398713'' \<and> \<not> luhn_valid ''79927398710''"
proof -
  have "luhn_check_digit ''7992739871'' = CHR ''3''" by code_simp
  then show ?thesis
    using luhn_check_digit_valid [of "''7992739871''" "CHR ''3''"]
      luhn_check_digit_valid [of "''7992739871''" "CHR ''0''"]
    by (simp add: is_digit_char_def)
qed

text \<open>Luhn error detection: changing any one digit of a number that passes the validator makes it
  fail.\<close>

theorem luhn_detects_single_digit_error:
  assumes "luhn_valid xs" "i < length xs" "is_digit_char c" "c \<noteq> xs ! i"
  shows "\<not> luhn_valid (xs[i := c])"
proof
  assume valid': "luhn_valid (xs[i := c])"
  let ?a = "luhn_term (length xs mod 2) i (xs ! i)" and ?b = "luhn_term (length xs mod 2) i c"
  have digit: "is_digit_char (xs ! i)" using assms(1,2) by (simp add: luhn_valid_def list_all_length)
  have "luhn_sum xs mod 10 = 0" "luhn_sum (xs[i := c]) mod 10 = 0"
    using assms(1) valid' by (simp_all add: luhn_valid_def)
  with luhn_sum_update [OF assms(2), of c] have "?a mod 10 = ?b mod 10"
    by (metis add.left_neutral mod_add_left_eq)
  then have "?a = ?b" using luhn_term_less [OF digit] luhn_term_less [OF assms(3)] by simp
  then show False using luhn_term_inject [OF digit assms(3)] assms(4) by metis
qed

theorem luhn_detects_single_digit_error_witness:
  "luhn_valid ''79927398713'' \<and> \<not> luhn_valid (''79927398713''[2 := CHR ''8''])"
proof -
  have v: "luhn_valid ''79927398713''" by code_simp
  have "\<not> luhn_valid (''79927398713''[2 := CHR ''8''])"
    by (rule luhn_detects_single_digit_error [OF v]) (simp_all add: is_digit_char_def)
  with v show ?thesis by simp
qed

section \<open>Check digits of the registration numbers\<close>

lemma digit_char_two_digits:
  "n < 100 \<Longrightarrow> list_all is_digit_char (two_digits n) \<and> length (two_digits n) = 2"
  by (simp add: two_digits_def)

lemma weighted_sum_less: "length (snils_checksum p) = 2"
  by (simp add: snils_checksum_def Let_def two_digits_def)

lemma take_nth_app:
  "length p = n \<Longrightarrow> take n (p @ q) = p" "length p = n \<Longrightarrow> n \<le> k \<Longrightarrow> (p @ q) ! k = q ! (k - n)"
  by (simp_all add: nth_append)

text \<open>Each registration number validator accepts exactly the check digits that the code's own
  checksum functions compute: SNILS, personal and organisational INN, OGRN and OGRNIP.\<close>

theorem registration_checksums_roundtrip:
  "list_all is_digit_char p \<Longrightarrow> list_all is_digit_char q \<Longrightarrow>
     (length p = 9 \<and> length q = 2 \<longrightarrow> snils_valid (p @ q) = (q = snils_checksum p)) \<and>
     (length p = 10 \<and> length q = 2 \<longrightarrow>
        inn_person_valid (p @ q) = (q = [fst (inn_person_checksums p), snd (inn_person_checksums p)])) \<and>
     (length p = 9 \<and> length q = 1 \<longrightarrow> inn_org_valid (p @ q) = (q = [inn_org_checksum p])) \<and>
     (length p = 12 \<and> length q = 1 \<longrightarrow> ogrn_valid (p @ q) = (q = [ogrn_check_digit p])) \<and>
     (length p = 14 \<and> length q = 1 \<longrightarrow> ogrnip_valid (p @ q) = (q = [ogrnip_check_digit p]))"
proof -
  assume d: "list_all is_digit_char p" "list_all is_digit_char q"
  have two: "length r = 2 \<Longrightarrow> r = [r ! 0, r ! 1]" for r :: string
    by (cases r; cases "tl r") auto
  have one: "length r = 1 \<Longrightarrow> r = [r ! 0]" for r :: string
    by (cases r) auto
  have "snils_valid (p @ q) = (q = snils_checksum p)" if "length p = 9" "length q = 2"
    using that d two [of q] two [OF weighted_sum_less [of p]]
    by (simp add: snils_valid_def take_nth_app Let_def) (metis nth_Cons_0 nth_Cons_Suc One_nat_def)
  moreover have "inn_person_valid (p @ q) = (q = [fst (inn_person_checksums p), snd (inn_person_checksums p)])"
    if "length p = 10" "length q = 2"
    using that d two [of q] by (auto simp: inn_person_valid_def take_nth_app split: prod.splits)
  moreover have "inn_org_valid (p @ q) = (q = [inn_org_checksum p])" if "length p = 9" "length q = 1"
    using that d one [of q] by (auto simp: inn_org_valid_def take_nth_app)
  moreover have "ogrn_valid (p @ q) = (q = [ogrn_check_digit p])" if "length p = 12" "length q = 1"
    using that d one [of q] by (auto simp: ogrn_valid_def take_nth_app)
  moreover have "ogrnip_valid (p @ q) = (q = [ogrnip_check_digit p])" if "length p = 14" "length q = 1"
    using that d one [of q] by (auto simp: ogrnip_valid_def take_nth_app)
  ultimately show ?thesis by blast
qed

theorem registration_checksums_roundtrip_witness:
  "snils_valid ''11223344595'' \<and> inn_org_valid ''7707083893''"
proof -
  have a: "list_all is_digit_char ''112233445''" "list_all is_digit_char ''95''"
    "list_all is_digit_char ''770708389''" "list_all is_digit_char ''3''"
    by (simp_all add: is_digit_char_def)
  have b: "''95'' = snils_checksum ''112233445''" "''3'' = [inn_org_checksum ''770708389'']"
    by code_simp+
  have "snils_valid (''112233445'' @ ''95'')"
    using registration_checksums_roundtrip [OF a(1,2)] b(1) [symmetric] by (simp del: append_Cons)
  moreover have "inn_org_valid (''770708389'' @ ''3'')"
    using registration_checksums_roundtrip [OF a(3,4)] b(2) [symmetric] by (simp del: append_Cons)
  ultimately show ?thesis by simp
qed

section \<open>IBAN\<close>

definition is_iban_char :: "char \<Rightarrow> bool" where
  "is_iban_char c \<longleftrightarrow> is_digit_char c \<or> is_lower_char c \<or> is_upper_char c"

lemma digits_value_append: "digits_value (xs @ ys) = digits_value xs * 10 ^ length ys + digits_value ys"
  by (induction ys rule: rev_induct) (simp_all add: algebra_simps flip: append_assoc)

lemma mod97_snoc: "mod97_decimal_string (s @ [c]) = c_rem (mod97_decimal_string s * 10 + (char_int c - 48)) 97"
  by (simp add: mod97_decimal_string_def)

text \<open>On digits the signed arithmetic computes the remainder of the decimal value.\<close>

lemma mod97_digits:
  "list_all is_digit_char s \<Longrightarrow> mod97_decimal_string s = int (digits_value s mod 97)"
proof (induction s rule: rev_induct)
  case Nil
  then show ?case by (simp add: mod97_decimal_string_def)
next
  case (snoc c s)
  have c: "char_int c - 48 = int (digit_val c)"
    using snoc.prems by (auto simp: char_int_def digit_val_def is_digit_char_def)
  have "mod97_decimal_string (s @ [c]) = c_rem (int (digits_value s mod 97) * 10 + int (digit_val c)) 97"
    using snoc by (simp add: mod97_snoc c)
  also have "\<dots> = int ((digits_value s mod 97 * 10 + digit_val c) mod 97)"
    by (simp add: c_rem_def zmod_int)
  also have "(digits_value s mod 97 * 10 + digit_val c) mod 97 = digits_value (s @ [c]) mod 97"
    unfolding digits_value_snoc by (metis mod_add_left_eq mod_mult_left_eq)
  finally show ?case .
qed

lemma iban_num_str_append [simp]: "iban_num_str (xs @ ys) = iban_num_str xs @ iban_num_str ys"
  by (simp add: iban_num_str_def)

lemma ascii_upper_char_iban:
  "is_iban_char c \<Longrightarrow> is_digit_char (ascii_upper_char c) \<or> is_upper_char (ascii_upper_char c)"
  by (auto simp: is_iban_char_def ascii_upper_char_def byte_defs)

lemma iban_num_str_digits:
  "list_all is_iban_char s \<Longrightarrow> list_all is_digit_char (iban_num_str (map ascii_upper_char s))"
  by (induction s)
    (use ascii_upper_char_iban nat_to_string_digits in \<open>auto simp: iban_num_str_def list_all_iff\<close>)

lemma iban_num_str_digit_string:
  "list_all is_digit_char s \<Longrightarrow> iban_num_str (map ascii_upper_char s) = s"
  by (induction s) (auto simp: iban_num_str_def ascii_upper_char_def byte_defs)

lemma is_iban_char_not_space: "list_all is_iban_char s \<Longrightarrow> filter (\<lambda>c. c \<noteq> CHR '' '') s = s"
  by (induction s) (auto simp: is_iban_char_def byte_defs)

lemma digits_value_two_digits: "n < 100 \<Longrightarrow> digits_value (two_digits n) = n"
  by (simp add: two_digits_def digits_value_def)

text \<open>IBAN round trip: over letters and digits, inserting the two check digits that \<open>iban_mod97\<close>
  computes for a country code and an account number gives a string that \<open>iban_valid\<close> accepts.\<close>

theorem iban_mod97_valid:
  assumes "length cc = 2" "list_all is_iban_char cc" "list_all is_iban_char bban"
  shows "iban_valid (cc @ iban_mod97 cc bban @ bban)"
proof -
  let ?n = "digits_value (iban_num_str (map ascii_upper_char (bban @ cc)))"
  let ?check = "nat (98 - mod97_decimal_string (iban_num_str (map ascii_upper_char (bban @ cc @ ''00''))))"
  have zeros: "list_all is_digit_char ''00''" "iban_num_str (map ascii_upper_char ''00'') = ''00''"
    using iban_num_str_digit_string [of "''00''"] by (simp_all add: is_digit_char_def)
  have body: "list_all is_digit_char (iban_num_str (map ascii_upper_char (bban @ cc)))"
    using assms by (intro iban_num_str_digits) simp
  have "mod97_decimal_string (iban_num_str (map ascii_upper_char (bban @ cc @ ''00'')))
      = int (digits_value (iban_num_str (map ascii_upper_char (bban @ cc)) @ ''00'') mod 97)"
    using body zeros mod97_digits [of "iban_num_str (map ascii_upper_char (bban @ cc)) @ ''00''"]
    by simp
  also have "digits_value (iban_num_str (map ascii_upper_char (bban @ cc)) @ ''00'') = ?n * 100"
    by (simp add: digits_value_append [of _ "''00''"]) (simp add: digits_value_def digit_val_def)
  finally have check: "?check = 98 - ?n * 100 mod 97" by linarith
  have small: "?check < 100" using check by linarith
  let ?iban = "cc @ iban_mod97 cc bban @ bban"
  have digits: "list_all is_digit_char (iban_mod97 cc bban)" "length (iban_mod97 cc bban) = 2"
    "digits_value (iban_mod97 cc bban) = ?check"
    using digit_char_two_digits [OF small] digits_value_two_digits [OF small]
    by (simp_all add: iban_mod97_def Let_def)
  have "list_all is_iban_char (iban_mod97 cc bban)"
    using digits(1) by (auto simp: list_all_iff is_iban_char_def)
  then have "filter (\<lambda>c. c \<noteq> CHR '' '') ?iban = ?iban"
    using assms by (intro is_iban_char_not_space) simp
  moreover have "drop 4 (map ascii_upper_char ?iban) @ take 4 (map ascii_upper_char ?iban)
      = map ascii_upper_char (bban @ cc) @ map ascii_upper_char (iban_mod97 cc bban)"
    using assms(1) digits(2) by simp
  moreover have "mod97_decimal_string
      (iban_num_str (map ascii_upper_char (bban @ cc) @ map ascii_upper_char (iban_mod97 cc bban))) = 1"
  proof -
    have "mod97_decimal_string
        (iban_num_str (map ascii_upper_char (bban @ cc) @ map ascii_upper_char (iban_mod97 cc bban)))
      = int ((?n * 100 + ?check) mod 97)"
      using body digits
    proof -
      define B where "B = iban_num_str (map ascii_upper_char (bban @ cc))"
      have "iban_num_str (map ascii_upper_char (bban @ cc) @ map ascii_upper_char (iban_mod97 cc bban))
          = B @ iban_mod97 cc bban"
        by (simp only: iban_num_str_append iban_num_str_digit_string [OF digits(1)] B_def)
      moreover have "digits_value (B @ iban_mod97 cc bban) = ?n * 100 + ?check"
        unfolding digits_value_append digits by (simp only: B_def) simp
      ultimately show ?thesis using mod97_digits [of "B @ iban_mod97 cc bban"] body digits(1)
        by (simp only: B_def list_all_append simp_thms)
    qed
    also have "(?n * 100 + ?check) mod 97 = 1"
    proof -
      have "(?n * 100 + (98 - ?n * 100 mod 97)) mod 97 = (?n * 100 mod 97 + (98 - ?n * 100 mod 97)) mod 97"
        by (simp only: mod_add_left_eq)
      moreover have "?n * 100 mod 97 + (98 - ?n * 100 mod 97) = 98"
        using mod_less_divisor [of 97 "?n * 100"] by linarith
      ultimately show ?thesis unfolding check by simp
    qed
    finally show ?thesis by (simp only: of_nat_1)
  qed
  ultimately show ?thesis using assms(1) digits(2) by (simp add: iban_valid_def Let_def)
qed

theorem iban_mod97_valid_witness:
  "iban_mod97 ''GB'' ''WEST12345698765432'' = ''82'' \<and> iban_valid ''GB82WEST12345698765432''"
proof -
  have m: "iban_mod97 ''GB'' ''WEST12345698765432'' = ''82''" by code_simp
  have "list_all is_iban_char ''GB''" "list_all is_iban_char ''WEST12345698765432''" by code_simp+
  then show ?thesis using iban_mod97_valid [of "''GB''" "''WEST12345698765432''"] m by simp
qed

end
