(* ===== verification/Validators.thy ===== *)
theory Validators
  imports Checksums "HOL-Library.Word"
begin

text \<open>
  The format validators of \<open>src/src/guard/Validators.hpp\<close> (e-mail shape, payment card table,
  Shannon entropy, IP addresses), the UTF-8 decoder the scanner shares with the entropy validator,
  and the dispatch \<open>passes_validators\<close> over a rule's validator names.
\<close>

unbundle bit_operations_syntax

section \<open>E-mail shape\<close>

definition is_ascii_local_part_char :: "char \<Rightarrow> bool" where
  "is_ascii_local_part_char c \<longleftrightarrow>
     is_lower_char c \<or> is_upper_char c \<or> is_digit_char c \<or>
     c \<in> set [CHR ''!'', CHR ''#'', CHR ''$'', CHR ''%'', CHR ''&'', CHR 0x27, CHR ''*'', CHR ''+'',
       CHR ''-'', CHR ''/'', CHR ''='', CHR ''?'', CHR ''^'', CHR ''_'', CHR 0x60, CHR ''{'',
       CHR ''|'', CHR ''}'', CHR ''~'']"

definition is_ascii_domain_char :: "char \<Rightarrow> bool" where
  "is_ascii_domain_char c \<longleftrightarrow>
     is_lower_char c \<or> is_upper_char c \<or> is_digit_char c \<or> c = CHR ''-''"

definition is_alpha :: "string \<Rightarrow> bool" where
  "is_alpha s \<longleftrightarrow> s \<noteq> [] \<and> list_all (\<lambda>c. is_lower_char c \<or> is_upper_char c) s"

fun split_dot :: "string \<Rightarrow> string list" where
  "split_dot [] = [[]]"
| "split_dot (c # cs) =
     (if c = CHR ''.'' then [] # split_dot cs
      else (case split_dot cs of [] \<Rightarrow> [[c]] | p # ps \<Rightarrow> (c # p) # ps))"

text \<open>The loop over the domain labels; the last one must be alphabetic.\<close>

fun domain_labels_ok :: "string list \<Rightarrow> bool" where
  "domain_labels_ok [] = True"
| "domain_labels_ok (label # rest) =
     (if label = [] \<or> length label > 63 then False
      else if hd label = CHR ''-'' \<or> last label = CHR ''-'' then False
      else if \<not> list_all is_ascii_domain_char label then False
      else if rest = [] \<and> \<not> is_alpha label then False
      else domain_labels_ok rest)"

definition email_ascii_valid :: "string \<Rightarrow> bool" where
  "email_ascii_valid candidate =
     (let s = ascii_trim candidate in
      if s = [] \<or> length s > 254 then False
      else case find_char CHR ''@'' s of
        None \<Rightarrow> False
      | Some at_pos \<Rightarrow>
          let local = take at_pos s; domain = drop (at_pos + 1) s in
          if local = [] \<or> domain = [] then False
          else if find_sub ''..'' local \<noteq> None \<or> hd local = CHR ''.'' \<or> last local = CHR ''.'' then False
          else if length local > 64 \<or> length domain > 253 then False
          else if \<not> list_all (\<lambda>part. part \<noteq> [] \<and> list_all is_ascii_local_part_char part) (split_dot local)
          then False
          else if length (split_dot domain) < 2 then False
          else domain_labels_ok (split_dot domain))"

section \<open>Payment cards\<close>

definition all_digits :: "string \<Rightarrow> bool" where
  "all_digits s \<longleftrightarrow> s \<noteq> [] \<and> list_all is_digit_char s"

definition has_prefix_digits :: "string \<Rightarrow> string \<Rightarrow> bool" where
  "has_prefix_digits s pre \<longleftrightarrow> length s \<ge> length pre \<and> take (length pre) s = pre"

definition prefix_in_range :: "string \<Rightarrow> nat \<Rightarrow> nat \<Rightarrow> nat \<Rightarrow> bool" where
  "prefix_in_range s prefix_len lo hi \<longleftrightarrow>
     length s \<ge> prefix_len \<and> list_all is_digit_char (take prefix_len s) \<and>
     (let n = digits_value (take prefix_len s) in lo \<le> n \<and> n \<le> hi)"

definition payment_card_shape :: "string \<Rightarrow> bool" where
  "payment_card_shape digits =
     (if \<not> all_digits digits \<or> length digits < 13 \<or> length digits > 19 then False
      else if has_prefix_digits digits ''4'' then
        length digits = 13 \<or> length digits = 16 \<or> length digits = 19
      else if has_prefix_digits digits ''34'' \<or> has_prefix_digits digits ''37'' then length digits = 15
      else if prefix_in_range digits 2 51 55 \<or> prefix_in_range digits 4 2221 2720 then length digits = 16
      else if has_prefix_digits digits ''6011'' \<or> prefix_in_range digits 3 644 649 \<or>
              has_prefix_digits digits ''65'' then length digits \<ge> 16 \<and> length digits \<le> 19
      else if has_prefix_digits digits ''62'' then length digits \<ge> 16 \<and> length digits \<le> 19
      else if prefix_in_range digits 4 2200 2204 then length digits \<ge> 16 \<and> length digits \<le> 19
      else False)"

definition payment_card_valid :: "string \<Rightarrow> bool" where
  "payment_card_valid digits \<longleftrightarrow> payment_card_shape digits \<and> luhn_valid digits"

section \<open>UTF-8 decoding\<close>

text \<open>
  \<open>decode_utf8 s i\<close> for \<open>i < s.size()\<close>: code point and width; an invalid or truncated sequence is
  U+FFFD of width one.
\<close>

definition utf8_cont :: "string \<Rightarrow> nat \<Rightarrow> nat option" where
  "utf8_cont s idx =
     (if idx \<ge> length s then None
      else let c = byte (s ! idx) in if c AND 0xC0 \<noteq> 0x80 then None else Some (c AND 0x3F))"

definition utf8_replacement :: "nat \<times> nat" where
  "utf8_replacement = (0xFFFD, 1)"

definition decode_utf8 :: "string \<Rightarrow> nat \<Rightarrow> nat \<times> nat" where
  "decode_utf8 s i =
     (let c0 = byte (s ! i) in
      if c0 AND 0x80 = 0 then (c0, 1)
      else if c0 AND 0xE0 = 0xC0 then
        (case utf8_cont s (i + 1) of
           None \<Rightarrow> utf8_replacement
         | Some c1 \<Rightarrow>
             let cp = push_bit 6 (c0 AND 0x1F) OR c1 in
             if cp < 0x80 then utf8_replacement else (cp, 2))
      else if c0 AND 0xF0 = 0xE0 then
        (case (utf8_cont s (i + 1), utf8_cont s (i + 2)) of
           (Some c1, Some c2) \<Rightarrow>
             let cp = (push_bit 12 (c0 AND 0x0F) OR push_bit 6 c1) OR c2 in
             if cp < 0x800 \<or> 0xD800 \<le> cp \<and> cp \<le> 0xDFFF then utf8_replacement else (cp, 3)
         | _ \<Rightarrow> utf8_replacement)
      else if c0 AND 0xF8 = 0xF0 then
        (case (utf8_cont s (i + 1), utf8_cont s (i + 2), utf8_cont s (i + 3)) of
           (Some c1, Some c2, Some c3) \<Rightarrow>
             let cp = ((push_bit 18 (c0 AND 0x07) OR push_bit 12 c1) OR push_bit 6 c2) OR c3 in
             if cp < 0x10000 \<or> cp > 0x10FFFF then utf8_replacement else (cp, 4)
         | _ \<Rightarrow> utf8_replacement)
      else utf8_replacement)"

lemma decode_utf8_width: "1 \<le> snd (decode_utf8 s i) \<and> snd (decode_utf8 s i) \<le> 4"
  by (auto simp: decode_utf8_def utf8_replacement_def Let_def split: option.splits if_splits)

lemma utf8_cont_SomeD: "utf8_cont s i = Some v \<Longrightarrow> i < length s"
  by (auto simp: utf8_cont_def split: if_splits)

text \<open>A decoded sequence never extends past the end of the string.\<close>

lemma decode_utf8_in_bounds: "i < length s \<Longrightarrow> i + snd (decode_utf8 s i) \<le> length s"
  by (auto simp: decode_utf8_def utf8_replacement_def Let_def Suc_le_eq
      split: option.splits if_splits dest!: utf8_cont_SomeD)

section \<open>Shannon entropy\<close>

function code_points :: "string \<Rightarrow> nat \<Rightarrow> nat list" where
  "code_points s i =
     (if i < length s then fst (decode_utf8 s i) # code_points s (i + snd (decode_utf8 s i)) else [])"
  by pat_completeness auto
termination
  by (relation "measure (\<lambda>(s, i). length s - i)")
    (use decode_utf8_width in \<open>auto intro!: diff_less_mono2 simp: Suc_le_eq less_add_same_cancel1\<close>)

declare code_points.simps [simp del]

text \<open>
  The sum over the frequency table, in exact real arithmetic; the code's order of summation (by
  byte value, or by hash bucket) does not matter to it.
\<close>

definition entropy_of :: "nat list \<Rightarrow> real" where
  "entropy_of xs =
     - sum_list (map (\<lambda>x. let p = real (count_list xs x) / real (length xs) in p * log 2 p) (remdups xs))"

definition shannon_entropy :: "string \<Rightarrow> real" where
  "shannon_entropy s =
     (if s = [] then 0
      else if list_all (\<lambda>c. byte c \<le> 127) s then entropy_of (map (\<lambda>c. byte c) s)
      else entropy_of (code_points s 0))"

definition banlisted :: "utf8proc \<Rightarrow> string \<Rightarrow> string list \<Rightarrow> bool" where
  "banlisted u candidate bans \<longleftrightarrow> to_lower_utf8 u candidate \<in> set bans"

section \<open>IP addresses\<close>

type_synonym u8 = "8 word"

record parsed_ip =
  is_v4 :: bool
  v4bytes :: "u8 list"
  v6bytes :: "u8 list"

text \<open>The two libraries the validators call: \<open>utf8proc\<close>, and the C library's \<open>inet_pton(AF_INET6, _)\<close>
  (\<^const>\<open>None\<close> unless it returns 1).\<close>

record platform =
  utf8 :: utf8proc
  inet_pton6 :: "string \<Rightarrow> u8 list option"

definition ipv4_parsed :: "u8 list \<Rightarrow> parsed_ip" where
  "ipv4_parsed b = \<lparr>is_v4 = True, v4bytes = b, v6bytes = replicate 16 0\<rparr>"

definition ipv6_parsed :: "u8 list \<Rightarrow> parsed_ip" where
  "ipv6_parsed b = \<lparr>is_v4 = False, v4bytes = replicate 4 0, v6bytes = b\<rparr>"

text \<open>One octet of the dotted quad, and the loop over \<open>octet_idx\<close>: \<open>n\<close> octets follow this one.\<close>

definition v4_octet :: "string \<Rightarrow> u8 option" where
  "v4_octet octet =
     (if octet = [] \<or> length octet > 3 then None
      else if length octet > 1 \<and> hd octet = CHR ''0'' then None
      else if \<not> list_all is_digit_char octet then None
      else if digits_value octet > 255 then None
      else Some (of_nat (digits_value octet)))"

fun try_parse_v4_loop :: "nat \<Rightarrow> string \<Rightarrow> u8 list option" where
  "try_parse_v4_loop n s =
     (case find_char CHR ''.'' s of
        None \<Rightarrow> (if n = 0 then (case v4_octet s of None \<Rightarrow> None | Some v \<Rightarrow> Some [v]) else None)
      | Some dot \<Rightarrow>
          (case n of 0 \<Rightarrow> None
           | Suc m \<Rightarrow>
               (case v4_octet (take dot s) of None \<Rightarrow> None
                | Some v \<Rightarrow>
                    (case try_parse_v4_loop m (drop (dot + 1) s) of None \<Rightarrow> None
                     | Some vs \<Rightarrow> Some (v # vs)))))"

declare try_parse_v4_loop.simps [simp del]

definition try_parse_v4 :: "string \<Rightarrow> u8 list option" where
  "try_parse_v4 s = try_parse_v4_loop 3 s"

text \<open>\<open>s.c_str()\<close> ends at the first zero byte.\<close>

definition try_parse_v6 :: "platform \<Rightarrow> string \<Rightarrow> u8 list option" where
  "try_parse_v6 pf s = inet_pton6 pf (takeWhile (\<lambda>c. byte c \<noteq> 0) s)"

definition is_v4_mapped_v6 :: "u8 list \<Rightarrow> bool" where
  "is_v4_mapped_v6 b \<longleftrightarrow> list_all (\<lambda>x. x = 0) (take 10 b) \<and> b ! 10 = 0xFF \<and> b ! 11 = 0xFF"

definition unmap_v6 :: "u8 list \<Rightarrow> parsed_ip" where
  "unmap_v6 b = ipv4_parsed [b ! 12, b ! 13, b ! 14, b ! 15]"

text \<open>The prefix length accumulates with an early exit at 129.\<close>

fun prefix_bits :: "nat \<Rightarrow> string \<Rightarrow> nat" where
  "prefix_bits bits [] = bits"
| "prefix_bits bits (c # cs) =
     (let bits' = bits * 10 + digit_val c in if bits' > 128 then 129 else prefix_bits bits' cs)"

definition is_bracket :: "char \<Rightarrow> bool" where
  "is_bracket c \<longleftrightarrow> c = CHR ''['' \<or> c = CHR '']''"

definition parse_ip_candidate :: "platform \<Rightarrow> string \<Rightarrow> parsed_ip option" where
  "parse_ip_candidate pf candidate =
     (let s = ascii_trim candidate in
      if s = [] then None
      else if find_char CHR ''%'' s \<noteq> None then None
      else case find_char CHR ''/'' s of
        Some slash \<Rightarrow>
          let addr_part = take slash s; prefix_part = drop (slash + 1) s in
          if prefix_part = [] then None
          else if \<not> list_all is_digit_char prefix_part then None
          else let bits = prefix_bits 0 prefix_part in
            (case try_parse_v4 addr_part of
               Some v4 \<Rightarrow> if bits > 32 then None else Some (ipv4_parsed v4)
             | None \<Rightarrow>
                 (case try_parse_v6 pf addr_part of
                    Some v6 \<Rightarrow>
                      if bits > 128 then None
                      else Some (if is_v4_mapped_v6 v6 then unmap_v6 v6 else ipv6_parsed v6)
                  | None \<Rightarrow> None))
      | None \<Rightarrow>
          let trimmed = rev (dropWhile is_bracket (rev (dropWhile is_bracket s))) in
          (case try_parse_v4 trimmed of
             Some v4 \<Rightarrow> Some (ipv4_parsed v4)
           | None \<Rightarrow>
               (case try_parse_v6 pf trimmed of
                  Some v6 \<Rightarrow> Some (if is_v4_mapped_v6 v6 then unmap_v6 v6 else ipv6_parsed v6)
                | None \<Rightarrow> None)))"

definition is_private_v4 :: "u8 list \<Rightarrow> bool" where
  "is_private_v4 b \<longleftrightarrow>
     b ! 0 = 10 \<or> (b ! 0 = 172 \<and> (b ! 1 AND 0xF0) = 16) \<or> (b ! 0 = 192 \<and> b ! 1 = 168)"

definition is_loopback_v4 :: "u8 list \<Rightarrow> bool" where
  "is_loopback_v4 b \<longleftrightarrow> b ! 0 = 127"

definition is_multicast_v4 :: "u8 list \<Rightarrow> bool" where
  "is_multicast_v4 b \<longleftrightarrow> (b ! 0 AND 0xF0) = 0xE0"

definition is_link_local_v4 :: "u8 list \<Rightarrow> bool" where
  "is_link_local_v4 b \<longleftrightarrow> b ! 0 = 169 \<and> b ! 1 = 254"

definition is_unspecified_v4 :: "u8 list \<Rightarrow> bool" where
  "is_unspecified_v4 b \<longleftrightarrow> b ! 0 = 0 \<and> b ! 1 = 0 \<and> b ! 2 = 0 \<and> b ! 3 = 0"

definition is_private_v6 :: "u8 list \<Rightarrow> bool" where
  "is_private_v6 b \<longleftrightarrow> (b ! 0 AND 0xFE) = 0xFC"

definition is_loopback_v6 :: "u8 list \<Rightarrow> bool" where
  "is_loopback_v6 b \<longleftrightarrow> list_all (\<lambda>x. x = 0) (take 15 b) \<and> b ! 15 = 1"

definition is_multicast_v6 :: "u8 list \<Rightarrow> bool" where
  "is_multicast_v6 b \<longleftrightarrow> b ! 0 = 0xFF"

definition is_link_local_v6 :: "u8 list \<Rightarrow> bool" where
  "is_link_local_v6 b \<longleftrightarrow> b ! 0 = 0xFE \<and> (b ! 1 AND 0xC0) = 0x80"

definition is_unspecified_v6 :: "u8 list \<Rightarrow> bool" where
  "is_unspecified_v6 b \<longleftrightarrow> list_all (\<lambda>x. x = 0) b"

definition is_private_or_local :: "parsed_ip \<Rightarrow> bool" where
  "is_private_or_local p =
     (if is_v4 p then
        is_private_v4 (v4bytes p) \<or> is_loopback_v4 (v4bytes p) \<or> is_multicast_v4 (v4bytes p) \<or>
        is_link_local_v4 (v4bytes p) \<or> is_unspecified_v4 (v4bytes p)
      else
        is_private_v6 (v6bytes p) \<or> is_loopback_v6 (v6bytes p) \<or> is_multicast_v6 (v6bytes p) \<or>
        is_link_local_v6 (v6bytes p) \<or> is_unspecified_v6 (v6bytes p))"

definition ip_v4 :: "platform \<Rightarrow> string \<Rightarrow> bool" where
  "ip_v4 pf value = (case parse_ip_candidate pf value of None \<Rightarrow> False | Some p \<Rightarrow> is_v4 p)"

definition ip_v6 :: "platform \<Rightarrow> string \<Rightarrow> bool" where
  "ip_v6 pf value = (case parse_ip_candidate pf value of None \<Rightarrow> False | Some p \<Rightarrow> \<not> is_v4 p)"

definition ip_public :: "platform \<Rightarrow> string \<Rightarrow> bool" where
  "ip_public pf value =
     (case parse_ip_candidate pf value of None \<Rightarrow> False | Some p \<Rightarrow> \<not> is_private_or_local p)"

definition ip_private :: "platform \<Rightarrow> string \<Rightarrow> bool" where
  "ip_private pf value =
     (case parse_ip_candidate pf value of None \<Rightarrow> False | Some p \<Rightarrow> is_private_or_local p)"

section \<open>Dispatch\<close>

definition known_validators :: "string list" where
  "known_validators =
     [''luhn'', ''snils'', ''inn_person'', ''inn_org'', ''ogrn'', ''ogrnip'', ''iban_mod97'',
      ''email_ascii'', ''payment_card'', ''payment_card_no_luhn'', ''entropy'', ''banlist'',
      ''ip_v4'', ''ip_v6'', ''ip_public'', ''ip_private'']"

definition is_known_validator :: "string \<Rightarrow> bool" where
  "is_known_validator name \<longleftrightarrow> name \<in> set known_validators"

text \<open>The body of the loop in \<open>passes_validators\<close>: \<open>False\<close> is its \<open>return false\<close>.\<close>

definition validator_ok :: "platform \<Rightarrow> string \<Rightarrow> string \<Rightarrow> rule \<Rightarrow> string \<Rightarrow> bool" where
  "validator_ok pf value digits r v =
     (if v = ''luhn'' then luhn_valid digits
      else if v = ''snils'' then snils_valid digits
      else if v = ''inn_person'' then inn_person_valid digits
      else if v = ''inn_org'' then inn_org_valid digits
      else if v = ''ogrn'' then ogrn_valid digits
      else if v = ''ogrnip'' then ogrnip_valid digits
      else if v = ''iban_mod97'' then iban_valid value
      else if v = ''email_ascii'' then email_ascii_valid value
      else if v = ''payment_card'' then payment_card_valid digits
      else if v = ''payment_card_no_luhn'' then payment_card_shape digits
      else if v = ''entropy'' then \<not> (entropy r > 0 \<and> shannon_entropy value < entropy r)
      else if v = ''banlist'' then \<not> banlisted (utf8 pf) value (banlist r)
      else if v = ''ip_v4'' then ip_v4 pf value
      else if v = ''ip_v6'' then ip_v6 pf value
      else if v = ''ip_public'' then ip_public pf value
      else if v = ''ip_private'' then ip_private pf value
      else False)"

fun validator_loop :: "platform \<Rightarrow> string \<Rightarrow> string \<Rightarrow> rule \<Rightarrow> string list \<Rightarrow> bool" where
  "validator_loop pf value digits r [] = True"
| "validator_loop pf value digits r (v # vs) =
     (if \<not> validator_ok pf value digits r v then False else validator_loop pf value digits r vs)"

definition passes_validators :: "platform \<Rightarrow> string \<Rightarrow> rule \<Rightarrow> bool" where
  "passes_validators pf value r =
     validator_loop pf value (strip_non_digits value) r (validators r)"

section \<open>Properties of the dotted quad\<close>

definition dotted_quad :: "u8 list \<Rightarrow> string" where
  "dotted_quad b = join_char CHR ''.'' (map (\<lambda>x. nat_to_string (unat x)) b)"

lemma dot_not_digit: "\<not> is_digit_char CHR ''.''"
  by (simp add: is_digit_char_def)

lemma dot_not_in_number: "CHR ''.'' \<notin> set (nat_to_string n)"
  using nat_to_string_digits dot_not_digit by blast

lemma v4_octet_iff: "v4_octet s = Some v \<longleftrightarrow> s = nat_to_string (unat v)"
proof
  assume "v4_octet s = Some v"
  then have s: "s \<noteq> []" "1 < length s \<Longrightarrow> hd s \<noteq> CHR ''0''" "list_all is_digit_char s"
    and v: "digits_value s \<le> 255" "v = of_nat (digits_value s)"
    by (auto simp: v4_octet_def split: if_splits)
  have "unat v = digits_value s" using v by (simp add: unat_of_nat)
  then show "s = nat_to_string (unat v)" using nat_to_string_digits_value [OF s(1,3,2)] by simp
next
  assume s: "s = nat_to_string (unat v)"
  have small: "unat v < 256" using unsigned_less [of v] by simp
  then have "length s \<le> 3" using length_nat_to_string_le [of "unat v" 3] s by simp
  moreover have "list_all is_digit_char s" using nat_to_string_digits s by (auto simp: list_all_iff)
  ultimately show "v4_octet s = Some v"
    using s small nat_to_string_no_leading_zero [of "unat v"] by (auto simp: v4_octet_def)
qed

lemma try_parse_v4_loop_iff:
  "try_parse_v4_loop n s = Some bs \<longleftrightarrow> length bs = Suc n \<and> s = dotted_quad bs"
proof (induction n arbitrary: s bs)
  case 0
  have none: "find_char CHR ''.'' (nat_to_string k) = None" for k
    using dot_not_in_number by (simp add: find_char_None_iff)
  show ?case
  proof
    assume "try_parse_v4_loop 0 s = Some bs"
    then show "length bs = Suc 0 \<and> s = dotted_quad bs"
      by (auto simp: try_parse_v4_loop.simps [of 0] dotted_quad_def v4_octet_iff split: option.splits)
  next
    assume "length bs = Suc 0 \<and> s = dotted_quad bs"
    then obtain v where "bs = [v]" "s = nat_to_string (unat v)"
      by (auto simp: length_Suc_conv dotted_quad_def)
    then show "try_parse_v4_loop 0 s = Some bs"
      using v4_octet_iff [of s v] by (simp add: try_parse_v4_loop.simps [of 0] none)
  qed
next
  case (Suc n)
  show ?case
  proof
    assume some: "try_parse_v4_loop (Suc n) s = Some bs"
    then obtain d v vs where d: "find_char CHR ''.'' s = Some d" and v: "v4_octet (take d s) = Some v"
      and vs: "try_parse_v4_loop n (drop (d + 1) s) = Some vs" and bs: "bs = v # vs"
      by (auto simp: try_parse_v4_loop.simps [of "Suc n"] split: option.splits)
    have len: "length vs = Suc n" and rest: "drop (d + 1) s = dotted_quad vs" using vs Suc.IH by auto
    have "s = take d s @ CHR ''.'' # drop (d + 1) s" using find_char_SomeE [OF d] by metis
    then show "length bs = Suc (Suc n) \<and> s = dotted_quad bs"
      using v len rest bs by (cases vs) (auto simp: dotted_quad_def v4_octet_iff)
  next
    assume r: "length bs = Suc (Suc n) \<and> s = dotted_quad bs"
    then obtain v vs where bs: "bs = v # vs" "length vs = Suc n" by (auto simp: length_Suc_conv)
    then have s: "s = nat_to_string (unat v) @ CHR ''.'' # dotted_quad vs"
      using r by (cases vs) (auto simp: dotted_quad_def)
    then have "find_char CHR ''.'' s = Some (length (nat_to_string (unat v)))"
      by (simp add: find_char_append dot_not_in_number)
    moreover have "try_parse_v4_loop n (dotted_quad vs) = Some vs" using Suc.IH bs by simp
    ultimately show "try_parse_v4_loop (Suc n) s = Some bs"
      using s bs v4_octet_iff [of "nat_to_string (unat v)" v]
      by (simp add: try_parse_v4_loop.simps [of "Suc n"])
  qed
qed

text \<open>The IPv4 parser accepts exactly the canonical dotted quads (four decimal octets without
  leading zeros), and returns the bytes that print to its input.\<close>

theorem try_parse_v4_iff:
  "try_parse_v4 s = Some bs \<longleftrightarrow> length bs = 4 \<and> s = dotted_quad bs"
  by (simp add: try_parse_v4_def try_parse_v4_loop_iff)

section \<open>Private and public addresses\<close>

lemma u8_masks:
  "\<forall>n\<in>set [0..<256].
     ((of_nat n :: u8) AND 0xF0 = 16 \<longleftrightarrow> 16 \<le> n \<and> n \<le> 31) \<and>
     ((of_nat n :: u8) AND 0xF0 = 0xE0 \<longleftrightarrow> 224 \<le> n \<and> n \<le> 239)"
  by code_simp

lemma u8_mask_ranges:
  fixes x :: u8
  shows "(x AND 0xF0 = 16) = (16 \<le> unat x \<and> unat x \<le> 31)"
    and "(x AND 0xF0 = 0xE0) = (224 \<le> unat x \<and> unat x \<le> 239)"
proof -
  have "unat x < 256" using unsigned_less [of x] by simp
  then show "(x AND 0xF0 = 16) = (16 \<le> unat x \<and> unat x \<le> 31)"
    "(x AND 0xF0 = 0xE0) = (224 \<le> unat x \<and> unat x \<le> 239)"
    using u8_masks [rule_format, of "unat x"] by simp_all
qed

lemma u8_eq_unat:
  fixes x :: u8
  shows "n < 256 \<Longrightarrow> x = of_nat n \<longleftrightarrow> unat x = n"
  by (auto simp: unat_of_nat word_eq_iff_unsigned [where 'a = nat] unsigned_of_nat take_bit_nat_eq_self)

lemma dropWhile_none: "\<forall>c\<in>set s. \<not> P c \<Longrightarrow> dropWhile P s = s"
  by (cases s) auto

lemma set_dotted_quad: "c \<in> set (dotted_quad b) \<Longrightarrow> is_digit_char c \<or> c = CHR ''.''"
  using set_join_char [of "CHR ''.''" "map (\<lambda>x. nat_to_string (unat x)) b"] nat_to_string_digits
  by (auto simp: dotted_quad_def)

lemma ascii_trim_none: "\<forall>c\<in>set s. \<not> is_space_char c \<Longrightarrow> ascii_trim s = s"
  by (simp add: ascii_trim_def dropWhile_none)

lemma parse_ip_candidate_quad:
  assumes "length b = 4"
  shows "parse_ip_candidate pf (dotted_quad b) = Some (ipv4_parsed b)"
proof -
  have none: "\<not> is_space_char c \<and> \<not> is_bracket c \<and> c \<noteq> CHR ''%'' \<and> c \<noteq> CHR ''/''"
    if "c \<in> set (dotted_quad b)" for c
    using set_dotted_quad [OF that] by (auto simp: byte_defs is_bracket_def)
  have "dotted_quad b \<noteq> []"
    using assms by (cases b; cases "tl b") (auto simp: dotted_quad_def)
  moreover have "ascii_trim (dotted_quad b) = dotted_quad b" "find_char CHR ''%'' (dotted_quad b) = None"
    "find_char CHR ''/'' (dotted_quad b) = None" "dropWhile is_bracket (dotted_quad b) = dotted_quad b"
    "dropWhile is_bracket (rev (dotted_quad b)) = rev (dotted_quad b)"
    using none by (auto simp: ascii_trim_none dropWhile_none find_char_None_iff)
  moreover have "try_parse_v4 (dotted_quad b) = Some b" using assms by (simp add: try_parse_v4_iff)
  ultimately show ?thesis
    by (simp add: parse_ip_candidate_def Let_def)
qed

text \<open>Classification of IPv4 candidates: every canonical dotted quad is classified as private
  exactly when it lies in 10/8, 172.16/12, 192.168/16, 127/8, 224/4, 169.254/16 or is 0.0.0.0, and
  as public otherwise, whatever the platform's IPv6 parser does.\<close>

theorem ip_private_v4_ranges:
  assumes "length b = 4"
  shows "(ip_private pf (dotted_quad b) \<longleftrightarrow>
      unat (b ! 0) = 10 \<or> unat (b ! 0) = 172 \<and> 16 \<le> unat (b ! 1) \<and> unat (b ! 1) \<le> 31 \<or>
      unat (b ! 0) = 192 \<and> unat (b ! 1) = 168 \<or> unat (b ! 0) = 127 \<or>
      224 \<le> unat (b ! 0) \<and> unat (b ! 0) \<le> 239 \<or> unat (b ! 0) = 169 \<and> unat (b ! 1) = 254 \<or>
      b = [0, 0, 0, 0]) \<and>
    (ip_public pf (dotted_quad b) \<longleftrightarrow> \<not> ip_private pf (dotted_quad b))"
proof -
  have zero: "is_unspecified_v4 b \<longleftrightarrow> b = [0, 0, 0, 0]"
    using assms by (cases b; cases "tl b"; cases "tl (tl b)"; cases "tl (tl (tl b))")
      (auto simp: is_unspecified_v4_def)
  have eqs: "(x = 10) = (unat x = 10)" "(x = 172) = (unat x = 172)" "(x = 192) = (unat x = 192)"
    "(x = 168) = (unat x = 168)" "(x = 127) = (unat x = 127)" "(x = 169) = (unat x = 169)"
    "(x = 254) = (unat x = 254)" for x :: u8
    using u8_eq_unat [of 10 x] u8_eq_unat [of 172 x] u8_eq_unat [of 192 x] u8_eq_unat [of 168 x]
      u8_eq_unat [of 127 x] u8_eq_unat [of 169 x] u8_eq_unat [of 254 x] by simp_all
  have "ip_private pf (dotted_quad b) \<longleftrightarrow>
      is_private_v4 b \<or> is_loopback_v4 b \<or> is_multicast_v4 b \<or> is_link_local_v4 b \<or> b = [0, 0, 0, 0]"
    by (simp add: ip_private_def parse_ip_candidate_quad [OF assms] is_private_or_local_def
        ipv4_parsed_def zero)
  also have "\<dots> \<longleftrightarrow> unat (b ! 0) = 10 \<or> unat (b ! 0) = 172 \<and> 16 \<le> unat (b ! 1) \<and> unat (b ! 1) \<le> 31 \<or>
      unat (b ! 0) = 192 \<and> unat (b ! 1) = 168 \<or> unat (b ! 0) = 127 \<or>
      224 \<le> unat (b ! 0) \<and> unat (b ! 0) \<le> 239 \<or> unat (b ! 0) = 169 \<and> unat (b ! 1) = 254 \<or>
      b = [0, 0, 0, 0]"
    unfolding is_private_v4_def is_loopback_v4_def is_multicast_v4_def is_link_local_v4_def
      u8_mask_ranges eqs by blast
  finally show ?thesis
    by (simp add: ip_private_def ip_public_def parse_ip_candidate_quad [OF assms])
qed

theorem ip_private_v4_ranges_witness:
  "\<forall>pf. ip_private pf (dotted_quad [172, 20, 3, 4]) \<and> ip_public pf (dotted_quad [172, 32, 3, 4])"
proof
  fix pf
  have a: "ip_private pf (dotted_quad [172, 20, 3, 4])"
    using ip_private_v4_ranges [of "[172, 20, 3, 4]" pf] by simp
  have "\<not> ip_private pf (dotted_quad [172, 32, 3, 4])"
    using ip_private_v4_ranges [of "[172, 32, 3, 4]" pf] by simp
  with a show "ip_private pf (dotted_quad [172, 20, 3, 4]) \<and> ip_public pf (dotted_quad [172, 32, 3, 4])"
    using ip_private_v4_ranges [of "[172, 32, 3, 4]" pf] by simp
qed

section \<open>Properties of the e-mail shape\<close>

lemma split_dot_not_Nil [simp]: "split_dot s \<noteq> []"
  by (induction s) (auto split: list.splits)

lemma join_split_dot [simp]: "join_char CHR ''.'' (split_dot s) = s"
proof (induction s)
  case (Cons c s)
  obtain p ps where sp: "split_dot s = p # ps" by (cases "split_dot s") auto
  show ?case using Cons sp by (cases ps) (auto simp: join_char_Cons)
qed simp

lemma domain_labels_ok_iff:
  "domain_labels_ok labels \<longleftrightarrow>
     list_all (\<lambda>l. l \<noteq> [] \<and> length l \<le> 63 \<and> hd l \<noteq> CHR ''-'' \<and> last l \<noteq> CHR ''-'' \<and>
       list_all is_ascii_domain_char l) labels \<and> (labels \<noteq> [] \<longrightarrow> is_alpha (last labels))"
  by (induction labels) auto

lemma domain_chars_no_at: "\<forall>c\<in>set l. is_ascii_domain_char c \<Longrightarrow> CHR ''@'' \<notin> set l"
  by (auto simp: is_ascii_domain_char_def byte_defs)

text \<open>An accepted e-mail candidate is, after trimming, \<open>local@label.(...).tld\<close> with exactly one
  \<open>@\<close>, at least two labels of at most 63 bytes, an alphabetic last label, a local part of at most 64
  bytes and at most 254 bytes in all.\<close>

theorem email_ascii_valid_shape:
  assumes "email_ascii_valid candidate"
  shows "\<exists>local labels. ascii_trim candidate = local @ CHR ''@'' # join_char CHR ''.'' labels \<and>
      CHR ''@'' \<notin> set local \<and> (\<forall>l\<in>set labels. CHR ''@'' \<notin> set l) \<and>
      2 \<le> length labels \<and> is_alpha (last labels) \<and>
      (\<forall>l\<in>set labels. 1 \<le> length l \<and> length l \<le> 63) \<and>
      1 \<le> length local \<and> length local \<le> 64 \<and> length (ascii_trim candidate) \<le> 254"
proof -
  let ?s = "ascii_trim candidate"
  obtain i where i: "find_char CHR ''@'' ?s = Some i"
    using assms by (cases "find_char CHR ''@'' ?s") (simp_all add: email_ascii_valid_def Let_def split: if_splits)
  let ?local = "take i ?s" and ?labels = "split_dot (drop (i + 1) ?s)"
  define local where "local = ?local"
  define labels where "labels = ?labels"
  have unfolded: "email_ascii_valid candidate =
      (if ?s = [] \<or> length ?s > 254 then False
       else if local = [] \<or> drop (i + 1) ?s = [] then False
       else if find_sub ''..'' local \<noteq> None \<or> hd local = CHR ''.'' \<or> last local = CHR ''.'' then False
       else if length local > 64 \<or> length (drop (i + 1) ?s) > 253 then False
       else if \<not> list_all (\<lambda>part. part \<noteq> [] \<and> list_all is_ascii_local_part_char part) (split_dot local)
       then False
       else if length labels < 2 then False
       else domain_labels_ok labels)"
    unfolding email_ascii_valid_def Let_def i option.case local_def labels_def ..
  have "length ?s \<le> 254 \<and> local \<noteq> [] \<and> length local \<le> 64 \<and> 2 \<le> length labels \<and> domain_labels_ok labels"
    using assms unfolding unfolded by (simp add: not_less split: if_splits)
  then have facts: "length ?s \<le> 254" "?local \<noteq> []" "length ?local \<le> 64" "2 \<le> length ?labels"
      "domain_labels_ok ?labels"
    unfolding local_def labels_def by blast+
  obtain p q where pq: "?s = p @ CHR ''@'' # q" "CHR ''@'' \<notin> set p" "?local = p" "drop (i + 1) ?s = q"
    by (rule find_char_SomeE [OF i]) (rule that)
  have s: "?s = ?local @ CHR ''@'' # drop (i + 1) ?s" "CHR ''@'' \<notin> set ?local"
    unfolding pq(3,4) by (rule pq(1)) (rule pq(2))
  have labels_ok: "list_all (\<lambda>l. l \<noteq> [] \<and> length l \<le> 63 \<and> hd l \<noteq> CHR ''-'' \<and> last l \<noteq> CHR ''-'' \<and>
       list_all is_ascii_domain_char l) ?labels" "is_alpha (last ?labels)"
    using facts(5) unfolding domain_labels_ok_iff by simp_all
  have "\<forall>l\<in>set ?labels. CHR ''@'' \<notin> set l" "\<forall>l\<in>set ?labels. 1 \<le> length l \<and> length l \<le> 63"
    using labels_ok(1) domain_chars_no_at unfolding list_all_iff by (blast, simp add: Suc_le_eq)
  moreover have "?s = ?local @ CHR ''@'' # join_char CHR ''.'' ?labels"
    by (simp only: join_split_dot) (rule s(1))
  moreover have "1 \<le> length ?local" using facts(2) by (cases ?local) (simp_all only: list.size One_nat_def add_Suc_right add_0_right Suc_le_mono le0 simp_thms)
  ultimately show ?thesis using facts s(2) labels_ok(2) by blast
qed

theorem email_ascii_valid_shape_witness:
  "email_ascii_valid '' user@mail.example.com '' \<and> length (ascii_trim '' user@mail.example.com '') \<le> 254"
proof -
  have "email_ascii_valid '' user@mail.example.com ''" by code_simp
  then show ?thesis using email_ascii_valid_shape by blast
qed

section \<open>Properties of the dispatch\<close>

lemma validator_loop_iff:
  "validator_loop pf value digits r vs \<longleftrightarrow> (\<forall>v\<in>set vs. validator_ok pf value digits r v)"
  by (induction vs) auto

lemma validator_ok_known: "validator_ok pf value digits r v \<Longrightarrow> is_known_validator v"
  by (auto simp: validator_ok_def is_known_validator_def known_validators_def split: if_splits)

text \<open>\<open>passes_validators\<close> is the conjunction of the rule's validators: their order and repetition
  do not matter, an unknown name rejects every value, and adding validators only narrows.\<close>

theorem passes_validators_conj:
  "passes_validators pf value r \<longleftrightarrow>
     (\<forall>v\<in>set (validators r). is_known_validator v \<and> validator_ok pf value (strip_non_digits value) r v)"
  by (auto simp: passes_validators_def validator_loop_iff validator_ok_known)

theorem passes_validators_conj_witness:
  "\<forall>pf. \<not> passes_validators pf ''4111111111111111'' (default_rule\<lparr>validators := [''luhn'', ''no_such'']\<rparr>)"
  using passes_validators_conj [of _ "''4111111111111111''" "default_rule\<lparr>validators := [''luhn'', ''no_such'']\<rparr>"]
  by (auto simp: is_known_validator_def known_validators_def)

end
