(* ===== verification/Compiled.thy ===== *)
theory Compiled
  imports Validators
begin

text \<open>
  Compiled rules (\<open>struct CompiledRule\<close> of \<open>src/src/guard/Registry.hpp\<close>) and the interface to the
  RE2 library they hold.  RE2 is third-party code: a compiled expression is a parameter, a record of
  its capturing-group count and its \<open>Match\<close> function.
\<close>

type_synonym span = "nat \<times> nat"

text \<open>
  \<open>re_match re text pos\<close> is \<open>re.Match(text, pos, text.size(), RE2::UNANCHORED, groups, n)\<close>: the span
  of \<open>groups[0]\<close> and those of the capturing groups, \<^const>\<open>None\<close> for a group whose \<open>data()\<close> is null.
\<close>

record re2 =
  re_groups :: nat
  re_match :: "string \<Rightarrow> nat \<Rightarrow> (span \<times> span option list) option"

record compiled_rule =
  cr_rule :: rule
  cr_re :: "re2 option"
  cr_placeholder_re :: "re2 option"
  cr_placeholder_len :: nat
  prefilter_eligible :: bool
  prefilter_keywords :: "string list"

text \<open>
  RE2's documented contract, as far as the guard relies on it: a match lies in \<open>[pos, text.size()]\<close>,
  one slot is filled per capturing group, and a group that participated lies inside the match.
\<close>

definition re2_contract :: "re2 \<Rightarrow> bool" where
  "re2_contract re \<longleftrightarrow>
     (\<forall>text pos s e caps. re_match re text pos = Some ((s, e), caps) \<longrightarrow>
        pos \<le> s \<and> s \<le> e \<and> e \<le> length text \<and> length caps = re_groups re \<and>
        (\<forall>a b. Some (a, b) \<in> set caps \<longrightarrow> s \<le> a \<and> a \<le> b \<and> b \<le> e))"

lemma re2_contractD:
  assumes "re2_contract re" "re_match re text pos = Some ((s, e), caps)"
  shows "pos \<le> s" "s \<le> e" "e \<le> length text" "length caps = re_groups re"
    "Some (a, b) \<in> set caps \<Longrightarrow> s \<le> a \<and> a \<le> b \<and> b \<le> e"
  using assms unfolding re2_contract_def by blast+


text \<open>
  A regular expression that honours the contract: the one of a literal text, leftmost occurrence
  first, without capturing groups.
\<close>

definition literal_re2 :: "string \<Rightarrow> re2" where
  "literal_re2 lit = \<lparr>re_groups = 0, re_match = (\<lambda>text pos.
     case find_sub lit (drop pos text) of
       None \<Rightarrow> None
     | Some i \<Rightarrow> if pos \<le> length text then Some ((pos + i, pos + i + length lit), []) else None)\<rparr>"

lemma literal_re2_contract: "re2_contract (literal_re2 lit)"
  unfolding re2_contract_def literal_re2_def
  by (auto split: option.splits if_splits dest: find_sub_length)


text \<open>A rule that finds a literal text; the witnesses of the development use such rules.\<close>

definition literal_rule :: "string \<Rightarrow> string \<Rightarrow> compiled_rule" where
  "literal_rule i lit =
     \<lparr>cr_rule = default_rule\<lparr>rule_id := i, rule_data_type := dt_credentials,
        rule_masking := \<lparr>capture_groups = [], placeholder = ''SECRET''\<rparr>\<rparr>, cr_re = Some (literal_re2 lit),
      cr_placeholder_re = None, cr_placeholder_len = 0, prefilter_eligible = False, prefilter_keywords = []\<rparr>"

end
