(* ===== verification/PlaceholderRegex.thy ===== *)
theory PlaceholderRegex
  imports Rules "HOL-Library.Word"
begin

text \<open>
  \<open>src/src/guard/PlaceholderRegex.hpp\<close>: the tolerant pattern that recognises a placeholder in a
  model's answer, and an upper bound on the length of what a pattern can match.
\<close>

section \<open>Saturating arithmetic\<close>

text \<open>\<open>std::size_t\<close> is a 64-bit word here; its greatest value \<open>SIZE_MAX\<close> stands for "unbounded".\<close>

type_synonym size = "64 word"

abbreviation SIZE_MAX :: size where "SIZE_MAX \<equiv> - 1"

definition kUtf8Max :: size where "kUtf8Max = 4"

definition sat_add :: "size \<Rightarrow> size \<Rightarrow> size" where
  "sat_add a b = (if a > SIZE_MAX - b then SIZE_MAX else a + b)"

definition sat_mul :: "size \<Rightarrow> size \<Rightarrow> size" where
  "sat_mul a b = (if a = 0 \<or> b = 0 then 0 else if a > SIZE_MAX div b then SIZE_MAX else a * b)"

section \<open>The length parser\<close>

text \<open>
  \<open>class BoundedLengthParser\<close>.  Its mutable state is what is left of the pattern from \<open>pos_\<close> on and
  the flag \<open>fold_case_\<close>; \<open>depth_\<close> goes up and down with the nesting of \<open>parse_group\<close> and is an
  argument.  \<open>PUnbounded\<close> is the exception \<open>UnboundedSignal\<close>.  The loops are given fuel, and \<open>PFuel\<close>
  is a loop that ran out of it (which never happens, \<open>regex_max_len_decides\<close>).
\<close>

record parse_state =
  left :: string
  fold_case :: bool

datatype 'a parse_result = PFuel | PUnbounded | POk 'a parse_state

definition pbind :: "'a parse_result \<Rightarrow> ('a \<Rightarrow> parse_state \<Rightarrow> 'b parse_result) \<Rightarrow> 'b parse_result" where
  "pbind r f = (case r of PFuel \<Rightarrow> PFuel | PUnbounded \<Rightarrow> PUnbounded | POk a st \<Rightarrow> f a st)"

definition kMaxGroupDepth :: nat where "kMaxGroupDepth = 1000"

definition at_end :: "parse_state \<Rightarrow> bool" where
  "at_end st \<longleftrightarrow> left st = []"

definition peek :: "parse_state \<Rightarrow> char" where
  "peek st = (case left st of [] \<Rightarrow> CHR 0x00 | c # _ \<Rightarrow> c)"

definition advance :: "nat \<Rightarrow> parse_state \<Rightarrow> parse_state" where
  "advance n st = st\<lparr>left := drop n (left st)\<rparr>"

definition lead_len :: "char \<Rightarrow> nat" where
  "lead_len c =
     (if 0xC0 \<le> byte c \<and> byte c < 0xE0 then 2
      else if 0xE0 \<le> byte c \<and> byte c < 0xF0 then 3
      else if 0xF0 \<le> byte c \<and> byte c < 0xF8 then 4
      else 1)"

definition consume_rune_len :: "parse_state \<Rightarrow> size parse_result" where
  "consume_rune_len st =
     (case left st of
        [] \<Rightarrow> PUnbounded
      | c # cs \<Rightarrow>
          let n = min (lead_len c) (length (c # cs));
              wide = fold_case st \<and> n = 1 \<and> c \<in> {CHR ''s'', CHR ''S'', CHR ''k'', CHR ''K''}
          in POk (if wide then 3 else of_nat n) (advance n st))"

definition skip_lazy_marker :: "parse_state \<Rightarrow> parse_state" where
  "skip_lazy_marker st = (if peek st = CHR ''?'' then advance 1 st else st)"

definition parse_repeat_count :: "string \<Rightarrow> size" where
  "parse_repeat_count digits = foldl (\<lambda>v c. sat_add (sat_mul v 10) (of_nat (digit_val c))) 0 digits"

definition parse_brace_quantifier :: "size \<Rightarrow> parse_state \<Rightarrow> size parse_result" where
  "parse_brace_quantifier atom_len st =
     (let min_digits = takeWhile is_digit_char (drop 1 (left st));
          st1 = advance (1 + length min_digits) st;
          has_comma = (peek st1 = CHR '','');
          st2 = (if has_comma then advance 1 st1 else st1);
          max_digits = takeWhile is_digit_char (left st2);
          st3 = advance (length max_digits) st2
      in if min_digits = [] \<or> peek st3 \<noteq> CHR ''}'' then POk atom_len st
         else
           let st4 = skip_lazy_marker (advance 1 st3) in
           if \<not> has_comma then POk (sat_mul (parse_repeat_count min_digits) atom_len) st4
           else if max_digits = [] then POk (if atom_len = 0 then 0 else SIZE_MAX) st4
           else POk (sat_mul (parse_repeat_count max_digits) atom_len) st4)"

definition parse_quantifier :: "size \<Rightarrow> parse_state \<Rightarrow> size parse_result" where
  "parse_quantifier atom_len st =
     (if at_end st then POk atom_len st
      else if peek st = CHR ''*'' \<or> peek st = CHR ''+''
      then POk (if atom_len = 0 then 0 else SIZE_MAX) (skip_lazy_marker (advance 1 st))
      else if peek st = CHR ''?'' then POk atom_len (skip_lazy_marker (advance 1 st))
      else if peek st = CHR ''{'' then parse_brace_quantifier atom_len st
      else POk atom_len st)"

definition parse_escape :: "parse_state \<Rightarrow> size parse_result" where
  "parse_escape st0 =
     (let st = advance 1 st0 in
      if at_end st then PUnbounded
      else let c = peek st in
        if c \<in> set ''dsw'' then POk 1 (advance 1 st)
        else if c \<in> set ''DSW'' then POk kUtf8Max (advance 1 st)
        else if c \<in> set ''bBAzZ'' then POk 0 (advance 1 st)
        else if c \<in> set ''ntrfva'' then POk 1 (advance 1 st)
        else if c \<in> set ''pP'' then PUnbounded
        else if c \<in> set ''x01234567'' then PUnbounded
        else consume_rune_len st)"

text \<open>The member loop of \<open>parse_char_class\<close>; every round consumes a byte, and the fuel is their number.\<close>

definition class_member :: "parse_state \<Rightarrow> size parse_result" where
  "class_member st = (if peek st = CHR 0x5C then parse_escape st else consume_rune_len st)"

fun class_loop :: "nat \<Rightarrow> size \<Rightarrow> bool \<Rightarrow> parse_state \<Rightarrow> (size \<times> bool) parse_result" where
  "class_loop 0 widest any_member st = PFuel"
| "class_loop (Suc fuel) widest any_member st =
     (if at_end st then PUnbounded
      else if peek st = CHR '']'' then POk (widest, any_member) (advance 1 st)
      else pbind (class_member st) (\<lambda>member_len st1.
        if peek st1 = CHR ''-'' \<and> 1 < length (left st1) \<and> left st1 ! 1 \<noteq> CHR '']''
        then pbind (class_member (advance 1 st1)) (\<lambda>hi_len st2.
          class_loop fuel (max widest (max hi_len member_len)) True st2)
        else class_loop fuel (max widest member_len) True st1))"

definition parse_char_class :: "parse_state \<Rightarrow> size parse_result" where
  "parse_char_class st0 =
     (let st = advance 1 st0; negated = (peek st = CHR ''^''); st1 = (if negated then advance 1 st else st) in
      pbind (class_loop (length (left st1) + 1) 0 False st1) (\<lambda>(widest, any_member) st2.
        if \<not> any_member then PUnbounded else POk (if negated then kUtf8Max else widest) st2))"

definition expect :: "char \<Rightarrow> parse_state \<Rightarrow> unit parse_result" where
  "expect c st = (if peek st \<noteq> c then PUnbounded else POk () (advance 1 st))"

definition is_flag_char :: "char \<Rightarrow> bool" where
  "is_flag_char c \<longleftrightarrow> c \<in> set ''ismU-''"

text \<open>
  The mutually recursive part.  Every cycle goes through \<open>parse_group\<close>, which refuses a nesting of
  \<open>kMaxGroupDepth\<close>; so the definitions below take the parser of the next level as an argument,
  \<^const>\<open>None\<close> when the cap is reached, and \<open>parse_alternation\<close> recurses on the levels that are left.
  The loops of one level consume a byte in every round.
\<close>

type_synonym sub_parser = "(parse_state \<Rightarrow> size parse_result) option"

definition group_body :: "(parse_state \<Rightarrow> size parse_result) \<Rightarrow> parse_state \<Rightarrow> size parse_result" where
  "group_body alt st = pbind (alt st) (\<lambda>n st1. pbind (expect (CHR '')'') st1) (\<lambda>_ st2. POk n st2))"

definition parse_group :: "sub_parser \<Rightarrow> parse_state \<Rightarrow> size parse_result" where
  "parse_group nested st0 =
     (case nested of
        None \<Rightarrow> PUnbounded
      | Some alt \<Rightarrow>
        let st = advance 1 st0 in
        if peek st \<noteq> CHR ''?'' then group_body alt st
        else
          let st1 = advance 1 st in
          if peek st1 = CHR '':'' then group_body alt (advance 1 st1)
          else if peek st1 = CHR ''P'' \<and> 1 < length (left st1) \<and> left st1 ! 1 = CHR ''<'' then
            (let st2 = st1\<lparr>left := dropWhile (\<lambda>c. c \<noteq> CHR ''>'') (drop 2 (left st1))\<rparr> in
             pbind (expect (CHR ''>'') st2) (\<lambda>_ st3. group_body alt st3))
          else
            let flags = takeWhile is_flag_char (left st1);
                st2 = (advance (length flags) st1)\<lparr>fold_case := fold_case st1 \<or> CHR ''i'' \<in> set flags\<rparr>
            in if flags \<noteq> [] \<and> peek st2 = CHR '')'' then POk 0 (advance 1 st2)
               else if flags \<noteq> [] \<and> peek st2 = CHR '':'' then group_body alt (advance 1 st2)
               else PUnbounded)"

definition parse_atom :: "sub_parser \<Rightarrow> parse_state \<Rightarrow> size parse_result" where
  "parse_atom nested st =
     (if at_end st then PUnbounded
      else let c = peek st in
        if c = CHR ''('' then parse_group nested st
        else if c = CHR ''['' then parse_char_class st
        else if c = CHR 0x5C then parse_escape st
        else if c = CHR ''^'' \<or> c = CHR ''$'' then POk 0 (advance 1 st)
        else if c = CHR ''.'' then POk kUtf8Max (advance 1 st)
        else if c \<in> set ''|)*+?{}]'' then PUnbounded
        else consume_rune_len st)"

definition parse_piece :: "sub_parser \<Rightarrow> parse_state \<Rightarrow> size parse_result" where
  "parse_piece nested st = pbind (parse_atom nested st) parse_quantifier"

fun concat_loop :: "sub_parser \<Rightarrow> nat \<Rightarrow> size \<Rightarrow> parse_state \<Rightarrow> size parse_result" where
  "concat_loop nested 0 acc st = PFuel"
| "concat_loop nested (Suc fuel) acc st =
     (if at_end st \<or> peek st = CHR ''|'' \<or> peek st = CHR '')'' then POk acc st
      else pbind (parse_piece nested st) (\<lambda>n st1. concat_loop nested fuel (sat_add acc n) st1))"

definition parse_concat :: "sub_parser \<Rightarrow> parse_state \<Rightarrow> size parse_result" where
  "parse_concat nested st = concat_loop nested (length (left st) + 1) 0 st"

fun branch_loop :: "sub_parser \<Rightarrow> nat \<Rightarrow> size \<Rightarrow> parse_state \<Rightarrow> size parse_result" where
  "branch_loop nested 0 best st = PFuel"
| "branch_loop nested (Suc fuel) best st =
     (if peek st = CHR ''|''
      then pbind (parse_concat nested (advance 1 st)) (\<lambda>n st1. branch_loop nested fuel (max best n) st1)
      else POk best st)"

definition alternation :: "sub_parser \<Rightarrow> parse_state \<Rightarrow> size parse_result" where
  "alternation nested st =
     pbind (parse_concat nested st) (\<lambda>best st1. branch_loop nested (length (left st1) + 1) best st1)"

primrec parse_alternation :: "nat \<Rightarrow> parse_state \<Rightarrow> size parse_result" where
  "parse_alternation 0 = alternation None"
| "parse_alternation (Suc levels) = alternation (Some (parse_alternation levels))"

text \<open>\<open>parse\<close>, \<open>bounded_length\<close> and \<open>regex_max_len\<close>.\<close>

definition parse_pattern :: "string \<Rightarrow> size parse_result" where
  "parse_pattern pattern =
     pbind (parse_alternation kMaxGroupDepth \<lparr>left = pattern, fold_case = False\<rparr>)
       (\<lambda>n st. if left st \<noteq> [] then PUnbounded else POk n st)"

definition regex_max_len :: "string \<Rightarrow> size" where
  "regex_max_len pattern = (case parse_pattern pattern of POk n _ \<Rightarrow> n | _ \<Rightarrow> SIZE_MAX)"

section \<open>The tolerant pattern\<close>

fun split_underscore_loop :: "string \<Rightarrow> string \<Rightarrow> string list" where
  "split_underscore_loop current [] = (if current \<noteq> [] then [current] else [])"
| "split_underscore_loop current (c # cs) =
     (if c = CHR ''_'' then
        (if current \<noteq> [] then current # split_underscore_loop [] cs else split_underscore_loop [] cs)
      else split_underscore_loop (current @ [c]) cs)"

definition split_on_underscore :: "string \<Rightarrow> string list" where
  "split_on_underscore name =
     (let tokens = split_underscore_loop [] name in if tokens = [] then [name] else tokens)"

definition kMaxDrift :: nat where "kMaxDrift = 3"
definition kIndexLen :: nat where "kIndexLen = 9"

fun join_tokens :: "string \<Rightarrow> string list \<Rightarrow> string" where
  "join_tokens sep [] = []"
| "join_tokens sep [t] = t"
| "join_tokens sep (t # ts) = t @ sep @ join_tokens sep ts"

definition pattern_sep :: string where
  "pattern_sep = ''['' @ [CHR 0x5C] @ ''s_-]{0,'' @ nat_to_string kMaxDrift @ ''}''"

definition blanks_pattern :: string where
  "blanks_pattern = [CHR 0x5C] @ ''s{0,'' @ nat_to_string kMaxDrift @ ''}''"

text \<open>\<open>RE2::QuoteMeta\<close> is a parameter.\<close>

definition build_placeholder_pattern_string :: "(string \<Rightarrow> string) \<Rightarrow> string \<Rightarrow> string" where
  "build_placeholder_pattern_string quote_meta name =
     ''(?i)<'' @ blanks_pattern @
     join_tokens pattern_sep (map quote_meta (split_on_underscore name)) @ pattern_sep @
     ''([0-9]{1,'' @ nat_to_string kIndexLen @ ''})'' @ blanks_pattern @ ''>''"

record placeholder_pattern =
  pp_pattern :: string
  pp_max_len :: size

definition build_placeholder_pattern :: "(string \<Rightarrow> string) \<Rightarrow> string \<Rightarrow> rule_error + placeholder_pattern" where
  "build_placeholder_pattern quote_meta name =
     (let pattern = build_placeholder_pattern_string quote_meta name; max_len = regex_max_len pattern in
      if max_len = SIZE_MAX
      then Inl \<lparr>error_code = UnboundedPlaceholder,
                error_what = ''placeholder regex for '' @ [CHR 0x27] @ name @ [CHR 0x27] @ '' is unbounded: '' @ pattern\<rparr>
      else Inr \<lparr>pp_pattern = pattern, pp_max_len = max_len\<rparr>)"

section \<open>The parsers end\<close>

text \<open>
  \<open>consumes k st r\<close>: the parser result \<open>r\<close> has not run out of fuel, and a parser that succeeded took
  at least \<open>k\<close> bytes off \<open>st\<close>.  The parser of \<open>Prefilter.hpp\<close> uses the same notion.
\<close>

definition consumes :: "nat \<Rightarrow> parse_state \<Rightarrow> 'a parse_result \<Rightarrow> bool" where
  "consumes k st r \<longleftrightarrow>
     (case r of PFuel \<Rightarrow> False | PUnbounded \<Rightarrow> True | POk a st' \<Rightarrow> length (left st') + k \<le> length (left st))"

named_theorems parser_lengths "how the primitive operations of the parser state shorten what is left"

lemma consumes_simps [simp]:
  "\<not> consumes k st PFuel" "consumes k st PUnbounded"
  "consumes k st (POk a st') \<longleftrightarrow> length (left st') + k \<le> length (left st)"
  by (simp_all add: consumes_def)

lemma consumes_pbind:
  assumes "consumes j st r" "\<And>a st'. length (left st') + j \<le> length (left st) \<Longrightarrow> consumes k st' (f a st')"
  shows "consumes (j + k) st (pbind r f)"
proof (cases r)
  case (POk a st')
  then show ?thesis using assms(1) assms(2) [of st' a] by (cases "f a st'") (simp_all add: pbind_def)
qed (use assms(1) in \<open>simp_all add: pbind_def\<close>)

lemma consumes_if:
  "(b \<Longrightarrow> consumes k st x) \<Longrightarrow> (\<not> b \<Longrightarrow> consumes k st y) \<Longrightarrow> consumes k st (if b then x else y)"
  by simp

lemma consumes_weaken: "consumes k st' r \<Longrightarrow> length (left st') + j \<le> length (left st) + k \<Longrightarrow> consumes j st r"
  by (cases r) simp_all

lemma left_advance [parser_lengths]: "length (left (advance n st)) = length (left st) - n"
  by (simp add: advance_def)

lemma peek_left [parser_lengths]: "peek st = c \<Longrightarrow> c \<noteq> CHR 0x00 \<Longrightarrow> 0 < length (left st)"
  by (auto simp: peek_def split: list.splits)

lemma at_end_left [parser_lengths]: "at_end st \<longleftrightarrow> length (left st) = 0"
  by (simp add: at_end_def)

lemma skip_lazy_left [parser_lengths]: "length (left (skip_lazy_marker st)) \<le> length (left st)"
  by (simp add: skip_lazy_marker_def left_advance)

lemma lead_len_pos [simp]: "0 < lead_len c"
  by (simp add: lead_len_def)

lemma consumes_expect: "c \<noteq> CHR 0x00 \<Longrightarrow> consumes 1 st (expect c st)"
  using peek_left [of st c] by (auto simp: expect_def left_advance)

lemma consumes_rune_len: "consumes 1 st (consume_rune_len st)"
  using lead_len_pos [of "hd (left st)"]
  by (cases "left st") (auto simp: consume_rune_len_def Let_def left_advance min_def simp del: lead_len_pos)

lemma consumes_parse_escape: "at_end st \<or> consumes 1 st (parse_escape st)"
proof (cases "at_end (advance 1 st)")
  case False
  have "consumes 1 st (consume_rune_len (advance 1 st))"
    by (rule consumes_weaken [OF consumes_rune_len]) (simp add: left_advance)
  then show ?thesis using False by (auto simp: parse_escape_def Let_def at_end_left left_advance)
qed (simp add: parse_escape_def Let_def)

lemma consumes_class_member: "\<not> at_end st \<Longrightarrow> consumes 1 st (class_member st)"
  using consumes_parse_escape [of st] consumes_rune_len [of st] by (simp add: class_member_def)

lemma consumes_class_loop: "length (left st) < fuel \<Longrightarrow> consumes 1 st (class_loop fuel widest any_member st)"
proof (induction fuel widest any_member st rule: class_loop.induct)
  case (2 fuel widest any_member st)
  show ?case
  proof (cases "at_end st \<or> peek st = CHR '']''")
    case True
    then show ?thesis using peek_left [of st "CHR '']''"] by (auto simp: left_advance)
  next
    case False
    define k where "k = (\<lambda>member_len st1.
        if peek st1 = CHR ''-'' \<and> 1 < length (left st1) \<and> left st1 ! 1 \<noteq> CHR '']''
        then pbind (class_member (advance 1 st1)) (\<lambda>hi_len st2.
          class_loop fuel (max widest (max hi_len member_len)) True st2)
        else class_loop fuel (max widest member_len) True st1)"
    have "consumes 1 st1 (k n st1)" if "length (left st1) + 1 \<le> length (left st)" for n st1
    proof (cases "peek st1 = CHR ''-'' \<and> 1 < length (left st1) \<and> left st1 ! 1 \<noteq> CHR '']''")
      case True
      then have "\<not> at_end (advance 1 st1)" by (simp add: at_end_left left_advance)
      note m = consumes_class_member [OF this]
      have "consumes (1 + 1) (advance 1 st1) (k n st1)"
        unfolding k_def if_P [OF True]
        by (intro consumes_pbind [OF m] "2.IH"(1) [OF _ _ True]) (use False that "2.prems" in \<open>auto simp: left_advance\<close>)
      then show ?thesis by (rule consumes_weaken) (simp add: left_advance)
    next
      case no: False
      show ?thesis unfolding k_def if_not_P [OF no]
        by (rule "2.IH"(2) [OF _ _ no]) (use False that "2.prems" in auto)
    qed
    then have "consumes (1 + 1) st (pbind (class_member st) k)"
      using False by (intro consumes_pbind consumes_class_member) auto
    then have "consumes 1 st (pbind (class_member st) k)" by (rule consumes_weaken) simp
    then show ?thesis using False by (simp add: k_def)
  qed
qed simp


lemma consumes_parse_char_class: "\<not> at_end st \<Longrightarrow> consumes 1 st (parse_char_class st)"
proof -
  assume ne: "\<not> at_end st"
  define st1 where "st1 = (if peek (advance 1 st) = CHR ''^'' then advance 1 (advance 1 st) else advance 1 st)"
  have "length (left st1) < length (left st)" using ne by (auto simp: st1_def at_end_left left_advance)
  moreover have "consumes (1 + 0) st1 (pbind (class_loop (length (left st1) + 1) 0 False st1)
      (\<lambda>(widest, any_member) st2.
        if \<not> any_member then PUnbounded else POk (if peek (advance 1 st) = CHR ''^'' then kUtf8Max else widest) st2))"
    by (intro consumes_pbind consumes_class_loop) auto
  ultimately show ?thesis unfolding parse_char_class_def Let_def st1_def [symmetric]
    by (rule_tac consumes_weaken) auto
qed

definition nested_ok :: "(parse_state \<Rightarrow> 'a parse_result) option \<Rightarrow> bool" where
  "nested_ok nested \<longleftrightarrow> (\<forall>alt st. nested = Some alt \<longrightarrow> consumes 0 st (alt st))"

lemma consumes_group_body: "(\<And>st. consumes 0 st (alt st)) \<Longrightarrow> consumes 1 st (group_body alt st)"
proof -
  assume alt: "\<And>st. consumes 0 st (alt st)"
  have "consumes (0 + (1 + 0)) st (group_body alt st)" unfolding group_body_def
    by (intro consumes_pbind alt consumes_expect) auto
  then show ?thesis by simp
qed

lemma consumes_parse_group:
  assumes "nested_ok nested" "\<not> at_end st"
  shows "consumes 1 st (parse_group nested st)"
proof (cases nested)
  case (Some alt)
  have alt: "consumes 1 st' (group_body alt st')" for st'
    using assms(1) Some by (intro consumes_group_body) (simp add: nested_ok_def)
  have body: "consumes 1 st (group_body alt st')" if "length (left st') \<le> length (left st)" for st'
    by (rule consumes_weaken [OF alt]) (use that in simp)
  have named: "consumes 1 st (pbind (expect (CHR ''>'') st') (\<lambda>_ st3. group_body alt st3))"
    if "length (left st') \<le> length (left st)" for st'
  proof -
    have "consumes (1 + 1) st' (pbind (expect (CHR ''>'') st') (\<lambda>_ st3. group_body alt st3))"
      by (intro consumes_pbind consumes_expect alt) simp
    then show ?thesis by (rule consumes_weaken) (use that in simp)
  qed
  show ?thesis unfolding parse_group_def Some option.case Let_def
    by (intro consumes_if body named)
      (use assms(2) in \<open>auto simp: left_advance at_end_def neq_Nil_conv Suc_le_eq intro: le_trans [OF length_dropWhile_le]\<close>)
qed (simp add: parse_group_def)

lemma consumes_parse_atom: "nested_ok nested \<Longrightarrow> consumes 1 st (parse_atom nested st)"
  using consumes_parse_group [of nested st] consumes_parse_char_class [of st] consumes_parse_escape [of st]
    consumes_rune_len [of st]
  by (auto simp: parse_atom_def Let_def at_end_left left_advance)

lemma consumes_parse_quantifier: "consumes 0 st (parse_quantifier n st)"
proof -
  have "length (left (skip_lazy_marker (advance k st'))) \<le> length (left st')" for k st'
    using skip_lazy_left [of "advance k st'"] by (simp add: left_advance)
  note this [simp]
  have "consumes 0 st (parse_brace_quantifier n st)"
    by (auto simp: parse_brace_quantifier_def Let_def left_advance intro!: le_trans [OF skip_lazy_left])
  then show ?thesis by (simp add: parse_quantifier_def)
qed

lemma consumes_parse_piece: "nested_ok nested \<Longrightarrow> consumes 1 st (parse_piece nested st)"
  using consumes_pbind [OF consumes_parse_atom consumes_parse_quantifier, of nested st]
  by (simp add: parse_piece_def)

lemma consumes_concat_loop:
  "nested_ok nested \<Longrightarrow> length (left st) < fuel \<Longrightarrow> consumes 0 st (concat_loop nested fuel acc st)"
proof (induction nested fuel acc st rule: concat_loop.induct)
  case (2 nested fuel acc st)
  show ?case
  proof (cases "at_end st \<or> peek st = CHR ''|'' \<or> peek st = CHR '')''")
    case False
    have "consumes (1 + 0) st (pbind (parse_piece nested st) (\<lambda>n st1. concat_loop nested fuel (sat_add acc n) st1))"
      by (intro consumes_pbind consumes_parse_piece "2.IH" [OF False]) (use "2.prems" in auto)
    then have "consumes 0 st (pbind (parse_piece nested st) (\<lambda>n st1. concat_loop nested fuel (sat_add acc n) st1))"
      by (rule consumes_weaken) simp
    then show ?thesis using False by simp
  qed simp
qed simp

lemma consumes_parse_concat: "nested_ok nested \<Longrightarrow> consumes 0 st (parse_concat nested st)"
  unfolding parse_concat_def by (rule consumes_concat_loop) simp_all

lemma consumes_branch_loop:
  "nested_ok nested \<Longrightarrow> length (left st) < fuel \<Longrightarrow> consumes 0 st (branch_loop nested fuel best st)"
proof (induction nested fuel best st rule: branch_loop.induct)
  case (2 nested fuel best st)
  show ?case
  proof (cases "peek st = CHR ''|''")
    case True
    then obtain c cs where st: "left st = c # cs" using peek_left [of st] by (cases "left st") auto
    let ?k = "\<lambda>n st1. branch_loop nested fuel (max best n) st1"
    have "consumes (0 + 0) (advance 1 st) (pbind (parse_concat nested (advance 1 st)) ?k)"
      by (intro consumes_pbind consumes_parse_concat "2.IH" [OF True]) (use "2.prems" st in \<open>simp_all add: left_advance\<close>)
    then have "consumes 0 st (pbind (parse_concat nested (advance 1 st)) ?k)"
      by (rule consumes_weaken) (simp add: left_advance)
    then show ?thesis using True by simp
  qed simp
qed simp

lemma consumes_alternation: "nested_ok nested \<Longrightarrow> consumes 0 st (alternation nested st)"
proof -
  assume ok: "nested_ok nested"
  have "consumes (0 + 0) st (alternation nested st)" unfolding alternation_def
    by (intro consumes_pbind consumes_parse_concat consumes_branch_loop ok) simp
  then show ?thesis by simp
qed

lemma consumes_parse_alternation: "consumes 0 st (parse_alternation levels st)"
  by (induction levels arbitrary: st) (simp_all add: consumes_alternation nested_ok_def)

lemma regex_max_len_decides: "parse_pattern pattern \<noteq> PFuel"
proof -
  let ?st = "\<lparr>left = pattern, fold_case = False\<rparr>"
  have "consumes (0 + 0) ?st (parse_pattern pattern)" unfolding parse_pattern_def
    by (intro consumes_pbind consumes_parse_alternation) simp
  then show ?thesis by (cases "parse_pattern pattern") simp_all
qed

end
