(* ===== verification/Prefilter.thy ===== *)
theory Prefilter
  imports PlaceholderRegex
begin

text \<open>
  \<open>src/src/guard/Prefilter.hpp\<close>: a small parser of regular expressions that decides whether every
  match of a pattern must contain one of a rule's keywords, so that a text without any of them need
  not be scanned.  The parser has the shape of the one of \<open>PlaceholderRegex.hpp\<close> and shares its
  state; \<open>PUnbounded\<close> stands for \<open>PrefilterParseFailure\<close> here.
\<close>

section \<open>The syntax tree\<close>

text \<open>\<open>struct Node\<close>, with a constructor for each \<open>Kind\<close>.\<close>

datatype node =
    Literal string bool
  | Concat "node list"
  | Alternate "node list"
  | Capture node
  | Repeat nat node
  | Unsupported

definition literal_is_fold_safe :: "string \<Rightarrow> bool \<Rightarrow> bool" where
  "literal_is_fold_safe literal folded \<longleftrightarrow>
     (if \<not> folded then True
      else list_all (\<lambda>c. byte c < 0x80 \<and> c \<noteq> CHR ''s'' \<and> c \<noteq> CHR ''S'') literal)"

section \<open>The parser\<close>

definition consume_rune :: "parse_state \<Rightarrow> string parse_result" where
  "consume_rune st =
     (case left st of
        [] \<Rightarrow> PUnbounded
      | c # cs \<Rightarrow> let n = min (lead_len c) (length (c # cs)) in POk (take n (left st)) (advance n st))"

definition literal_rune :: "parse_state \<Rightarrow> node parse_result" where
  "literal_rune st = pbind (consume_rune st) (\<lambda>rune st1. POk (Literal rune (fold_case st)) st1)"

definition peek_is_quantifier_start :: "parse_state \<Rightarrow> bool" where
  "peek_is_quantifier_start st \<longleftrightarrow> peek st \<in> set ''*+?{''"

definition pf_brace_quantifier :: "node \<Rightarrow> parse_state \<Rightarrow> node parse_result" where
  "pf_brace_quantifier atom st =
     (let min_digits = takeWhile is_digit_char (drop 1 (left st));
          st1 = advance (1 + length min_digits) st;
          st2 = (if peek st1 = CHR '','' then
                   (let st' = advance 1 st1 in st'\<lparr>left := dropWhile is_digit_char (left st')\<rparr>)
                 else st1)
      in if min_digits = [] \<or> peek st2 \<noteq> CHR ''}'' then POk atom st
         else POk (Repeat (digits_value min_digits) atom) (skip_lazy_marker (advance 1 st2)))"

definition pf_quantifier :: "node \<Rightarrow> parse_state \<Rightarrow> node parse_result" where
  "pf_quantifier atom st =
     (if peek st = CHR ''*'' then POk (Repeat 0 atom) (skip_lazy_marker (advance 1 st))
      else if peek st = CHR ''+'' then POk (Repeat 1 atom) (skip_lazy_marker (advance 1 st))
      else if peek st = CHR ''?'' then POk (Repeat 0 atom) (skip_lazy_marker (advance 1 st))
      else pf_brace_quantifier atom st)"

text \<open>Skipping to a closing brace, as \<open>\p{...}\<close> and \<open>\x{...}\<close> do.\<close>

definition skip_braced :: "parse_state \<Rightarrow> unit parse_result" where
  "skip_braced st =
     (let st1 = advance 1 st in
      expect (CHR ''}'') (st1\<lparr>left := dropWhile (\<lambda>c. c \<noteq> CHR ''}'') (left st1)\<rparr>))"

definition is_octal_digit :: "char \<Rightarrow> bool" where
  "is_octal_digit c \<longleftrightarrow> 48 \<le> byte c \<and> byte c \<le> 55"

definition is_xdigit :: "char \<Rightarrow> bool" where
  "is_xdigit c \<longleftrightarrow> is_digit_char c \<or> (97 \<le> byte c \<and> byte c \<le> 102) \<or> (65 \<le> byte c \<and> byte c \<le> 70)"

definition control_escape :: "char \<Rightarrow> char option" where
  "control_escape c =
     (if c = CHR ''n'' then Some (CHR 0x0A)
      else if c = CHR ''t'' then Some (CHR 0x09)
      else if c = CHR ''r'' then Some (CHR 0x0D)
      else if c = CHR ''f'' then Some (CHR 0x0C)
      else if c = CHR ''v'' then Some (CHR 0x0B)
      else if c = CHR ''a'' then Some (CHR 0x07)
      else None)"

definition pf_escape :: "parse_state \<Rightarrow> node parse_result" where
  "pf_escape st0 =
     (let st = advance 1 st0 in
      if at_end st then PUnbounded
      else let c = peek st; st1 = advance 1 st in
        if c \<in> set ''dswDSWbBAzZ'' then POk Unsupported st1
        else case control_escape c of
          Some b \<Rightarrow> POk (Literal [b] (fold_case st)) st1
        | None \<Rightarrow>
            if c \<in> set ''pP'' then
              (if peek st1 = CHR ''{'' then pbind (skip_braced st1) (\<lambda>_ st2. POk Unsupported st2)
               else POk Unsupported (advance 1 st1))
            else if c = CHR ''x'' then
              (if peek st1 = CHR ''{'' then pbind (skip_braced st1) (\<lambda>_ st2. POk Unsupported st2)
               else POk Unsupported (advance (length (takeWhile is_xdigit (take 2 (left st1)))) st1))
            else if is_octal_digit c then
              POk Unsupported (advance (length (takeWhile is_octal_digit (take 3 (left st)))) st)
            else if is_lower_char c \<or> is_upper_char c \<or> is_digit_char c then PUnbounded
            else literal_rune st)"

definition pf_class_member :: "parse_state \<Rightarrow> unit parse_result" where
  "pf_class_member st =
     (if peek st = CHR 0x5C then pbind (pf_escape st) (\<lambda>_ st1. POk () st1)
      else pbind (consume_rune st) (\<lambda>_ st1. POk () st1))"

fun pf_class_loop :: "nat \<Rightarrow> bool \<Rightarrow> parse_state \<Rightarrow> bool parse_result" where
  "pf_class_loop 0 any_member st = PFuel"
| "pf_class_loop (Suc fuel) any_member st =
     (if at_end st then PUnbounded
      else if peek st = CHR '']'' then POk any_member (advance 1 st)
      else pbind (pf_class_member st) (\<lambda>_ st1.
        if peek st1 = CHR ''-'' \<and> 1 < length (left st1) \<and> left st1 ! 1 \<noteq> CHR '']''
        then pbind (pf_class_member (advance 1 st1)) (\<lambda>_ st2. pf_class_loop fuel True st2)
        else pf_class_loop fuel True st1))"

definition pf_char_class :: "parse_state \<Rightarrow> node parse_result" where
  "pf_char_class st0 =
     (let st = advance 1 st0; st1 = (if peek st = CHR ''^'' then advance 1 st else st) in
      pbind (pf_class_loop (length (left st1) + 1) False st1) (\<lambda>any_member st2.
        if \<not> any_member then PUnbounded else POk Unsupported st2))"

type_synonym node_parser = "(parse_state \<Rightarrow> node parse_result) option"

definition pf_group_body ::
  "(parse_state \<Rightarrow> node parse_result) \<Rightarrow> (node \<Rightarrow> node) \<Rightarrow> parse_state \<Rightarrow> node parse_result" where
  "pf_group_body alt wrap st =
     pbind (alt st) (\<lambda>inner st1. pbind (expect (CHR '')'') st1) (\<lambda>_ st2. POk (wrap inner) st2))"

definition pf_group :: "node_parser \<Rightarrow> parse_state \<Rightarrow> node parse_result" where
  "pf_group nested st0 =
     (case nested of
        None \<Rightarrow> PUnbounded
      | Some alt \<Rightarrow>
        let st = advance 1 st0 in
        if peek st \<noteq> CHR ''?'' then pf_group_body alt Capture st
        else
          let st1 = advance 1 st in
          if peek st1 = CHR '':'' then pf_group_body alt id (advance 1 st1)
          else if peek st1 = CHR ''P'' \<and> 1 < length (left st1) \<and> left st1 ! 1 = CHR ''<'' then
            (let st2 = st1\<lparr>left := dropWhile (\<lambda>c. c \<noteq> CHR ''>'') (drop 2 (left st1))\<rparr> in
             pbind (expect (CHR ''>'') st2) (\<lambda>_ st3. pf_group_body alt Capture st3))
          else
            let flags = takeWhile is_flag_char (left st1);
                st2 = (advance (length flags) st1)\<lparr>fold_case := fold_case st1 \<or> CHR ''i'' \<in> set flags\<rparr>
            in if flags \<noteq> [] \<and> peek st2 = CHR '')'' then POk Unsupported (advance 1 st2)
               else if flags \<noteq> [] \<and> peek st2 = CHR '':'' then pf_group_body alt id (advance 1 st2)
               else PUnbounded)"

definition pf_atom :: "node_parser \<Rightarrow> parse_state \<Rightarrow> node parse_result" where
  "pf_atom nested st =
     (if at_end st then PUnbounded
      else let c = peek st in
        if c = CHR ''('' then pf_group nested st
        else if c = CHR ''['' then pf_char_class st
        else if c = CHR 0x5C then pf_escape st
        else if c = CHR ''^'' \<or> c = CHR ''$'' then POk Unsupported (advance 1 st)
        else if c = CHR ''.'' then POk Unsupported (advance 1 st)
        else if c \<in> set ''|)*+?{}]'' then PUnbounded
        else literal_rune st)"

text \<open>
  The loop of \<open>parse_concat\<close>.  \<open>pending\<close> is the literal run that is still growing
  (\<open>have_pending_literal\<close> and \<open>pending_literal\<close>), \<open>children\<close> what has been flushed.
\<close>

fun flush_pending :: "(string \<times> bool) option \<Rightarrow> node list \<Rightarrow> node list" where
  "flush_pending None children = children"
| "flush_pending (Some (s, f)) children = children @ [Literal s f]"

definition add_literal ::
  "(string \<times> bool) option \<Rightarrow> node list \<Rightarrow> string \<Rightarrow> bool \<Rightarrow> (string \<times> bool) option \<times> node list" where
  "add_literal pending children s f =
     (case pending of
        Some (s0, f0) \<Rightarrow>
          if f0 = f then (Some (s0 @ s, f0), children) else (Some (s, f), flush_pending pending children)
      | None \<Rightarrow> (Some (s, f), children))"

definition finish_concat :: "node list \<Rightarrow> node" where
  "finish_concat children =
     (case children of [] \<Rightarrow> Literal [] False | [n] \<Rightarrow> n | _ \<Rightarrow> Concat children)"

fun pf_concat_loop ::
  "node_parser \<Rightarrow> nat \<Rightarrow> (string \<times> bool) option \<Rightarrow> node list \<Rightarrow> parse_state \<Rightarrow> node parse_result" where
  "pf_concat_loop nested 0 pending children st = PFuel"
| "pf_concat_loop nested (Suc fuel) pending children st =
     (if at_end st \<or> peek st = CHR ''|'' \<or> peek st = CHR '')''
      then POk (finish_concat (flush_pending pending children)) st
      else pbind (pf_atom nested st) (\<lambda>atom st1.
        if peek_is_quantifier_start st1
        then pbind (pf_quantifier atom st1) (\<lambda>piece st2.
          pf_concat_loop nested fuel None (flush_pending pending children @ [piece]) st2)
        else case atom of
          Literal s f \<Rightarrow>
            let (pending', children') = add_literal pending children s f
            in pf_concat_loop nested fuel pending' children' st1
        | _ \<Rightarrow> pf_concat_loop nested fuel None (flush_pending pending children @ [atom]) st1))"

definition pf_concat :: "node_parser \<Rightarrow> parse_state \<Rightarrow> node parse_result" where
  "pf_concat nested st = pf_concat_loop nested (length (left st) + 1) None [] st"

fun pf_branch_loop :: "node_parser \<Rightarrow> nat \<Rightarrow> node list \<Rightarrow> parse_state \<Rightarrow> node parse_result" where
  "pf_branch_loop nested 0 branches st = PFuel"
| "pf_branch_loop nested (Suc fuel) branches st =
     (if peek st = CHR ''|''
      then pbind (pf_concat nested (advance 1 st)) (\<lambda>n st1. pf_branch_loop nested fuel (branches @ [n]) st1)
      else POk (Alternate branches) st)"

definition pf_alternation_with :: "node_parser \<Rightarrow> parse_state \<Rightarrow> node parse_result" where
  "pf_alternation_with nested st =
     pbind (pf_concat nested st) (\<lambda>first st1.
       if peek st1 \<noteq> CHR ''|'' then POk first st1
       else pf_branch_loop nested (length (left st1) + 1) [first] st1)"

primrec pf_alternation :: "nat \<Rightarrow> parse_state \<Rightarrow> node parse_result" where
  "pf_alternation 0 = pf_alternation_with None"
| "pf_alternation (Suc levels) = pf_alternation_with (Some (pf_alternation levels))"

definition pf_parse :: "string \<Rightarrow> node parse_result" where
  "pf_parse pattern =
     pbind (pf_alternation kMaxGroupDepth \<lparr>left = pattern, fold_case = False\<rparr>)
       (\<lambda>n st. if left st \<noteq> [] then PUnbounded else POk n st)"

section \<open>The decision\<close>

fun guarantees_keyword :: "utf8proc \<Rightarrow> node \<Rightarrow> string list \<Rightarrow> bool" where
  "guarantees_keyword u (Literal s f) kws \<longleftrightarrow>
     (if \<not> literal_is_fold_safe s f then False
      else list_ex (\<lambda>kw. kw \<noteq> [] \<and> find_sub kw (to_lower_utf8 u s) \<noteq> None) kws)"
| "guarantees_keyword u (Concat ns) kws \<longleftrightarrow> list_ex (\<lambda>n. guarantees_keyword u n kws) ns"
| "guarantees_keyword u (Alternate ns) kws \<longleftrightarrow>
     (if ns = [] then False else list_all (\<lambda>n. guarantees_keyword u n kws) ns)"
| "guarantees_keyword u (Capture n) kws \<longleftrightarrow> guarantees_keyword u n kws"
| "guarantees_keyword u (Repeat m n) kws \<longleftrightarrow> m \<ge> 1 \<and> guarantees_keyword u n kws"
| "guarantees_keyword u Unsupported kws \<longleftrightarrow> False"

definition regex_guarantees_keyword :: "utf8proc \<Rightarrow> string \<Rightarrow> string list \<Rightarrow> bool" where
  "regex_guarantees_keyword u pattern keywords =
     (if keywords = [] then False
      else case pf_parse pattern of
        POk tree _ \<Rightarrow> guarantees_keyword u tree (map (to_lower_utf8 u) keywords)
      | _ \<Rightarrow> False)"

section \<open>The parser ends\<close>

lemma length_takeWhile_le': "length (takeWhile P xs) \<le> length xs"
  by (induction xs) auto

lemma consumes_case_option:
  "(o' = None \<Longrightarrow> consumes k st x) \<Longrightarrow> (\<And>a. o' = Some a \<Longrightarrow> consumes k st (f a)) \<Longrightarrow>
     consumes k st (case o' of None \<Rightarrow> x | Some a \<Rightarrow> f a)"
  by (cases o') simp_all

lemma consumes_consume_rune: "consumes 1 st (consume_rune st)"
  using lead_len_pos [of "hd (left st)"]
  by (cases "left st") (auto simp: consume_rune_def Let_def left_advance min_def simp del: lead_len_pos)

lemma consumes_literal_rune: "consumes 1 st (literal_rune st)"
proof -
  have "consumes (1 + 0) st (literal_rune st)" unfolding literal_rune_def
    by (intro consumes_pbind consumes_consume_rune) simp
  then show ?thesis by simp
qed

lemma consumes_skip_braced: "consumes 0 st (skip_braced st)"
proof -
  let ?st = "advance 1 st\<lparr>left := dropWhile (\<lambda>c. c \<noteq> CHR ''}'') (left (advance 1 st))\<rparr>"
  have "consumes 1 ?st (skip_braced st)" unfolding skip_braced_def Let_def by (rule consumes_expect) simp
  then show ?thesis
    by (rule consumes_weaken) (simp add: left_advance le_trans [OF length_dropWhile_le])
qed

lemma consumes_pf_escape:
  assumes "\<not> at_end st"
  shows "consumes 1 st (pf_escape st)"
proof -
  have braced: "consumes 1 st (pbind (skip_braced st') (\<lambda>_ st2. POk Unsupported st2))"
    if "length (left st') < length (left st)" for st'
  proof -
    have "consumes (0 + 0) st' (pbind (skip_braced st') (\<lambda>_ st2. POk Unsupported st2))"
      by (intro consumes_pbind consumes_skip_braced) simp
    then show ?thesis by (rule consumes_weaken) (use that in simp)
  qed
  have lit: "consumes 1 st (literal_rune st')" if "length (left st') \<le> length (left st)" for st'
    by (rule consumes_weaken [OF consumes_literal_rune]) (use that in simp)
  obtain c cs where st: "left st = c # cs" using assms by (cases "left st") (auto simp: at_end_def)
  show ?thesis unfolding pf_escape_def Let_def
    by (intro consumes_if consumes_case_option braced lit) (simp_all add: left_advance at_end_def st)
qed


lemma consumes_pf_class_member: "\<not> at_end st \<Longrightarrow> consumes 1 st (pf_class_member st)"
proof -
  assume ne: "\<not> at_end st"
  have "consumes (1 + 0) st (pf_class_member st)" unfolding pf_class_member_def
    by (intro consumes_if consumes_pbind consumes_pf_escape consumes_consume_rune ne) simp_all
  then show ?thesis by simp
qed

lemma consumes_pf_class_loop: "length (left st) < fuel \<Longrightarrow> consumes 1 st (pf_class_loop fuel any_member st)"
proof (induction fuel any_member st rule: pf_class_loop.induct)
  case (2 fuel any_member st)
  show ?case
  proof (cases "at_end st \<or> peek st = CHR '']''")
    case True
    then show ?thesis using peek_left [of st "CHR '']''"] by (auto simp: left_advance)
  next
    case False
    define k where "k = (\<lambda>(u :: unit) st1.
        if peek st1 = CHR ''-'' \<and> 1 < length (left st1) \<and> left st1 ! 1 \<noteq> CHR '']''
        then pbind (pf_class_member (advance 1 st1)) (\<lambda>u st2. pf_class_loop fuel True st2)
        else pf_class_loop fuel True st1)"
    have "consumes 1 st1 (k n st1)" if "length (left st1) + 1 \<le> length (left st)" for n st1
    proof (cases "peek st1 = CHR ''-'' \<and> 1 < length (left st1) \<and> left st1 ! 1 \<noteq> CHR '']''")
      case True
      then have "\<not> at_end (advance 1 st1)" by (simp add: at_end_left left_advance)
      note m = consumes_pf_class_member [OF this]
      have "consumes (1 + 1) (advance 1 st1) (k n st1)"
        unfolding k_def if_P [OF True]
        by (intro consumes_pbind [OF m] "2.IH"(1) [OF _ _ True]) (use False that "2.prems" in \<open>auto simp: left_advance\<close>)
      then show ?thesis by (rule consumes_weaken) (simp add: left_advance)
    next
      case no: False
      show ?thesis unfolding k_def if_not_P [OF no]
        by (rule "2.IH"(2) [OF _ _ no]) (use False that "2.prems" in auto)
    qed
    then have "consumes (1 + 1) st (pbind (pf_class_member st) k)"
      using False by (intro consumes_pbind consumes_pf_class_member) auto
    then have "consumes 1 st (pbind (pf_class_member st) k)" by (rule consumes_weaken) simp
    then show ?thesis using False by (simp add: k_def)
  qed
qed simp

lemma consumes_pf_char_class: "\<not> at_end st \<Longrightarrow> consumes 1 st (pf_char_class st)"
proof -
  assume ne: "\<not> at_end st"
  define st1 where "st1 = (if peek (advance 1 st) = CHR ''^'' then advance 1 (advance 1 st) else advance 1 st)"
  have "length (left st1) < length (left st)" using ne by (auto simp: st1_def at_end_left left_advance)
  moreover have "consumes (1 + 0) st1 (pbind (pf_class_loop (length (left st1) + 1) False st1)
      (\<lambda>any_member st2. if \<not> any_member then PUnbounded else POk Unsupported st2))"
    by (intro consumes_pbind consumes_pf_class_loop) auto
  ultimately show ?thesis unfolding pf_char_class_def Let_def st1_def [symmetric]
    by (rule_tac consumes_weaken) auto
qed

lemma consumes_pf_group_body: "(\<And>st. consumes 0 st (alt st)) \<Longrightarrow> consumes 1 st (pf_group_body alt wrap st)"
proof -
  assume alt: "\<And>st. consumes 0 st (alt st)"
  have "consumes (0 + (1 + 0)) st (pf_group_body alt wrap st)" unfolding pf_group_body_def
    by (intro consumes_pbind alt consumes_expect) auto
  then show ?thesis by simp
qed

lemma consumes_pf_group:
  assumes "nested_ok nested" "\<not> at_end st"
  shows "consumes 1 st (pf_group nested st)"
proof (cases nested)
  case (Some alt)
  have alt: "consumes 1 st' (pf_group_body alt wrap st')" for st' wrap
    using assms(1) Some by (intro consumes_pf_group_body) (simp add: nested_ok_def)
  have body: "consumes 1 st (pf_group_body alt wrap st')" if "length (left st') \<le> length (left st)" for st' wrap
    by (rule consumes_weaken [OF alt]) (use that in simp)
  have named: "consumes 1 st (pbind (expect (CHR ''>'') st') (\<lambda>_ st3. pf_group_body alt wrap st3))"
    if "length (left st') \<le> length (left st)" for st' wrap
  proof -
    have "consumes (1 + 1) st' (pbind (expect (CHR ''>'') st') (\<lambda>_ st3. pf_group_body alt wrap st3))"
      by (intro consumes_pbind consumes_expect alt) simp
    then show ?thesis by (rule consumes_weaken) (use that in simp)
  qed
  show ?thesis unfolding pf_group_def Some option.case Let_def
    by (intro consumes_if body named)
      (use assms(2) in \<open>auto simp: left_advance at_end_def neq_Nil_conv Suc_le_eq intro: le_trans [OF length_dropWhile_le]\<close>)
qed (simp add: pf_group_def)

lemma consumes_pf_atom: "nested_ok nested \<Longrightarrow> consumes 1 st (pf_atom nested st)"
  using consumes_pf_group [of nested st] consumes_pf_char_class [of st] consumes_pf_escape [of st]
    consumes_literal_rune [of st]
  by (auto simp: pf_atom_def Let_def at_end_left left_advance)

lemma consumes_pf_quantifier: "consumes 0 st (pf_quantifier n st)"
proof -
  have "length (left (skip_lazy_marker (advance k st'))) \<le> length (left st')" for k st'
    using skip_lazy_left [of "advance k st'"] by (simp add: left_advance)
  note this [simp]
  have "consumes 0 st (pf_brace_quantifier n st)"
    by (auto simp: pf_brace_quantifier_def Let_def left_advance
        intro!: le_trans [OF skip_lazy_left] le_trans [OF diff_le_self] le_trans [OF length_dropWhile_le])
  then show ?thesis by (simp add: pf_quantifier_def)
qed

lemma consumes_pf_concat_loop:
  "nested_ok nested \<Longrightarrow> length (left st) < fuel \<Longrightarrow> consumes 0 st (pf_concat_loop nested fuel pending children st)"
proof (induction fuel arbitrary: pending children st)
  case (Suc fuel)
  show ?case
  proof (cases "at_end st \<or> peek st = CHR ''|'' \<or> peek st = CHR '')''")
    case False
    have more: "consumes 0 st1 (pf_concat_loop nested fuel p c st1)" if "length (left st1) + 1 \<le> length (left st)" for p c st1
      by (rule Suc.IH) (use Suc.prems that in auto)
    have quant: "consumes 0 st1 (pbind (pf_quantifier atom st1) (\<lambda>piece st2. pf_concat_loop nested fuel p (c piece) st2))"
      if "length (left st1) + 1 \<le> length (left st)" for p c st1 atom
    proof -
      have "consumes (0 + 0) st1 (pbind (pf_quantifier atom st1) (\<lambda>piece st2. pf_concat_loop nested fuel p (c piece) st2))"
        by (intro consumes_pbind consumes_pf_quantifier more) (use that in simp)
      then show ?thesis by simp
    qed
    define k where "k = (\<lambda>atom st1. if peek_is_quantifier_start st1
        then pbind (pf_quantifier atom st1) (\<lambda>piece st2.
          pf_concat_loop nested fuel None (flush_pending pending children @ [piece]) st2)
        else case atom of
          Literal s f \<Rightarrow>
            let (pending', children') = add_literal pending children s f
            in pf_concat_loop nested fuel pending' children' st1
        | _ \<Rightarrow> pf_concat_loop nested fuel None (flush_pending pending children @ [atom]) st1)"
    have "consumes 0 st1 (k atom st1)" if "length (left st1) + 1 \<le> length (left st)" for atom st1
      using quant [OF that] more [OF that] by (auto simp: k_def split: node.splits prod.splits)
    then have "consumes (1 + 0) st (pbind (pf_atom nested st) k)"
      by (intro consumes_pbind consumes_pf_atom Suc.prems)
    then have "consumes 0 st (pbind (pf_atom nested st) k)" by (rule consumes_weaken) simp
    then show ?thesis using False by (simp add: k_def)
  qed simp
qed simp

lemma consumes_pf_concat: "nested_ok nested \<Longrightarrow> consumes 0 st (pf_concat nested st)"
  unfolding pf_concat_def by (rule consumes_pf_concat_loop) simp_all

lemma consumes_pf_branch_loop:
  "nested_ok nested \<Longrightarrow> length (left st) < fuel \<Longrightarrow> consumes 0 st (pf_branch_loop nested fuel branches st)"
proof (induction nested fuel branches st rule: pf_branch_loop.induct)
  case (2 nested fuel branches st)
  show ?case
  proof (cases "peek st = CHR ''|''")
    case True
    then obtain c cs where st: "left st = c # cs" using peek_left [of st] by (cases "left st") auto
    let ?k = "\<lambda>n st1. pf_branch_loop nested fuel (branches @ [n]) st1"
    have "consumes (0 + 0) (advance 1 st) (pbind (pf_concat nested (advance 1 st)) ?k)"
      by (intro consumes_pbind consumes_pf_concat "2.IH" [OF True]) (use "2.prems" st in \<open>simp_all add: left_advance\<close>)
    then have "consumes 0 st (pbind (pf_concat nested (advance 1 st)) ?k)"
      by (rule consumes_weaken) (simp add: left_advance)
    then show ?thesis using True by simp
  qed simp
qed simp

lemma consumes_pf_alternation_with: "nested_ok nested \<Longrightarrow> consumes 0 st (pf_alternation_with nested st)"
proof -
  assume ok: "nested_ok nested"
  have "consumes (0 + 0) st (pf_alternation_with nested st)" unfolding pf_alternation_with_def
    by (intro consumes_pbind consumes_if consumes_pf_concat consumes_pf_branch_loop ok) simp_all
  then show ?thesis by simp
qed

lemma consumes_pf_alternation: "consumes 0 st (pf_alternation levels st)"
  by (induction levels arbitrary: st) (simp_all add: consumes_pf_alternation_with nested_ok_def)

lemma pf_parse_decides: "pf_parse pattern \<noteq> PFuel"
proof -
  let ?st = "\<lparr>left = pattern, fold_case = False\<rparr>"
  have "consumes (0 + 0) ?st (pf_parse pattern)" unfolding pf_parse_def
    by (intro consumes_pbind consumes_pf_alternation) simp
  then show ?thesis by (cases "pf_parse pattern") simp_all
qed

text \<open>C21. Both pattern parsers come to an end: whatever the pattern, the parser behind the placeholder's
  length bound and the one behind the keyword proof either refuse it or return a result with nothing
  left to read; no loop of theirs runs out of the rounds that the model grants it.\<close>

theorem pattern_parsers_terminate:
  "(parse_pattern p = PUnbounded \<or> (\<exists>n st. parse_pattern p = POk n st \<and> left st = [])) \<and>
   (pf_parse p = PUnbounded \<or> (\<exists>tree st. pf_parse p = POk tree st \<and> left st = []))"
proof
  show "parse_pattern p = PUnbounded \<or> (\<exists>n st. parse_pattern p = POk n st \<and> left st = [])"
    using regex_max_len_decides [of p]
    by (auto simp: parse_pattern_def pbind_def split: parse_result.splits if_splits)
  show "pf_parse p = PUnbounded \<or> (\<exists>tree st. pf_parse p = POk tree st \<and> left st = [])"
    using pf_parse_decides [of p]
    by (auto simp: pf_parse_def pbind_def split: parse_result.splits if_splits)
qed

end
