(* ===== verification/Registry.thy ===== *)
theory Registry
  imports Compiled Prefilter
begin

text \<open>
  \<open>src/src/guard/Registry.hpp\<close>: validating and compiling rules, and the immutable snapshot that looks
  them up by id and by data type.
\<close>

section \<open>Definitions\<close>

text \<open>
  What the compiler needs of RE2: \<open>re_compile p\<close> is a compiled expression, or the text of
  \<open>RE2::error()\<close> when \<open>ok()\<close> is false.
\<close>

record regex_engine =
  re_compile :: "string \<Rightarrow> string + re2"
  re_quote_meta :: "string \<Rightarrow> string"

definition is_valid_rule_id :: "string \<Rightarrow> bool" where
  "is_valid_rule_id i \<longleftrightarrow>
     \<not> (i = [] \<or> length i > 128) \<and>
     list_all (\<lambda>c. is_lower_char c \<or> is_digit_char c \<or> c = CHR ''_'' \<or> c = CHR ''.'' \<or> c = CHR ''-'') i"

definition quoted :: "string \<Rightarrow> string" where
  "quoted s = [CHR 0x27] @ s @ [CHR 0x27]"

definition rule_fault :: "rule_error_code \<Rightarrow> string \<Rightarrow> rule_error" where
  "rule_fault code what = \<lparr>error_code = code, error_what = what\<rparr>"

text \<open>\<open>std::to_string\<close> on an \<open>int\<close>.\<close>

definition int_to_string :: "int \<Rightarrow> string" where
  "int_to_string i = (if i < 0 then ''-'' @ nat_to_string (nat (- i)) else nat_to_string (nat i))"

text \<open>The loops over the validator names and over the capture groups: the first fault, if any.\<close>

fun check_validators :: "string \<Rightarrow> string list \<Rightarrow> rule_error option" where
  "check_validators i [] = None"
| "check_validators i (v # vs) =
     (if \<not> is_known_validator v
      then Some (rule_fault UnknownValidator
        (''compile guardrails rule '' @ quoted i @ '': unsupported validator '' @ quoted v))
      else check_validators i vs)"

fun check_groups :: "string \<Rightarrow> int \<Rightarrow> int list \<Rightarrow> rule_error option" where
  "check_groups i num_groups [] = None"
| "check_groups i num_groups (g # gs) =
     (if g \<le> 0
      then Some (rule_fault BadCaptureGroup
        (''compile guardrails rule '' @ quoted i @ '': capture_groups must contain positive indexes''))
      else if g > num_groups
      then Some (rule_fault BadCaptureGroup
        (''compile guardrails rule '' @ quoted i @ '': capture group '' @ int_to_string g @
         '' exceeds regex capture groups '' @ int_to_string num_groups))
      else check_groups i num_groups gs)"

text \<open>The placeholder recogniser and its length bound; none for a blank placeholder.\<close>

definition compile_placeholder :: "regex_engine \<Rightarrow> rule \<Rightarrow> rule_error + (re2 option \<times> nat)" where
  "compile_placeholder eng r =
     (let name = ascii_trim (placeholder (rule_masking r)) in
      if name = [] then Inr (None, 0)
      else case build_placeholder_pattern (re_quote_meta eng) name of
        Inl e \<Rightarrow> Inl (rule_fault (error_code e)
          (''compile guardrails rule '' @ quoted (rule_id r) @ '' placeholder: '' @ error_what e))
      | Inr pp \<Rightarrow>
          (case re_compile eng (''(?m)'' @ pp_pattern pp) of
             Inl e \<Rightarrow> Inl (rule_fault BadRegex
               (''compile guardrails rule '' @ quoted (rule_id r) @ '' placeholder regex: '' @ e))
           | Inr re \<Rightarrow>
               if re_groups re < 1
               then Inl (rule_fault BadRegex
                 (''compile guardrails rule '' @ quoted (rule_id r) @
                  '' placeholder regex must have capture group #1 for the placeholder index''))
               else Inr (Some re, unat (pp_max_len pp))))"

definition compile_rule :: "platform \<Rightarrow> regex_engine \<Rightarrow> rule \<Rightarrow> rule_error + compiled_rule" where
  "compile_rule pf eng r =
     (if \<not> is_valid_rule_id (rule_id r)
      then Inl (rule_fault InvalidId
        (''compile guardrails rule: invalid rule_id '' @ quoted (rule_id r) @ ''; must match ^[a-z0-9_.-]{1,128}$''))
      else case check_validators (rule_id r) (validators r) of
        Some e \<Rightarrow> Inl e
      | None \<Rightarrow>
          (case re_compile eng (''(?m)'' @ regex r) of
             Inl e \<Rightarrow> Inl (rule_fault BadRegex (''compile guardrails rule '' @ quoted (rule_id r) @ '' regex: '' @ e))
           | Inr re \<Rightarrow>
               (case check_groups (rule_id r) (int (re_groups re)) (capture_groups (rule_masking r)) of
                  Some e \<Rightarrow> Inl e
                | None \<Rightarrow>
                    (case compile_placeholder eng r of
                       Inl e \<Rightarrow> Inl e
                     | Inr (placeholder_re, placeholder_len) \<Rightarrow>
                         Inr \<lparr>cr_rule = r, cr_re = Some re, cr_placeholder_re = placeholder_re,
                              cr_placeholder_len = placeholder_len,
                              prefilter_eligible = (rule_keywords r \<noteq> [] \<and>
                                regex_guarantees_keyword (utf8 pf) (regex r) (rule_keywords r)),
                              prefilter_keywords = map (to_lower_utf8 (utf8 pf)) (rule_keywords r)\<rparr>))))"

subsection \<open>The snapshot\<close>

record registry =
  reg_rules :: "compiled_rule list"
  by_id_index :: "string \<Rightarrow> nat option"
  by_data_type_index :: "data_type \<Rightarrow> nat list option"

definition empty_registry :: registry where
  "empty_registry = \<lparr>reg_rules = [], by_id_index = Map.empty, by_data_type_index = Map.empty\<rparr>"

definition add_compiled :: "compiled_rule \<Rightarrow> registry \<Rightarrow> registry" where
  "add_compiled cr reg =
     (let idx = length (reg_rules reg); dt = rule_data_type (cr_rule cr);
          old = (case by_data_type_index reg dt of None \<Rightarrow> [] | Some is \<Rightarrow> is)
      in \<lparr>reg_rules = reg_rules reg @ [cr],
          by_id_index = (by_id_index reg)(rule_id (cr_rule cr) \<mapsto> idx),
          by_data_type_index = (by_data_type_index reg)(dt \<mapsto> old @ [idx])\<rparr>)"

fun build_from :: "platform \<Rightarrow> regex_engine \<Rightarrow> registry \<Rightarrow> rule list \<Rightarrow> rule_error + registry" where
  "build_from pf eng reg [] = Inr reg"
| "build_from pf eng reg (r # rs) =
     (if by_id_index reg (rule_id r) \<noteq> None
      then Inl (rule_fault DuplicateId (''compile guardrails rule '' @ quoted (rule_id r) @ '': duplicate rule_id''))
      else case compile_rule pf eng r of
        Inl e \<Rightarrow> Inl e
      | Inr cr \<Rightarrow> build_from pf eng (add_compiled cr reg) rs)"

definition build :: "platform \<Rightarrow> regex_engine \<Rightarrow> rule list \<Rightarrow> rule_error + registry" where
  "build pf eng rules = build_from pf eng empty_registry rules"

definition by_id :: "registry \<Rightarrow> string \<Rightarrow> compiled_rule option" where
  "by_id reg i = map_option (\<lambda>idx. reg_rules reg ! idx) (by_id_index reg i)"

definition for_data_types :: "registry \<Rightarrow> data_type list \<Rightarrow> compiled_rule list" where
  "for_data_types reg dts =
     concat (map (\<lambda>dt. case by_data_type_index reg dt of
       None \<Rightarrow> [] | Some is \<Rightarrow> map (\<lambda>idx. reg_rules reg ! idx) is) dts)"

definition reg_size :: "registry \<Rightarrow> nat" where
  "reg_size reg = length (reg_rules reg)"

definition prefilter_ineligible_rule_ids :: "registry \<Rightarrow> string list" where
  "prefilter_ineligible_rule_ids reg =
     sort_by string_less (map (\<lambda>cr. rule_id (cr_rule cr))
       (filter (\<lambda>cr. rule_keywords (cr_rule cr) \<noteq> [] \<and> \<not> prefilter_eligible cr) (reg_rules reg)))"

text \<open>\<open>class ReloadableRegistry\<close>: the atomic pointer to the current snapshot.\<close>

record reloadable =
  current :: registry

definition reg_get :: "reloadable \<Rightarrow> registry" where
  "reg_get r = current r"

definition reg_swap :: "registry \<Rightarrow> reloadable \<Rightarrow> reloadable" where
  "reg_swap next r = r\<lparr>current := next\<rparr>"

section \<open>Properties\<close>

text \<open>The indexes of a snapshot agree with its rules.\<close>

definition registry_ok :: "registry \<Rightarrow> bool" where
  "registry_ok reg \<longleftrightarrow>
     distinct (map (\<lambda>cr. rule_id (cr_rule cr)) (reg_rules reg)) \<and>
     (\<forall>i idx. by_id_index reg i = Some idx \<longleftrightarrow>
        idx < length (reg_rules reg) \<and> rule_id (cr_rule (reg_rules reg ! idx)) = i) \<and>
     (\<forall>dt. (case by_data_type_index reg dt of None \<Rightarrow> [] | Some is \<Rightarrow> is) =
        filter (\<lambda>idx. rule_data_type (cr_rule (reg_rules reg ! idx)) = dt) [0..<length (reg_rules reg)])"

lemma registry_ok_empty [simp]: "registry_ok empty_registry"
  by (simp add: registry_ok_def empty_registry_def)

lemma registry_ok_add:
  assumes ok: "registry_ok reg" and new: "by_id_index reg (rule_id (cr_rule cr)) = None"
  shows "registry_ok (add_compiled cr reg)"
proof -
  let ?n = "length (reg_rules reg)" and ?i = "rule_id (cr_rule cr)"
  have fresh: "rule_id (cr_rule (reg_rules reg ! idx)) \<noteq> ?i" if "idx < ?n" for idx
  proof
    assume "rule_id (cr_rule (reg_rules reg ! idx)) = ?i"
    then have "by_id_index reg ?i = Some idx" using ok that unfolding registry_ok_def by blast
    then show False using new by simp
  qed
  then have "?i \<notin> (\<lambda>cr. rule_id (cr_rule cr)) ` set (reg_rules reg)" by (fastforce simp: in_set_conv_nth)
  then have "distinct (map (\<lambda>cr. rule_id (cr_rule cr)) (reg_rules (add_compiled cr reg)))"
    using ok by (auto simp: registry_ok_def add_compiled_def Let_def)
  moreover have "by_id_index (add_compiled cr reg) i = Some idx \<longleftrightarrow>
      idx < length (reg_rules (add_compiled cr reg)) \<and> rule_id (cr_rule (reg_rules (add_compiled cr reg) ! idx)) = i" for i idx
    using ok fresh by (auto simp: registry_ok_def add_compiled_def Let_def nth_append less_Suc_eq)
  moreover have "(case by_data_type_index (add_compiled cr reg) dt of None \<Rightarrow> [] | Some is \<Rightarrow> is) =
      filter (\<lambda>idx. rule_data_type (cr_rule (reg_rules (add_compiled cr reg) ! idx)) = dt)
        [0..<length (reg_rules (add_compiled cr reg))]" for dt
  proof -
    have "filter (\<lambda>idx. rule_data_type (cr_rule ((reg_rules reg @ [cr]) ! idx)) = dt) [0..<?n] =
        filter (\<lambda>idx. rule_data_type (cr_rule (reg_rules reg ! idx)) = dt) [0..<?n]"
      by (intro filter_cong) (auto simp: nth_append)
    then show ?thesis using ok by (auto simp: registry_ok_def add_compiled_def Let_def)
  qed
  ultimately show ?thesis by (simp add: registry_ok_def)
qed

lemma check_validators_None: "check_validators i vs = None \<longleftrightarrow> (\<forall>v\<in>set vs. is_known_validator v)"
  by (induction vs) auto

lemma check_groups_None: "check_groups i n gs = None \<longleftrightarrow> (\<forall>g\<in>set gs. 0 < g \<and> g \<le> n)"
  by (induction gs) auto

lemma compile_rule_InrD:
  assumes "compile_rule pf eng r = Inr cr"
  shows "cr_rule cr = r" "is_valid_rule_id (rule_id r)" "\<forall>v\<in>set (validators r). is_known_validator v"
    "\<exists>re. cr_re cr = Some re \<and> re_compile eng (''(?m)'' @ regex r) = Inr re \<and>
       (\<forall>g\<in>set (capture_groups (rule_masking r)). 0 < g \<and> g \<le> int (re_groups re))"
    "prefilter_eligible cr \<Longrightarrow> regex_guarantees_keyword (utf8 pf) (regex r) (rule_keywords r)"
    "prefilter_keywords cr = map (to_lower_utf8 (utf8 pf)) (rule_keywords r)"
  using assms
  by (auto simp: compile_rule_def check_validators_None check_groups_None split: if_splits option.splits sum.splits)

lemma build_from_ok:
  assumes "registry_ok reg" "build_from pf eng reg rs = Inr reg'"
  shows "registry_ok reg' \<and> (\<exists>crs. reg_rules reg' = reg_rules reg @ crs \<and>
    list_all2 (\<lambda>r cr. compile_rule pf eng r = Inr cr) rs crs)"
  using assms
proof (induction pf eng reg rs rule: build_from.induct)
  case (2 pf eng reg r rs)
  obtain cr where cr: "by_id_index reg (rule_id r) = None" "compile_rule pf eng r = Inr cr"
      "build_from pf eng (add_compiled cr reg) rs = Inr reg'"
    using "2.prems"(2) by (auto split: if_splits sum.splits)
  have "cr_rule cr = r" using compile_rule_InrD(1) [OF cr(2)] .
  then have "registry_ok (add_compiled cr reg)" using registry_ok_add "2.prems"(1) cr(1) by blast
  then obtain crs where "registry_ok reg'" "reg_rules reg' = reg_rules (add_compiled cr reg) @ crs"
      "list_all2 (\<lambda>r cr. compile_rule pf eng r = Inr cr) rs crs"
    using "2.IH" [OF _ cr(2)] cr(1,3) by auto
  then show ?case using cr(2) by (intro conjI exI [of _ "cr # crs"]) (simp_all add: add_compiled_def Let_def)
qed simp

lemma compiled_rules_of:
  "list_all2 (\<lambda>r cr. compile_rule pf eng r = Inr cr) rs crs \<Longrightarrow> map cr_rule crs = rs"
  by (induction rule: list_all2_induct) (auto dest: compile_rule_InrD(1))

lemma build_ok:
  assumes "build pf eng rules = Inr reg"
  shows "registry_ok reg \<and> list_all2 (\<lambda>r cr. compile_rule pf eng r = Inr cr) rules (reg_rules reg)"
  using build_from_ok [OF registry_ok_empty assms [unfolded build_def]] by (auto simp: empty_registry_def)

lemma by_id_ok:
  assumes "registry_ok reg"
  shows "by_id reg i = Some cr \<longleftrightarrow> cr \<in> set (reg_rules reg) \<and> rule_id (cr_rule cr) = i"
proof
  assume "by_id reg i = Some cr"
  then show "cr \<in> set (reg_rules reg) \<and> rule_id (cr_rule cr) = i"
    using assms by (auto simp: by_id_def registry_ok_def)
next
  assume "cr \<in> set (reg_rules reg) \<and> rule_id (cr_rule cr) = i"
  then obtain idx where "idx < length (reg_rules reg)" "reg_rules reg ! idx = cr" "rule_id (cr_rule cr) = i"
    by (auto simp: in_set_conv_nth)
  then have "by_id_index reg i = Some idx" using assms by (auto simp: registry_ok_def)
  then show "by_id reg i = Some cr" using \<open>reg_rules reg ! idx = cr\<close> by (simp add: by_id_def)
qed

text \<open>A built registry holds one compiled rule per given rule, in order, under distinct ids, and the
  lookup by id finds exactly the rules it holds.\<close>

theorem build_by_id:
  assumes "build pf eng rules = Inr reg"
  shows "map cr_rule (reg_rules reg) = rules \<and> distinct (map rule_id rules) \<and>
    (\<forall>i cr. by_id reg i = Some cr \<longleftrightarrow> cr \<in> set (reg_rules reg) \<and> rule_id (cr_rule cr) = i)"
proof -
  have ok: "registry_ok reg" and all: "list_all2 (\<lambda>r cr. compile_rule pf eng r = Inr cr) rules (reg_rules reg)"
    using build_ok [OF assms] by simp_all
  have rules: "map cr_rule (reg_rules reg) = rules"
    using compiled_rules_of [OF all] .
  moreover have "distinct (map rule_id rules)"
    using ok unfolding rules [symmetric] by (simp add: registry_ok_def comp_def)
  ultimately show ?thesis using by_id_ok [OF ok] by blast
qed


text \<open>The lookup by data type returns exactly the rules of the requested types, data type by data
  type in the order asked for, and within a type in the order they were registered.\<close>

theorem for_data_types_spec:
  assumes "build pf eng rules = Inr reg"
  shows "for_data_types reg dts =
    concat (map (\<lambda>dt. filter (\<lambda>cr. rule_data_type (cr_rule cr) = dt) (reg_rules reg)) dts)"
proof -
  have ok: "registry_ok reg" using build_ok [OF assms] by simp
  have "(case by_data_type_index reg dt of None \<Rightarrow> [] | Some is \<Rightarrow> map (\<lambda>idx. reg_rules reg ! idx) is) =
      filter (\<lambda>cr. rule_data_type (cr_rule cr) = dt) (reg_rules reg)" for dt
  proof -
    have "(case by_data_type_index reg dt of None \<Rightarrow> [] | Some is \<Rightarrow> map (\<lambda>idx. reg_rules reg ! idx) is) =
        map (\<lambda>idx. reg_rules reg ! idx) (case by_data_type_index reg dt of None \<Rightarrow> [] | Some is \<Rightarrow> is)"
      by (simp split: option.split)
    also have "\<dots> = map (\<lambda>idx. reg_rules reg ! idx)
        (filter (\<lambda>idx. rule_data_type (cr_rule (reg_rules reg ! idx)) = dt) [0..<length (reg_rules reg)])"
      using ok by (simp add: registry_ok_def)
    also have "\<dots> = filter (\<lambda>cr. rule_data_type (cr_rule cr) = dt) (map (\<lambda>idx. reg_rules reg ! idx) [0..<length (reg_rules reg)])"
      by (simp add: filter_map comp_def)
    finally show ?thesis by (simp add: map_nth)
  qed
  then show ?thesis by (simp add: for_data_types_def)
qed

text \<open>A rule whose id repeats an earlier one is reported as a duplicate, whatever else is wrong with
  it: the duplicate check comes before the compilation.\<close>

theorem build_duplicate:
  assumes "build pf eng rules = Inr reg" "i \<in> rule_id ` set rules"
  shows "build pf eng (rules @ r\<lparr>rule_id := i\<rparr> # rest) =
    Inl (rule_fault DuplicateId (''compile guardrails rule '' @ quoted i @ '': duplicate rule_id''))"
proof -
  have app: "build_from pf eng reg0 (xs @ ys) =
      (case build_from pf eng reg0 xs of Inl e \<Rightarrow> Inl e | Inr reg1 \<Rightarrow> build_from pf eng reg1 ys)" for reg0 xs ys
    by (induction pf eng reg0 xs rule: build_from.induct) (auto split: sum.split)
  have ok: "registry_ok reg" and rules: "map cr_rule (reg_rules reg) = rules"
    using build_ok [OF assms(1)] compiled_rules_of by blast+
  then obtain cr where "cr \<in> set (reg_rules reg)" "rule_id (cr_rule cr) = i" using assms(2) by auto
  then have "by_id reg i = Some cr" using by_id_ok [OF ok] by blast
  then have "by_id_index reg i \<noteq> None" by (auto simp: by_id_def)
  then show ?thesis using assms(1) by (simp add: build_def app)
qed

section \<open>Witnesses\<close>

text \<open>An engine that compiles every pattern to the expression of a literal text.\<close>

definition literal_engine :: regex_engine where
  "literal_engine = \<lparr>re_compile = (\<lambda>p. Inr (literal_re2 (drop 4 p))), re_quote_meta = id\<rparr>"

definition sample_rule :: "string \<Rightarrow> data_type \<Rightarrow> rule" where
  "sample_rule i dt = default_rule\<lparr>rule_id := i, rule_data_type := dt, regex := i\<rparr>"

lemma compile_sample_rule:
  assumes "is_valid_rule_id i"
  shows "compile_rule pf literal_engine (sample_rule i dt) =
    Inr \<lparr>cr_rule = sample_rule i dt, cr_re = Some (literal_re2 i), cr_placeholder_re = None, cr_placeholder_len = 0,
         prefilter_eligible = False, prefilter_keywords = []\<rparr>"
  using assms by (simp add: compile_rule_def sample_rule_def default_rule_def literal_engine_def compile_placeholder_def
      ascii_trim_def)

lemma sample_ids [simp]: "is_valid_rule_id ''a''" "is_valid_rule_id ''b''"
  by (simp_all add: is_valid_rule_id_def is_lower_char_def)

lemma build_samples:
  "\<exists>reg. build pf literal_engine [sample_rule ''a'' 1, sample_rule ''b'' 2] = Inr reg"
  by (simp add: build_def compile_sample_rule add_compiled_def empty_registry_def Let_def)
    (simp add: sample_rule_def)

theorem build_by_id_witness:
  "\<forall>pf. \<exists>reg. build pf literal_engine [sample_rule ''a'' 1, sample_rule ''b'' 2] = Inr reg \<and>
     map cr_rule (reg_rules reg) = [sample_rule ''a'' 1, sample_rule ''b'' 2]"
  using build_samples build_by_id by blast

theorem for_data_types_spec_witness:
  "\<forall>pf. \<exists>reg. build pf literal_engine [sample_rule ''a'' 1, sample_rule ''b'' 2] = Inr reg \<and>
     map cr_rule (for_data_types reg [2, 1]) = [sample_rule ''b'' 2, sample_rule ''a'' 1]"
proof
  fix pf
  obtain reg where reg: "build pf literal_engine [sample_rule ''a'' 1, sample_rule ''b'' 2] = Inr reg"
    using build_samples by blast
  then have rules: "map cr_rule (reg_rules reg) = [sample_rule ''a'' 1, sample_rule ''b'' 2]"
    using build_ok compiled_rules_of by blast
  have "map cr_rule (for_data_types reg [2, 1]) =
      concat (map (\<lambda>dt. filter (\<lambda>r. rule_data_type r = dt) (map cr_rule (reg_rules reg))) [2, 1])"
    by (simp add: for_data_types_spec [OF reg] filter_map comp_def)
  also have "\<dots> = [sample_rule ''b'' 2, sample_rule ''a'' 1]" unfolding rules by (simp add: sample_rule_def)
  finally have "map cr_rule (for_data_types reg [2, 1]) = [sample_rule ''b'' 2, sample_rule ''a'' 1]" .
  from conjI [OF reg this] show "\<exists>reg. build pf literal_engine [sample_rule ''a'' 1, sample_rule ''b'' 2] = Inr reg \<and>
     map cr_rule (for_data_types reg [2, 1]) = [sample_rule ''b'' 2, sample_rule ''a'' 1]"
    by (rule exI)
qed

theorem build_duplicate_witness:
  "\<forall>pf. build pf literal_engine [sample_rule ''a'' 1, sample_rule ''b'' 2, default_rule\<lparr>rule_id := ''a''\<rparr>] =
     Inl (rule_fault DuplicateId (''compile guardrails rule '' @ quoted ''a'' @ '': duplicate rule_id''))"
proof
  fix pf
  obtain reg where reg: "build pf literal_engine [sample_rule ''a'' 1, sample_rule ''b'' 2] = Inr reg"
    using build_samples by blast
  have "''a'' \<in> rule_id ` set [sample_rule ''a'' 1, sample_rule ''b'' 2]" by (simp add: sample_rule_def)
  from build_duplicate [OF reg this, of default_rule "[]"]
  show "build pf literal_engine [sample_rule ''a'' 1, sample_rule ''b'' 2, default_rule\<lparr>rule_id := ''a''\<rparr>] =
     Inl (rule_fault DuplicateId (''compile guardrails rule '' @ quoted ''a'' @ '': duplicate rule_id''))" by simp
qed

end
