(* ===== verification/Scanner.thy ===== *)
theory Scanner
  imports Compiled
begin

text \<open>
  \<open>src/src/guard/Scanner.hpp\<close>: finding the sensitive spans of a text with a set of compiled rules.
  A rule pointer is an \<^typ>\<open>compiled_rule option\<close> (\<^const>\<open>None\<close> is a null pointer).
\<close>

section \<open>Definitions\<close>

record scan_match =
  m_start :: nat
  m_end :: nat
  m_rule :: "compiled_rule option"

record scan_options =
  prefilter_enabled :: bool
  max_workers :: nat

text \<open>\<open>match.rule->rule.id\<close>; dereferencing a null pointer has no defined value.\<close>

definition match_rule_id :: "scan_match \<Rightarrow> string" where
  "match_rule_id m = rule_id (cr_rule (the (m_rule m)))"

text \<open>
  \<open>ScanError\<close> carries the message of the \<open>std::runtime_error\<close>; \<open>ScanDiverges\<close> marks a match loop
  that would not come to an end.
\<close>

datatype scan_error = ScanError string | ScanDiverges

definition kParallelTextThreshold :: nat where "kParallelTextThreshold = 4 * 1024"
definition kParallelRuleThreshold :: nat where "kParallelRuleThreshold = 4"

text \<open>The keyword pre-filter.\<close>

definition keyword_hit :: "string \<Rightarrow> string list \<Rightarrow> bool" where
  "keyword_hit lower kws \<longleftrightarrow> list_ex (\<lambda>kw. kw \<noteq> [] \<and> find_sub kw lower \<noteq> None) kws"

fun filter_by_keywords :: "platform \<Rightarrow> string \<Rightarrow> compiled_rule option list \<Rightarrow> compiled_rule option list" where
  "filter_by_keywords pf text [] = []"
| "filter_by_keywords pf text (cr # rules) =
     (case cr of
        None \<Rightarrow> cr # filter_by_keywords pf text rules
      | Some r \<Rightarrow>
          if \<not> prefilter_eligible r then cr # filter_by_keywords pf text rules
          else if keyword_hit (to_lower_utf8 (utf8 pf) text) (prefilter_keywords r)
          then cr # filter_by_keywords pf text rules
          else filter_by_keywords pf text rules)"

text \<open>The semantic span; \<^const>\<open>None\<close> stands for \<open>ok == false\<close>.\<close>

fun span_of_groups :: "span option list \<Rightarrow> int list \<Rightarrow> span option" where
  "span_of_groups groups [] = None"
| "span_of_groups groups (g # gs) =
     (if g < 0 \<or> nat g \<ge> length groups then span_of_groups groups gs
      else case groups ! nat g of
        None \<Rightarrow> span_of_groups groups gs
      | Some (s, e) \<Rightarrow> if e \<le> s then span_of_groups groups gs else Some (s, e))"

definition sensitive_span :: "span \<Rightarrow> span option list \<Rightarrow> rule \<Rightarrow> span option" where
  "sensitive_span full caps r =
     (if capture_groups (rule_masking r) = []
      then (if fst full < snd full then Some full else None)
      else span_of_groups (Some full # caps) (capture_groups (rule_masking r)))"

text \<open>The acceptance test at the end of the match loop's body.\<close>

definition accept_match ::
  "platform \<Rightarrow> string \<Rightarrow> compiled_rule \<Rightarrow> span \<Rightarrow> span option list \<Rightarrow> scan_match list \<Rightarrow> scan_match list" where
  "accept_match pf text cr full caps out =
     (case sensitive_span full caps (cr_rule cr) of
        None \<Rightarrow> out
      | Some (s, e) \<Rightarrow>
          let len = e - s in
          if min_length (cr_rule cr) > 0 \<and> len < min_length (cr_rule cr) then out
          else if \<not> passes_validators pf (substr text s len) (cr_rule cr) then out
          else out @ [\<lparr>m_start = s, m_end = e, m_rule = Some cr\<rparr>])"

text \<open>
  The match loop.  Every iteration moves \<open>pos\<close> forward, so \<open>length text + 2\<close> rounds are enough when
  RE2 honours its contract (\<open>scan_loop_terminates\<close>); \<^const>\<open>None\<close> is a loop that ran out of them.
\<close>

fun scan_loop ::
  "nat \<Rightarrow> platform \<Rightarrow> string \<Rightarrow> compiled_rule \<Rightarrow> re2 \<Rightarrow> nat \<Rightarrow> int \<Rightarrow> scan_match list \<Rightarrow> scan_match list option" where
  "scan_loop 0 pf text cr re pos prev_match_end out = None"
| "scan_loop (Suc fuel) pf text cr re pos prev_match_end out =
     (if pos \<le> length text then
        (case re_match re text pos of
           None \<Rightarrow> Some out
         | Some ((mstart, mend), caps) \<Rightarrow>
             if mend = mstart then
               let width = (if mstart < length text then snd (decode_utf8 text mstart) else 0);
                   pos' = (if width > 0 then mstart + width else length text + 1)
               in if int mstart = prev_match_end
                  then scan_loop fuel pf text cr re pos' (int mend) out
                  else scan_loop fuel pf text cr re pos' (int mend)
                         (accept_match pf text cr (mstart, mend) caps out)
             else scan_loop fuel pf text cr re mend (int mend)
                    (accept_match pf text cr (mstart, mend) caps out))
      else Some out)"

definition scan_one_rule ::
  "platform \<Rightarrow> string \<Rightarrow> compiled_rule option \<Rightarrow> scan_match list \<Rightarrow> scan_error + scan_match list" where
  "scan_one_rule pf text cr out =
     (case cr of
        None \<Rightarrow> Inl (ScanError ''scan_rules: rules[] contains a null CompiledRule pointer'')
      | Some r \<Rightarrow>
          (case cr_re r of
             None \<Rightarrow> Inl (ScanError (''scan_rules: compiled rule '' @ [CHR 0x27] @ rule_id (cr_rule r)
                            @ [CHR 0x27] @ '' has a null regex''))
           | Some re \<Rightarrow>
               if text = [] then Inr out
               else (case scan_loop (length text + 2) pf text r re 0 (-1) out of
                       None \<Rightarrow> Inl ScanDiverges
                     | Some out' \<Rightarrow> Inr out')))"

fun scan_serial_loop ::
  "platform \<Rightarrow> string \<Rightarrow> compiled_rule option list \<Rightarrow> scan_match list \<Rightarrow> scan_error + scan_match list" where
  "scan_serial_loop pf text [] all = Inr all"
| "scan_serial_loop pf text (cr # rules) all =
     (case scan_one_rule pf text cr all of
        Inl e \<Rightarrow> Inl e
      | Inr all' \<Rightarrow> scan_serial_loop pf text rules all')"

definition scan_serial ::
  "platform \<Rightarrow> string \<Rightarrow> compiled_rule option list \<Rightarrow> scan_error + scan_match list" where
  "scan_serial pf text rules = scan_serial_loop pf text rules []"

text \<open>\<open>hw\<close> is \<open>std::thread::hardware_concurrency()\<close>, which may be 0.\<close>

definition compute_worker_count :: "nat \<Rightarrow> nat \<Rightarrow> nat \<Rightarrow> nat" where
  "compute_worker_count hw num_rules max_w =
     (let w = (if max_w = 0 then hw else max_w); w' = (if w = 0 then 1 else w) in min num_rules w')"

text \<open>Bucket \<open>b\<close> of the round-robin distribution \<open>buckets[i % num_workers]\<close>.\<close>

definition bucket :: "nat \<Rightarrow> 'a list \<Rightarrow> nat \<Rightarrow> 'a list" where
  "bucket num_workers rules b = map fst (filter (\<lambda>(r, i). i mod num_workers = b) (zip rules [0..<length rules]))"

text \<open>Waiting for every worker, then the first failure by bucket index, else all results in order.\<close>

fun first_worker_error :: "(scan_error + 'a) list \<Rightarrow> scan_error option" where
  "first_worker_error [] = None"
| "first_worker_error (Inl (ScanError e) # rs) = Some (ScanError (''sensitive scan worker failed: '' @ e))"
| "first_worker_error (Inl ScanDiverges # rs) = Some ScanDiverges"
| "first_worker_error (Inr _ # rs) = first_worker_error rs"

definition collect_workers :: "(scan_error + 'a list) list \<Rightarrow> scan_error + 'a list" where
  "collect_workers rs =
     (if Inl ScanDiverges \<in> set rs then Inl ScanDiverges
      else case first_worker_error rs of
        Some e \<Rightarrow> Inl e
      | None \<Rightarrow> Inr (concat (map (\<lambda>r. case r of Inr xs \<Rightarrow> xs | Inl _ \<Rightarrow> []) rs)))"

definition scan_parallel ::
  "nat \<Rightarrow> platform \<Rightarrow> string \<Rightarrow> compiled_rule option list \<Rightarrow> scan_options \<Rightarrow> scan_error + scan_match list" where
  "scan_parallel hw pf text rules opts =
     (let num_workers = compute_worker_count hw (length rules) (max_workers opts) in
      if num_workers = 0 then Inr []
      else collect_workers (map (\<lambda>b. scan_serial pf text (bucket num_workers rules b)) [0..<num_workers]))"

section \<open>Overlap resolution\<close>

definition scan_match_less :: "scan_match \<Rightarrow> scan_match \<Rightarrow> bool" where
  "scan_match_less a b =
     (if m_start a \<noteq> m_start b then m_start a < m_start b
      else let la = m_end a - m_start a; lb = m_end b - m_start b in
        if la \<noteq> lb then la > lb else string_less (match_rule_id a) (match_rule_id b))"

definition prefer_as_primary :: "scan_match \<Rightarrow> scan_match \<Rightarrow> bool" where
  "prefer_as_primary m cur =
     (let ml = m_end m - m_start m; cl = m_end cur - m_start cur in
      if ml \<noteq> cl then ml > cl
      else if m_start m \<noteq> m_start cur then m_start m < m_start cur
      else string_less (match_rule_id m) (match_rule_id cur))"

definition primary_of :: "scan_match \<Rightarrow> scan_match list \<Rightarrow> scan_match" where
  "primary_of m ms = foldl (\<lambda>p x. if prefer_as_primary x p then x else p) m ms"

text \<open>A run is never empty; the code reads \<open>run[0]\<close>.\<close>

fun coalesce_run :: "nat \<Rightarrow> nat \<Rightarrow> scan_match list \<Rightarrow> scan_match" where
  "coalesce_run s e [m] = m"
| "coalesce_run s e (m # ms) = \<lparr>m_start = s, m_end = e, m_rule = m_rule (primary_of m ms)\<rparr>"

fun resolve_loop ::
  "nat \<Rightarrow> nat \<Rightarrow> scan_match list \<Rightarrow> scan_match list \<Rightarrow> scan_match list \<Rightarrow> scan_match list" where
  "resolve_loop run_start run_end run resolved [] = resolved @ [coalesce_run run_start run_end run]"
| "resolve_loop run_start run_end run resolved (m # ms) =
     (if m_start m < run_end then
        resolve_loop run_start (if m_end m > run_end then m_end m else run_end) (run @ [m]) resolved ms
      else
        resolve_loop (m_start m) (m_end m) [m] (resolved @ [coalesce_run run_start run_end run]) ms)"

definition resolve_conflicts :: "scan_match list \<Rightarrow> scan_match list" where
  "resolve_conflicts ms =
     (if length ms \<le> 1 then ms
      else case sort_by scan_match_less ms of
        [] \<Rightarrow> []
      | m # rest \<Rightarrow> resolve_loop (m_start m) (m_end m) [m] [] rest)"

definition scan_candidates ::
  "nat \<Rightarrow> platform \<Rightarrow> string \<Rightarrow> compiled_rule option list \<Rightarrow> scan_options \<Rightarrow> scan_error + scan_match list" where
  "scan_candidates hw pf text active opts =
     (if length text < kParallelTextThreshold \<or> length active \<le> kParallelRuleThreshold
      then scan_serial pf text active else scan_parallel hw pf text active opts)"

definition scan_rules ::
  "nat \<Rightarrow> platform \<Rightarrow> string \<Rightarrow> compiled_rule option list \<Rightarrow> scan_options \<Rightarrow> scan_error + scan_match list" where
  "scan_rules hw pf text rules opts =
     (if rules = [] then Inr []
      else
        let active = (if prefilter_enabled opts then filter_by_keywords pf text rules else rules) in
        if prefilter_enabled opts \<and> active = [] then Inr []
        else map_sum id resolve_conflicts (scan_candidates hw pf text active opts))"

section \<open>Properties of overlap resolution\<close>

text \<open>The byte offsets covered by a list of matches, and the order of disjoint matches.\<close>

definition covered :: "scan_match list \<Rightarrow> nat set" where
  "covered ms = (\<Union>m\<in>set ms. {m_start m..<m_end m})"

definition before :: "scan_match \<Rightarrow> scan_match \<Rightarrow> bool" where
  "before a b \<longleftrightarrow> m_end a \<le> m_start b"

lemma covered_simps [simp]:
  "covered [] = {}"
  "covered (m # ms) = {m_start m..<m_end m} \<union> covered ms"
  "covered (xs @ ys) = covered xs \<union> covered ys"
  by (auto simp: covered_def)

lemma covered_sort_by [simp]: "covered (sort_by lt ms) = covered ms"
  by (simp add: covered_def)

lemma prefer_as_primary_longer: "prefer_as_primary a b \<Longrightarrow> m_end b - m_start b \<le> m_end a - m_start a"
  by (auto simp: prefer_as_primary_def Let_def split: if_splits)

lemma not_prefer_as_primary: "\<not> prefer_as_primary a b \<Longrightarrow> m_end a - m_start a \<le> m_end b - m_start b"
  by (auto simp: prefer_as_primary_def Let_def split: if_splits)

lemma primary_of_longest:
  "primary_of m ms \<in> set (m # ms) \<and>
     (\<forall>x\<in>set (m # ms). m_end x - m_start x \<le> m_end (primary_of m ms) - m_start (primary_of m ms))"
proof (induction ms arbitrary: m)
  case Nil
  then show ?case by (simp add: primary_of_def)
next
  case (Cons x xs)
  let ?m = "if prefer_as_primary x m then x else m"
  have len: "m_end m - m_start m \<le> m_end ?m - m_start ?m" "m_end x - m_start x \<le> m_end ?m - m_start ?m"
    using prefer_as_primary_longer not_prefer_as_primary by auto
  have "primary_of m (x # xs) = primary_of ?m xs" by (simp add: primary_of_def)
  then show ?case using Cons.IH [of ?m] len by (auto intro: order_trans)
qed

text \<open>\<open>r\<close> stands for a run of matches taken from \<open>I\<close>: it spans their union and is attributed to a
  longest one.\<close>

definition from_run :: "scan_match set \<Rightarrow> scan_match \<Rightarrow> bool" where
  "from_run I r \<longleftrightarrow> (\<exists>run. run \<noteq> [] \<and> set run \<subseteq> I \<and> covered run = {m_start r..<m_end r} \<and>
     (\<forall>x\<in>I. x \<in> set run \<or> m_end x \<le> m_start r \<or> m_end r \<le> m_start x) \<and>
     (\<exists>p\<in>set run. m_rule p = m_rule r \<and> (\<forall>x\<in>set run. m_end x - m_start x \<le> m_end p - m_start p)))"

lemma coalesce_run_span:
  assumes "run \<noteq> []" "s < e" "covered run = {s..<e}"
  shows "m_start (coalesce_run s e run) = s" "m_end (coalesce_run s e run) = e"
    "set run \<subseteq> I \<Longrightarrow> \<forall>x\<in>I. x \<in> set run \<or> m_end x \<le> s \<or> e \<le> m_start x \<Longrightarrow>
       from_run I (coalesce_run s e run)"
proof -
  obtain m ms where run: "run = m # ms" using assms(1) by (cases run) auto
  have eq: "m_start m = s \<and> m_end m = e" if "ms = []"
    using assms(2,3) that run by (auto simp: Ico_eq_Ico)
  show span: "m_start (coalesce_run s e run) = s" "m_end (coalesce_run s e run) = e"
    using run eq by (cases ms; simp)+
  assume I: "set run \<subseteq> I" "\<forall>x\<in>I. x \<in> set run \<or> m_end x \<le> s \<or> e \<le> m_start x"
  have "\<exists>p\<in>set run. m_rule p = m_rule (coalesce_run s e run) \<and>
      (\<forall>x\<in>set run. m_end x - m_start x \<le> m_end p - m_start p)"
  proof (cases ms)
    case Nil
    then show ?thesis using run by simp
  next
    case (Cons y ys)
    then show ?thesis using run primary_of_longest [of m ms]
      by (intro bexI [of _ "primary_of m ms"]) auto
  qed
  then show "from_run I (coalesce_run s e run)"
    unfolding from_run_def span using assms I by blast
qed

lemma resolve_loop_inv:
  assumes "run \<noteq> []" "run_start < run_end" "covered run = {run_start..<run_end}"
    and "\<forall>m\<in>set ms. m_start m < m_end m" "sorted (run_start # map m_start ms)"
    and "sorted_wrt before resolved" "\<forall>r\<in>set resolved. m_end r \<le> run_start"
    and "\<forall>r\<in>set resolved. from_run I r" "set run \<union> set ms \<subseteq> I"
    and "\<forall>x\<in>I. x \<in> set run \<union> set ms \<or> m_end x \<le> run_start" and "\<forall>x\<in>I. m_start x < m_end x"
  shows "sorted_wrt before (resolve_loop run_start run_end run resolved ms) \<and>
    covered (resolve_loop run_start run_end run resolved ms) = covered resolved \<union> covered run \<union> covered ms \<and>
    (\<forall>r\<in>set (resolve_loop run_start run_end run resolved ms). from_run I r)"
  using assms
proof (induction run_start run_end run resolved ms rule: resolve_loop.induct)
  case (1 run_start run_end run resolved)
  have "from_run I (coalesce_run run_start run_end run)"
    using "1.prems"(9,10) by (intro coalesce_run_span(3) [OF "1.prems"(1,2,3)]) auto
  then show ?case
    using "1.prems" coalesce_run_span(1,2) [OF "1.prems"(1,2,3)]
    by (auto simp: sorted_wrt_append before_def)
next
  case (2 run_start run_end run resolved m ms)
  note p = "2.prems"
  have m: "m_start m < m_end m" "run_start \<le> m_start m" and ms: "\<forall>x\<in>set ms. m_start x < m_end x"
    and sorted: "sorted (run_start # map m_start ms)" "sorted (m_start m # map m_start ms)"
    and ge: "\<forall>x\<in>set ms. m_start m \<le> m_start x"
    using p(4,5) by simp_all
  have sub: "set run \<subseteq> I" "m \<in> I" "set ms \<subseteq> I" using p(9) by simp_all
  show ?case
  proof (cases "m_start m < run_end")
    case True
    let ?e = "if m_end m > run_end then m_end m else run_end"
    have cov: "covered (run @ [m]) = {run_start..<?e}"
      unfolding covered_simps p(3) using m True by auto
    have "sorted_wrt before (resolve_loop run_start ?e (run @ [m]) resolved ms) \<and>
        covered (resolve_loop run_start ?e (run @ [m]) resolved ms)
          = covered resolved \<union> covered (run @ [m]) \<union> covered ms \<and>
        (\<forall>r\<in>set (resolve_loop run_start ?e (run @ [m]) resolved ms). from_run I r)"
    proof (rule "2.IH"(1) [OF True _ _ cov ms sorted(1) p(6,7,8)])
      show "run_start < ?e" using p(2) by simp
      show "\<forall>x\<in>I. x \<in> set (run @ [m]) \<union> set ms \<or> m_end x \<le> run_start" using p(10) by simp
    qed (use sub p(11) in simp_all)
    then show ?thesis using True by (simp only: resolve_loop.simps if_True) (simp add: Un_assoc)
  next
    case False
    let ?c = "coalesce_run run_start run_end run"
    note span = coalesce_run_span(1,2) [OF p(1,2,3)]
    have iso: "\<forall>x\<in>I. x \<in> set run \<or> m_end x \<le> run_start \<or> run_end \<le> m_start x"
    proof
      fix x assume "x \<in> I"
      then have "x \<in> set run \<or> x = m \<or> x \<in> set ms \<or> m_end x \<le> run_start" using p(10) by auto
      then show "x \<in> set run \<or> m_end x \<le> run_start \<or> run_end \<le> m_start x"
        using False ge by (auto intro: order_trans)
    qed
    have ends: "m_end x \<le> run_end" if "x \<in> set run" for x
    proof -
      have "{m_start x..<m_end x} \<subseteq> {run_start..<run_end}" unfolding p(3) [symmetric]
        using that by (auto simp: covered_def)
      moreover have "m_start x < m_end x" using that sub(1) p(11) by blast
      ultimately show ?thesis by (simp add: atLeastLessThan_subset_iff)
    qed
    have "from_run I ?c" using coalesce_run_span(3) [OF p(1,2,3) sub(1) iso] .
    then have run: "\<forall>r\<in>set (resolved @ [?c]). from_run I r" using p(8) by simp
    have "\<forall>r\<in>set resolved. before r ?c" using p(7) span(1) by (simp add: before_def)
    then have "sorted_wrt before (resolved @ [?c])" using p(6) by (simp add: sorted_wrt_append)
    moreover have "\<forall>r\<in>set (resolved @ [?c]). m_end r \<le> m_start m"
      using p(7) m(2) False span(2) by (auto intro: order_trans)
    ultimately have res: "sorted_wrt before (resolved @ [?c])"
        "\<forall>r\<in>set (resolved @ [?c]). m_end r \<le> m_start m" "\<forall>r\<in>set (resolved @ [?c]). from_run I r"
      using run by blast+
    have "\<forall>x\<in>I. x \<in> set [m] \<union> set ms \<or> m_end x \<le> m_start m"
    proof
      fix x assume "x \<in> I"
      then have "x \<in> set run \<or> x = m \<or> x \<in> set ms \<or> m_end x \<le> run_start" using p(10) by auto
      moreover have "m_end x \<le> m_start m" if "x \<in> set run" using ends [OF that] False by simp
      ultimately show "x \<in> set [m] \<union> set ms \<or> m_end x \<le> m_start m"
        using m(2) by (auto intro: order_trans)
    qed
    then have "sorted_wrt before (resolve_loop (m_start m) (m_end m) [m] (resolved @ [?c]) ms) \<and>
        covered (resolve_loop (m_start m) (m_end m) [m] (resolved @ [?c]) ms)
          = covered (resolved @ [?c]) \<union> covered [m] \<union> covered ms \<and>
        (\<forall>r\<in>set (resolve_loop (m_start m) (m_end m) [m] (resolved @ [?c]) ms). from_run I r)"
      using sub p(11) by (intro "2.IH"(2) [OF False _ m(1) _ ms sorted(2) res]) simp_all
    moreover have "covered (resolved @ [?c]) = covered resolved \<union> covered run"
      by (simp add: span p(3))
    ultimately show ?thesis using False by (simp only: resolve_loop.simps if_False) (simp add: Un_assoc)
  qed
qed

lemma scan_match_less_start:
  "scan_match_less x y \<Longrightarrow> m_start x \<le> m_start y" "\<not> scan_match_less x y \<Longrightarrow> m_start y \<le> m_start x"
  by (auto simp: scan_match_less_def Let_def split: if_splits)

lemma resolve_conflicts_inv:
  assumes "\<forall>m\<in>set ms. m_start m < m_end m"
  shows "sorted_wrt before (resolve_conflicts ms) \<and> covered (resolve_conflicts ms) = covered ms \<and>
    (\<forall>r\<in>set (resolve_conflicts ms). from_run (set ms) r)"
proof (cases "length ms \<le> 1")
  case True
  then show ?thesis
  proof (cases ms)
    case (Cons m rest)
    then have "ms = [m]" using True by simp
    moreover have "from_run (set [m]) m" unfolding from_run_def by (intro exI [of _ "[m]"]) simp
    ultimately show ?thesis by (simp add: resolve_conflicts_def)
  qed (simp add: resolve_conflicts_def)
next
  case False
  have len: "length (sort_by scan_match_less ms) = length ms" by simp
  then obtain m rest where srt: "sort_by scan_match_less ms = m # rest"
    using False by (cases "sort_by scan_match_less ms") auto
  have set: "set ms = insert m (set rest)" using srt set_sort_by [of scan_match_less ms] by simp
  have "sorted (map m_start (m # rest))"
    using sorted_sort_by [of scan_match_less m_start ms] scan_match_less_start srt by metis
  then have "sorted_wrt before (resolve_loop (m_start m) (m_end m) [m] [] rest) \<and>
      covered (resolve_loop (m_start m) (m_end m) [m] [] rest) = covered [] \<union> covered [m] \<union> covered rest \<and>
      (\<forall>r\<in>set (resolve_loop (m_start m) (m_end m) [m] [] rest). from_run (set ms) r)"
    using assms set by (intro resolve_loop_inv) auto
  moreover have "covered ms = covered [m] \<union> covered rest"
    using covered_sort_by [of scan_match_less ms] srt by simp
  ultimately show ?thesis using False srt by (simp add: resolve_conflicts_def)
qed

text \<open>Overlap resolution loses no byte: the resolved matches are in order and pairwise disjoint,
  and together they cover exactly the bytes the given (non-empty) matches cover.\<close>

theorem resolve_conflicts_disjoint_cover:
  assumes "\<forall>m\<in>set ms. m_start m < m_end m"
  shows "sorted_wrt (\<lambda>a b. m_end a \<le> m_start b) (resolve_conflicts ms) \<and>
    (\<Union>m\<in>set (resolve_conflicts ms). {m_start m..<m_end m}) = (\<Union>m\<in>set ms. {m_start m..<m_end m})"
  using resolve_conflicts_inv [OF assms] unfolding before_def covered_def by blast

text \<open>Attribution: each resolved match carries the rule of one of the given matches, which lies
  inside it and is at least as long as every given match that overlaps it.\<close>

theorem resolve_conflicts_attribution:
  assumes "\<forall>m\<in>set ms. m_start m < m_end m" "r \<in> set (resolve_conflicts ms)"
  shows "\<exists>p\<in>set ms. m_rule p = m_rule r \<and> m_start r \<le> m_start p \<and> m_end p \<le> m_end r \<and>
    (\<forall>x\<in>set ms. {m_start x..<m_end x} \<inter> {m_start r..<m_end r} \<noteq> {} \<longrightarrow>
       m_end x - m_start x \<le> m_end p - m_start p)"
proof -
  from assms resolve_conflicts_inv have "from_run (set ms) r" by blast
  then obtain run p where run: "set run \<subseteq> set ms" "covered run = {m_start r..<m_end r}"
      "\<forall>x\<in>set ms. x \<in> set run \<or> m_end x \<le> m_start r \<or> m_end r \<le> m_start x"
    and p: "p \<in> set run" "m_rule p = m_rule r"
      "\<forall>x\<in>set run. m_end x - m_start x \<le> m_end p - m_start p"
    unfolding from_run_def by blast
  have "{m_start p..<m_end p} \<subseteq> {m_start r..<m_end r}" "m_start p < m_end p"
    using p(1) run(1) run(2) [symmetric] assms(1) by (auto simp: covered_def)
  then have "m_start r \<le> m_start p \<and> m_end p \<le> m_end r" by simp
  moreover have "x \<in> set run" if "x \<in> set ms" "{m_start x..<m_end x} \<inter> {m_start r..<m_end r} \<noteq> {}" for x
    using run(3) that by fastforce
  ultimately show ?thesis using p run(1) by blast
qed

section \<open>Properties of one rule's match loop\<close>

text \<open>What a rule's matches satisfy in the text it scans.\<close>

definition match_ok :: "platform \<Rightarrow> string \<Rightarrow> compiled_rule \<Rightarrow> scan_match \<Rightarrow> bool" where
  "match_ok pf text cr m \<longleftrightarrow>
     m_start m < m_end m \<and> m_end m \<le> length text \<and> m_rule m = Some cr \<and>
     min_length (cr_rule cr) \<le> m_end m - m_start m \<and>
     passes_validators pf (substr text (m_start m) (m_end m - m_start m)) (cr_rule cr)"

lemma span_of_groups_SomeD: "span_of_groups groups gs = Some (s, e) \<Longrightarrow> s < e \<and> Some (s, e) \<in> set groups"
proof (induction groups gs rule: span_of_groups.induct)
  case (2 groups g gs)
  show ?case
  proof (cases "g < 0 \<or> nat g \<ge> length groups")
    case True
    then show ?thesis using 2 by auto
  next
    case False
    then have "groups ! nat g \<in> set groups" by simp
    then show ?thesis using 2 False by - (cases "groups ! nat g"; auto split: if_splits)
  qed
qed simp

lemma sensitive_span_SomeD:
  assumes "sensitive_span full caps r = Some (s, e)" "\<forall>a b. Some (a, b) \<in> set caps \<longrightarrow> fst full \<le> a \<and> b \<le> snd full"
  shows "fst full \<le> s \<and> s < e \<and> e \<le> snd full"
  using assms by (cases full) (auto simp: sensitive_span_def split: if_splits dest!: span_of_groups_SomeD)

lemma accept_match_append: "accept_match pf text cr full caps out = out @ accept_match pf text cr full caps []"
  by (auto simp: accept_match_def Let_def split: option.splits)

lemma accept_match_ok:
  assumes "m \<in> set (accept_match pf text cr full caps [])" "snd full \<le> length text"
    "\<forall>a b. Some (a, b) \<in> set caps \<longrightarrow> fst full \<le> a \<and> b \<le> snd full"
  shows "match_ok pf text cr m"
proof (cases "sensitive_span full caps (cr_rule cr)")
  case (Some se)
  obtain s e where se: "se = (s, e)" by force
  have "s < e" "e \<le> length text" using sensitive_span_SomeD [OF Some [unfolded se] assms(3)] assms(2) by auto
  then show ?thesis using assms(1) Some se by (auto simp: accept_match_def match_ok_def Let_def split: if_splits)
qed (use assms(1) in \<open>simp add: accept_match_def\<close>)

lemma scan_loop_append:
  "scan_loop fuel pf text cr re pos p out = map_option ((@) out) (scan_loop fuel pf text cr re pos p [])"
proof (induction fuel arbitrary: pos p out)
  case (Suc fuel)
  show ?case
  proof (cases "pos \<le> length text")
    case True
    show ?thesis
    proof (cases "re_match re text pos")
      case (Some full)
      obtain a b caps where full: "full = ((a, b), caps)" by (metis surj_pair)
      let ?acc = "accept_match pf text cr (a, b) caps"
      have acc: "?acc out = out @ ?acc []" by (rule accept_match_append)
      have IH: "scan_loop fuel pf text cr re pos' q (?acc out)
          = map_option ((@) out) (scan_loop fuel pf text cr re pos' q (?acc []))" for pos' q
        unfolding acc Suc.IH [of pos' q "out @ ?acc []"] Suc.IH [of pos' q "?acc []"]
        by (cases "scan_loop fuel pf text cr re pos' q []") simp_all
      show ?thesis
      proof (cases "b = a")
        case empty: True
        show ?thesis using True Some full IH [unfolded empty] Suc.IH [of _ _ out] empty
          by (cases "a < length text"; cases "int a = p") (simp_all add: Let_def)
      next
        case False
        then show ?thesis using True Some full IH by simp
      qed
    qed (use True in simp)
  qed simp
qed simp

text \<open>Each round moves \<open>pos\<close> forward: the loop ends within the fuel it is given.\<close>

lemma scan_loop_total:
  assumes "re2_contract re" "length text + 1 < fuel + pos" "pos \<le> length text + 1"
  shows "\<exists>new. scan_loop fuel pf text cr re pos p [] = Some new \<and> (\<forall>m\<in>set new. match_ok pf text cr m)"
  using assms(2,3)
proof (induction fuel arbitrary: pos p)
  case (Suc fuel)
  show ?case
  proof (cases "pos \<le> length text")
    case True
    show ?thesis
    proof (cases "re_match re text pos")
      case (Some full)
      obtain a b caps where full: "full = ((a, b), caps)" by (metis surj_pair)
      have re: "pos \<le> a" "a \<le> b" "b \<le> length text"
          "\<forall>x y. Some (x, y) \<in> set caps \<longrightarrow> fst (a, b) \<le> x \<and> y \<le> snd (a, b)"
        using re2_contractD [OF assms(1) Some [unfolded full]] by auto
      let ?acc = "accept_match pf text cr (a, b) caps"
      have acc: "\<forall>m\<in>set (?acc []). match_ok pf text cr m"
        using accept_match_ok [OF _ _ re(4)] re(3) by auto
      have step: "\<exists>new. scan_loop fuel pf text cr re pos' q out = Some new \<and> (\<forall>m\<in>set new. match_ok pf text cr m)"
        if pos': "pos < pos'" "pos' \<le> length text + 1" and "\<forall>m\<in>set out. match_ok pf text cr m" for pos' q out
      proof -
        obtain new where "scan_loop fuel pf text cr re pos' q [] = Some new" "\<forall>m\<in>set new. match_ok pf text cr m"
          using Suc.IH [of pos' q] Suc.prems pos' by auto
        then show ?thesis using that(3) scan_loop_append [of fuel pf "text" cr re pos' q out] by auto
      qed
      have width: "0 < snd (decode_utf8 text a)" using decode_utf8_width [of "text" a] by linarith
      have inb: "a < length text \<Longrightarrow> a + snd (decode_utf8 text a) \<le> Suc (length text)"
        using decode_utf8_in_bounds [of a "text"] by simp
      show ?thesis
      proof (cases "b = a")
        case True
        then show ?thesis
          using \<open>pos \<le> length text\<close> Some full re width inb acc
          by (cases "a < length text"; cases "int a = p") (simp_all add: step)
      next
        case False
        then show ?thesis using \<open>pos \<le> length text\<close> Some full re(1,2,3) acc by (simp add: step)
      qed
    qed (use True in simp)
  qed simp
qed simp

lemma scan_one_rule_append:
  "scan_one_rule pf text cr out = map_sum id ((@) out) (scan_one_rule pf text cr [])"
  by (simp add: scan_one_rule_def scan_loop_append [of _ _ _ _ _ _ _ out] split: option.split)

text \<open>Scanning with one compiled rule comes to an end without an error, adds its matches after those
  already found, and every match it adds is a non-empty span inside the text that is long enough and
  passes the rule's validators.\<close>

theorem scan_one_rule_total:
  assumes "cr_re cr = Some re" "re2_contract re"
  shows "\<exists>new. scan_one_rule pf text (Some cr) out = Inr (out @ new) \<and>
    (\<forall>m\<in>set new. m_start m < m_end m \<and> m_end m \<le> length text \<and> m_rule m = Some cr \<and>
       min_length (cr_rule cr) \<le> m_end m - m_start m \<and>
       passes_validators pf (substr text (m_start m) (m_end m - m_start m)) (cr_rule cr))"
proof (cases "text = []")
  case False
  have "0 \<le> length text + 1" "length text + 1 < length text + 2 + 0" by simp_all
  from scan_loop_total [OF assms(2) this(2,1)]
  obtain new where "scan_loop (length text + 2) pf text cr re 0 (- 1) [] = Some new"
      "\<forall>m\<in>set new. match_ok pf text cr m" by blast
  then show ?thesis
    using False assms(1) by (simp add: scan_one_rule_def scan_loop_append [of _ _ _ _ _ _ _ out] match_ok_def)
qed (use assms(1) in \<open>simp add: scan_one_rule_def\<close>)


section \<open>Serial and parallel scanning\<close>

lemma scan_serial_loop_append:
  "scan_serial_loop pf text rules all = map_sum id ((@) all) (scan_serial_loop pf text rules [])"
proof (induction rules arbitrary: all)
  case (Cons cr rules)
  show ?case
  proof (cases "scan_one_rule pf text cr []")
    case (Inr new)
    then show ?thesis
      by (simp add: scan_one_rule_append [of _ _ _ all] Cons.IH [of "all @ new"] Cons.IH [of new]
          sum.map_comp comp_def id_def)
  qed (simp add: scan_one_rule_append [of _ _ _ all])
qed simp

text \<open>The matches of one rule (none if it raises), and the rules a scan can use.\<close>

definition rule_matches :: "platform \<Rightarrow> string \<Rightarrow> compiled_rule option \<Rightarrow> scan_match list" where
  "rule_matches pf text cr = (case scan_one_rule pf text cr [] of Inl _ \<Rightarrow> [] | Inr ms \<Rightarrow> ms)"

definition scannable :: "compiled_rule option \<Rightarrow> bool" where
  "scannable cr \<longleftrightarrow> (\<exists>r re. cr = Some r \<and> cr_re r = Some re \<and> re2_contract re)"

lemma scan_loop_total_at_0:
  assumes "re2_contract re"
  shows "\<exists>new. scan_loop (length text + 2) pf text cr re 0 p [] = Some new \<and> (\<forall>m\<in>set new. match_ok pf text cr m)"
  by (rule scan_loop_total [OF assms]) simp_all

lemma scan_one_rule_scannable:
  assumes "scannable cr"
  shows "scan_one_rule pf text cr [] = Inr (rule_matches pf text cr) \<and>
    (\<forall>m\<in>set (rule_matches pf text cr). match_ok pf text (the cr) m)"
proof -
  from assms obtain r re where r: "cr = Some r" "cr_re r = Some re" "re2_contract re"
    by (auto simp: scannable_def)
  then show ?thesis
    using scan_loop_total_at_0 [OF r(3), of "text" pf r "- 1"]
    by (cases "text = []") (auto simp: rule_matches_def scan_one_rule_def)
qed

lemma scan_serial_scannable:
  assumes "\<forall>cr\<in>set rules. scannable cr"
  shows "scan_serial pf text rules = Inr (concat (map (rule_matches pf text) rules))"
  using assms unfolding scan_serial_def
proof (induction rules)
  case (Cons cr rules)
  then show ?case
    using scan_one_rule_scannable [of cr pf "text"]
    by (simp add: scan_serial_loop_append [of _ _ _ "rule_matches pf text cr"])
qed simp


text \<open>The buckets of the round-robin distribution partition the rules.\<close>

lemma mset_concat_upt: "mset (concat (map f [0..<n])) = (\<Sum>b<n. mset (f b))"
  by (induction n) simp_all

lemma mset_by_residue:
  fixes ps :: "('a \<times> nat) list"
  assumes "0 < n"
  shows "(\<Sum>b<n. mset (map fst (filter (\<lambda>(r, i). i mod n = b) ps))) = mset (map fst ps)"
proof (induction ps)
  case (Cons p ps)
  obtain r i where p: "p = (r, i)" by force
  have "(\<Sum>b<n. mset (map fst (filter (\<lambda>(r, i). i mod n = b) (p # ps)))) =
      (\<Sum>b<n. (if i mod n = b then {#r#} else {#}) + mset (map fst (filter (\<lambda>(r, i). i mod n = b) ps)))"
    by (intro sum.cong) (simp_all add: p)
  then show ?case using Cons assms by (simp add: p sum.distrib)
qed simp

lemma mset_buckets: "0 < n \<Longrightarrow> mset (concat (map (bucket n rules) [0..<n])) = mset rules"
  unfolding mset_concat_upt bucket_def by (simp only: mset_by_residue) simp

lemma set_buckets: "0 < n \<Longrightarrow> b < n \<Longrightarrow> set (bucket n rules b) \<subseteq> set rules"
  by (auto simp: bucket_def set_zip)

lemma first_worker_error_Inr: "\<forall>r\<in>set rs. isl r = False \<Longrightarrow> first_worker_error rs = None"
  by (induction rs rule: first_worker_error.induct) auto

lemma collect_workers_Inr: "collect_workers (map (\<lambda>b. Inr (f b)) bs) = Inr (concat (map f bs))"
proof -
  have "first_worker_error (map (\<lambda>b. Inr (f b)) bs) = None"
    by (rule first_worker_error_Inr) auto
  then show ?thesis by (auto simp: collect_workers_def comp_def)
qed

lemma concat_map_concat: "concat (map (\<lambda>b. concat (map f (g b))) bs) = concat (map f (concat (map g bs)))"
  by (induction bs) simp_all

lemma scan_parallel_scannable:
  assumes "\<forall>cr\<in>set rules. scannable cr"
  shows "\<exists>rules'. mset rules' = mset rules \<and>
    scan_parallel hw pf text rules opts = Inr (concat (map (rule_matches pf text) rules'))"
proof (cases "compute_worker_count hw (length rules) (max_workers opts)")
  case 0
  then have "rules = []" by (auto simp: compute_worker_count_def Let_def min_def split: if_splits)
  then show ?thesis using 0 by (simp add: scan_parallel_def)
next
  case (Suc k)
  let ?n = "Suc k"
  let ?f = "\<lambda>b. concat (map (rule_matches pf text) (bucket ?n rules b))"
  have "scan_serial pf text (bucket ?n rules b) = Inr (?f b)" if "b < ?n" for b
    using assms set_buckets [OF _ that, of rules] by (intro scan_serial_scannable) auto
  then have "map (\<lambda>b. scan_serial pf text (bucket ?n rules b)) [0..<?n] = map (\<lambda>b. Inr (?f b)) [0..<?n]"
    by (intro map_cong refl) (metis atLeastLessThan_iff set_upt)
  then have "scan_parallel hw pf text rules opts = Inr (concat (map ?f [0..<?n]))"
    unfolding scan_parallel_def Suc Let_def by (simp only: collect_workers_Inr nat.simps if_False)
  then show ?thesis
    using mset_buckets [of ?n rules] unfolding concat_map_concat by blast
qed

lemma scan_match_order: "strict_weak_order scan_match_less"
proof
  show "\<not> scan_match_less x x" for x by (simp add: scan_match_less_def)
  show "scan_match_less x z" if "scan_match_less x y" "scan_match_less y z" for x y z
    using that by (auto simp: scan_match_less_def Let_def split: if_splits elim: bytewise.trans)
  show "\<not> scan_match_less x z" if "\<not> scan_match_less x y" "\<not> scan_match_less y z" for x y z
    using that
    by (auto simp: scan_match_less_def Let_def split: if_splits dest: bytewise.incomparable_trans)
qed

interpretation by_position: strict_weak_order scan_match_less
  by (rule scan_match_order)


text \<open>Overlap resolution depends on the multiset of the matches only, so long as ids name rules.\<close>

definition ids_unique :: "compiled_rule option list \<Rightarrow> bool" where
  "ids_unique rules \<longleftrightarrow>
     (\<forall>a\<in>set rules. \<forall>b\<in>set rules. rule_id (cr_rule (the a)) = rule_id (cr_rule (the b)) \<longrightarrow> a = b)"

lemma scan_match_incomparable:
  assumes "\<not> scan_match_less x y" "\<not> scan_match_less y x"
    "m_start x < m_end x" "m_start y < m_end y"
  shows "m_start x = m_start y \<and> m_end x = m_end y \<and> match_rule_id x = match_rule_id y"
  using assms string_less_total [of "match_rule_id x" "match_rule_id y"]
  by (auto simp: scan_match_less_def Let_def split: if_splits)

lemma resolve_conflicts_cong:
  assumes "mset xs = mset ys"
    "\<forall>x\<in>set xs. \<forall>y\<in>set xs. \<not> scan_match_less x y \<and> \<not> scan_match_less y x \<longrightarrow> x = y"
  shows "resolve_conflicts xs = resolve_conflicts ys"
proof -
  have len: "length xs = length ys" using assms(1) by (metis size_mset)
  have "xs = ys" if "length xs \<le> 1"
    using that len assms(1) by (cases xs; cases ys) auto
  moreover have "sort_by scan_match_less xs = sort_by scan_match_less ys"
    using assms by (rule by_position.sort_by_cong)
  ultimately show ?thesis by (auto simp: resolve_conflicts_def len)
qed

lemma mset_concat_map_cong: "mset xs = mset ys \<Longrightarrow> mset (concat (map f xs)) = mset (concat (map f ys))"
proof -
  have "mset (concat (map f zs)) = (\<Sum>z\<in>#mset zs. mset (f z))" for zs by (induction zs) simp_all
  then show "mset xs = mset ys \<Longrightarrow> ?thesis" by metis
qed

lemma rule_matches_ok:
  assumes "\<forall>cr\<in>set rules. scannable cr" "m \<in> set (concat (map (rule_matches pf text) rules))"
  shows "m_rule m \<in> set rules \<and> match_ok pf text (the (m_rule m)) m"
proof -
  from assms(2) obtain cr where cr: "cr \<in> set rules" "m \<in> set (rule_matches pf text cr)" by auto
  then have "match_ok pf text (the cr) m" using assms(1) scan_one_rule_scannable by blast
  moreover have "cr = Some (the cr)" using cr(1) assms(1) by (auto simp: scannable_def)
  ultimately show ?thesis using cr(1) by (metis match_ok_def option.sel)
qed

lemma resolve_conflicts_rule_matches:
  assumes "\<forall>cr\<in>set rules. scannable cr" "ids_unique rules" "mset rules' = mset rules"
  shows "resolve_conflicts (concat (map (rule_matches pf text) rules')) =
    resolve_conflicts (concat (map (rule_matches pf text) rules))"
proof (rule resolve_conflicts_cong)
  have set: "set rules' = set rules" using assms(3) mset_eq_setD by blast
  show "\<forall>x\<in>set (concat (map (rule_matches pf text) rules')).
      \<forall>y\<in>set (concat (map (rule_matches pf text) rules')).
      \<not> scan_match_less x y \<and> \<not> scan_match_less y x \<longrightarrow> x = y"
  proof (intro ballI impI)
    fix x y
    assume xy: "x \<in> set (concat (map (rule_matches pf text) rules'))"
      "y \<in> set (concat (map (rule_matches pf text) rules'))"
      "\<not> scan_match_less x y \<and> \<not> scan_match_less y x"
    then have ok: "m_rule x \<in> set rules" "match_ok pf text (the (m_rule x)) x"
      "m_rule y \<in> set rules" "match_ok pf text (the (m_rule y)) y"
      using rule_matches_ok [of rules _ pf "text"] assms(1) set by auto
    then have eq: "m_start x = m_start y \<and> m_end x = m_end y \<and> match_rule_id x = match_rule_id y"
      using scan_match_incomparable xy(3) by (auto simp: match_ok_def)
    then have "m_rule x = m_rule y" using assms(2) ok by (auto simp: ids_unique_def match_rule_id_def)
    with eq show "x = y" by simp
  qed
qed (use assms(3) mset_concat_map_cong in blast)

lemma scan_candidates_scannable:
  assumes "\<forall>cr\<in>set active. scannable cr" "ids_unique active"
  shows "map_sum id resolve_conflicts (scan_candidates hw pf text active opts) =
    Inr (resolve_conflicts (concat (map (rule_matches pf text) active)))"
proof -
  obtain rules' where par: "mset rules' = mset active"
    "scan_parallel hw pf text active opts = Inr (concat (map (rule_matches pf text) rules'))"
    using scan_parallel_scannable [OF assms(1)] by blast
  then show ?thesis
    using resolve_conflicts_rule_matches [OF assms par(1)] par(2) scan_serial_scannable [OF assms(1), of pf "text"]
    by (simp add: scan_candidates_def)
qed

text \<open>C10. Fan-out is invisible: over rules with a compiled regex and unique ids, scanning in
  round-robin buckets on any number of workers and resolving overlaps gives exactly the result of the
  serial scan.\<close>

theorem scan_parallel_eq_serial:
  assumes "\<forall>cr\<in>set rules. \<exists>r re. cr = Some r \<and> cr_re r = Some re \<and> re2_contract re"
    and "\<forall>a\<in>set rules. \<forall>b\<in>set rules. rule_id (cr_rule (the a)) = rule_id (cr_rule (the b)) \<longrightarrow> a = b"
  shows "map_sum id resolve_conflicts (scan_parallel hw pf text rules opts) =
    map_sum id resolve_conflicts (scan_serial pf text rules)"
proof -
  have s: "\<forall>cr\<in>set rules. scannable cr" using assms(1) by (simp add: scannable_def)
  have u: "ids_unique rules" using assms(2) by (simp add: ids_unique_def)
  obtain rules' where par: "mset rules' = mset rules"
    "scan_parallel hw pf text rules opts = Inr (concat (map (rule_matches pf text) rules'))"
    using scan_parallel_scannable [OF s] by blast
  then show ?thesis
    using resolve_conflicts_rule_matches [OF s u par(1)] par(2) scan_serial_scannable [OF s, of pf "text"]
    by simp
qed

lemma filter_by_keywords_filter:
  "filter_by_keywords pf text rules = filter (\<lambda>cr. case cr of None \<Rightarrow> True | Some r \<Rightarrow>
     \<not> prefilter_eligible r \<or> keyword_hit (to_lower_utf8 (utf8 pf) text) (prefilter_keywords r)) rules"
  by (induction rules) (auto split: option.splits)

lemma scan_rules_scannable:
  assumes "\<forall>cr\<in>set rules. scannable cr" "ids_unique rules"
  shows "scan_rules hw pf text rules opts = Inr (resolve_conflicts (concat (map (rule_matches pf text)
    (if prefilter_enabled opts then filter_by_keywords pf text rules else rules))))"
proof -
  let ?active = "if prefilter_enabled opts then filter_by_keywords pf text rules else rules"
  have "set ?active \<subseteq> set rules" by (auto simp: filter_by_keywords_filter)
  then have "\<forall>cr\<in>set ?active. scannable cr" "ids_unique ?active"
    using assms unfolding ids_unique_def by blast+
  then show ?thesis
    using scan_candidates_scannable [of ?active hw pf "text" opts]
    by (auto simp: scan_rules_def Let_def resolve_conflicts_def)
qed

lemma resolve_conflicts_bounds:
  assumes "\<forall>m\<in>set ms. m_start m < m_end m \<and> m_end m \<le> n \<and> m_rule m \<in> R" "r \<in> set (resolve_conflicts ms)"
  shows "m_start r < m_end r \<and> m_end r \<le> n \<and> m_rule r \<in> R"
proof -
  have ne: "\<forall>m\<in>set ms. m_start m < m_end m" using assms(1) by simp
  obtain run p where run: "set run \<subseteq> set ms" "covered run = {m_start r..<m_end r}" "p \<in> set run" "m_rule p = m_rule r"
    using resolve_conflicts_inv [OF ne] assms(2) unfolding from_run_def by blast
  have p: "m_start p < m_end p" "m_rule p \<in> R" using run(1,3) assms(1) by auto
  have "m_start p \<in> covered run" using run(3) p(1) by (auto simp: covered_def)
  then have lt: "m_start r < m_end r" using run(2) by auto
  then have "m_end r - 1 \<in> covered run" using run(2) by auto
  then obtain x where x: "x \<in> set run" "m_end r - 1 < m_end x" by (auto simp: covered_def)
  then have "m_end x \<le> n" using run(1) assms(1) by blast
  then show ?thesis using lt x(2) p(2) run(4) by simp
qed

lemma scan_rules_spans:
  assumes "\<forall>cr\<in>set rules. scannable cr" "ids_unique rules"
  shows "\<exists>spans. scan_rules hw pf text rules opts = Inr spans \<and> sorted_wrt before spans \<and>
    (\<forall>m\<in>set spans. m_start m < m_end m \<and> m_end m \<le> length text \<and> m_rule m \<in> set rules)"
proof -
  let ?active = "if prefilter_enabled opts then filter_by_keywords pf text rules else rules"
  let ?ms = "concat (map (rule_matches pf text) ?active)"
  have active: "set ?active \<subseteq> set rules" by (auto simp: filter_by_keywords_filter)
  then have "\<forall>cr\<in>set ?active. scannable cr" using assms(1) by blast
  then have ok: "\<forall>m\<in>set ?ms. m_start m < m_end m \<and> m_end m \<le> length text \<and> m_rule m \<in> set rules"
    using rule_matches_ok [of ?active _ pf "text"] active unfolding match_ok_def by blast
  then have "\<forall>m\<in>set ?ms. m_start m < m_end m" by blast
  then show ?thesis
    using scan_rules_scannable [OF assms] resolve_conflicts_inv [of ?ms] resolve_conflicts_bounds [OF ok]
    by (intro exI [of _ "resolve_conflicts ?ms"]) blast
qed

text \<open>C8. Complete and well-formed scan: for compiled rules with unique ids and the pre-filter off, the
  scan returns spans that are in order, disjoint, non-empty and inside the text, and every match that
  some rule accepts lies inside one of them.\<close>

theorem scan_rules_complete:
  assumes "\<forall>cr\<in>set rules. \<exists>r re. cr = Some r \<and> cr_re r = Some re \<and> re2_contract re"
    and "\<forall>a\<in>set rules. \<forall>b\<in>set rules. rule_id (cr_rule (the a)) = rule_id (cr_rule (the b)) \<longrightarrow> a = b"
    and "\<not> prefilter_enabled opts"
  shows "\<exists>spans. scan_rules hw pf text rules opts = Inr spans \<and>
    sorted_wrt (\<lambda>a b. m_end a \<le> m_start b) spans \<and>
    (\<forall>m\<in>set spans. m_start m < m_end m \<and> m_end m \<le> length text \<and> m_rule m \<in> set rules) \<and>
    (\<forall>cr ms m. cr \<in> set rules \<and> scan_one_rule pf text cr [] = Inr ms \<and> m \<in> set ms \<longrightarrow>
       {m_start m..<m_end m} \<subseteq> (\<Union>s\<in>set spans. {m_start s..<m_end s}))"
proof -
  have s: "\<forall>cr\<in>set rules. scannable cr" using assms(1) by (simp add: scannable_def)
  have u: "ids_unique rules" using assms(2) by (simp add: ids_unique_def)
  let ?ms = "concat (map (rule_matches pf text) rules)"
  have ok: "\<forall>m\<in>set ?ms. m_rule m \<in> set rules \<and> match_ok pf text (the (m_rule m)) m"
    using rule_matches_ok [OF s] by blast
  then have ne: "\<forall>m\<in>set ?ms. m_start m < m_end m" by (simp add: match_ok_def)
  note inv = resolve_conflicts_inv [OF ne]
  have scan: "scan_rules hw pf text rules opts = Inr (resolve_conflicts ?ms)"
    using scan_rules_scannable [OF s u] assms(3) by simp
  have each: "m_start m < m_end m \<and> m_end m \<le> length text \<and> m_rule m \<in> set rules"
    if "m \<in> set (resolve_conflicts ?ms)" for m
    using resolve_conflicts_bounds [OF _ that] ok unfolding match_ok_def by blast
  have cover: "{m_start m..<m_end m} \<subseteq> covered (resolve_conflicts ?ms)"
    if "cr \<in> set rules" "scan_one_rule pf text cr [] = Inr ms" "m \<in> set ms" for cr ms m
  proof -
    have "rule_matches pf text cr = ms" using that(2) by (simp add: rule_matches_def)
    then have "m \<in> set ?ms" using that(1,3) by auto
    then show ?thesis using inv by (auto simp: covered_def)
  qed
  show ?thesis
  proof (intro exI [of _ "resolve_conflicts ?ms"] conjI)
    show "sorted_wrt (\<lambda>a b. m_end a \<le> m_start b) (resolve_conflicts ?ms)"
      using inv unfolding before_def by blast
    show "\<forall>cr ms m. cr \<in> set rules \<and> scan_one_rule pf text cr [] = Inr ms \<and> m \<in> set ms \<longrightarrow>
       {m_start m..<m_end m} \<subseteq> (\<Union>s\<in>set (resolve_conflicts ?ms). {m_start s..<m_end s})"
      using cover unfolding covered_def by blast
  qed (use scan each in simp_all)
qed

lemma concat_map_filter:
  "(\<And>x. x \<in> set xs \<Longrightarrow> \<not> P x \<Longrightarrow> f x = []) \<Longrightarrow> concat (map f (filter P xs)) = concat (map f xs)"
  by (induction xs) simp_all

text \<open>The keyword pre-filter loses nothing if the regex of every eligible rule only matches texts whose
  lower-case form holds one of the rule's keywords; \<open>PrefilterSound\<close> derives that for the rules of a
  registry.\<close>

lemma filter_by_keywords_lossless:
  assumes "\<forall>cr\<in>set rules. \<exists>r re. cr = Some r \<and> cr_re r = Some re \<and> re2_contract re \<and>
      (prefilter_eligible r \<and> re_match re text 0 \<noteq> None \<longrightarrow>
         keyword_hit (to_lower_utf8 (utf8 pf) text) (prefilter_keywords r))"
    and "\<forall>a\<in>set rules. \<forall>b\<in>set rules. rule_id (cr_rule (the a)) = rule_id (cr_rule (the b)) \<longrightarrow> a = b"
  shows "scan_rules hw pf text rules (opts\<lparr>prefilter_enabled := True\<rparr>) =
    scan_rules hw pf text rules (opts\<lparr>prefilter_enabled := False\<rparr>)"
proof -
  have s: "\<forall>cr\<in>set rules. scannable cr" using assms(1) unfolding scannable_def by blast
  have u: "ids_unique rules" using assms(2) by (simp add: ids_unique_def)
  let ?keep = "\<lambda>cr. case cr of None \<Rightarrow> True | Some r \<Rightarrow>
     \<not> prefilter_eligible r \<or> keyword_hit (to_lower_utf8 (utf8 pf) text) (prefilter_keywords r)"
  have "rule_matches pf text cr = []" if cr: "cr \<in> set rules" "\<not> ?keep cr" for cr
  proof -
    obtain r re where r: "cr = Some r" "cr_re r = Some re" "re2_contract re"
      "re_match re text 0 \<noteq> None \<longrightarrow> keyword_hit (to_lower_utf8 (utf8 pf) text) (prefilter_keywords r)"
      using assms(1) cr by fastforce
    then have "re_match re text 0 = None" using cr(2) by (cases "re_match re text 0") auto
    then show ?thesis using r by (simp add: rule_matches_def scan_one_rule_def)
  qed
  then have "concat (map (rule_matches pf text) (filter ?keep rules)) = concat (map (rule_matches pf text) rules)"
    by (rule concat_map_filter)
  then show ?thesis
    by (simp add: scan_rules_scannable [OF s u] filter_by_keywords_filter)
qed


section \<open>Witnesses\<close>

theorem resolve_conflicts_disjoint_cover_witness:
  "let ms = [\<lparr>m_start = 4, m_end = 9, m_rule = Some (literal_rule ''a'' ''x'')\<rparr>,
             \<lparr>m_start = 0, m_end = 3, m_rule = Some (literal_rule ''b'' ''x'')\<rparr>,
             \<lparr>m_start = 2, m_end = 4, m_rule = Some (literal_rule ''c'' ''x'')\<rparr>]
   in length (resolve_conflicts ms) = 2 \<and>
     sorted_wrt (\<lambda>a b. m_end a \<le> m_start b) (resolve_conflicts ms) \<and>
     (\<Union>m\<in>set (resolve_conflicts ms). {m_start m..<m_end m}) = (\<Union>m\<in>set ms. {m_start m..<m_end m})"
proof -
  let ?ms = "[\<lparr>m_start = 4, m_end = 9, m_rule = Some (literal_rule ''a'' ''x'')\<rparr>,
             \<lparr>m_start = 0, m_end = 3, m_rule = Some (literal_rule ''b'' ''x'')\<rparr>,
             \<lparr>m_start = 2, m_end = 4, m_rule = Some (literal_rule ''c'' ''x'')\<rparr>]"
  have "length (resolve_conflicts ?ms) = 2" by code_simp
  then show ?thesis unfolding Let_def
    by (intro conjI resolve_conflicts_disjoint_cover [THEN conjunct1] resolve_conflicts_disjoint_cover [THEN conjunct2])
      simp_all
qed

theorem resolve_conflicts_attribution_witness:
  "let p = \<lparr>m_start = 0, m_end = 3, m_rule = Some (literal_rule ''b'' ''x'')\<rparr>;
       q = \<lparr>m_start = 2, m_end = 4, m_rule = Some (literal_rule ''c'' ''x'')\<rparr>;
       r = \<lparr>m_start = 0, m_end = 4, m_rule = Some (literal_rule ''b'' ''x'')\<rparr>
   in resolve_conflicts [q, p] = [r] \<and>
     (\<exists>s\<in>{q, p}. m_rule s = m_rule r \<and> m_start r \<le> m_start s \<and> m_end s \<le> m_end r \<and>
       (\<forall>x\<in>{q, p}. {m_start x..<m_end x} \<inter> {m_start r..<m_end r} \<noteq> {} \<longrightarrow>
          m_end x - m_start x \<le> m_end s - m_start s))"
proof -
  let ?p = "\<lparr>m_start = 0, m_end = 3, m_rule = Some (literal_rule ''b'' ''x'')\<rparr>"
  let ?q = "\<lparr>m_start = 2, m_end = 4, m_rule = Some (literal_rule ''c'' ''x'')\<rparr>"
  let ?r = "\<lparr>m_start = 0, m_end = 4, m_rule = Some (literal_rule ''b'' ''x'')\<rparr>"
  have eq: "resolve_conflicts [?q, ?p] = [?r]"
    by (simp add: resolve_conflicts_def scan_match_less_def primary_of_def prefer_as_primary_def)
  show ?thesis unfolding Let_def
    using eq resolve_conflicts_attribution [of "[?q, ?p]" ?r] by simp
qed

theorem scan_one_rule_total_witness:
  "\<forall>pf. \<exists>new. scan_one_rule pf ''say abc'' (Some (literal_rule ''r'' ''abc'')) [] = Inr new \<and>
    list_all (\<lambda>m. m_start m < m_end m \<and> m_end m \<le> length ''say abc'') new"
proof
  fix pf
  have "cr_re (literal_rule ''r'' ''abc'') = Some (literal_re2 ''abc'')" by (simp add: literal_rule_def)
  from scan_one_rule_total [OF this literal_re2_contract, of pf "''say abc''" "[]"]
  show "\<exists>new. scan_one_rule pf ''say abc'' (Some (literal_rule ''r'' ''abc'')) [] = Inr new \<and>
    list_all (\<lambda>m. m_start m < m_end m \<and> m_end m \<le> length ''say abc'') new" by (auto simp: list_all_iff)
qed

theorem scan_parallel_eq_serial_witness:
  "\<forall>hw pf opts. map_sum id resolve_conflicts (scan_parallel hw pf ''say abc''
       [Some (literal_rule ''r'' ''abc''), Some (literal_rule ''s'' ''y a'')] opts) =
     map_sum id resolve_conflicts (scan_serial pf ''say abc''
       [Some (literal_rule ''r'' ''abc''), Some (literal_rule ''s'' ''y a'')])"
  by (intro allI scan_parallel_eq_serial) (simp_all add: literal_rule_def literal_re2_contract)

theorem scan_rules_complete_witness:
  "\<forall>hw pf. \<exists>spans. scan_rules hw pf ''say abc'' [Some (literal_rule ''r'' ''abc'')]
       \<lparr>prefilter_enabled = False, max_workers = 0\<rparr> = Inr spans \<and>
     list_all (\<lambda>m. m_start m < m_end m \<and> m_end m \<le> length ''say abc'') spans"
proof (intro allI)
  fix hw pf
  have "\<forall>cr\<in>set [Some (literal_rule ''r'' ''abc'')]. \<exists>r re. cr = Some r \<and> cr_re r = Some re \<and> re2_contract re"
    by (simp add: literal_rule_def literal_re2_contract)
  from scan_rules_complete [OF this, of "\<lparr>prefilter_enabled = False, max_workers = 0\<rparr>" hw pf "''say abc''"]
  show "\<exists>spans. scan_rules hw pf ''say abc'' [Some (literal_rule ''r'' ''abc'')]
       \<lparr>prefilter_enabled = False, max_workers = 0\<rparr> = Inr spans \<and>
     list_all (\<lambda>m. m_start m < m_end m \<and> m_end m \<le> length ''say abc'') spans" by (auto simp: list_all_iff)
qed

end
