(* ===== verification/Masker.thy ===== *)
theory Masker
  imports Scanner
begin

text \<open>
  \<open>src/src/guard/Masker.hpp\<close>: replacing the spans the scanner finds by numbered placeholders, the
  same original always by the same placeholder, never by one that the texts already contain.
\<close>

section \<open>Definitions\<close>

record mask_options =
  mask_scan :: scan_options
  parallel_min_bytes :: nat

record mask_result =
  masked_texts :: "string list"
  mask_state :: masking_state

text \<open>
  The ways \<open>mask_texts\<close> can fail: a \<open>std::runtime_error\<close> with its message, the
  \<open>std::out_of_range\<close> of \<open>string_view::substr\<close>, or a scan that never returns.
\<close>

datatype mask_error = MaskError string | MaskOutOfRange | MaskDiverges

definition kDefaultParallelMinBytes :: nat where "kDefaultParallelMinBytes = 8 * 1024"

subsection \<open>Reserved placeholders\<close>

text \<open>The byte class \<open>[A-Za-z0-9_]\<close> and the regular expression \<open><[A-Za-z0-9_]+_[0-9]+>\<close>.\<close>

definition is_word_char :: "char \<Rightarrow> bool" where
  [byte_defs]: "is_word_char c \<longleftrightarrow> is_digit_char c \<or> is_upper_char c \<or> is_lower_char c \<or> c = CHR ''_''"

text \<open>\<open>[A-Za-z0-9_]+_[0-9]+\<close> against a whole run of word bytes.\<close>

definition placeholder_body :: "string \<Rightarrow> bool" where
  "placeholder_body run =
     (let front = dropWhile is_digit_char (rev run) in
      length front < length run \<and> 1 < length front \<and> hd front = CHR ''_'')"

text \<open>
  All matches in a text, the loop of \<open>RE2::FindAndConsume\<close>.  The brackets are not word bytes, so a
  match from a given \<open><\<close> can only end right after the longest run of word bytes.
\<close>

fun literals_in :: "string \<Rightarrow> string list" where
  "literals_in [] = []"
| "literals_in (c # cs) =
     (let run = takeWhile is_word_char cs; rest = drop (length run) cs in
      if c = CHR ''<'' \<and> rest \<noteq> [] \<and> hd rest = CHR ''>'' \<and> placeholder_body run
      then (c # run @ ''>'') # literals_in (drop 1 rest)
      else literals_in cs)"

fun reserved_placeholders :: "string list \<Rightarrow> string list" where
  "reserved_placeholders [] = []"
| "reserved_placeholders (t # ts) =
     (if find_char CHR ''<'' t = None then reserved_placeholders ts
      else literals_in t @ reserved_placeholders ts)"

definition is_triggerable_data_type :: "data_type \<Rightarrow> bool" where
  "is_triggerable_data_type dt \<longleftrightarrow> dt \<ge> dt_credentials \<and> dt \<le> dt_custom"

definition render_placeholder :: "string \<Rightarrow> nat \<Rightarrow> string" where
  "render_placeholder placeholder_type index = ''<'' @ placeholder_type @ ''_'' @ nat_to_string index @ ''>''"

subsection \<open>The masker's state\<close>

text \<open>
  \<open>class MaskerState\<close>.  The reserved set is kept as the list of its elements; \<open>std::set\<close>s as ascending
  lists without repetition.  The per-type counters are C++ \<open>int\<close>s; the model lets them grow.
\<close>

record masker_state =
  reserved :: "string list"
  original_to_placeholder :: "string \<Rightarrow> string option"
  placeholder_counters :: "string \<Rightarrow> nat"
  seen_rules :: "string list"
  seen_data_types :: "data_type list"
  made :: "replacement list"

definition init_masker :: "string list \<Rightarrow> masker_state" where
  "init_masker res =
     \<lparr>reserved = res, original_to_placeholder = Map.empty, placeholder_counters = (\<lambda>_. 0),
      seen_rules = [], seen_data_types = [], made = []\<rparr>"

text \<open>\<open>std::set::insert\<close>.\<close>

fun set_insert :: "('a \<Rightarrow> 'a \<Rightarrow> bool) \<Rightarrow> 'a \<Rightarrow> 'a list \<Rightarrow> 'a list" where
  "set_insert lt x [] = [x]"
| "set_insert lt x (y # ys) =
     (if lt x y then x # y # ys else if lt y x then y # set_insert lt x ys else y # ys)"

lemma render_placeholder_inject_index [simp]:
  "render_placeholder ty m = render_placeholder ty n \<longleftrightarrow> m = n"
  by (simp add: render_placeholder_def)

text \<open>
  The loop of \<open>next_placeholder\<close>: the counter it stops at.  It ends because only finitely many
  placeholders are reserved.
\<close>

function next_index :: "string list \<Rightarrow> string \<Rightarrow> nat \<Rightarrow> nat" where
  "next_index res ty n =
     (let counter = n + 1 in
      if render_placeholder ty counter \<in> set res then next_index res ty counter else counter)"
  by pat_completeness auto

termination
proof (relation "measure (\<lambda>(res, ty, n). card {k. n < k \<and> render_placeholder ty k \<in> set res})")
  fix res ty n counter
  assume c: "counter = (n :: nat) + 1" "render_placeholder ty counter \<in> set res"
  have "inj_on (render_placeholder ty) A" for A by (auto intro: inj_onI)
  then have "finite {k. n < k \<and> render_placeholder ty k \<in> set res}"
    using finite_imageD [of "render_placeholder ty" "{k. n < k \<and> render_placeholder ty k \<in> set res}"]
      finite_subset [of "render_placeholder ty ` {k. n < k \<and> render_placeholder ty k \<in> set res}" "set res"]
    by auto
  moreover have "{k. counter < k \<and> render_placeholder ty k \<in> set res} \<subset> {k. n < k \<and> render_placeholder ty k \<in> set res}"
    using c by auto
  ultimately show "((res, ty, counter), res, ty, n) \<in>
      measure (\<lambda>(res, ty, n). card {k. n < k \<and> render_placeholder ty k \<in> set res})"
    by (simp add: psubset_card_mono)
qed simp

declare next_index.simps [simp del]

definition next_placeholder :: "string \<Rightarrow> masker_state \<Rightarrow> string \<times> masker_state" where
  "next_placeholder ty st =
     (let counter = next_index (reserved st) ty (placeholder_counters st ty) in
      (render_placeholder ty counter,
       st\<lparr>placeholder_counters := (placeholder_counters st)(ty := counter)\<rparr>))"

text \<open>The third component is the out-parameter \<open>created\<close>.\<close>

definition placeholder_for_original :: "string \<Rightarrow> string \<Rightarrow> masker_state \<Rightarrow> string \<times> masker_state \<times> bool" where
  "placeholder_for_original original ty st =
     (case original_to_placeholder st original of
        Some p \<Rightarrow> (p, st, False)
      | None \<Rightarrow>
          let (p, st') = next_placeholder ty st in
          (p, st'\<lparr>original_to_placeholder := (original_to_placeholder st')(original \<mapsto> p)\<rparr>, True))"

subsection \<open>Masking one text\<close>

text \<open>
  \<open>text.substr(start, end - start)\<close>: the difference of two \<open>size_t\<close> wraps round when \<open>end < start\<close>,
  and \<open>substr\<close> then takes all that is left.
\<close>

definition view_between :: "string \<Rightarrow> nat \<Rightarrow> nat \<Rightarrow> string" where
  "view_between text s e = (if e < s then drop s text else substr text s (e - s))"

text \<open>The part of the loop's body that updates the state, from \<open>placeholder_for_original\<close> on.\<close>

definition note_match :: "compiled_rule \<Rightarrow> string \<Rightarrow> string \<Rightarrow> masker_state \<Rightarrow> string \<times> masker_state" where
  "note_match cr original ty st =
     (let (p, st1, created) = placeholder_for_original original ty st;
          st2 = (if created
                 then st1\<lparr>made := made st1 @ [\<lparr>rep_rule_id = rule_id (cr_rule cr),
                            rep_data_type = rule_data_type (cr_rule cr),
                            rep_original = original, rep_placeholder = p\<rparr>]\<rparr>
                 else st1);
          st3 = st2\<lparr>seen_rules := set_insert string_less (rule_id (cr_rule cr)) (seen_rules st2)\<rparr>;
          st4 = (if is_triggerable_data_type (rule_data_type (cr_rule cr))
                 then st3\<lparr>seen_data_types := set_insert (<) (rule_data_type (cr_rule cr)) (seen_data_types st3)\<rparr>
                 else st3)
      in (p, st4))"

fun mask_loop ::
  "string \<Rightarrow> scan_match list \<Rightarrow> nat \<Rightarrow> string \<Rightarrow> masker_state \<Rightarrow> mask_error + (string \<times> masker_state)" where
  "mask_loop text [] pos out st =
     (if pos > length text then Inl MaskOutOfRange else Inr (out @ drop pos text, st))"
| "mask_loop text (m # ms) pos out st =
     (case m_rule m of
        None \<Rightarrow> Inl (MaskError ''MaskerState::mask_text: matches[] contains a null CompiledRule pointer'')
      | Some cr \<Rightarrow>
          if m_start m < pos then mask_loop text ms pos out st
          else if m_start m > length text then Inl MaskOutOfRange
          else
            let original = view_between text (m_start m) (m_end m);
                ty = placeholder (rule_masking (cr_rule cr))
            in if original = [] \<or> ty = [] then mask_loop text ms pos out st
               else
                 let (p, st') = note_match cr original ty st
                 in mask_loop text ms (m_end m) (out @ substr text pos (m_start m - pos) @ p) st')"

definition mask_text :: "string \<Rightarrow> scan_match list \<Rightarrow> masker_state \<Rightarrow> mask_error + (string \<times> masker_state)" where
  "mask_text text ms st = (if ms = [] then Inr (text, st) else mask_loop text ms 0 [] st)"

subsection \<open>Scanning several texts\<close>

text \<open>\<open>struct TextScanResult\<close>: the default value has no matches and no error.\<close>

record text_scan_result =
  tsr_matches :: "scan_match list"
  tsr_error :: "scan_error option"

definition empty_scan :: text_scan_result where
  "empty_scan = \<lparr>tsr_matches = [], tsr_error = None\<rparr>"

definition text_scan_worker_count :: "nat \<Rightarrow> string list \<Rightarrow> mask_options \<Rightarrow> nat" where
  "text_scan_worker_count hw texts opts =
     (if length texts < 2 then 1
      else
        let min_bytes = (if parallel_min_bytes opts = 0 then kDefaultParallelMinBytes else parallel_min_bytes opts);
            total = sum_list (map length texts)
        in if total < min_bytes then 1
           else min (length texts) (if hw = 0 then 1 else hw))"

definition scan_text ::
  "nat \<Rightarrow> platform \<Rightarrow> compiled_rule option list \<Rightarrow> mask_options \<Rightarrow> string \<Rightarrow> text_scan_result" where
  "scan_text hw pf rules opts t =
     (case scan_rules hw pf t rules (mask_scan opts) of
        Inl e \<Rightarrow> empty_scan\<lparr>tsr_error := Some e\<rparr>
      | Inr ms \<Rightarrow> empty_scan\<lparr>tsr_matches := ms\<rparr>)"

text \<open>The sequential branch leaves the results after the first error at their default.\<close>

fun scan_texts_serial ::
  "nat \<Rightarrow> platform \<Rightarrow> compiled_rule option list \<Rightarrow> mask_options \<Rightarrow> string list \<Rightarrow> text_scan_result list" where
  "scan_texts_serial hw pf rules opts [] = []"
| "scan_texts_serial hw pf rules opts (t # ts) =
     (let r = scan_text hw pf rules opts t in
      if tsr_error r \<noteq> None then r # map (\<lambda>_. empty_scan) ts
      else r # scan_texts_serial hw pf rules opts ts)"

text \<open>The index ranges of the parallel branch: worker \<open>w\<close> gets \<open>[w * chunk_size, min n ((w + 1) * chunk_size))\<close>.\<close>

fun chunk_ranges :: "nat \<Rightarrow> nat \<Rightarrow> nat list \<Rightarrow> (nat \<times> nat) list" where
  "chunk_ranges n chunk_size [] = []"
| "chunk_ranges n chunk_size (w # ws) =
     (let b = w * chunk_size; e = min n (b + chunk_size) in
      if b \<ge> e then [] else (b, e) # chunk_ranges n chunk_size ws)"

definition scan_texts ::
  "nat \<Rightarrow> platform \<Rightarrow> string list \<Rightarrow> compiled_rule option list \<Rightarrow> mask_options \<Rightarrow> text_scan_result list" where
  "scan_texts hw pf texts rules opts =
     (let workers = text_scan_worker_count hw texts opts; n = length texts in
      if workers \<le> 1 then scan_texts_serial hw pf rules opts texts
      else
        let chunk_size = (n + workers - 1) div workers;
            slots = concat (map (\<lambda>(b, e). [b..<e]) (chunk_ranges n chunk_size [0..<workers]))
        in foldl (\<lambda>results i. results[i := scan_text hw pf rules opts (texts ! i)])
             (replicate n empty_scan) slots)"

fun first_scan_error :: "nat \<Rightarrow> text_scan_result list \<Rightarrow> mask_error option" where
  "first_scan_error i [] = None"
| "first_scan_error i (r # rs) =
     (case tsr_error r of
        None \<Rightarrow> first_scan_error (i + 1) rs
      | Some (ScanError e) \<Rightarrow>
          Some (MaskError (''mask_texts: scan text['' @ nat_to_string i @ '']: '' @ e))
      | Some ScanDiverges \<Rightarrow> Some MaskDiverges)"

text \<open>A scan that does not return keeps \<open>scan_texts\<close> from returning, before any error is looked at.\<close>

definition propagate_first_scan_error :: "text_scan_result list \<Rightarrow> mask_error option" where
  "propagate_first_scan_error results =
     (if list_ex (\<lambda>r. tsr_error r = Some ScanDiverges) results then Some MaskDiverges
      else first_scan_error 0 results)"

fun mask_all ::
  "string list \<Rightarrow> text_scan_result list \<Rightarrow> masker_state \<Rightarrow> mask_error + (string list \<times> masker_state)" where
  "mask_all (t # ts) (r # rs) st =
     (case (if tsr_matches r = [] then Inr (t, st) else mask_text t (tsr_matches r) st) of
        Inl e \<Rightarrow> Inl e
      | Inr (t', st') \<Rightarrow>
          (case mask_all ts rs st' of
             Inl e \<Rightarrow> Inl e
           | Inr (ts', st'') \<Rightarrow> Inr (t' # ts', st'')))"
| "mask_all _ _ st = Inr ([], st)"

text \<open>\<open>MaskingState::format\<close> keeps its default.\<close>

definition mask_texts ::
  "nat \<Rightarrow> platform \<Rightarrow> string list \<Rightarrow> compiled_rule option list \<Rightarrow> mask_options \<Rightarrow> mask_error + mask_result" where
  "mask_texts hw pf texts rules opts =
     (let scan_results = scan_texts hw pf texts rules opts in
      case propagate_first_scan_error scan_results of
        Some e \<Rightarrow> Inl e
      | None \<Rightarrow>
          (case mask_all texts scan_results (init_masker (reserved_placeholders texts)) of
             Inl e \<Rightarrow> Inl e
           | Inr (masked, st) \<Rightarrow>
               Inr \<lparr>masked_texts = masked,
                    mask_state = \<lparr>triggered_rule_ids = seen_rules st, triggered_data_types = seen_data_types st,
                                  replacements = made st, state_format = []\<rparr>\<rparr>))"


section \<open>Reserved placeholders: no literal is missed\<close>

text \<open>A placeholder literal: word bytes of the right shape between angle brackets.\<close>

definition is_literal :: "string \<Rightarrow> bool" where
  "is_literal l \<longleftrightarrow> (\<exists>run. l = ''<'' @ run @ ''>'' \<and> list_all is_word_char run \<and> placeholder_body run)"

lemma bracket_not_word [simp]: "\<not> is_word_char CHR ''<''" "\<not> is_word_char CHR ''>''"
  by (simp_all add: byte_defs)

lemma sublist_skip:
  "a \<notin> set ys \<Longrightarrow> sublist (a # xs) (ys @ zs) \<longleftrightarrow> sublist (a # xs) zs"
  by (induction ys) (auto simp: sublist_Cons_right)

lemma takeWhile_word_run:
  "list_all is_word_char run \<Longrightarrow> takeWhile is_word_char (run @ CHR ''>'' # zs) = run"
  by (simp add: takeWhile_append2 list_all_iff)

lemma literals_in_complete:
  assumes "is_literal l" "sublist l t"
  shows "l \<in> set (literals_in t)"
  using assms(2)
proof (induction t rule: literals_in.induct)
  case 1
  then show ?case using assms(1) by (auto simp: is_literal_def)
next
  case (2 c cs)
  obtain run where l: "l = CHR ''<'' # run @ ''>''" "list_all is_word_char run" "placeholder_body run"
    using assms(1) by (auto simp: is_literal_def)
  let ?run = "takeWhile is_word_char cs" let ?rest = "drop (length ?run) cs"
  have split: "cs = ?run @ ?rest" by (metis takeWhile_eq_take append_take_drop_id)
  show ?case
  proof (cases "c = CHR ''<'' \<and> ?rest \<noteq> [] \<and> hd ?rest = CHR ''>'' \<and> placeholder_body ?run")
    case True
    show ?thesis
    proof (cases "prefix l (c # cs)")
      case prefix: True
      then have "cs = run @ CHR ''>'' # drop (length run + 1) cs" by (auto simp: l(1) prefix_def)
      then have "?run = run" using takeWhile_word_run [OF l(2)] by metis
      then show ?thesis using True l(1) by (simp add: Let_def)
    next
      case False
      then have "sublist l cs" using "2.prems" by (simp add: sublist_Cons_right)
      moreover have "cs = (?run @ ''>'') @ drop 1 ?rest"
        using split True by (metis append_Cons append_Nil append_assoc drop0 drop_Suc_Cons list.collapse One_nat_def)
      moreover have "CHR ''<'' \<notin> set (?run @ ''>'')" by (auto dest: set_takeWhileD)
      ultimately have "sublist l (drop 1 ?rest)" using l(1) sublist_skip by metis
      then show ?thesis using "2.IH"(1) [OF refl refl True] True by (simp add: Let_def)
    qed
  next
    case False
    have "\<not> prefix l (c # cs)"
    proof
      assume "prefix l (c # cs)"
      then have "c = CHR ''<''" and cs: "cs = run @ CHR ''>'' # drop (length run + 1) cs"
        by (auto simp: l(1) prefix_def)
      moreover have "?run = run" using takeWhile_word_run [OF l(2)] cs by metis
      moreover have "?rest = CHR ''>'' # drop (length run + 1) cs"
        using cs \<open>?run = run\<close> by (metis append_eq_conv_conj)
      ultimately show False using False l(3) by simp
    qed
    then have "sublist l cs" using "2.prems" by (simp add: sublist_Cons_right)
    then show ?thesis using "2.IH"(2) [OF refl refl False] False by (auto simp: Let_def)
  qed
qed

lemma reserved_placeholders_complete:
  assumes "is_literal l" "t \<in> set texts" "sublist l t"
  shows "l \<in> set (reserved_placeholders texts)"
  using assms(2)
proof (induction texts)
  case (Cons t' ts)
  have "CHR ''<'' \<in> set t" using assms(1,3) by (auto simp: is_literal_def dest: set_mono_sublist)
  then show ?case using Cons literals_in_complete [OF assms(1,3)]
    by (auto simp: find_char_None_iff)
qed simp

section \<open>The placeholders that are made\<close>

lemma render_placeholder_literal:
  assumes "ty \<noteq> []" "list_all is_word_char ty"
  shows "is_literal (render_placeholder ty k)"
proof -
  let ?d = "nat_to_string k"
  let ?run = "ty @ ''_'' @ ?d"
  have d: "list_all is_digit_char ?d" using nat_to_string_digits by (auto simp: list_all_iff)
  have "\<not> is_digit_char CHR ''_''" by (simp add: is_digit_char_def)
  then have "dropWhile is_digit_char (rev ?run) = CHR ''_'' # rev ty"
    using d by (simp add: dropWhile_append list_all_iff)
  then have "placeholder_body ?run" using assms(1) by (simp add: placeholder_body_def Let_def)
  moreover have "list_all is_word_char ?run"
    using assms(2) d by (auto simp: list_all_iff is_word_char_def)
  ultimately show ?thesis by (auto simp: is_literal_def render_placeholder_def)
qed

text \<open>The printed form determines the type and the index: the index is what follows the last underscore.\<close>

lemma render_placeholder_inject:
  "render_placeholder ty m = render_placeholder ty' n \<longleftrightarrow> ty = ty' \<and> m = n"
proof
  assume eq: "render_placeholder ty m = render_placeholder ty' n"
  have nd: "\<not> is_digit_char CHR ''_''" by (simp add: is_digit_char_def)
  have last: "takeWhile is_digit_char (rev (t @ ''_'' @ nat_to_string k)) = rev (nat_to_string k)" for t k
    using nat_to_string_digits [of _ k] nd by (simp add: takeWhile_append)
  have "ty @ ''_'' @ nat_to_string m = ty' @ ''_'' @ nat_to_string n"
    using eq by (simp add: render_placeholder_def)
  moreover from this have "nat_to_string m = nat_to_string n" using last by (metis rev_rev_ident)
  ultimately show "ty = ty' \<and> m = n" by simp
qed simp

lemma next_index_fresh:
  "n < next_index res ty n \<and> render_placeholder ty (next_index res ty n) \<notin> set res"
proof (induction res ty n rule: next_index.induct)
  case (1 res ty n)
  then show ?case by (subst (1 2) next_index.simps) (auto simp: Let_def)
qed

section \<open>The masker's invariant\<close>

definition made_pairs :: "masker_state \<Rightarrow> (string \<times> string) list" where
  "made_pairs st = map (\<lambda>r. (rep_original r, rep_placeholder r)) (made st)"

text \<open>\<open>T\<close> is the set of the placeholder types of the rules in use.\<close>

definition minted :: "string set \<Rightarrow> masker_state \<Rightarrow> replacement \<Rightarrow> bool" where
  "minted T st r \<longleftrightarrow> rep_original r \<noteq> [] \<and> rep_placeholder r \<notin> set (reserved st) \<and>
     (\<exists>ty k. ty \<in> T \<and> ty \<noteq> [] \<and> 1 \<le> k \<and> k \<le> placeholder_counters st ty \<and> rep_placeholder r = render_placeholder ty k)"

definition masker_inv :: "string set \<Rightarrow> masker_state \<Rightarrow> bool" where
  "masker_inv T st \<longleftrightarrow>
     distinct (map rep_original (made st)) \<and> distinct (map rep_placeholder (made st)) \<and>
     original_to_placeholder st = map_of (made_pairs st) \<and> (\<forall>r\<in>set (made st). minted T st r) \<and>
     sorted_wrt string_less (seen_rules st) \<and> (\<forall>r\<in>set (made st). rep_rule_id r \<in> set (seen_rules st))"

lemma masker_inv_init [simp]: "masker_inv T (init_masker res)"
  by (simp add: masker_inv_def init_masker_def made_pairs_def)

lemma set_set_insert:
  "(\<And>x y. \<not> lt x y \<Longrightarrow> \<not> lt y x \<Longrightarrow> x = y) \<Longrightarrow> set (set_insert lt x xs) = insert x (set xs)"
  by (induction xs) auto

lemma set_insert_ids [simp]: "set (set_insert string_less x xs) = insert x (set xs)"
  by (rule set_set_insert) (use string_less_total in blast)

lemma sorted_set_insert:
  "sorted_wrt string_less xs \<Longrightarrow> sorted_wrt string_less (set_insert string_less x xs)"
proof (induction xs)
  case (Cons y ys)
  then show ?case by (auto intro: string_less_trans)
qed simp

lemma map_of_snoc: "o' \<notin> fst ` set ps \<Longrightarrow> map_of (ps @ [(o', p)]) = (map_of ps)(o' \<mapsto> p)"
  by (induction ps) (auto simp: fun_upd_twist)

lemma note_match_inv:
  assumes inv: "masker_inv T st" and ne: "original \<noteq> []" "ty \<noteq> []" "ty \<in> T"
    and nm: "note_match cr original ty st = (p, st')"
  shows "masker_inv T st' \<and> reserved st' = reserved st \<and> (\<exists>xs. made st' = made st @ xs) \<and>
    (\<exists>r\<in>set (made st'). rep_original r = original \<and> rep_placeholder r = p)"
proof (cases "original_to_placeholder st original")
  case (Some q)
  then have st': "made st' = made st" "reserved st' = reserved st" "placeholder_counters st' = placeholder_counters st"
      "original_to_placeholder st' = original_to_placeholder st"
      "seen_rules st' = set_insert string_less (rule_id (cr_rule cr)) (seen_rules st)" and q: "p = q"
    using nm by (auto simp: note_match_def placeholder_for_original_def Let_def split: if_splits)
  have "(original, q) \<in> set (made_pairs st)"
    using inv Some map_of_SomeD by (fastforce simp: masker_inv_def)
  then have "\<exists>r\<in>set (made st). rep_original r = original \<and> rep_placeholder r = p"
    by (auto simp: made_pairs_def q)
  then show ?thesis using inv by (auto simp: st' masker_inv_def minted_def made_pairs_def sorted_set_insert)
next
  case None
  let ?k = "next_index (reserved st) ty (placeholder_counters st ty)"
  let ?r = "\<lparr>rep_rule_id = rule_id (cr_rule cr), rep_data_type = rule_data_type (cr_rule cr),
             rep_original = original, rep_placeholder = p\<rparr>"
  have p: "p = render_placeholder ty ?k"
    and st': "made st' = made st @ [?r]" "reserved st' = reserved st"
      "original_to_placeholder st' = (original_to_placeholder st)(original \<mapsto> p)"
      "placeholder_counters st' = (placeholder_counters st)(ty := ?k)"
      "seen_rules st' = set_insert string_less (rule_id (cr_rule cr)) (seen_rules st)"
    using nm None
    by (auto simp: note_match_def placeholder_for_original_def next_placeholder_def Let_def split: if_splits)
  have k: "placeholder_counters st ty < ?k" "render_placeholder ty ?k \<notin> set (reserved st)"
    using next_index_fresh by blast+
  have new: "original \<notin> rep_original ` set (made st)"
    using inv None by (auto simp: masker_inv_def map_of_eq_None_iff made_pairs_def image_image)
  have "p \<noteq> rep_placeholder r" if "r \<in> set (made st)" for r
  proof -
    have mr: "minted T st r" using inv that by (simp add: masker_inv_def)
    obtain ty' k' where "rep_placeholder r = render_placeholder ty' k'" "k' \<le> placeholder_counters st ty'"
      using mr by (auto simp: minted_def)
    then show ?thesis using k(1) p by (auto simp: render_placeholder_inject)
  qed
  moreover have "minted T st' ?r" using k p ne by (auto simp: minted_def st')
  moreover have "minted T st' r" if "r \<in> set (made st)" for r
  proof -
    have mr: "minted T st r" using inv that by (simp add: masker_inv_def)
    obtain ty' k' where r: "ty' \<in> T" "ty' \<noteq> []" "1 \<le> k'" "k' \<le> placeholder_counters st ty'"
        "rep_placeholder r = render_placeholder ty' k'" "rep_original r \<noteq> []"
        "rep_placeholder r \<notin> set (reserved st)"
      using mr by (auto simp: minted_def)
    then show ?thesis using k(1) unfolding minted_def st'(2,4)
      by (intro conjI exI [of _ ty'] exI [of _ k']) auto
  qed
  moreover have "original_to_placeholder st' = map_of (made_pairs st')"
  proof -
    have "made_pairs st' = made_pairs st @ [(original, p)]" by (simp add: made_pairs_def st'(1))
    moreover have "original \<notin> fst ` set (made_pairs st)" using new by (simp add: made_pairs_def image_image)
    ultimately have "map_of (made_pairs st') = (map_of (made_pairs st))(original \<mapsto> p)"
      by (simp only: map_of_snoc not_False_eq_True)
    then show ?thesis using inv by (simp add: masker_inv_def st'(3))
  qed
  ultimately have "masker_inv T st'"
    using inv new unfolding masker_inv_def st'(1) st'(5) by (auto simp: sorted_set_insert)
  then show ?thesis by (simp add: st')
qed

section \<open>Masked texts as sequences of pieces\<close>

text \<open>
  A masked text is a sequence of gaps copied from the text and of holes, each filled by the
  placeholder of a replacement where the text had the replacement's original.
\<close>

datatype piece = Gap string | Hole replacement

primrec piece_text :: "piece \<Rightarrow> string" where
  "piece_text (Gap s) = s"
| "piece_text (Hole r) = rep_original r"

primrec piece_masked :: "piece \<Rightarrow> string" where
  "piece_masked (Gap s) = s"
| "piece_masked (Hole r) = rep_placeholder r"

definition pieces_of :: "string \<Rightarrow> string \<Rightarrow> replacement list \<Rightarrow> piece list \<Rightarrow> bool" where
  "pieces_of masked text rs ps \<longleftrightarrow>
     masked = concat (map piece_masked ps) \<and> text = concat (map piece_text ps) \<and>
     (\<forall>r. Hole r \<in> set ps \<longrightarrow> r \<in> set rs)"

text \<open>What the scanner promises of a match, and that its rule's placeholder type is one of \<open>T\<close>.\<close>

definition in_text :: "string set \<Rightarrow> string \<Rightarrow> scan_match \<Rightarrow> bool" where
  "in_text T text m \<longleftrightarrow> m_start m < m_end m \<and> m_end m \<le> length text \<and>
     (\<exists>cr. m_rule m = Some cr \<and> placeholder (rule_masking (cr_rule cr)) \<in> T)"

lemma pieces_of_mono: "pieces_of m t rs ps \<Longrightarrow> set rs \<subseteq> set rs' \<Longrightarrow> pieces_of m t rs' ps"
  by (auto simp: pieces_of_def)

lemma mask_loop_pieces:
  assumes "\<forall>m\<in>set ms. in_text T text m" "pos \<le> length text" "masker_inv T st"
    "mask_loop text ms pos out st = Inr (masked, st')"
  shows "masker_inv T st' \<and> reserved st' = reserved st \<and> (\<exists>xs. made st' = made st @ xs) \<and>
    (\<exists>tail ps. masked = out @ tail \<and> pieces_of tail (drop pos text) (made st') ps)"
  using assms
proof (induction "text" ms pos out st rule: mask_loop.induct)
  case (1 t pos out st)
  then show ?case
    by (intro conjI exI [of _ "drop pos t"] exI [of _ "[Gap (drop pos t)]"] exI [of _ "[]"])
      (auto simp: pieces_of_def)
next
  case (2 t m ms pos out st)
  note prems = "2.prems"
  obtain cr where cr: "m_rule m = Some cr" using prems(4) by (cases "m_rule m") auto
  let ?original = "view_between t (m_start m) (m_end m)"
  let ?ty = "placeholder (rule_masking (cr_rule cr))"
  have m: "m_start m < m_end m" "m_end m \<le> length t" "?ty \<in> T" using prems(1) cr by (simp_all add: in_text_def)
  show ?case
  proof (cases "m_start m < pos \<or> ?original = [] \<or> ?ty = []")
    case True
    then have rest: "mask_loop t ms pos out st = Inr (masked, st')"
      using prems(4) cr m by (auto simp: Let_def split: if_splits)
    consider (early) "m_start m < pos" | (blank) "\<not> m_start m < pos" "?original = [] \<or> ?ty = []" using True by blast
    then show ?thesis
    proof cases
      case early
      then show ?thesis using "2.IH"(1) [OF cr early] prems rest by simp
    next
      case blank
      have "\<not> length t < m_start m" using m by simp
      then show ?thesis using "2.IH"(2) [OF cr blank(1) _ refl refl blank(2)] prems rest by simp
    qed
  next
    case False
    obtain p st1 where nm: "note_match cr ?original ?ty st = (p, st1)" by force
    have "\<not> length t < m_start m" using m by simp
    note inv = note_match_inv [OF prems(3) _ _ _ nm]
    let ?out = "out @ substr t pos (m_start m - pos) @ p"
    have loop: "mask_loop t ms (m_end m) ?out st1 = Inr (masked, st')"
      using prems(4) cr False m nm by simp
    have "masker_inv T st1" "reserved st1 = reserved st" using inv False m(3) by blast+
    then have IH: "masker_inv T st' \<and> reserved st' = reserved st1 \<and> (\<exists>xs. made st' = made st1 @ xs) \<and>
        (\<exists>tail ps. masked = ?out @ tail \<and> pieces_of tail (drop (m_end m) t) (made st') ps)"
      using "2.IH"(3) [OF cr _ \<open>\<not> length t < m_start m\<close> refl refl _ nm [symmetric] refl] prems(1) False m loop
      by simp
    then obtain tail ps where tail: "masked = ?out @ tail" "pieces_of tail (drop (m_end m) t) (made st') ps"
      by blast
    obtain r where r: "r \<in> set (made st1)" "rep_original r = ?original" "rep_placeholder r = p"
      using inv False m(3) by blast
    have "drop pos t = substr t pos (m_start m - pos) @ ?original @ drop (m_end m) t"
      using False m by (simp add: view_between_def substr_def)
        (metis (no_types, opaque_lifting) add.commute append_take_drop_id drop_drop le_add_diff_inverse2 less_imp_le not_less)
    moreover have "r \<in> set (made st')" using r(1) IH by auto
    ultimately have "pieces_of (substr t pos (m_start m - pos) @ p @ tail) (drop pos t) (made st')
        (Gap (substr t pos (m_start m - pos)) # Hole r # ps)"
      using tail(2) r(2,3) by (auto simp: pieces_of_def)
    moreover have "masked = out @ (substr t pos (m_start m - pos) @ p @ tail)" using tail(1) by simp
    moreover have "\<exists>xs. made st' = made st @ xs" using IH inv False m(3) by (metis append_assoc)
    ultimately show ?thesis using IH \<open>reserved st1 = reserved st\<close> by (metis (no_types))
  qed
qed

lemma mask_text_pieces:
  assumes "\<forall>m\<in>set ms. in_text T text m" "masker_inv T st" "mask_text text ms st = Inr (masked, st')"
  shows "masker_inv T st' \<and> reserved st' = reserved st \<and> (\<exists>xs. made st' = made st @ xs) \<and>
    (\<exists>ps. pieces_of masked text (made st') ps)"
proof (cases "ms = []")
  case True
  then show ?thesis using assms
    by (auto simp: mask_text_def pieces_of_def intro!: exI [of _ "[Gap text]"])
next
  case False
  then show ?thesis
    using mask_loop_pieces [OF assms(1) _ assms(2), of 0 "[]" masked st'] assms(3) by (auto simp: mask_text_def)
qed


section \<open>Masking as a function of the final table\<close>

text \<open>
  The reference: every span whose rule has a placeholder type becomes the placeholder that the table
  holds for its bytes; everything else is copied.
\<close>

fun mask_spec :: "(string \<Rightarrow> string option) \<Rightarrow> string \<Rightarrow> nat \<Rightarrow> scan_match list \<Rightarrow> string" where
  "mask_spec table text pos [] = drop pos text"
| "mask_spec table text pos (m # ms) =
     (if placeholder (rule_masking (cr_rule (the (m_rule m)))) = [] then mask_spec table text pos ms
      else substr text pos (m_start m - pos) @ the (table (substr text (m_start m) (m_end m - m_start m))) @
        mask_spec table text (m_end m) ms)"

lemma note_match_table:
  assumes "note_match cr original ty st = (p, st')"
  shows "original_to_placeholder st \<subseteq>\<^sub>m original_to_placeholder st' \<and> original_to_placeholder st' original = Some p"
  using assms
  by (cases "original_to_placeholder st original")
    (auto simp: note_match_def placeholder_for_original_def next_placeholder_def Let_def map_le_def split: if_splits)

lemma mask_loop_spec:
  assumes "\<forall>m\<in>set ms. in_text T text m \<and> pos \<le> m_start m" "sorted_wrt before ms" "pos \<le> length text"
  shows "\<exists>st'. mask_loop text ms pos out st = Inr (out @ mask_spec (original_to_placeholder st') text pos ms, st') \<and>
    original_to_placeholder st \<subseteq>\<^sub>m original_to_placeholder st' \<and>
    (\<forall>table. original_to_placeholder st' \<subseteq>\<^sub>m table \<longrightarrow>
       mask_spec table text pos ms = mask_spec (original_to_placeholder st') text pos ms)"
  using assms
proof (induction ms arbitrary: pos out st)
  case (Cons m ms)
  obtain cr where cr: "m_rule m = Some cr" using Cons.prems(1) by (auto simp: in_text_def)
  have m: "m_start m < m_end m" "m_end m \<le> length text" "pos \<le> m_start m"
    using Cons.prems(1) by (auto simp: in_text_def)
  let ?original = "substr text (m_start m) (m_end m - m_start m)"
  have view: "view_between text (m_start m) (m_end m) = ?original" using m by (simp add: view_between_def)
  have ne: "?original \<noteq> []" using m by (simp add: substr_def)
  have not_past: "\<not> length text < m_start m" "\<not> m_start m < pos" using m by simp_all
  have "sorted_wrt before ms" using Cons.prems(2) by simp
  moreover have "\<forall>x\<in>set ms. in_text T text x \<and> m_end m \<le> m_start x"
    using Cons.prems(1,2) by (simp add: before_def)
  ultimately have ms: "sorted_wrt before ms" "\<forall>x\<in>set ms. in_text T text x \<and> m_end m \<le> m_start x"
    "\<forall>x\<in>set ms. in_text T text x \<and> pos \<le> m_start x"
    using Cons.prems(1) by simp_all
  show ?case
  proof (cases "placeholder (rule_masking (cr_rule cr)) = []")
    case True
    then show ?thesis
      using Cons.IH [OF ms(3,1) Cons.prems(3), of out st] cr ne not_past view by simp
  next
    case False
    obtain p st1 where n: "note_match cr ?original (placeholder (rule_masking (cr_rule cr))) st = (p, st1)"
      by force
    obtain st' where st': "mask_loop text ms (m_end m) (out @ substr text pos (m_start m - pos) @ p) st1 =
        Inr ((out @ substr text pos (m_start m - pos) @ p) @
          mask_spec (original_to_placeholder st') text (m_end m) ms, st')"
      "original_to_placeholder st1 \<subseteq>\<^sub>m original_to_placeholder st'"
      "\<forall>table. original_to_placeholder st' \<subseteq>\<^sub>m table \<longrightarrow>
         mask_spec table text (m_end m) ms = mask_spec (original_to_placeholder st') text (m_end m) ms"
      using Cons.IH [OF ms(2,1) m(2), of "out @ substr text pos (m_start m - pos) @ p" st1] by blast
    note tab = note_match_table [OF n]
    have p: "table ?original = Some p" if "original_to_placeholder st' \<subseteq>\<^sub>m table" for table
    proof -
      have "original_to_placeholder st1 \<subseteq>\<^sub>m table" using st'(2) that map_le_trans by blast
      then show ?thesis using tab by (auto simp: map_le_def dom_def)
    qed
    have "original_to_placeholder st \<subseteq>\<^sub>m original_to_placeholder st'"
      using tab st'(2) map_le_trans by blast
    moreover have "mask_loop text (m # ms) pos out st =
        Inr (out @ mask_spec (original_to_placeholder st') text pos (m # ms), st')"
      using cr ne not_past view n st'(1) False p [OF map_le_refl] by simp
    moreover have "mask_spec table text pos (m # ms) = mask_spec (original_to_placeholder st') text pos (m # ms)"
      if "original_to_placeholder st' \<subseteq>\<^sub>m table" for table
      using cr False p [OF that] p [OF map_le_refl] st'(3) [rule_format, OF that] by simp
    ultimately show ?thesis by blast
  qed
qed simp

lemma mask_text_spec:
  assumes "\<forall>m\<in>set ms. in_text T text m" "sorted_wrt before ms"
  shows "\<exists>st'. mask_text text ms st = Inr (mask_spec (original_to_placeholder st') text 0 ms, st') \<and>
    original_to_placeholder st \<subseteq>\<^sub>m original_to_placeholder st' \<and>
    (\<forall>table. original_to_placeholder st' \<subseteq>\<^sub>m table \<longrightarrow>
       mask_spec table text 0 ms = mask_spec (original_to_placeholder st') text 0 ms)"
proof (cases "ms = []")
  case False
  then show ?thesis using mask_loop_spec [of ms T "text" 0 "[]" st] assms by (simp add: mask_text_def)
qed (simp add: mask_text_def)

section \<open>Scanning the texts\<close>

lemma chunk_ranges_cover:
  assumes "0 < c" "w \<le> W"
  shows "concat (map (\<lambda>(b, e). [b..<e]) (chunk_ranges n c [w..<W])) = [w * c..<min n (W * c)]"
  using assms(2)
proof (induction "W - w" arbitrary: w)
  case (Suc d)
  have ws: "[w..<W] = w # [Suc w..<W]" using Suc.hyps(2) upt_conv_Cons by simp
  have le: "Suc w * c \<le> W * c" using Suc.hyps(2) by (intro mult_right_mono) simp_all
  show ?case
  proof (cases "n \<le> w * c")
    case True
    then show ?thesis by (simp add: ws Let_def)
  next
    case False
    have "concat (map (\<lambda>(b, e). [b..<e]) (chunk_ranges n c [Suc w..<W])) = [Suc w * c..<min n (W * c)]"
      using Suc.hyps by (intro Suc.hyps(1)) simp_all
    moreover have "[w * c..<min n (w * c + c)] @ [Suc w * c..<min n (W * c)] = [w * c..<min n (W * c)]"
    proof (cases "Suc w * c \<le> n")
      case True
      then show ?thesis using le upt_add_eq_append [of "w * c" "Suc w * c" "min n (W * c) - Suc w * c"]
        by (simp add: add.commute)
    next
      case False
      then show ?thesis using le by (simp add: add.commute)
    qed
    ultimately show ?thesis using False assms(1) by (simp add: ws Let_def)
  qed
qed simp

lemma foldl_update_upt:
  "k \<le> length xs \<Longrightarrow> foldl (\<lambda>ys i. ys[i := f i]) xs [0..<k] = map f [0..<k] @ drop k xs"
proof (induction k)
  case (Suc k)
  then show ?case by (simp add: list_update_append Cons_nth_drop_Suc [symmetric])
qed simp

lemma ceil_div:
  fixes n w :: nat
  assumes "0 < w"
  shows "n \<le> w * ((n + w - 1) div w)"
  using div_mult_mod_eq [of "n + w - 1" w] mod_less_divisor [OF assms, of "n + w - 1"]
  by (simp only: mult.commute [of w])

lemma scan_texts_parallel:
  assumes "1 < text_scan_worker_count hw texts opts"
  shows "scan_texts hw pf texts rules opts = map (scan_text hw pf rules opts) texts"
proof -
  let ?w = "text_scan_worker_count hw texts opts" and ?n = "length texts"
  let ?c = "(?n + ?w - 1) div ?w"
  have le: "?w \<le> ?n" using assms by (auto simp: text_scan_worker_count_def Let_def split: if_splits)
  then have c: "0 < ?c" using assms by (simp add: div_greater_zero_iff)
  have "?n \<le> ?w * ?c" using assms by (intro ceil_div) simp
  then have "concat (map (\<lambda>(b, e). [b..<e]) (chunk_ranges ?n ?c [0..<?w])) = [0..<?n]"
    using chunk_ranges_cover [OF c, of 0 ?w ?n] by simp
  moreover have "foldl (\<lambda>results i. results[i := scan_text hw pf rules opts (texts ! i)])
      (replicate ?n empty_scan) [0..<?n] = map (\<lambda>i. scan_text hw pf rules opts (texts ! i)) [0..<?n]"
    using foldl_update_upt [of ?n "replicate ?n empty_scan" "\<lambda>i. scan_text hw pf rules opts (texts ! i)"] by simp
  moreover have "map (\<lambda>i. scan_text hw pf rules opts (texts ! i)) [0..<?n] = map (scan_text hw pf rules opts) texts"
    by (rule nth_equalityI) simp_all
  ultimately show ?thesis using assms by (simp add: scan_texts_def Let_def)
qed

lemma scan_texts_serial_ok:
  "\<forall>t\<in>set texts. tsr_error (scan_text hw pf rules opts t) = None \<Longrightarrow>
     scan_texts_serial hw pf rules opts texts = map (scan_text hw pf rules opts) texts"
  by (induction texts) (simp_all add: Let_def)

lemma scan_texts_ok:
  assumes "\<forall>t\<in>set texts. tsr_error (scan_text hw pf rules opts t) = None"
  shows "scan_texts hw pf texts rules opts = map (scan_text hw pf rules opts) texts"
proof (cases "1 < text_scan_worker_count hw texts opts")
  case False
  then show ?thesis using scan_texts_serial_ok [OF assms] by (simp add: scan_texts_def Let_def)
qed (rule scan_texts_parallel)


section \<open>Masking all texts\<close>

definition spans_ok :: "string set \<Rightarrow> string \<Rightarrow> text_scan_result \<Rightarrow> bool" where
  "spans_ok T t r \<longleftrightarrow> (\<forall>m\<in>set (tsr_matches r). in_text T t m) \<and> sorted_wrt before (tsr_matches r)"

lemma mask_all_spec:
  assumes "list_all2 (spans_ok T) texts rs" "masker_inv T st"
  shows "\<exists>masked st'. mask_all texts rs st = Inr (masked, st') \<and> masker_inv T st' \<and> reserved st' = reserved st \<and>
    set (made st) \<subseteq> set (made st') \<and> original_to_placeholder st \<subseteq>\<^sub>m original_to_placeholder st' \<and>
    (\<forall>table. original_to_placeholder st' \<subseteq>\<^sub>m table \<longrightarrow>
       masked = map2 (\<lambda>t r. mask_spec table t 0 (tsr_matches r)) texts rs) \<and>
    list_all2 (\<lambda>m t. \<exists>ps. pieces_of m t (made st') ps) masked texts"
  using assms
proof (induction texts rs arbitrary: st rule: list_all2_induct)
  case Nil
  then show ?case by simp
next
  case (Cons t ts r rs)
  have ok: "\<forall>m\<in>set (tsr_matches r). in_text T t m" "sorted_wrt before (tsr_matches r)"
    using Cons.hyps(1) by (simp_all add: spans_ok_def)
  obtain st1 where st1: "mask_text t (tsr_matches r) st = Inr (mask_spec (original_to_placeholder st1) t 0 (tsr_matches r), st1)"
      "original_to_placeholder st \<subseteq>\<^sub>m original_to_placeholder st1"
      "\<forall>table. original_to_placeholder st1 \<subseteq>\<^sub>m table \<longrightarrow>
         mask_spec table t 0 (tsr_matches r) = mask_spec (original_to_placeholder st1) t 0 (tsr_matches r)"
    using mask_text_spec [OF ok] by blast
  note pc = mask_text_pieces [OF ok(1) Cons.prems st1(1)]
  obtain masked st' where IH: "mask_all ts rs st1 = Inr (masked, st')" "masker_inv T st'" "reserved st' = reserved st1"
      "set (made st1) \<subseteq> set (made st')" "original_to_placeholder st1 \<subseteq>\<^sub>m original_to_placeholder st'"
      "\<forall>table. original_to_placeholder st' \<subseteq>\<^sub>m table \<longrightarrow>
         masked = map2 (\<lambda>t r. mask_spec table t 0 (tsr_matches r)) ts rs"
      "list_all2 (\<lambda>m t. \<exists>ps. pieces_of m t (made st') ps) masked ts"
    using Cons.IH [of st1] pc by blast
  let ?m = "mask_spec (original_to_placeholder st1) t 0 (tsr_matches r)"
  have "mask_all (t # ts) (r # rs) st = Inr (?m # masked, st')"
    using st1(1) IH(1) by (auto simp: mask_text_def)
  moreover have "?m # masked = map2 (\<lambda>t r. mask_spec table t 0 (tsr_matches r)) (t # ts) (r # rs)"
    if "original_to_placeholder st' \<subseteq>\<^sub>m table" for table
    using IH(6) [rule_format, OF that] st1(3) [rule_format, OF map_le_trans [OF IH(5) that]] by simp
  moreover have "\<exists>ps. pieces_of ?m t (made st') ps" using pc IH(4) pieces_of_mono by blast
  moreover have "set (made st) \<subseteq> set (made st')" using pc IH(4) by auto
  moreover have "original_to_placeholder st \<subseteq>\<^sub>m original_to_placeholder st'"
    using st1(2) IH(5) map_le_trans by blast
  ultimately show ?case using IH(2,3,7) pc by (intro exI [of _ "?m # masked"] exI [of _ st']) simp
qed

definition placeholder_types :: "compiled_rule option list \<Rightarrow> string set" where
  "placeholder_types rules = (\<lambda>cr. placeholder (rule_masking (cr_rule (the cr)))) ` set rules"

lemma spans_ok_scan_text:
  assumes "\<forall>cr\<in>set rules. scannable cr" "ids_unique rules"
  shows "tsr_error (scan_text hw pf rules opts t) = None \<and>
    spans_ok (placeholder_types rules) t (scan_text hw pf rules opts t) \<and>
    scan_rules hw pf t rules (mask_scan opts) = Inr (tsr_matches (scan_text hw pf rules opts t))"
proof -
  obtain spans where spans: "scan_rules hw pf t rules (mask_scan opts) = Inr spans" "sorted_wrt before spans"
      "\<forall>m\<in>set spans. m_start m < m_end m \<and> m_end m \<le> length t \<and> m_rule m \<in> set rules"
    using scan_rules_spans [OF assms] by blast
  have "\<exists>cr. m_rule m = Some cr \<and> placeholder (rule_masking (cr_rule cr)) \<in> placeholder_types rules"
    if "m \<in> set spans" for m
  proof -
    have "m_rule m \<in> set rules" using spans(3) that by blast
    then show ?thesis using assms(1) by (force simp: scannable_def placeholder_types_def)
  qed
  then show ?thesis using spans by (simp add: scan_text_def empty_scan_def spans_ok_def in_text_def)
qed

lemma propagate_none: "\<forall>r\<in>set rs. tsr_error r = None \<Longrightarrow> propagate_first_scan_error rs = None"
proof -
  assume none: "\<forall>r\<in>set rs. tsr_error r = None"
  then have "first_scan_error i rs = None" for i by (induction rs arbitrary: i) auto
  then show ?thesis using none by (auto simp: propagate_first_scan_error_def list_ex_iff)
qed

lemma mask_texts_result:
  assumes "\<forall>cr\<in>set rules. scannable cr" "ids_unique rules"
  shows "\<exists>res st. mask_texts hw pf texts rules opts = Inr res \<and>
    masker_inv (placeholder_types rules) st \<and> reserved st = reserved_placeholders texts \<and>
    made st = replacements (mask_state res) \<and> seen_rules st = triggered_rule_ids (mask_state res) \<and>
    masked_texts res = map (\<lambda>t. mask_spec (original_to_placeholder st) t 0
      (tsr_matches (scan_text hw pf rules opts t))) texts \<and>
    list_all2 (\<lambda>m t. \<exists>ps. pieces_of m t (replacements (mask_state res)) ps) (masked_texts res) texts"
proof -
  note ok = spans_ok_scan_text [OF assms]
  let ?rs = "map (scan_text hw pf rules opts) texts"
  have rs: "scan_texts hw pf texts rules opts = ?rs" using ok by (intro scan_texts_ok) blast
  have none: "propagate_first_scan_error ?rs = None" using ok by (intro propagate_none) auto
  have spans: "list_all2 (spans_ok (placeholder_types rules)) texts ?rs"
    using ok by (simp add: list_all2_conv_all_nth)
  from mask_all_spec [OF spans masker_inv_init, of "reserved_placeholders texts"] obtain masked st where st: "mask_all texts ?rs (init_masker (reserved_placeholders texts)) = Inr (masked, st)"
      "masker_inv (placeholder_types rules) st" "reserved st = reserved (init_masker (reserved_placeholders texts))"
      "\<forall>table. original_to_placeholder st \<subseteq>\<^sub>m table \<longrightarrow>
         masked = map2 (\<lambda>t r. mask_spec table t 0 (tsr_matches r)) texts ?rs"
      "list_all2 (\<lambda>m t. \<exists>ps. pieces_of m t (made st) ps) masked texts"
    by (elim exE conjE) (rule that)
  have m2: "map2 (\<lambda>t r. mask_spec table t 0 (tsr_matches r)) ts (map f ts) =
      map (\<lambda>t. mask_spec table t 0 (tsr_matches (f t))) ts" for table ts and f :: "string \<Rightarrow> text_scan_result"
    by (induction ts) simp_all
  have masked: "masked = map (\<lambda>t. mask_spec (original_to_placeholder st) t 0
      (tsr_matches (scan_text hw pf rules opts t))) texts"
    using st(4) [rule_format, OF map_le_refl] by (simp only: m2)
  let ?res = "\<lparr>masked_texts = masked,
      mask_state = \<lparr>triggered_rule_ids = seen_rules st, triggered_data_types = seen_data_types st,
                    replacements = made st, state_format = []\<rparr>\<rparr>"
  have "mask_texts hw pf texts rules opts = Inr ?res"
    unfolding mask_texts_def Let_def rs none by (simp add: st(1))
  moreover have "reserved st = reserved_placeholders texts" using st(3) by (simp add: init_masker_def)
  ultimately show ?thesis
    using st(2,5) by (intro exI [of _ ?res] exI [of _ st]) (simp only: mask_result.simps masking_state.simps masked [symmetric])
qed


definition replacement_table :: "masking_state \<Rightarrow> string \<Rightarrow> string option" where
  "replacement_table ms = map_of (map (\<lambda>r. (rep_original r, rep_placeholder r)) (replacements ms))"

text \<open>C3. Masking succeeds for compiled rules with unique ids, and each masked text is its original with
  exactly the spans of the scanner (those whose rule has a placeholder type) replaced by the
  placeholder that the returned replacements hold for the span's bytes.\<close>

theorem mask_texts_correct:
  assumes "\<forall>cr\<in>set rules. scannable cr" "ids_unique rules"
  shows "\<exists>res. mask_texts hw pf texts rules opts = Inr res \<and> length (masked_texts res) = length texts \<and>
    (\<forall>i<length texts. \<exists>spans. scan_rules hw pf (texts ! i) rules (mask_scan opts) = Inr spans \<and>
       masked_texts res ! i = mask_spec (replacement_table (mask_state res)) (texts ! i) 0 spans)"
proof -
  obtain res st where res: "mask_texts hw pf texts rules opts = Inr res"
      "masker_inv (placeholder_types rules) st" "made st = replacements (mask_state res)"
      "masked_texts res = map (\<lambda>t. mask_spec (original_to_placeholder st) t 0
        (tsr_matches (scan_text hw pf rules opts t))) texts"
    using mask_texts_result [OF assms] by blast
  have "original_to_placeholder st = replacement_table (mask_state res)"
    using res(2,3) by (simp add: masker_inv_def made_pairs_def replacement_table_def)
  then show ?thesis
    using res(1,4) spans_ok_scan_text [OF assms] by (intro exI [of _ res]) auto
qed


text \<open>C5. A placeholder never collides with user text: if the rules' placeholder types are made of
  letters, digits and underscores, no placeholder the masker hands out occurs in any of the texts.\<close>

theorem mask_texts_fresh:
  assumes "\<forall>cr\<in>set rules. scannable cr" "ids_unique rules"
    and "mask_texts hw pf texts rules opts = Inr res"
    and "\<forall>cr\<in>set rules. list_all is_word_char (placeholder (rule_masking (cr_rule (the cr))))"
    and "r \<in> set (replacements (mask_state res))" "t \<in> set texts"
  shows "\<not> sublist (rep_placeholder r) t"
proof -
  obtain st where st: "masker_inv (placeholder_types rules) st" "reserved st = reserved_placeholders texts"
      "made st = replacements (mask_state res)"
    using mask_texts_result [OF assms(1,2), of hw pf texts opts] assms(3) by auto
  then have "minted (placeholder_types rules) st r" using assms(5) by (simp add: masker_inv_def)
  then obtain ty k where ty: "ty \<in> placeholder_types rules" "ty \<noteq> []"
      "rep_placeholder r = render_placeholder ty k" "rep_placeholder r \<notin> set (reserved_placeholders texts)"
    using st(2) by (auto simp: minted_def)
  then have "is_literal (rep_placeholder r)"
    using assms(4) by (auto simp: placeholder_types_def intro: render_placeholder_literal)
  then show ?thesis using reserved_placeholders_complete assms(6) ty(4) by blast
qed

text \<open>The outcome does not depend on the machine or on the tuning: neither the number of cores nor
  the fan-out thresholds change what is masked, recorded or triggered.\<close>

theorem mask_texts_deterministic:
  assumes "\<forall>cr\<in>set rules. scannable cr" "ids_unique rules"
    and "prefilter_enabled (mask_scan opts) = prefilter_enabled (mask_scan opts')"
  shows "mask_texts hw pf texts rules opts = mask_texts hw' pf texts rules opts'"
proof -
  have same: "scan_text hw pf rules opts t = scan_text hw' pf rules opts' t" for t
    using assms(3) by (simp add: scan_text_def scan_rules_scannable [OF assms(1,2)])
  have "scan_texts hw pf texts rules opts = map (scan_text hw pf rules opts) texts"
    "scan_texts hw' pf texts rules opts' = map (scan_text hw' pf rules opts') texts"
    using spans_ok_scan_text [OF assms(1,2)] by (intro scan_texts_ok; blast)+
  then have "scan_texts hw pf texts rules opts = scan_texts hw' pf texts rules opts'" using same by simp
  then show ?thesis by (simp add: mask_texts_def)
qed

lemma first_scan_error_append:
  "\<forall>r\<in>set rs. tsr_error r = None \<Longrightarrow> first_scan_error i (rs @ r # rest) = first_scan_error (i + length rs) (r # rest)"
proof (induction rs arbitrary: i)
  case (Cons a rs)
  have "i + length (a # rs) = (i + 1) + length rs" by simp
  then show ?case using Cons.IH [of "i + 1"] Cons.prems by (simp only: append_Cons) simp
qed simp

lemma scan_texts_serial_append:
  "\<forall>t\<in>set ts. tsr_error (scan_text hw pf rules opts t) = None \<Longrightarrow>
     scan_texts_serial hw pf rules opts (ts @ us) = map (scan_text hw pf rules opts) ts @ scan_texts_serial hw pf rules opts us"
  by (induction ts) (simp_all add: Let_def)

text \<open>The error that surfaces is the one of the lowest failing text, with its index in the message,
  whether the texts are scanned one after the other or in parallel chunks.\<close>

theorem mask_texts_first_error:
  assumes "i < length texts" "scan_rules hw pf (texts ! i) rules (mask_scan opts) = Inl (ScanError e)"
    and "\<forall>j<i. \<exists>ms. scan_rules hw pf (texts ! j) rules (mask_scan opts) = Inr ms"
    and "\<forall>t\<in>set texts. scan_rules hw pf t rules (mask_scan opts) \<noteq> Inl ScanDiverges"
  shows "mask_texts hw pf texts rules opts =
    Inl (MaskError (''mask_texts: scan text['' @ nat_to_string i @ '']: '' @ e))"
proof -
  let ?scan = "scan_text hw pf rules opts"
  have texts: "texts = take i texts @ texts ! i # drop (Suc i) texts" using assms(1) by (rule id_take_nth_drop)
  have "\<exists>ms. scan_rules hw pf t rules (mask_scan opts) = Inr ms" if "t \<in> set (take i texts)" for t
    using that assms(1,3) by (auto simp: in_set_conv_nth)
  then have pre: "\<forall>t\<in>set (take i texts). tsr_error (?scan t) = None"
    by (force simp: scan_text_def empty_scan_def)
  have err: "tsr_error (?scan (texts ! i)) = Some (ScanError e)"
    using assms(2) by (simp add: scan_text_def empty_scan_def)
  have nodiv: "tsr_error (?scan t) \<noteq> Some ScanDiverges" if "t \<in> set texts" for t
    using assms(4) that by (auto simp: scan_text_def empty_scan_def split: sum.split)
  have "\<exists>rest. scan_texts hw pf texts rules opts = map ?scan (take i texts) @ ?scan (texts ! i) # rest \<and>
      (\<forall>r\<in>set rest. tsr_error r \<noteq> Some ScanDiverges)"
  proof (cases "1 < text_scan_worker_count hw texts opts")
    case True
    then show ?thesis using scan_texts_parallel [OF True] nodiv
      by (intro exI [of _ "map ?scan (drop (Suc i) texts)"])
        (metis (no_types, lifting) image_iff in_set_dropD list.set_map list.simps(9) map_append texts)
  next
    case False
    then have "scan_texts hw pf texts rules opts = scan_texts_serial hw pf rules opts texts"
      by (simp add: scan_texts_def Let_def)
    also have "\<dots> = map ?scan (take i texts) @ scan_texts_serial hw pf rules opts (texts ! i # drop (Suc i) texts)"
      using scan_texts_serial_append [OF pre, of "texts ! i # drop (Suc i) texts"] texts by simp
    finally show ?thesis using err by (auto simp: Let_def empty_scan_def)
  qed
  then obtain rest where rest: "scan_texts hw pf texts rules opts = map ?scan (take i texts) @ ?scan (texts ! i) # rest"
      "\<forall>r\<in>set rest. tsr_error r \<noteq> Some ScanDiverges" by blast
  have "first_scan_error 0 (map ?scan (take i texts) @ ?scan (texts ! i) # rest) =
      Some (MaskError (''mask_texts: scan text['' @ nat_to_string i @ '']: '' @ e))"
    using first_scan_error_append [of "map ?scan (take i texts)" 0] pre err assms(1) by simp
  moreover have "\<not> list_ex (\<lambda>r. tsr_error r = Some ScanDiverges)
      (map ?scan (take i texts) @ ?scan (texts ! i) # rest)"
    using rest(2) pre err by (auto simp: list_ex_iff)
  ultimately have "propagate_first_scan_error (scan_texts hw pf texts rules opts) =
      Some (MaskError (''mask_texts: scan text['' @ nat_to_string i @ '']: '' @ e))"
    unfolding propagate_first_scan_error_def rest(1) by (simp only: if_False)
  then show ?thesis unfolding mask_texts_def Let_def by (simp only: option.case)
qed


section \<open>Witnesses\<close>

lemma literal_rule_scannable [simp]: "scannable (Some (literal_rule i lit))"
  by (simp add: scannable_def literal_rule_def literal_re2_contract)

lemma literal_rule_placeholder [simp]: "placeholder (rule_masking (cr_rule (literal_rule i lit))) = ''SECRET''"
  by (simp add: literal_rule_def)

definition sample_options :: mask_options where
  "sample_options = \<lparr>mask_scan = \<lparr>prefilter_enabled = False, max_workers = 0\<rparr>, parallel_min_bytes = 0\<rparr>"

theorem mask_texts_correct_witness:
  "\<forall>hw pf. \<exists>res. mask_texts hw pf [''say abc'', ''abc''] [Some (literal_rule ''r'' ''abc'')] sample_options = Inr res \<and>
     length (masked_texts res) = 2"
proof (intro allI)
  fix hw pf
  show "\<exists>res. mask_texts hw pf [''say abc'', ''abc''] [Some (literal_rule ''r'' ''abc'')] sample_options = Inr res \<and>
     length (masked_texts res) = 2"
    using mask_texts_correct [of "[Some (literal_rule ''r'' ''abc'')]" hw pf "[''say abc'', ''abc'']" sample_options]
    by (auto simp: ids_unique_def)
qed


theorem mask_texts_fresh_witness:
  "\<forall>hw pf. \<exists>res. mask_texts hw pf [''say abc'', ''<SECRET_1>''] [Some (literal_rule ''r'' ''abc'')] sample_options = Inr res \<and>
     list_all (\<lambda>r. \<not> sublist (rep_placeholder r) ''<SECRET_1>'') (replacements (mask_state res))"
proof (intro allI)
  fix hw pf
  let ?rules = "[Some (literal_rule ''r'' ''abc'')]"
  have rules: "\<forall>cr\<in>set ?rules. scannable cr" "ids_unique ?rules" by (simp_all add: ids_unique_def)
  then obtain res where res: "mask_texts hw pf [''say abc'', ''<SECRET_1>''] ?rules sample_options = Inr res"
    using mask_texts_result by blast
  have "list_all is_word_char ''SECRET''" by (simp add: byte_defs)
  then have "\<not> sublist (rep_placeholder r) ''<SECRET_1>''" if "r \<in> set (replacements (mask_state res))" for r
    by (intro mask_texts_fresh [OF rules res _ that]) simp_all
  then show "\<exists>res. mask_texts hw pf [''say abc'', ''<SECRET_1>''] ?rules sample_options = Inr res \<and>
     list_all (\<lambda>r. \<not> sublist (rep_placeholder r) ''<SECRET_1>'') (replacements (mask_state res))"
    using res by (auto simp: list_all_iff)
qed

theorem mask_texts_deterministic_witness:
  "\<forall>pf. mask_texts 1 pf [''say abc'', ''abc''] [Some (literal_rule ''r'' ''abc'')] sample_options =
     mask_texts 8 pf [''say abc'', ''abc''] [Some (literal_rule ''r'' ''abc'')] (sample_options\<lparr>parallel_min_bytes := 1\<rparr>)"
  by (intro allI mask_texts_deterministic) (simp_all add: ids_unique_def sample_options_def)

theorem mask_texts_first_error_witness:
  "\<forall>pf. mask_texts 8 pf [''a'', ''b''] [None] sample_options =
     Inl (MaskError (''mask_texts: scan text[0]: scan_rules: rules[] contains a null CompiledRule pointer''))"
proof
  fix pf
  have scan: "scan_rules 8 pf t [None] (mask_scan sample_options) =
      Inl (ScanError ''scan_rules: rules[] contains a null CompiledRule pointer'')" for t
    by (simp add: scan_rules_def Let_def sample_options_def scan_candidates_def scan_serial_def scan_one_rule_def
        kParallelRuleThreshold_def)
  have "nat_to_string 0 = ''0''" by code_simp
  then show "mask_texts 8 pf [''a'', ''b''] [None] sample_options =
     Inl (MaskError (''mask_texts: scan text[0]: scan_rules: rules[] contains a null CompiledRule pointer''))"
    using mask_texts_first_error [of 0 "[''a'', ''b'']" 8 pf "[None]" sample_options] scan by simp
qed

end
