(* ===== verification/Restore.thy ===== *)
theory Restore
  imports Masker
begin

text \<open>
  The abstract specification of the demasker's exact pass: \<open>restore table s\<close> replaces, from left to
  right, every placeholder literal that the table knows.  The locale states what the pass relies on,
  that a literal has its angle brackets only at its two ends; under it the pass can be split at any
  point where no literal is cut, which is what makes streaming possible.
\<close>

section \<open>Specification\<close>

definition is_bracket_char :: "char \<Rightarrow> bool" where
  "is_bracket_char c \<longleftrightarrow> c = CHR ''<'' \<or> c = CHR ''>''"

definition bracketed :: "string \<Rightarrow> bool" where
  "bracketed l \<longleftrightarrow> (\<exists>w. l = ''<'' @ w @ ''>'' \<and> list_all (\<lambda>c. \<not> is_bracket_char c) w)"

text \<open>The literal at the head of a string, if it is one of the table: its value and what follows.\<close>

definition head_literal :: "(string \<Rightarrow> 'a option) \<Rightarrow> string \<Rightarrow> ('a \<times> string) option" where
  "head_literal table s =
     (let run = takeWhile (\<lambda>c. \<not> is_bracket_char c) (tl s); rest = drop (length run) (tl s) in
      if s \<noteq> [] \<and> hd s = CHR ''<'' \<and> rest \<noteq> [] \<and> hd rest = CHR ''>''
      then map_option (\<lambda>v. (v, tl rest)) (table (''<'' @ run @ ''>''))
      else None)"

lemma head_literal_shorter: "head_literal table s = Some (v, rest) \<Longrightarrow> length rest < length s"
  by (auto simp: head_literal_def Let_def split: if_splits dest!: arg_cong [of _ _ length])

function restore :: "(string \<Rightarrow> string option) \<Rightarrow> string \<Rightarrow> string" where
  "restore table [] = []"
| "restore table (c # cs) =
     (case head_literal table (c # cs) of
        Some (v, rest) \<Rightarrow> v @ restore table rest
      | None \<Rightarrow> c # restore table cs)"
  by pat_completeness auto
termination
  by (relation "measure (\<lambda>(table, s). length s)") (auto dest: head_literal_shorter)

lemma bracketedE:
  assumes "bracketed l"
  obtains w where "l = CHR ''<'' # w @ ''>''" "list_all (\<lambda>c. \<not> is_bracket_char c) w"
  using assms by (auto simp: bracketed_def)

lemma head_literal_eq:
  assumes "bracketed l"
  shows "head_literal table (l @ rest) = map_option (\<lambda>v. (v, rest)) (table l)"
proof -
  obtain w where l: "l = CHR ''<'' # w @ ''>''" and w: "list_all (\<lambda>c. \<not> is_bracket_char c) w"
    using assms by (rule bracketedE)
  have "takeWhile (\<lambda>c. \<not> is_bracket_char c) (w @ CHR ''>'' # rest) = w"
    using w by (simp add: takeWhile_append2 list_all_iff is_bracket_char_def)
  then show ?thesis by (simp add: head_literal_def l)
qed

lemma head_literal_SomeD:
  assumes "head_literal table s = Some (v, rest)"
  shows "\<exists>l. s = l @ rest \<and> bracketed l \<and> table l = Some v"
proof -
  let ?run = "takeWhile (\<lambda>c. \<not> is_bracket_char c) (tl s)"
  let ?rest = "drop (length ?run) (tl s)"
  have c: "s \<noteq> []" "hd s = CHR ''<''" "?rest \<noteq> []" "hd ?rest = CHR ''>''"
    and v: "table (''<'' @ ?run @ ''>'') = Some v" "rest = tl ?rest"
    using assms by (auto simp: head_literal_def Let_def split: if_splits)
  have "s = CHR ''<'' # ?run @ ?rest"
    using c(1,2) by (metis append_take_drop_id list.collapse takeWhile_eq_take)
  also have "?rest = CHR ''>'' # rest" using c(3,4) v(2) by (metis list.collapse)
  finally have "s = (''<'' @ ?run @ ''>'') @ rest" by simp
  moreover have "bracketed (''<'' @ ?run @ ''>'')"
    unfolding bracketed_def by (intro exI [of _ ?run]) (auto simp: list_all_iff dest: set_takeWhileD)
  ultimately show ?thesis using v(1) by blast
qed

lemma head_literal_append:
  "head_literal table s = Some (v, rest) \<Longrightarrow> head_literal table (s @ r) = Some (v, rest @ r)"
  by (frule head_literal_SomeD) (auto simp: head_literal_eq)

section \<open>Tables of bracketed literals\<close>

text \<open>No literal of the table occurs in the string.\<close>

definition literal_free :: "(string \<Rightarrow> 'a option) \<Rightarrow> string \<Rightarrow> bool" where
  "literal_free table s \<longleftrightarrow> (\<forall>l\<in>dom table. \<not> sublist l s)"

text \<open>No literal of the table begins inside \<open>a\<close> when \<open>a\<close> is followed by \<open>s\<close>.\<close>

definition no_literal_begins :: "(string \<Rightarrow> 'a option) \<Rightarrow> string \<Rightarrow> string \<Rightarrow> bool" where
  "no_literal_begins table a s \<longleftrightarrow>
     (\<forall>a1 a2. a = a1 @ a2 \<longrightarrow> a2 \<noteq> [] \<longrightarrow> head_literal table (a2 @ s) = None)"

lemma restore_copies: "no_literal_begins table a s \<Longrightarrow> restore table (a @ s) = a @ restore table s"
proof (induction a)
  case (Cons c a)
  have "head_literal table ((c # a) @ s) = None"
    using Cons.prems unfolding no_literal_begins_def by (metis append_Nil list.distinct(1))
  moreover have "no_literal_begins table a s"
    using Cons.prems unfolding no_literal_begins_def by (metis append_Cons)
  ultimately show ?case using Cons.IH by simp
qed simp

lemma no_bracket_no_literal:
  assumes "CHR ''<'' \<notin> set a"
  shows "no_literal_begins table a s"
  unfolding no_literal_begins_def
proof (intro allI impI)
  fix a1 a2 assume "a = a1 @ a2" "a2 \<noteq> []"
  then have "hd (a2 @ s) \<noteq> CHR ''<''" using assms by (cases a2) auto
  then show "head_literal table (a2 @ s) = None" by (simp add: head_literal_def)
qed

lemma literal_free_append: "literal_free table (a @ s) \<Longrightarrow> literal_free table a \<and> literal_free table s"
  unfolding literal_free_def by (meson sublist_appendI sublist_append_leftI sublist_append_rightI sublist_order.order.trans)

text \<open>An open end: a suffix that may be the beginning of a literal still to come.\<close>

definition open_end :: "string \<Rightarrow> bool" where
  "open_end s \<longleftrightarrow> s = [] \<or> (hd s = CHR ''<'' \<and> list_all (\<lambda>c. \<not> is_bracket_char c) (tl s))"

lemma open_end_no_literal: "open_end s \<Longrightarrow> restore table s = s"
proof (cases s)
  case (Cons c cs)
  assume "open_end s"
  then have c: "c = CHR ''<''" "list_all (\<lambda>c. \<not> is_bracket_char c) cs"
    using Cons by (auto simp: open_end_def)
  then have "takeWhile (\<lambda>c. \<not> is_bracket_char c) cs = cs" by (simp add: list_all_iff)
  then have "head_literal table s = None" using Cons by (simp add: head_literal_def del: takeWhile_eq_all_conv)
  moreover have "CHR ''<'' \<notin> set cs" using c(2) by (auto simp: list_all_iff is_bracket_char_def)
  then have "restore table cs = cs" using restore_copies [OF no_bracket_no_literal, of cs table "[]"] by simp
  ultimately show ?thesis using Cons by simp
qed simp

text \<open>
  Every string splits before its open end, and the pass over any extension works on the two parts
  independently.
\<close>

lemma restore_split:
  "\<exists>z1 z2. z = z1 @ z2 \<and> open_end z2 \<and> restore table z = restore table z1 @ z2 \<and>
     (\<forall>r. restore table (z @ r) = restore table z1 @ restore table (z2 @ r))"
proof (induction table z rule: restore.induct)
  case (1 table)
  show ?case by (intro exI [of _ "[]"]) (simp add: open_end_def)
next
  case (2 table c cs)
  show ?case
  proof (cases "head_literal table (c # cs)")
    case (Some vr)
    obtain v rest where vr: "vr = (v, rest)" by force
    obtain z1 z2 where z: "rest = z1 @ z2" "open_end z2" "restore table rest = restore table z1 @ z2"
        "\<forall>r. restore table (rest @ r) = restore table z1 @ restore table (z2 @ r)"
      using "2.IH"(2) Some vr by blast
    obtain l where l: "c # cs = l @ rest" "bracketed l" "table l = Some v"
      using head_literal_SomeD [of table "c # cs" v rest] Some vr by auto
    have "restore table (l @ s) = v @ restore table s" for s
      using head_literal_eq [OF l(2), of table s] l(2,3)
      by (cases l) (auto simp: bracketed_def)
    then show ?thesis using l(1) z
      by (intro exI [of _ "l @ z1"] exI [of _ z2]) simp
  next
    case None
    obtain z1 z2 where z: "cs = z1 @ z2" "open_end z2" "restore table cs = restore table z1 @ z2"
        "\<forall>r. restore table (cs @ r) = restore table z1 @ restore table (z2 @ r)"
      using "2.IH"(1) None by blast
    let ?run = "takeWhile (\<lambda>c. \<not> is_bracket_char c) cs"
    show ?thesis
    proof (cases "c = CHR ''<'' \<and> ?run = cs")
      case True
      then have "open_end (c # cs)" by (auto simp: open_end_def list_all_iff dest: set_takeWhileD)
      then show ?thesis using open_end_no_literal [of "c # cs" table]
        by (intro exI [of _ "[]"] exI [of _ "c # cs"]) simp
    next
      case False
      have stays: "head_literal table ((c # cs) @ r) = None" for r
      proof (cases "c = CHR ''<''")
        case True
        then have "\<exists>x\<in>set cs. is_bracket_char x" using False by (metis takeWhile_eq_all_conv)
        then have "takeWhile (\<lambda>c. \<not> is_bracket_char c) (cs @ r) = ?run" by (auto intro: takeWhile_append1)
        moreover have "length ?run < length cs"
          using False True by (metis length_takeWhile_le nat_less_le takeWhile_eq_take take_all_iff)
        ultimately show ?thesis using None by (auto simp: head_literal_def Let_def split: if_splits)
      qed (simp add: head_literal_def)
      have "head_literal table (c # z1) = None"
        using None head_literal_append [of table "c # z1" _ _ z2] z(1) by (cases "head_literal table (c # z1)") auto
      then show ?thesis using z None stays
        by (intro exI [of _ "c # z1"] exI [of _ z2]) simp
    qed
  qed
qed


text \<open>
  The contract of the exact pass: the literals of the table are bracketed, and the stream holds back
  at least as many bytes as the longest of them has.
\<close>

locale bracketed_table =
  fixes table :: "string \<Rightarrow> string option" and hold :: nat
  assumes bracketed_table: "l \<in> dom table \<Longrightarrow> bracketed l"
    and held_back: "l \<in> dom table \<Longrightarrow> length l \<le> hold"
begin

lemma restore_literal:
  assumes "table l = Some v"
  shows "restore table (l @ s) = v @ restore table s"
proof -
  have "bracketed l" using bracketed_table assms by blast
  then show ?thesis using head_literal_eq [of l table s] assms by (cases l) (auto simp: bracketed_def)
qed

text \<open>A literal that begins inside \<open>a\<close> but is not a part of it reaches past \<open>a\<close>.\<close>

lemma literal_straddles:
  assumes "a \<noteq> []" "head_literal table (a @ s) = Some (v, rest)" "literal_free table a"
  shows "\<exists>l2. l2 \<noteq> [] \<and> CHR ''<'' \<notin> set l2 \<and> s = l2 @ rest \<and> a @ l2 \<in> dom table"
proof -
  obtain l where l: "a @ s = l @ rest" "bracketed l" "table l = Some v"
    using head_literal_SomeD [OF assms(2)] by blast
  obtain w where w: "l = CHR ''<'' # w @ ''>''" "list_all (\<lambda>c. \<not> is_bracket_char c) w"
    using l(2) by (rule bracketedE)
  from l(1) obtain us where "a = l @ us \<and> us @ s = rest \<or> a @ us = l \<and> s = us @ rest"
    by (auto simp: append_eq_append_conv2)
  then show ?thesis
  proof
    assume "a = l @ us \<and> us @ s = rest"
    then have "sublist l a" by auto
    then show ?thesis using assms(3) l(3) by (auto simp: literal_free_def)
  next
    assume us: "a @ us = l \<and> s = us @ rest"
    obtain c a' where a: "a = c # a'" using assms(1) by (cases a) auto
    then have "a' @ us = w @ ''>''" using us w(1) by auto
    moreover have "CHR ''<'' \<notin> set (w @ ''>'')" using w(2) by (auto simp: list_all_iff is_bracket_char_def)
    ultimately have "CHR ''<'' \<notin> set us" by (metis UnCI set_append)
    moreover have "us \<noteq> []"
    proof
      assume "us = []"
      then have "l = a" using us by simp
      then show False using assms(3) l(3) by (auto simp: literal_free_def)
    qed
    ultimately show ?thesis using us l(3) by (intro exI [of _ us]) auto
  qed
qed

text \<open>
  The pass restarted on its own output: if the final output holds no literal of the table, the bytes
  that were restored before are left alone.
\<close>

lemma restore_restart:
  assumes free: "literal_free table (restore table (z @ r))"
  shows "restore table (restore table z @ r) = restore table (z @ r)"
proof -
  obtain z1 z2 where z: "z = z1 @ z2" "open_end z2" "restore table z = restore table z1 @ z2"
      "\<forall>r. restore table (z @ r) = restore table z1 @ restore table (z2 @ r)"
    using restore_split by blast
  let ?R = "restore table z1"
  have out: "restore table (z @ r) = ?R @ restore table (z2 @ r)" using z(4) by blast
  have "no_literal_begins table ?R (z2 @ r)"
    unfolding no_literal_begins_def
  proof (intro allI impI)
    fix a1 a2 assume a: "?R = a1 @ a2" "a2 \<noteq> []"
    have free2: "literal_free table (a2 @ restore table (z2 @ r))"
      using free literal_free_append [of table a1 "a2 @ restore table (z2 @ r)"] by (simp add: out a(1))
    show "head_literal table (a2 @ z2 @ r) = None"
    proof (rule ccontr)
      assume "head_literal table (a2 @ z2 @ r) \<noteq> None"
      then obtain v rest where "head_literal table (a2 @ z2 @ r) = Some (v, rest)" by auto
      moreover have "literal_free table a2" using free2 literal_free_append by blast
      ultimately obtain l2 where l2: "l2 \<noteq> []" "CHR ''<'' \<notin> set l2" "z2 @ r = l2 @ rest" "a2 @ l2 \<in> dom table"
        using literal_straddles [OF a(2)] by blast
      have "z2 = []"
      proof (rule ccontr)
        assume "z2 \<noteq> []"
        then have "hd (z2 @ r) = CHR ''<''" using z(2) by (auto simp: open_end_def)
        then show False using l2(1,2,3) by (metis hd_append2 hd_in_set)
      qed
      have "restore table (z2 @ r) = l2 @ restore table rest"
        unfolding l2(3) by (rule restore_copies [OF no_bracket_no_literal [OF l2(2)]])
      then have "sublist (a2 @ l2) (a2 @ restore table (z2 @ r))"
        by (metis append.assoc sublist_append_rightI)
      then show False using free2 l2(4) by (auto simp: literal_free_def)
    qed
  qed
  then have "restore table (?R @ z2 @ r) = ?R @ restore table (z2 @ r)" by (rule restore_copies)
  then show ?thesis using out by (simp add: z(3))
qed

lemma restore_prefix_free:
  assumes free: "literal_free table (restore table (z @ r))"
  shows "literal_free table (restore table z)"
proof -
  obtain z1 z2 where z: "z = z1 @ z2" "open_end z2" "restore table z = restore table z1 @ z2"
      "\<forall>r. restore table (z @ r) = restore table z1 @ restore table (z2 @ r)"
    using restore_split by blast
  have R: "literal_free table (restore table z1)" using free z(4) literal_free_append by metis
  have no_close: "CHR ''>'' \<notin> set z2" using z(2)
    by (cases z2) (auto simp: open_end_def list_all_iff is_bracket_char_def)
  show ?thesis
    unfolding literal_free_def z(3)
  proof (intro ballI notI)
    fix l assume l: "l \<in> dom table" "sublist l (restore table z1 @ z2)"
    obtain w where w: "l = CHR ''<'' # w @ ''>''" using bracketed_table [OF l(1)] by (auto simp: bracketed_def)
    from l(2) consider (left) "sublist l (restore table z1)" | (right) "sublist l z2"
      | (both) l1 l2 where "l = l1 @ l2" "suffix l1 (restore table z1)" "prefix l2 z2"
      by (auto simp: sublist_append)
    then show False
    proof cases
      case left
      then show False using R l(1) by (auto simp: literal_free_def)
    next
      case right
      then have "set l \<subseteq> set z2" by (rule set_mono_sublist)
      then show False using no_close w by auto
    next
      case both
      then have "CHR ''>'' \<notin> set l2" using no_close set_mono_prefix by blast
      then have "l2 = []" using both(1) w by (cases l2 rule: rev_cases) (auto simp: append_eq_append_conv2 Cons_eq_append_conv)
      then show False using both R l(1) by (auto simp: literal_free_def)
    qed
  qed
qed

text \<open>Emitting all but the last \<open>hold\<close> bytes cuts no literal.\<close>

lemma restore_emit:
  assumes free: "literal_free table s" and e: "e + hold \<le> length s"
  shows "restore table (s @ r) = take e s @ restore table (drop e s @ r)"
proof -
  have "no_literal_begins table (take e s) (drop e s @ r)"
    unfolding no_literal_begins_def
  proof (intro allI impI)
    fix a1 a2 assume a: "take e s = a1 @ a2" "a2 \<noteq> []"
    let ?a = "a2 @ drop e s"
    have s: "s = a1 @ ?a" by (metis a(1) append.assoc append_take_drop_id)
    have "literal_free table ?a" using free literal_free_append s by metis
    moreover have "?a \<noteq> []" using a(2) by simp
    ultimately show "head_literal table (a2 @ drop e s @ r) = None"
    proof (rule_tac ccontr)
      assume hyp: "literal_free table ?a" "?a \<noteq> []" "head_literal table (a2 @ drop e s @ r) \<noteq> None"
      then obtain v rest where "head_literal table (?a @ r) = Some (v, rest)" by auto
      from literal_straddles [OF hyp(2) this hyp(1)] obtain l2 where "l2 \<noteq> []" "?a @ l2 \<in> dom table" by blast
      then have "length ?a < hold" using held_back [of "?a @ l2"] by (cases l2) auto
      then show False using e a(2) by (cases a2) auto
    qed
  qed
  then have "restore table (take e s @ drop e s @ r) = take e s @ restore table (drop e s @ r)"
    by (rule restore_copies)
  then show ?thesis by (metis append.assoc append_take_drop_id)
qed

end

section \<open>Two passes\<close>

text \<open>
  A first pass over one table and a second over another are one pass over both, the first table first,
  if what the one pass returns holds no literal of either.
\<close>

definition orelse_table :: "(string \<Rightarrow> string option) \<Rightarrow> (string \<Rightarrow> string option) \<Rightarrow> string \<Rightarrow> string option" where
  "orelse_table t1 t2 l = (case t1 l of Some v \<Rightarrow> Some v | None \<Rightarrow> t2 l)"

lemma head_literal_None_orelse:
  "head_literal (orelse_table t1 t2) s = None \<Longrightarrow> head_literal t1 s = None \<and> head_literal t2 s = None"
  by (auto simp: head_literal_def orelse_table_def Let_def split: if_splits option.splits)

lemma head_literal_Some_orelse:
  "head_literal (orelse_table t1 t2) s = Some (v, rest) \<Longrightarrow>
     head_literal t1 s = Some (v, rest) \<or> head_literal t1 s = None \<and> head_literal t2 s = Some (v, rest)"
  by (auto simp: head_literal_def orelse_table_def Let_def split: if_splits option.splits)

lemma restore_prefix_orelse:
  "prefix l (restore t1 s) \<Longrightarrow> CHR ''<'' \<notin> set l \<Longrightarrow> prefix l (restore (orelse_table t1 t2) s)"
proof (induction t1 s arbitrary: l rule: restore.induct)
  case (2 t1 c cs)
  show ?case
  proof (cases "head_literal (orelse_table t1 t2) (c # cs)")
    case None
    then have "head_literal t1 (c # cs) = None" using head_literal_None_orelse by blast
    then show ?thesis using "2.IH"(1) "2.prems" None by (cases l) auto
  next
    case (Some vr)
    obtain v rest where vr: "vr = (v, rest)" by force
    consider "head_literal t1 (c # cs) = Some (v, rest)" | "head_literal t1 (c # cs) = None" "c = CHR ''<''"
      using head_literal_Some_orelse [of t1 t2 "c # cs" v rest] Some vr
      by (auto simp: head_literal_def Let_def split: if_splits)
    then show ?thesis
    proof cases
      case 1
      from "2.prems"(1) 1 consider "prefix l v" | l' where "l = v @ l'" "prefix l' (restore t1 rest)"
        by (auto simp: prefix_append)
      then show ?thesis using "2.IH"(2) [OF 1] "2.prems"(2) Some vr by cases (auto simp: prefix_append)
    next
      case 2
      then show ?thesis using "2.prems" by (cases l) auto
    qed
  qed
qed simp

lemma restore_two_passes:
  assumes b: "bracketed_table t1 h1" "bracketed_table t2 h2"
    and free: "literal_free (orelse_table t1 t2) (restore (orelse_table t1 t2) z)"
  shows "restore t2 (restore t1 z) = restore (orelse_table t1 t2) z"
  using free
proof (induction "orelse_table t1 t2" z rule: restore.induct)
  case (2 c cs)
  let ?t = "orelse_table t1 t2"
  have t2_free: "literal_free t2 s" if "literal_free ?t s" for s
  proof -
    have "dom t2 \<subseteq> dom ?t" by (auto simp: orelse_table_def split: option.splits)
    then show ?thesis using that by (auto simp: literal_free_def)
  qed
  have stays: "head_literal t2 (a @ restore t1 s) = None"
    if "a \<noteq> []" "literal_free ?t (a @ restore ?t s)" for a s
  proof (rule ccontr)
    assume "head_literal t2 (a @ restore t1 s) \<noteq> None"
    then obtain v rest where v: "head_literal t2 (a @ restore t1 s) = Some (v, rest)" by auto
    have "literal_free t2 a" using that(2) t2_free literal_free_append by blast
    from bracketed_table.literal_straddles [OF b(2) that(1) v this] obtain l2
      where l2: "CHR ''<'' \<notin> set l2" "restore t1 s = l2 @ rest" "a @ l2 \<in> dom t2" by blast
    then have "prefix l2 (restore ?t s)" by (intro restore_prefix_orelse) auto
    then have "sublist (a @ l2) (a @ restore ?t s)" by (auto simp: prefix_def)
    then show False using t2_free [OF that(2)] l2(3) by (auto simp: literal_free_def)
  qed
  show ?case
  proof (cases "head_literal ?t (c # cs)")
    case None
    then have t1: "head_literal t1 (c # cs) = None" using head_literal_None_orelse by blast
    have free: "literal_free ?t ([c] @ restore ?t cs)" using 2(3) None by simp
    then have "restore t2 (restore t1 cs) = restore ?t cs" using 2(1) [OF None] literal_free_append by blast
    then show ?thesis using t1 None stays [OF _ free] by simp
  next
    case (Some vr)
    obtain v rest where vr: "vr = (v, rest)" by force
    have free: "literal_free ?t (v @ restore ?t rest)" using 2(3) Some vr by simp
    then have IH: "restore t2 (restore t1 rest) = restore ?t rest"
      using 2(2) [OF Some] vr literal_free_append by blast
    consider "head_literal t1 (c # cs) = Some (v, rest)" |
        "head_literal t1 (c # cs) = None" "head_literal t2 (c # cs) = Some (v, rest)"
      using head_literal_Some_orelse [of t1 t2 "c # cs" v rest] Some vr by auto
    then show ?thesis
    proof cases
      case 1
      have "no_literal_begins t2 v (restore t1 rest)"
        unfolding no_literal_begins_def
      proof (intro allI impI)
        fix a1 a2 assume a: "v = a1 @ a2" "a2 \<noteq> []"
        have "literal_free ?t (a2 @ restore ?t rest)" using free literal_free_append a(1) by (metis append.assoc)
        then show "head_literal t2 (a2 @ restore t1 rest) = None" using stays a(2) by blast
      qed
      then have "restore t2 (v @ restore t1 rest) = v @ restore t2 (restore t1 rest)" by (rule restore_copies)
      then show ?thesis using 1 Some vr IH by simp
    next
      case 2
      obtain l where l: "c # cs = l @ rest" "bracketed l" "t2 l = Some v"
        using head_literal_SomeD [OF 2(2)] by blast
      obtain w where w: "l = CHR ''<'' # w @ ''>''" "list_all (\<lambda>c. \<not> is_bracket_char c) w"
        using l(2) by (rule bracketedE)
      have cs: "c = CHR ''<''" "cs = (w @ ''>'') @ rest" using l(1) w(1) by auto
      have "CHR ''<'' \<notin> set (w @ ''>'')" using w(2) by (auto simp: list_all_iff is_bracket_char_def)
      then have "restore t1 cs = (w @ ''>'') @ restore t1 rest"
        unfolding cs(2) by (intro restore_copies no_bracket_no_literal)
      then have "restore t1 (c # cs) = l @ restore t1 rest" using 2(1) w(1) cs(1) by simp
      then show ?thesis using bracketed_table.restore_literal [OF b(2) l(3)] Some vr IH by simp
    qed
  qed
qed simp

section \<open>Restoring a masked text\<close>

lemma prefix_of_gaps:
  assumes "prefix l (concat (map piece_masked ps))" "CHR ''<'' \<notin> set l"
    "\<forall>r. Hole r \<in> set ps \<longrightarrow> bracketed (rep_placeholder r)"
  shows "prefix l (concat (map piece_text ps))"
  using assms
proof (induction ps arbitrary: l)
  case (Cons p ps)
  show ?case
  proof (cases p)
    case (Gap g)
    from Cons.prems(1) Gap consider (short) "prefix l g" | (long) l' where "l = g @ l'" "prefix l' (concat (map piece_masked ps))"
      by (auto simp: prefix_append)
    then show ?thesis
    proof cases
      case short
      then show ?thesis using Gap by (auto simp: prefix_append)
    next
      case long
      then show ?thesis using Cons.IH [of l'] Cons.prems(2,3) Gap by auto
    qed
  next
    case (Hole r)
    then have "bracketed (rep_placeholder r)" using Cons.prems(3) by simp
    then have "l = []" using Cons.prems(1,2) Hole by (cases l) (auto simp: bracketed_def)
    then show ?thesis by simp
  qed
qed simp

context bracketed_table
begin

text \<open>
  The pass undoes the masking: placeholders in the holes become originals again, and nothing in the
  gaps is touched when no literal of the table occurs in the text.
\<close>

lemma restore_pieces:
  assumes "\<forall>r. Hole r \<in> set ps \<longrightarrow> table (rep_placeholder r) = Some (rep_original r)"
    and "literal_free table (concat (map piece_text ps))"
  shows "restore table (concat (map piece_masked ps)) = concat (map piece_text ps)"
  using assms
proof (induction ps)
  case (Cons p ps)
  have br: "\<forall>r. Hole r \<in> set ps \<longrightarrow> bracketed (rep_placeholder r)"
    using Cons.prems(1) bracketed_table by (simp add: dom_def)
  have free: "literal_free table (piece_text p @ concat (map piece_text ps))" using Cons.prems(2) by simp
  then have "literal_free table (concat (map piece_text ps))" using literal_free_append by blast
  then have IH: "restore table (concat (map piece_masked ps)) = concat (map piece_text ps)"
    using Cons.IH Cons.prems(1) by simp
  show ?case
  proof (cases p)
    case (Hole r)
    then show ?thesis using restore_literal [of "rep_placeholder r"] Cons.prems(1) IH by simp
  next
    case (Gap g)
    have "no_literal_begins table g (concat (map piece_masked ps))"
      unfolding no_literal_begins_def
    proof (intro allI impI)
      fix a1 a2 assume a: "g = a1 @ a2" "a2 \<noteq> []"
      have "literal_free table (a2 @ concat (map piece_text ps))"
        using free Gap a(1) literal_free_append [of table a1] by simp
      moreover have "literal_free table a2" using calculation literal_free_append by blast
      moreover have "sublist (a2 @ l2) (a2 @ concat (map piece_text ps))"
        if "concat (map piece_masked ps) = l2 @ rest" "CHR ''<'' \<notin> set l2" for l2 rest
        using prefix_of_gaps [OF _ that(2) br] that(1) by (intro prefix_imp_sublist) (simp add: prefix_def)
      ultimately show "head_literal table (a2 @ concat (map piece_masked ps)) = None"
        using literal_straddles [OF a(2), of "concat (map piece_masked ps)"]
        by (cases "head_literal table (a2 @ concat (map piece_masked ps))") (fastforce simp: literal_free_def)+
    qed
    then have "restore table (g @ concat (map piece_masked ps)) = g @ restore table (concat (map piece_masked ps))"
      by (rule restore_copies)
    then show ?thesis using Gap IH by simp
  qed
qed simp

end

lemma literal_bracketed: "is_literal l \<Longrightarrow> bracketed l"
proof -
  have "\<not> is_bracket_char c" if "is_word_char c" for c using that by (auto simp: is_bracket_char_def byte_defs)
  then show "is_literal l \<Longrightarrow> bracketed l" by (fastforce simp: is_literal_def bracketed_def list_all_iff)
qed

text \<open>What the masker's result guarantees of its replacements, for placeholder types of word bytes.\<close>

lemma mask_texts_table:
  assumes "\<forall>cr\<in>set rules. scannable cr" "ids_unique rules"
    and "mask_texts hw pf texts rules opts = Inr res"
    and "\<forall>cr\<in>set rules. list_all is_word_char (placeholder (rule_masking (cr_rule (the cr))))"
  shows "distinct (map rep_placeholder (replacements (mask_state res)))"
    "\<forall>r\<in>set (replacements (mask_state res)). bracketed (rep_placeholder r) \<and>
       (\<forall>t\<in>set texts. \<not> sublist (rep_placeholder r) t)"
    "list_all2 (\<lambda>m t. \<exists>ps. pieces_of m t (replacements (mask_state res)) ps) (masked_texts res) texts"
proof -
  obtain st where st: "masker_inv (placeholder_types rules) st" "reserved st = reserved_placeholders texts"
      "made st = replacements (mask_state res)"
      "list_all2 (\<lambda>m t. \<exists>ps. pieces_of m t (replacements (mask_state res)) ps) (masked_texts res) texts"
    using mask_texts_result [OF assms(1,2), of hw pf texts opts] assms(3) by auto
  show "distinct (map rep_placeholder (replacements (mask_state res)))" using st(1,3) by (simp add: masker_inv_def)
  show "list_all2 (\<lambda>m t. \<exists>ps. pieces_of m t (replacements (mask_state res)) ps) (masked_texts res) texts" by (rule st(4))
  show "\<forall>r\<in>set (replacements (mask_state res)). bracketed (rep_placeholder r) \<and>
       (\<forall>t\<in>set texts. \<not> sublist (rep_placeholder r) t)"
  proof
    fix r assume "r \<in> set (replacements (mask_state res))"
    then have "minted (placeholder_types rules) st r" using st(1,3) by (simp add: masker_inv_def)
    then obtain ty k where ty: "ty \<in> placeholder_types rules" "ty \<noteq> []"
        "rep_placeholder r = render_placeholder ty k" "rep_placeholder r \<notin> set (reserved_placeholders texts)"
      using st(2) by (auto simp: minted_def)
    then have "is_literal (rep_placeholder r)"
      using assms(4) by (auto simp: placeholder_types_def intro: render_placeholder_literal)
    then show "bracketed (rep_placeholder r) \<and> (\<forall>t\<in>set texts. \<not> sublist (rep_placeholder r) t)"
      using reserved_placeholders_complete ty(4) literal_bracketed by blast
  qed
qed

end
