(* ===== verification/Demasker.thy ===== *)
theory Demasker
  imports Json Registry Restore
begin

text \<open>
  \<open>src/src/guard/demask/Demasker.hpp\<close>: restoring the originals of the placeholders in a response, over
  a stream of chunks.  The exact pass replaces the placeholder literals of the request's table, the
  tolerant pass those that a recogniser regex finds; a suffix is held back between two chunks so that
  a placeholder split across them is still found.
\<close>

section \<open>Definitions\<close>

record placeholder_match =
  pm_rule_id :: string
  pm_start :: nat
  pm_end :: nat
  pm_placeholder :: string

text \<open>
  \<open>DemaskError\<close> carries its message and \<open>unemitted\<close>; \<open>DemaskDiverges\<close> marks a loop that would not
  come to an end.
\<close>

datatype demask_error = DemaskError string string | DemaskDiverges

record entry =
  entry_placeholder :: string
  entry_original :: string
  entry_json_original :: string

text \<open>
  \<open>cfg_scan\<close> is the \<open>std::function\<close> of the tolerant pass (\<^const>\<open>None\<close> when it is empty), and an
  exception that escapes it is a value of \<^typ>\<open>scan_error\<close>.
\<close>

record config =
  entries :: "entry list"
  index_by_placeholder :: "string \<Rightarrow> nat option"
  placeholder_lengths :: "nat list"
  placeholder_first_byte :: "char \<Rightarrow> bool"
  max_pending :: nat
  pinned :: "registry option"
  cfg_scan :: "(string \<Rightarrow> scan_error + placeholder_match list) option"

definition lookup :: "config \<Rightarrow> string \<Rightarrow> bool \<Rightarrow> string option" where
  "lookup cfg p json_escape =
     (case index_by_placeholder cfg p of
        None \<Rightarrow> None
      | Some i \<Rightarrow> let e = entries cfg ! i in Some (if json_escape then entry_json_original e else entry_original e))"

subsection \<open>UTF-8 boundaries\<close>

definition is_rune_start :: "char \<Rightarrow> bool" where
  "is_rune_start b \<longleftrightarrow> byte b AND 0xC0 \<noteq> 0x80"

definition rune_width :: "char \<Rightarrow> nat" where
  "rune_width c =
     (let b = byte c in
      if b < 0x80 then 1
      else if b AND 0xE0 = 0xC0 then 2
      else if b AND 0xF0 = 0xE0 then 3
      else if b AND 0xF8 = 0xF0 then 4
      else 1)"

definition rune_len_at :: "string \<Rightarrow> nat \<Rightarrow> nat" where
  "rune_len_at s i =
     (if i \<ge> length s then 1
      else let want = rune_width (s ! i) in
        if i + want > length s then 1
        else if list_ex (\<lambda>k. is_rune_start (s ! (i + k))) [1..<want] then 1
        else want)"

text \<open>The walk back from \<open>end - 1\<close>; \<^const>\<open>None\<close> is the buffer that opens in the middle of a rune.\<close>

fun rune_start_before :: "string \<Rightarrow> nat \<Rightarrow> nat option" where
  "rune_start_before s i =
     (if is_rune_start (s ! i) then Some i
      else case i of 0 \<Rightarrow> None | Suc j \<Rightarrow> rune_start_before s j)"

declare rune_start_before.simps [simp del]

definition utf8_safe_prefix_end :: "string \<Rightarrow> nat \<Rightarrow> nat" where
  "utf8_safe_prefix_end s e =
     (if e = 0 then 0
      else if e \<ge> length s then length s
      else case rune_start_before s (e - 1) of
        None \<Rightarrow> 0
      | Some i \<Rightarrow> if i + rune_len_at s i \<le> e then e else i)"

subsection \<open>Splicing and overlaps\<close>

type_synonym text_replacement = "nat \<times> nat \<times> string"

definition replacement_less :: "text_replacement \<Rightarrow> text_replacement \<Rightarrow> bool" where
  "replacement_less a b =
     (if fst a \<noteq> fst b then fst a < fst b else fst (snd a) > fst (snd b))"

fun replace_loop :: "string \<Rightarrow> nat \<Rightarrow> string \<Rightarrow> text_replacement list \<Rightarrow> string" where
  "replace_loop text pos out [] = out @ drop pos text"
| "replace_loop text pos out ((s, e, original) # reps) =
     (if s < pos then replace_loop text pos out reps
      else replace_loop text e (out @ substr text pos (s - pos) @ original) reps)"

definition apply_text_replacements :: "string \<Rightarrow> text_replacement list \<Rightarrow> string" where
  "apply_text_replacements text reps =
     (if reps = [] then text else replace_loop text 0 [] (sort_by replacement_less reps))"

definition placeholder_match_less :: "placeholder_match \<Rightarrow> placeholder_match \<Rightarrow> bool" where
  "placeholder_match_less a b =
     (if pm_start a \<noteq> pm_start b then pm_start a < pm_start b
      else let left_len = pm_end a - pm_start a; right_len = pm_end b - pm_start b in
        if left_len \<noteq> right_len then left_len > right_len
        else string_less (pm_rule_id a) (pm_rule_id b))"

fun sweep_conflicts :: "nat \<Rightarrow> placeholder_match list \<Rightarrow> placeholder_match list" where
  "sweep_conflicts max_end [] = []"
| "sweep_conflicts max_end (m # ms) =
     (if pm_start m < max_end then sweep_conflicts max_end ms
      else m # sweep_conflicts (if pm_end m > max_end then pm_end m else max_end) ms)"

definition resolve_placeholder_conflicts :: "placeholder_match list \<Rightarrow> placeholder_match list" where
  "resolve_placeholder_conflicts ms =
     (if length ms \<le> 1 then ms else sweep_conflicts 0 (sort_by placeholder_match_less ms))"

subsection \<open>The tolerant scan\<close>

definition is_blank_placeholder :: "string \<Rightarrow> bool" where
  "is_blank_placeholder s \<longleftrightarrow> list_all is_space_char s"

text \<open>At most nine digits, so the \<open>int\<close> never overflows; \<^const>\<open>None\<close> is the result \<open>false\<close>.\<close>

definition parse_placeholder_index :: "string \<Rightarrow> nat option" where
  "parse_placeholder_index digits =
     (if digits = [] \<or> length digits > 9 \<or> \<not> list_all is_digit_char digits then None
      else let value = digits_value digits in if value = 0 then None else Some value)"

text \<open>
  The match loop of \<open>scan_rule\<close>; group 1 is the first capturing group, if the expression has one.  As
  in the scanner, \<open>length text + 2\<close> rounds are enough and \<^const>\<open>None\<close> is a loop that used them up.
\<close>

fun scan_rule_loop ::
  "nat \<Rightarrow> string \<Rightarrow> compiled_rule \<Rightarrow> re2 \<Rightarrow> nat \<Rightarrow> placeholder_match list \<Rightarrow> placeholder_match list option" where
  "scan_rule_loop 0 text cr re pos out = None"
| "scan_rule_loop (Suc fuel) text cr re pos out =
     (if pos \<le> length text then
        (case re_match re text pos of
           None \<Rightarrow> Some out
         | Some ((mstart, mend), caps) \<Rightarrow>
             let index = (case caps of
                   Some (s, e) # _ \<Rightarrow> parse_placeholder_index (substr text s (e - s))
                 | _ \<Rightarrow> None);
                 out' = (case index of
                   None \<Rightarrow> out
                 | Some n \<Rightarrow> out @ [\<lparr>pm_rule_id = rule_id (cr_rule cr), pm_start = mstart, pm_end = mend,
                     pm_placeholder = render_placeholder (placeholder (rule_masking (cr_rule cr))) n\<rparr>])
             in scan_rule_loop fuel text cr re (if mend > mstart then mend else mstart + 1) out')
      else Some out)"

definition scan_rule ::
  "string \<Rightarrow> compiled_rule \<Rightarrow> placeholder_match list \<Rightarrow> scan_error + placeholder_match list" where
  "scan_rule text cr out =
     (case cr_placeholder_re cr of
        None \<Rightarrow> Inr out
      | Some re \<Rightarrow>
          if is_blank_placeholder (placeholder (rule_masking (cr_rule cr))) then Inr out
          else (case scan_rule_loop (length text + 2) text cr re 0 out of
                  None \<Rightarrow> Inl ScanDiverges
                | Some out' \<Rightarrow> Inr out'))"

fun scan_placeholder_rules ::
  "string \<Rightarrow> compiled_rule list \<Rightarrow> placeholder_match list \<Rightarrow> scan_error + placeholder_match list" where
  "scan_placeholder_rules text [] matches = Inr matches"
| "scan_placeholder_rules text (cr # crs) matches =
     (case scan_rule text cr matches of
        Inl e \<Rightarrow> Inl e
      | Inr matches' \<Rightarrow> scan_placeholder_rules text crs matches')"

text \<open>The closure that \<open>make_config\<close> stores in \<open>Config::scan\<close>.\<close>

definition tolerant_scan :: "compiled_rule list \<Rightarrow> string \<Rightarrow> scan_error + placeholder_match list" where
  "tolerant_scan crs text = map_sum id resolve_placeholder_conflicts (scan_placeholder_rules text crs [])"

subsection \<open>Building the tables\<close>

definition empty_config :: config where
  "empty_config = \<lparr>entries = [], index_by_placeholder = Map.empty, placeholder_lengths = [],
     placeholder_first_byte = (\<lambda>_. False), max_pending = 0, pinned = None, cfg_scan = None\<rparr>"

definition add_entry :: "replacement \<Rightarrow> config \<Rightarrow> config" where
  "add_entry rep cfg =
     (let p = rep_placeholder rep in
      if p = [] \<or> index_by_placeholder cfg p \<noteq> None then cfg
      else cfg\<lparr>entries := entries cfg @ [\<lparr>entry_placeholder = p, entry_original = rep_original rep,
                 entry_json_original = encode_string (rep_original rep) False\<rparr>],
               index_by_placeholder := (index_by_placeholder cfg)(p \<mapsto> length (entries cfg)),
               placeholder_first_byte := (placeholder_first_byte cfg)(hd p := True),
               max_pending := (if length p > max_pending cfg then length p else max_pending cfg)\<rparr>)"

definition build_lookup_index :: "replacement list \<Rightarrow> config" where
  "build_lookup_index reps =
     (let cfg = fold add_entry reps empty_config in
      cfg\<lparr>placeholder_lengths :=
        remdups_adj (sort (map (\<lambda>e. length (entry_placeholder e)) (entries cfg)))\<rparr>)"

fun resolve_rules :: "registry \<Rightarrow> string list \<Rightarrow> compiled_rule list" where
  "resolve_rules reg [] = []"
| "resolve_rules reg (i # ids) =
     (case by_id reg i of None \<Rightarrow> resolve_rules reg ids | Some cr \<Rightarrow> cr # resolve_rules reg ids)"

definition max_placeholder_len :: "compiled_rule list \<Rightarrow> nat" where
  "max_placeholder_len crs = fold (\<lambda>cr n. if cr_placeholder_len cr > n then cr_placeholder_len cr else n) crs 0"

definition make_config :: "masking_state \<Rightarrow> registry option \<Rightarrow> config" where
  "make_config state snapshot =
     (let cfg = build_lookup_index (replacements state);
          rule_ids = sort_by string_less (triggered_rule_ids state)
      in case snapshot of
           None \<Rightarrow> cfg
         | Some reg \<Rightarrow>
             let rules = resolve_rules reg rule_ids;
                 cfg1 = cfg\<lparr>pinned := Some reg,
                   max_pending := (if max_placeholder_len rules > max_pending cfg
                                   then max_placeholder_len rules else max_pending cfg)\<rparr>
             in if rule_ids = [] \<or> rules = [] then cfg1
                else cfg1\<lparr>cfg_scan := Some (tolerant_scan rules)\<rparr>)"

subsection \<open>The exact pass\<close>

text \<open>
  The probes at one position, from the shortest length on: the best entry so far and the length of its
  placeholder.
\<close>

fun best_entry :: "config \<Rightarrow> string \<Rightarrow> nat list \<Rightarrow> (nat \<times> nat) option \<Rightarrow> (nat \<times> nat) option" where
  "best_entry cfg rest [] best = best"
| "best_entry cfg rest (len # lens) best =
     (if len > length rest then best
      else case index_by_placeholder cfg (take len rest) of
        None \<Rightarrow> best_entry cfg rest lens best
      | Some i \<Rightarrow>
          if (case best of None \<Rightarrow> True | Some (b, _) \<Rightarrow> i < b)
          then best_entry cfg rest lens (Some (i, len))
          else best_entry cfg rest lens best)"

text \<open>
  The loop over the text, on what is left of it.  A hit of length zero does not move the cursor and
  the loop does not end, which is \<^const>\<open>None\<close>; \<open>make_config\<close> never lists a blank placeholder.
\<close>

function exact_loop :: "config \<Rightarrow> bool \<Rightarrow> string \<Rightarrow> string option" where
  "exact_loop cfg json_ctx [] = Some []"
| "exact_loop cfg json_ctx (c # cs) =
     (if \<not> placeholder_first_byte cfg c then map_option (\<lambda>out. c # out) (exact_loop cfg json_ctx cs)
      else case best_entry cfg (c # cs) (placeholder_lengths cfg) None of
        None \<Rightarrow> map_option (\<lambda>out. c # out) (exact_loop cfg json_ctx cs)
      | Some (best, best_len) \<Rightarrow>
          if best_len = 0 then None
          else let e = entries cfg ! best in
            map_option (\<lambda>out. (if json_ctx then entry_json_original e else entry_original e) @ out)
              (exact_loop cfg json_ctx (drop best_len (c # cs))))"
  by pat_completeness auto
termination by (relation "measure (\<lambda>(cfg, json_ctx, s). length s)") auto

definition apply_exact :: "config \<Rightarrow> bool \<Rightarrow> string \<Rightarrow> string option" where
  "apply_exact cfg json_ctx text =
     (if placeholder_lengths cfg = [] then Some text else exact_loop cfg json_ctx text)"

subsection \<open>The tolerant pass\<close>

fun collect_replacements ::
  "config \<Rightarrow> bool \<Rightarrow> string \<Rightarrow> placeholder_match list \<Rightarrow> scan_error + text_replacement list" where
  "collect_replacements cfg json_ctx text [] = Inr []"
| "collect_replacements cfg json_ctx text (m # ms) =
     (if pm_placeholder m = [] then collect_replacements cfg json_ctx text ms
      else if pm_start m > pm_end m \<or> pm_end m > length text
      then Inl (ScanError ''Guard::Demask: placeholder match is out of range for this text'')
      else case lookup cfg (pm_placeholder m) json_ctx of
        None \<Rightarrow> collect_replacements cfg json_ctx text ms
      | Some original \<Rightarrow>
          map_sum id (\<lambda>reps. (pm_start m, pm_end m, original) # reps) (collect_replacements cfg json_ctx text ms))"

definition apply_placeholder_regex :: "config \<Rightarrow> bool \<Rightarrow> string \<Rightarrow> scan_error + string" where
  "apply_placeholder_regex cfg json_ctx text =
     (case cfg_scan cfg of
        None \<Rightarrow> Inr text
      | Some scan \<Rightarrow>
          (case scan text of
             Inl e \<Rightarrow> Inl e
           | Inr ms \<Rightarrow>
               if ms = [] then Inr text
               else map_sum id (apply_text_replacements text) (collect_replacements cfg json_ctx text ms)))"

subsection \<open>The demasker of a stream\<close>

record demasker =
  dm_config :: config
  json_ctx :: bool
  pending :: string

definition new_demasker :: "config \<Rightarrow> bool \<Rightarrow> demasker" where
  "new_demasker cfg json_escape_originals = \<lparr>dm_config = cfg, json_ctx = json_escape_originals, pending = []\<rparr>"

definition demask_chunk :: "string \<Rightarrow> bool \<Rightarrow> demasker \<Rightarrow> (demask_error + string) \<times> demasker" where
  "demask_chunk chunk flush d =
     (let input = pending d @ chunk; d1 = d\<lparr>pending := []\<rparr>; cfg = dm_config d in
      if input = [] then (Inr [], d1)
      else case apply_exact cfg (json_ctx d) input of
        None \<Rightarrow> (Inl DemaskDiverges, d1)
      | Some exact \<Rightarrow>
          (case apply_placeholder_regex cfg (json_ctx d) exact of
             Inl ScanDiverges \<Rightarrow> (Inl DemaskDiverges, d1)
           | Inl (ScanError e) \<Rightarrow> (Inl (DemaskError (''demask: placeholder pass failed: '' @ e) exact), d1)
           | Inr demasked \<Rightarrow>
               if flush then (Inr demasked, d1)
               else if length demasked \<le> max_pending cfg then (Inr [], d1\<lparr>pending := demasked\<rparr>)
               else let safe_end = utf8_safe_prefix_end demasked (length demasked - max_pending cfg) in
                 if safe_end = 0 then (Inr [], d1\<lparr>pending := demasked\<rparr>)
                 else (Inr (take safe_end demasked), d1\<lparr>pending := drop safe_end demasked\<rparr>)))"

definition demask_all :: "config \<Rightarrow> string \<Rightarrow> bool \<Rightarrow> demask_error + string" where
  "demask_all cfg text json_escape = fst (demask_chunk text True (new_demasker cfg json_escape))"

subsection \<open>Tool-call arguments\<close>

fun leaf_edits :: "config \<Rightarrow> string \<Rightarrow> string_leaf list \<Rightarrow> demask_error + (value_span \<times> string) list" where
  "leaf_edits cfg raw [] = Inr []"
| "leaf_edits cfg raw (l # ls) =
     (let decoded = decode_string (sub_doc raw (leaf_span l)) in
      case demask_all cfg decoded False of
        Inl e \<Rightarrow> Inl e
      | Inr demasked \<Rightarrow>
          if demasked = decoded then leaf_edits cfg raw ls
          else map_sum id (\<lambda>es. (leaf_span l, encode_string demasked True) # es) (leaf_edits cfg raw ls))"

definition structural_demask :: "config \<Rightarrow> string \<Rightarrow> string option" where
  "structural_demask cfg raw =
     (case leaf_edits cfg raw (string_leaves raw []) of
        Inl DemaskDiverges \<Rightarrow> None
      | Inl (DemaskError _ _) \<Rightarrow> Some raw
      | Inr edits \<Rightarrow>
          if edits = [] then Some raw
          else (case splice_all raw edits of
                  Inl _ \<Rightarrow> Some raw
                | Inr out \<Rightarrow> if valid out then Some out else Some raw))"

text \<open>\<^const>\<open>None\<close> is a call that does not return.\<close>

definition demask_json_arguments :: "config \<Rightarrow> string \<Rightarrow> string option" where
  "demask_json_arguments cfg raw =
     (if raw = [] then Some raw
      else case demask_all cfg raw False of
        Inl DemaskDiverges \<Rightarrow> None
      | Inl (DemaskError _ _) \<Rightarrow> structural_demask cfg raw
      | Inr naive \<Rightarrow> if valid naive then Some naive else structural_demask cfg raw)"

section \<open>The tables\<close>

text \<open>The tables of a configuration agree with its entries.\<close>

definition tables_ok :: "config \<Rightarrow> bool" where
  "tables_ok cfg \<longleftrightarrow>
     (\<forall>p i. index_by_placeholder cfg p = Some i \<longrightarrow>
        p \<noteq> [] \<and> i < length (entries cfg) \<and> entry_placeholder (entries cfg ! i) = p \<and>
        placeholder_first_byte cfg (hd p) \<and> length p \<le> max_pending cfg) \<and>
     (\<forall>e\<in>set (entries cfg). index_by_placeholder cfg (entry_placeholder e) \<noteq> None)"

definition lengths_ok :: "config \<Rightarrow> bool" where
  "lengths_ok cfg \<longleftrightarrow> sorted (placeholder_lengths cfg) \<and>
     (\<forall>p\<in>dom (index_by_placeholder cfg). length p \<in> set (placeholder_lengths cfg)) \<and> 0 \<notin> set (placeholder_lengths cfg)"

definition config_ok :: "config \<Rightarrow> bool" where
  "config_ok cfg \<longleftrightarrow> tables_ok cfg \<and> lengths_ok cfg"

lemma tables_ok_add_entry:
  assumes "tables_ok cfg"
  shows "tables_ok (add_entry rep cfg)"
proof (cases "rep_placeholder rep = [] \<or> index_by_placeholder cfg (rep_placeholder rep) \<noteq> None")
  case True
  then show ?thesis using assms by (simp add: add_entry_def)
next
  case False
  let ?p = "rep_placeholder rep" and ?n = "length (entries cfg)" and ?cfg = "add_entry rep cfg"
  have new: "?p \<noteq> []" "index_by_placeholder cfg ?p = None" using False by auto
  have fields: "entries ?cfg = entries cfg @ [\<lparr>entry_placeholder = ?p, entry_original = rep_original rep,
        entry_json_original = encode_string (rep_original rep) False\<rparr>]"
      "index_by_placeholder ?cfg = (index_by_placeholder cfg)(?p \<mapsto> ?n)"
      "placeholder_first_byte ?cfg = (placeholder_first_byte cfg)(hd ?p := True)"
      "max_pending ?cfg = max (length ?p) (max_pending cfg)"
    using new by (simp_all add: add_entry_def Let_def)
  have old: "p \<noteq> [] \<and> i < ?n \<and> i < Suc ?n \<and> length p \<le> max (length ?p) (max_pending cfg) \<and> entry_placeholder (entries cfg ! i) = p \<and>
        placeholder_first_byte cfg (hd p) \<and> length p \<le> max_pending cfg"
    if "index_by_placeholder cfg p = Some i" for p i
    using assms that by (auto simp: tables_ok_def less_Suc_eq le_max_iff_disj)
  have "\<forall>e\<in>set (entries cfg). index_by_placeholder cfg (entry_placeholder e) \<noteq> None"
    using assms by (simp add: tables_ok_def)
  then show ?thesis unfolding tables_ok_def fields
    using new(1) old by (auto simp: nth_append split: if_splits)
qed

lemma tables_ok_fold: "tables_ok cfg \<Longrightarrow> tables_ok (fold add_entry reps cfg)"
  by (induction reps arbitrary: cfg) (simp_all add: tables_ok_add_entry)

lemma tables_ok_update [simp]:
  "tables_ok (cfg\<lparr>placeholder_lengths := ls\<rparr>) = tables_ok cfg"
  "tables_ok (cfg\<lparr>pinned := pn\<rparr>) = tables_ok cfg"
  "tables_ok (cfg\<lparr>cfg_scan := sc\<rparr>) = tables_ok cfg"
  by (simp_all add: tables_ok_def)

lemma tables_ok_raise: "tables_ok cfg \<Longrightarrow> max_pending cfg \<le> n \<Longrightarrow> tables_ok (cfg\<lparr>max_pending := n\<rparr>)"
  by (auto simp: tables_ok_def dest: order_trans)

lemma build_lookup_index_ok: "config_ok (build_lookup_index reps)"
proof -
  let ?cfg = "fold add_entry reps empty_config"
  have ok: "tables_ok ?cfg" by (rule tables_ok_fold) (simp add: tables_ok_def empty_config_def)
  have "length p \<in> (\<lambda>e. length (entry_placeholder e)) ` set (entries ?cfg)" if "p \<in> dom (index_by_placeholder ?cfg)" for p
    using ok that by (force simp: tables_ok_def)
  moreover have "entry_placeholder e \<noteq> []" if "e \<in> set (entries ?cfg)" for e
    using ok that by (force simp: tables_ok_def)
  ultimately show ?thesis using ok
    by (auto simp: config_ok_def lengths_ok_def build_lookup_index_def Let_def)
qed

text \<open>What \<open>make_config\<close> adds to the tables: the snapshot, a longer hold-back and the tolerant pass.\<close>

lemma make_config_tables:
  "\<exists>pn n sc. max_pending (build_lookup_index (replacements st)) \<le> n \<and>
     make_config st snapshot = (build_lookup_index (replacements st))\<lparr>pinned := pn, max_pending := n, cfg_scan := sc\<rparr>"
proof (cases snapshot)
  case None
  let ?c = "build_lookup_index (replacements st)"
  have "make_config st snapshot = ?c" by (simp add: make_config_def None)
  then show ?thesis
    by (intro exI [of _ "pinned ?c"] exI [of _ "max_pending ?c"] exI [of _ "cfg_scan ?c"]) simp
next
  case (Some reg)
  let ?c = "build_lookup_index (replacements st)"
  let ?rules = "resolve_rules reg (sort_by string_less (triggered_rule_ids st))"
  have "cfg_scan (fold add_entry reps cfg) = cfg_scan cfg" for reps cfg
    by (induction reps arbitrary: cfg) (simp_all add: add_entry_def Let_def)
  then have none: "cfg_scan ?c = None" by (simp add: build_lookup_index_def Let_def empty_config_def)
  show ?thesis
    by (intro exI [of _ "Some reg"] exI [of _ "max (max_placeholder_len ?rules) (max_pending ?c)"]
        exI [of _ "if sort_by string_less (triggered_rule_ids st) = [] \<or> ?rules = [] then None else Some (tolerant_scan ?rules)"])
      (simp add: make_config_def Some Let_def none max_def)
qed

lemma make_config_ok: "config_ok (make_config st snapshot)"
proof -
  from make_config_tables [of st snapshot] obtain pn n sc
    where n: "max_pending (build_lookup_index (replacements st)) \<le> n"
      and cfg: "make_config st snapshot = (build_lookup_index (replacements st))\<lparr>pinned := pn, max_pending := n, cfg_scan := sc\<rparr>"
    by (elim exE conjE) (rule that)
  show ?thesis using build_lookup_index_ok [of "replacements st"] n unfolding cfg
    by (auto simp: config_ok_def lengths_ok_def intro: tables_ok_raise)
qed

text \<open>The lookup is the association list of the replacements: blank placeholders are skipped and the
  first entry of a repeated one wins.\<close>

definition restored :: "bool \<Rightarrow> replacement \<Rightarrow> string" where
  "restored json r = (if json then encode_string (rep_original r) False else rep_original r)"

definition restore_pairs :: "bool \<Rightarrow> replacement list \<Rightarrow> (string \<times> string) list" where
  "restore_pairs json reps =
     map (\<lambda>r. (rep_placeholder r, restored json r)) (filter (\<lambda>r. rep_placeholder r \<noteq> []) reps)"

lemma lookup_add_entry:
  assumes "tables_ok cfg"
  shows "lookup (add_entry r cfg) p json =
    (case lookup cfg p json of
       Some v \<Rightarrow> Some v
     | None \<Rightarrow> if p = rep_placeholder r \<and> p \<noteq> [] then Some (restored json r) else None)"
proof -
  have "i < length (entries cfg)" if "index_by_placeholder cfg q = Some i" for q i
    using assms that by (simp add: tables_ok_def)
  then show ?thesis
    by (auto simp: lookup_def add_entry_def restored_def Let_def nth_append split: option.splits)
qed

lemma lookup_fold:
  "tables_ok cfg \<Longrightarrow> lookup (fold add_entry reps cfg) p json =
     (case lookup cfg p json of Some v \<Rightarrow> Some v | None \<Rightarrow> map_of (restore_pairs json reps) p)"
proof (induction reps arbitrary: cfg)
  case (Cons r reps)
  show ?case
    using Cons.IH [OF tables_ok_add_entry [OF Cons.prems]]
    by (simp add: lookup_add_entry [OF Cons.prems] restore_pairs_def split: option.split)
qed (simp add: restore_pairs_def split: option.split)

lemma lookup_update [simp]:
  "lookup (cfg\<lparr>placeholder_lengths := ls\<rparr>) = lookup cfg"
  "lookup (cfg\<lparr>pinned := pn, max_pending := n, cfg_scan := sc\<rparr>) = lookup cfg"
  by (simp_all add: lookup_def fun_eq_iff split: option.split)

lemma lookup_make_config:
  "lookup (make_config st snapshot) p json = map_of (restore_pairs json (replacements st)) p"
proof -
  from make_config_tables [of st snapshot] obtain pn n sc
    where cfg: "make_config st snapshot = (build_lookup_index (replacements st))\<lparr>pinned := pn, max_pending := n, cfg_scan := sc\<rparr>"
    by (elim exE conjE) (rule that)
  have "tables_ok empty_config" "lookup empty_config p json = None"
    by (simp_all add: tables_ok_def lookup_def empty_config_def)
  then show ?thesis unfolding cfg lookup_update
    by (simp add: build_lookup_index_def Let_def lookup_fold)
qed

lemma lookup_index: "lookup cfg p json \<noteq> None \<longleftrightarrow> index_by_placeholder cfg p \<noteq> None"
  by (simp add: lookup_def Let_def split: option.split)

section \<open>The exact pass refines its specification\<close>

definition exact_table :: "config \<Rightarrow> bool \<Rightarrow> string \<Rightarrow> string option" where
  "exact_table cfg json p = (if bracketed p \<and> length p \<le> max_pending cfg then lookup cfg p json else None)"

interpretation exact: bracketed_table "exact_table cfg json" "max_pending cfg" for cfg json
  by unfold_locales (auto simp: exact_table_def split: if_splits)

definition all_bracketed :: "config \<Rightarrow> bool" where
  "all_bracketed cfg \<longleftrightarrow> (\<forall>p\<in>dom (index_by_placeholder cfg). bracketed p)"

lemma exact_table_lookup:
  assumes "config_ok cfg" "all_bracketed cfg"
  shows "exact_table cfg json p = lookup cfg p json"
proof (cases "index_by_placeholder cfg p")
  case None
  then show ?thesis by (simp add: exact_table_def lookup_def)
next
  case (Some i)
  then have "bracketed p" "length p \<le> max_pending cfg"
    using assms by (auto simp: all_bracketed_def config_ok_def tables_ok_def)
  then show ?thesis by (simp add: exact_table_def)
qed

lemma best_entry_none:
  assumes "\<And>n. n \<in> set lens \<Longrightarrow> n \<le> length rest \<Longrightarrow>
      index_by_placeholder cfg (take n rest) = None \<or> best = Some (the (index_by_placeholder cfg (take n rest)), n)"
  shows "best_entry cfg rest lens best = best"
  using assms
proof (induction lens)
  case (Cons n lens)
  then have IH: "best_entry cfg rest lens best = best" by simp
  show ?case
  proof (cases "length rest < n")
    case False
    then have "index_by_placeholder cfg (take n rest) = None \<or>
        best = Some (the (index_by_placeholder cfg (take n rest)), n)" using Cons.prems by simp
    then show ?thesis using IH False by (auto split: option.split)
  qed simp
qed simp

lemma best_entry_unique:
  assumes "sorted lens" "n \<in> set lens" "n \<le> length rest" "index_by_placeholder cfg (take n rest) = Some i"
    "\<And>k. k \<in> set lens \<Longrightarrow> k \<le> length rest \<Longrightarrow> index_by_placeholder cfg (take k rest) \<noteq> None \<Longrightarrow> k = n"
  shows "best_entry cfg rest lens None = Some (i, n)"
  using assms
proof (induction lens)
  case Nil
  from Nil.prems(2) show ?case by simp
next
  case (Cons k lens)
  have le: "k \<le> length rest" using Cons.prems(1,2,3) by auto
  show ?case
  proof (cases "k = n")
    case True
    have "best_entry cfg rest lens (Some (i, n)) = Some (i, n)"
      using Cons.prems(4,5) by (intro best_entry_none) (metis list.set_intros(2) option.sel)
    then show ?thesis using True le Cons.prems(4) by simp
  next
    case False
    have "index_by_placeholder cfg (take k rest) = None" by (rule ccontr) (use Cons.prems(5) [of k] le False in simp)
    moreover have "best_entry cfg rest lens None = Some (i, n)"
      using Cons.prems False by (intro Cons.IH) auto
    ultimately show ?thesis using le by simp
  qed
qed

lemma hit_is_head:
  assumes "config_ok cfg" "all_bracketed cfg" "n \<le> length s" "index_by_placeholder cfg (take n s) \<noteq> None"
  shows "head_literal (exact_table cfg json) s = Some (the (lookup cfg (take n s) json), drop n s)"
proof -
  have "bracketed (take n s)" using assms(2,4) by (auto simp: all_bracketed_def)
  then have "head_literal (exact_table cfg json) (take n s @ drop n s) =
      map_option (\<lambda>v. (v, drop n s)) (exact_table cfg json (take n s))" by (rule head_literal_eq)
  moreover have "lookup cfg (take n s) json \<noteq> None" using assms(4) lookup_index by blast
  ultimately show ?thesis by (auto simp: exact_table_lookup [OF assms(1,2)])
qed

lemma best_entry_head:
  assumes ok: "config_ok cfg" "all_bracketed cfg"
  shows "best_entry cfg s (placeholder_lengths cfg) None =
    (case head_literal (exact_table cfg json) s of
       None \<Rightarrow> None
     | Some (v, rest) \<Rightarrow>
         (let n = length s - length rest in Some (the (index_by_placeholder cfg (take n s)), n))) \<and>
    (\<forall>v rest. head_literal (exact_table cfg json) s = Some (v, rest) \<longrightarrow>
       (let n = length s - length rest in 0 < n \<and> rest = drop n s \<and> lookup cfg (take n s) json = Some v \<and>
          placeholder_first_byte cfg (hd s)))"
proof (cases "head_literal (exact_table cfg json) s")
  case None
  have "index_by_placeholder cfg (take n s) = None" if "n \<le> length s" for n
    by (rule ccontr) (use hit_is_head [OF ok that, of json] None in simp)
  then have "best_entry cfg s (placeholder_lengths cfg) None = None" by (intro best_entry_none disjI1)
  then show ?thesis using None by simp
next
  case (Some vr)
  obtain v rest where vr: "vr = (v, rest)" by force
  obtain l where l: "s = l @ rest" "bracketed l" "exact_table cfg json l = Some v"
    using head_literal_SomeD [of "exact_table cfg json" s v rest] Some vr by auto
  let ?n = "length s - length rest"
  have n: "?n = length l" "take ?n s = l" "rest = drop ?n s" "?n \<le> length s" using l(1) by auto
  have v: "lookup cfg l json = Some v" using l(3) exact_table_lookup [OF ok] by simp
  then have idx: "index_by_placeholder cfg l \<noteq> None" using lookup_index by (metis option.distinct(1))
  then have "length l \<in> set (placeholder_lengths cfg)" "sorted (placeholder_lengths cfg)" "l \<noteq> []"
      "placeholder_first_byte cfg (hd l)"
    using ok(1) by (auto simp: config_ok_def lengths_ok_def tables_ok_def)
  moreover have "k = ?n" if "k \<le> length s" "index_by_placeholder cfg (take k s) \<noteq> None" for k
  proof -
    have "drop k s = rest" using hit_is_head [OF ok that, of json] Some vr by simp
    then show ?thesis using that(1) by (metis diff_diff_cancel length_drop)
  qed
  moreover have "index_by_placeholder cfg (take ?n s) = Some (the (index_by_placeholder cfg l))"
    using idx n(2) by auto
  ultimately have "best_entry cfg s (placeholder_lengths cfg) None = Some (the (index_by_placeholder cfg l), ?n)"
    using n(1,4) best_entry_unique by metis
  then show ?thesis
    using Some vr n v l \<open>l \<noteq> []\<close> \<open>placeholder_first_byte cfg (hd l)\<close> by (simp add: Let_def)
qed

lemma lookup_Some: "lookup cfg p json = Some v \<Longrightarrow>
    v = (let e = entries cfg ! the (index_by_placeholder cfg p) in if json then entry_json_original e else entry_original e)"
  by (auto simp: lookup_def Let_def split: option.splits)

lemma exact_loop_restore:
  assumes ok: "config_ok cfg" "all_bracketed cfg"
  shows "exact_loop cfg json s = Some (restore (exact_table cfg json) s)"
proof (induction s rule: length_induct)
  case (1 s)
  show ?case
  proof (cases s)
    case (Cons c cs)
    have IH: "exact_loop cfg json t = Some (restore (exact_table cfg json) t)" if "length t < length s" for t
      using 1 that by blast
    note best = best_entry_head [OF ok, of s json]
    show ?thesis
    proof (cases "head_literal (exact_table cfg json) s")
      case None
      then have "best_entry cfg s (placeholder_lengths cfg) None = None" using best by simp
      then show ?thesis using None IH [of cs] Cons by simp
    next
      case (Some vr)
      obtain v rest where vr: "vr = (v, rest)" by force
      let ?n = "length s - length rest"
      have hit: "0 < ?n" "rest = drop ?n s" "lookup cfg (take ?n s) json = Some v" "placeholder_first_byte cfg c"
          "best_entry cfg s (placeholder_lengths cfg) None = Some (the (index_by_placeholder cfg (take ?n s)), ?n)"
        using best Some vr Cons by (simp_all add: Let_def)
      have "exact_loop cfg json rest = Some (restore (exact_table cfg json) rest)"
        using IH head_literal_shorter [of "exact_table cfg json" s v rest] Some vr by auto
      then show ?thesis
        using hit lookup_Some [OF hit(3)] Some vr unfolding Cons by (simp add: Let_def)
    qed
  qed simp
qed

lemma apply_exact_restore:
  assumes ok: "config_ok cfg" "all_bracketed cfg"
  shows "apply_exact cfg json s = Some (restore (exact_table cfg json) s)"
proof (cases "placeholder_lengths cfg = []")
  case True
  then have "dom (index_by_placeholder cfg) = {}" using ok(1) by (auto simp: config_ok_def lengths_ok_def)
  then have "exact_table cfg json = Map.empty"
    by (intro ext) (simp add: exact_table_lookup [OF ok] lookup_def)
  moreover have "restore Map.empty t = t" for t :: string
    by (induction t) (simp_all add: head_literal_def Let_def)
  ultimately show ?thesis using True by (simp add: apply_exact_def)
qed (simp add: apply_exact_def exact_loop_restore [OF ok])

section \<open>UTF-8 boundaries\<close>

lemma rune_start_before_le: "rune_start_before s i = Some j \<Longrightarrow> j \<le> i \<and> is_rune_start (s ! j)"
proof (induction i)
  case 0
  then show ?case using rune_start_before.simps [of s 0] by (auto split: if_splits)
next
  case (Suc i)
  then show ?case using rune_start_before.simps [of s "Suc i"] by (auto split: if_splits)
qed

lemma utf8_safe_prefix_end_le: "e \<le> length s \<Longrightarrow> utf8_safe_prefix_end s e \<le> e"
  by (auto simp: utf8_safe_prefix_end_def dest!: rune_start_before_le split: option.split)

section \<open>The stream\<close>

text \<open>A whole stream: every chunk in turn, then the flush of what is still held back.\<close>

fun demask_stream :: "demasker \<Rightarrow> string list \<Rightarrow> demask_error + string" where
  "demask_stream d [] = fst (demask_chunk [] True d)"
| "demask_stream d (c # cs) =
     (case demask_chunk c False d of
        (Inl e, _) \<Rightarrow> Inl e
      | (Inr out, d') \<Rightarrow> map_sum id (\<lambda>rest. out @ rest) (demask_stream d' cs))"

lemma demask_chunk_flush:
  assumes "config_ok (dm_config d)" "all_bracketed (dm_config d)" "cfg_scan (dm_config d) = None"
  shows "demask_chunk c True d =
    (Inr (restore (exact_table (dm_config d) (json_ctx d)) (pending d @ c)), d\<lparr>pending := []\<rparr>)"
  using assms by (auto simp: demask_chunk_def Let_def apply_exact_restore apply_placeholder_regex_def)

text \<open>One unflushed call: all but at least \<open>max_pending\<close> bytes of the restored buffer are emitted.\<close>

lemma demask_chunk_emit:
  assumes "config_ok (dm_config d)" "all_bracketed (dm_config d)" "cfg_scan (dm_config d) = None"
  shows "\<exists>e. (e = 0 \<or> e + max_pending (dm_config d) \<le>
        length (restore (exact_table (dm_config d) (json_ctx d)) (pending d @ c))) \<and>
    demask_chunk c False d =
      (Inr (take e (restore (exact_table (dm_config d) (json_ctx d)) (pending d @ c))),
       d\<lparr>pending := drop e (restore (exact_table (dm_config d) (json_ctx d)) (pending d @ c))\<rparr>)"
proof (cases "pending d @ c = []")
  case True
  then show ?thesis by (intro exI [of _ 0]) (simp add: demask_chunk_def Let_def)
next
  case False
  let ?s = "restore (exact_table (dm_config d) (json_ctx d)) (pending d @ c)"
  let ?e = "utf8_safe_prefix_end ?s (length ?s - max_pending (dm_config d))"
  have chunk: "demask_chunk c False d =
      (if length ?s \<le> max_pending (dm_config d) \<or> ?e = 0 then (Inr [], d\<lparr>pending := ?s\<rparr>)
       else (Inr (take ?e ?s), d\<lparr>pending := drop ?e ?s\<rparr>))"
    using assms False by (simp add: demask_chunk_def Let_def apply_exact_restore apply_placeholder_regex_def)
  show ?thesis
  proof (cases "length ?s \<le> max_pending (dm_config d) \<or> ?e = 0")
    case True
    then show ?thesis by (intro exI [of _ 0]) (simp add: chunk)
  next
    case False
    have "?e \<le> length ?s - max_pending (dm_config d)" by (rule utf8_safe_prefix_end_le) simp
    then show ?thesis using False by (intro exI [of _ ?e]) (auto simp: chunk)
  qed
qed

lemma demask_stream_restore:
  assumes ok: "config_ok (dm_config d)" "all_bracketed (dm_config d)" "cfg_scan (dm_config d) = None"
    and free: "literal_free (exact_table (dm_config d) (json_ctx d))
      (restore (exact_table (dm_config d) (json_ctx d)) (pending d @ concat cs))"
  shows "demask_stream d cs = Inr (restore (exact_table (dm_config d) (json_ctx d)) (pending d @ concat cs))"
  using assms
proof (induction cs arbitrary: d)
  case Nil
  then show ?case by (simp add: demask_chunk_flush)
next
  case (Cons c cs)
  let ?t = "exact_table (dm_config d) (json_ctx d)"
  let ?z = "pending d @ c" and ?r = "concat cs"
  let ?s = "restore ?t ?z"
  obtain e where e: "e = 0 \<or> e + max_pending (dm_config d) \<le> length ?s"
      "demask_chunk c False d = (Inr (take e ?s), d\<lparr>pending := drop e ?s\<rparr>)"
    using demask_chunk_emit [OF Cons.prems(1,2,3)] by blast
  have free: "literal_free ?t (restore ?t (?z @ ?r))" using Cons.prems(4) by simp
  have "restore ?t (?z @ ?r) = restore ?t (?s @ ?r)" by (rule exact.restore_restart [OF free, symmetric])
  also have "\<dots> = take e ?s @ restore ?t (drop e ?s @ ?r)"
    using e(1) exact.restore_emit [OF exact.restore_prefix_free [OF free], of e ?r] by auto
  finally have out: "restore ?t (?z @ ?r) = take e ?s @ restore ?t (drop e ?s @ ?r)" .
  then have "literal_free ?t (restore ?t (drop e ?s @ ?r))" using free literal_free_append by metis
  then have "demask_stream (d\<lparr>pending := drop e ?s\<rparr>) cs = Inr (restore ?t (drop e ?s @ ?r))"
    using Cons.IH [of "d\<lparr>pending := drop e ?s\<rparr>"] Cons.prems(1,2,3) by simp
  then show ?case using e(2) out by simp
qed

lemma demask_all_restore:
  assumes "config_ok cfg" "all_bracketed cfg" "cfg_scan cfg = None"
  shows "demask_all cfg s json = Inr (restore (exact_table cfg json) s)"
  using demask_chunk_flush [of "new_demasker cfg json" s] assms by (simp add: demask_all_def new_demasker_def)

lemma make_config_bracketed:
  assumes "\<forall>r\<in>set (replacements st). bracketed (rep_placeholder r)"
  shows "all_bracketed (make_config st snapshot)"
  unfolding all_bracketed_def
proof
  fix p assume "p \<in> dom (index_by_placeholder (make_config st snapshot))"
  then have "map_of (restore_pairs False (replacements st)) p \<noteq> None"
    using lookup_index [of "make_config st snapshot" p False] by (auto simp: lookup_make_config)
  then show "bracketed p" using assms by (force simp: restore_pairs_def dest!: map_of_SomeD)
qed

lemma literal_free_make_config:
  assumes "\<forall>r\<in>set (replacements st). \<not> sublist (rep_placeholder r) s"
  shows "literal_free (exact_table (make_config st snapshot) json) s"
  unfolding literal_free_def
proof
  fix p assume "p \<in> dom (exact_table (make_config st snapshot) json)"
  then have "map_of (restore_pairs json (replacements st)) p \<noteq> None"
    by (auto simp: exact_table_def lookup_make_config split: if_splits)
  then show "\<not> sublist p s" using assms by (force simp: restore_pairs_def dest!: map_of_SomeD)
qed

lemma make_config_scan: "cfg_scan (make_config st None) = None"
proof -
  have "cfg_scan (fold add_entry reps cfg) = cfg_scan cfg" for reps cfg
    by (induction reps arbitrary: cfg) (simp_all add: add_entry_def Let_def)
  then show ?thesis by (simp add: make_config_def build_lookup_index_def Let_def empty_config_def)
qed


section \<open>The emit boundary never splits a rune\<close>

text \<open>A well-formed rune: a lead byte that announces its length, then continuation bytes.\<close>

definition rune_ok :: "string \<Rightarrow> bool" where
  "rune_ok r \<longleftrightarrow> r \<noteq> [] \<and> is_rune_start (hd r) \<and> rune_width (hd r) = length r \<and>
     list_all (\<lambda>c. \<not> is_rune_start c) (tl r)"

definition boundary :: "string list \<Rightarrow> nat \<Rightarrow> nat" where
  "boundary rs k = length (concat (take k rs))"

lemma boundary_Suc: "k < length rs \<Longrightarrow> boundary rs (Suc k) = boundary rs k + length (rs ! k)"
  by (simp add: boundary_def take_Suc_conv_app_nth)

lemma boundary_mono: "j \<le> k \<Longrightarrow> boundary rs j \<le> boundary rs k"
proof -
  assume "j \<le> k"
  then have "take k rs = take j rs @ take (k - j) (drop j rs)" by (metis le_add_diff_inverse take_add)
  then show ?thesis by (simp add: boundary_def)
qed

lemma boundary_around:
  "i < length (concat rs) \<Longrightarrow> \<exists>k<length rs. boundary rs k \<le> i \<and> i < boundary rs (Suc k)"
proof (induction rs arbitrary: i)
  case (Cons r rs)
  show ?case
  proof (cases "i < length r")
    case True
    then show ?thesis by (intro exI [of _ 0]) (simp add: boundary_def)
  next
    case False
    then have "i - length r < length (concat rs)" using Cons.prems by simp
    then obtain k where "k < length rs" "boundary rs k \<le> i - length r" "i - length r < boundary rs (Suc k)"
      using Cons.IH by blast
    then show ?thesis using False by (intro exI [of _ "Suc k"]) (auto simp: boundary_def)
  qed
qed simp

lemma nth_in_rune:
  assumes "k < length rs" "j < length (rs ! k)"
  shows "concat rs ! (boundary rs k + j) = rs ! k ! j" "boundary rs k + length (rs ! k) \<le> length (concat rs)"
proof -
  have "concat rs = concat (take k rs) @ rs ! k @ concat (drop (Suc k) rs)"
    using id_take_nth_drop [OF assms(1)] by (metis concat.simps(2) concat_append)
  then show "concat rs ! (boundary rs k + j) = rs ! k ! j" "boundary rs k + length (rs ! k) \<le> length (concat rs)"
    using assms(2) by (simp_all add: boundary_def nth_append)
qed

lemma rune_start_before_found:
  "j \<le> i \<Longrightarrow> is_rune_start (s ! j) \<Longrightarrow> (\<And>k. j < k \<Longrightarrow> k \<le> i \<Longrightarrow> \<not> is_rune_start (s ! k)) \<Longrightarrow>
     rune_start_before s i = Some j"
proof (induction i)
  case 0
  then show ?case using rune_start_before.simps [of s 0] by simp
next
  case (Suc i)
  then show ?case using rune_start_before.simps [of s "Suc i"] by (cases "j = Suc i") auto
qed

lemma rune_ok_nth:
  assumes "rune_ok r" "j < length r"
  shows "is_rune_start (r ! j) \<longleftrightarrow> j = 0"
proof (cases j)
  case 0
  then show ?thesis using assms by (cases r) (simp_all add: rune_ok_def)
next
  case (Suc i)
  then have "r ! j = tl r ! i" "i < length (tl r)" using assms(2) by (simp_all add: nth_tl)
  then show ?thesis using assms(1) Suc by (simp add: rune_ok_def list_all_length)
qed

text \<open>C20. The emit boundary is the greatest rune boundary that is not after the requested end, so a chunk
  of well-formed UTF-8 is never cut inside a rune and nothing more than needed is held back.\<close>

theorem utf8_safe_prefix_end_greatest:
  assumes "list_all rune_ok rs"
  shows "\<exists>k\<le>length rs. utf8_safe_prefix_end (concat rs) e = boundary rs k \<and> boundary rs k \<le> e \<and>
    (\<forall>j\<le>length rs. boundary rs j \<le> e \<longrightarrow> boundary rs j \<le> boundary rs k)"
proof -
  let ?s = "concat rs"
  have full: "boundary rs (length rs) = length ?s" by (simp add: boundary_def)
  consider (zero) "e = 0" | (past) "length ?s \<le> e" "e \<noteq> 0" | (inside) "0 < e" "e < length ?s" by linarith
  then show ?thesis
  proof cases
    case zero
    then show ?thesis by (intro exI [of _ 0]) (simp add: utf8_safe_prefix_end_def boundary_def)
  next
    case past
    then show ?thesis using full boundary_mono [of _ "length rs" rs]
      by (intro exI [of _ "length rs"]) (simp add: utf8_safe_prefix_end_def)
  next
    case inside
    have "e - 1 < length ?s" using inside by linarith
    then obtain k where k: "k < length rs" "boundary rs k \<le> e - 1" "e - 1 < boundary rs (Suc k)"
      using boundary_around by blast
    let ?b = "boundary rs k" and ?r = "rs ! k"
    have r: "rune_ok ?r" using assms k(1) by (simp add: list_all_length)
    have start: "is_rune_start (?s ! (?b + j)) \<longleftrightarrow> j = 0" if "j < length ?r" for j
      using nth_in_rune(1) [OF k(1) that] rune_ok_nth [OF r that] by simp
    have ne: "0 < length ?r" using r by (auto simp: rune_ok_def)
    have "rune_start_before ?s (e - 1) = Some ?b"
    proof (rule rune_start_before_found)
      fix i assume "?b < i" "i \<le> e - 1"
      then show "\<not> is_rune_start (?s ! i)"
        using start [of "i - ?b"] k(3) boundary_Suc [OF k(1)] by simp
    qed (use k start [of 0] ne in simp_all)
    moreover have "rune_len_at ?s ?b = length ?r"
    proof -
      have "?s ! ?b = hd ?r" using nth_in_rune(1) [OF k(1), of 0] ne by (simp add: hd_conv_nth)
      then have "rune_width (?s ! ?b) = length ?r" using r by (simp add: rune_ok_def)
      moreover have "\<not> list_ex (\<lambda>j. is_rune_start (?s ! (?b + j))) [1..<length ?r]"
        using start by (auto simp: list_ex_iff)
      moreover have "?b + length ?r \<le> length ?s" using nth_in_rune(2) [OF k(1)] ne by blast
      moreover from this have "?b < length ?s" using ne by linarith
      ultimately show ?thesis by (simp add: rune_len_at_def Let_def)
    qed
    ultimately have u: "utf8_safe_prefix_end ?s e = (if boundary rs (Suc k) \<le> e then e else ?b)"
      using inside boundary_Suc [OF k(1)] by (simp add: utf8_safe_prefix_end_def)
    have later: "e \<le> boundary rs j" if "Suc k \<le> j" for j using boundary_mono [OF that, of rs] k(3) by linarith
    show ?thesis
    proof (cases "boundary rs (Suc k) \<le> e")
      case True
      then have "boundary rs (Suc k) = e" using k(3) by linarith
      then show ?thesis using u k(1) by (intro exI [of _ "Suc k"]) simp
    next
      case False
      have "boundary rs j \<le> ?b" if "boundary rs j \<le> e" for j
      proof (cases "j \<le> k")
        case False
        then have "boundary rs (Suc k) \<le> boundary rs j" by (intro boundary_mono) simp
        then show ?thesis using \<open>\<not> boundary rs (Suc k) \<le> e\<close> that by linarith
      qed (rule boundary_mono)
      then show ?thesis using False u k(1,2) by (intro exI [of _ k]) simp
    qed
  qed
qed

text \<open>C7. The streaming contract of one call, with any tolerant pass: on success the emitted bytes
  followed by what is held back are exactly the demasked buffer, a flush holds nothing back, and
  without a flush at least \<open>max_pending\<close> bytes (or all) are held back; on an error the buffer is in
  the exception, demasked by the exact pass, and nothing stays behind to be emitted twice.\<close>

theorem demask_chunk_contract:
  "demask_chunk chunk flush d = (r, d') \<Longrightarrow>
     dm_config d' = dm_config d \<and> json_ctx d' = json_ctx d \<and>
     (case r of
        Inr out \<Rightarrow>
          (pending d @ chunk = [] \<and> out = [] \<and> pending d' = [] \<or>
           (\<exists>exact. apply_exact (dm_config d) (json_ctx d) (pending d @ chunk) = Some exact \<and>
              apply_placeholder_regex (dm_config d) (json_ctx d) exact = Inr (out @ pending d') \<and>
              (flush \<longrightarrow> pending d' = []) \<and>
              (\<not> flush \<longrightarrow> out = [] \<or> max_pending (dm_config d) \<le> length (pending d'))))
      | Inl (DemaskError _ unemitted) \<Rightarrow>
          pending d' = [] \<and> apply_exact (dm_config d) (json_ctx d) (pending d @ chunk) = Some unemitted
      | Inl DemaskDiverges \<Rightarrow> pending d' = [])"
proof (cases "pending d @ chunk = []")
  case False
  assume call: "demask_chunk chunk flush d = (r, d')"
  show ?thesis
  proof (cases "apply_exact (dm_config d) (json_ctx d) (pending d @ chunk)")
    case None
    then show ?thesis using call False by (auto simp: demask_chunk_def Let_def)
  next
    case (Some exact)
    show ?thesis
    proof (cases "apply_placeholder_regex (dm_config d) (json_ctx d) exact")
      case (Inl e)
      then show ?thesis using call False Some by (cases e) (auto simp: demask_chunk_def Let_def)
    next
      case (Inr demasked)
      let ?n = "length demasked - max_pending (dm_config d)"
      have "utf8_safe_prefix_end demasked ?n \<le> ?n" by (rule utf8_safe_prefix_end_le) simp
      then show ?thesis using call False Some Inr
        by (auto simp: demask_chunk_def Let_def split: if_splits)
    qed
  qed
qed (auto simp: demask_chunk_def Let_def)

section \<open>The hold-back bound\<close>

lemma max_pending_add_entry:
  "tables_ok cfg \<Longrightarrow> max_pending (add_entry r cfg) = max (length (rep_placeholder r)) (max_pending cfg)"
  by (auto simp: add_entry_def Let_def max_def tables_ok_def)

lemma max_pending_fold:
  "tables_ok cfg \<Longrightarrow> max_pending (fold add_entry reps cfg) =
     Max (insert (max_pending cfg) ((\<lambda>r. length (rep_placeholder r)) ` set reps))"
proof (induction reps arbitrary: cfg)
  case (Cons r reps)
  have "max_pending (fold add_entry (r # reps) cfg) =
      Max (insert (max (length (rep_placeholder r)) (max_pending cfg)) ((\<lambda>r. length (rep_placeholder r)) ` set reps))"
    using Cons.IH [OF tables_ok_add_entry [OF Cons.prems]] by (simp add: max_pending_add_entry [OF Cons.prems])
  also have "\<dots> = Max (insert (max_pending cfg) ((\<lambda>r. length (rep_placeholder r)) ` set (r # reps)))"
    by (cases "reps = []") (simp_all add: max.assoc max.left_commute max.commute)
  finally show ?case .
qed simp

lemma max_placeholder_len_Max:
  "max_placeholder_len crs = Max (insert 0 (cr_placeholder_len ` set crs))"
proof -
  have "fold (\<lambda>cr n. if cr_placeholder_len cr > n then cr_placeholder_len cr else n) crs m =
      Max (insert m (cr_placeholder_len ` set crs))" for m
  proof (induction crs arbitrary: m)
    case (Cons cr crs)
    have "(if cr_placeholder_len cr > m then cr_placeholder_len cr else m) = max m (cr_placeholder_len cr)" by simp
    then show ?case using Cons.IH [of "max m (cr_placeholder_len cr)"]
      by (cases "crs = []") (simp_all add: max.assoc max.left_commute max.commute)
  qed simp
  then show ?thesis by (simp add: max_placeholder_len_def)
qed

lemma set_resolve_rules: "set (resolve_rules reg ids) = {cr. \<exists>i\<in>set ids. by_id reg i = Some cr}"
  by (induction ids) (auto split: option.splits)

text \<open>The hold-back of a stream is exactly the largest of the lengths of the request's placeholder
  literals and of the recogniser bounds of the triggered rules that the snapshot still knows.\<close>

theorem make_config_max_pending:
  "max_pending (make_config st snapshot) =
     Max ({0} \<union> (\<lambda>r. length (rep_placeholder r)) ` set (replacements st) \<union>
       (case snapshot of
          None \<Rightarrow> {}
        | Some reg \<Rightarrow> cr_placeholder_len ` {cr. \<exists>i. i \<in> set (triggered_rule_ids st) \<and> by_id reg i = Some cr}))"
proof -
  let ?L = "(\<lambda>r. length (rep_placeholder r)) ` set (replacements st)"
  have "tables_ok empty_config" by (simp add: tables_ok_def empty_config_def)
  then have lit: "max_pending (build_lookup_index (replacements st)) = Max (insert 0 ?L)"
    using max_pending_fold [of empty_config "replacements st"]
    by (simp add: build_lookup_index_def Let_def) (simp add: empty_config_def)
  show ?thesis
  proof (cases snapshot)
    case None
    then show ?thesis by (simp add: make_config_def lit)
  next
    case (Some reg)
    let ?rules = "resolve_rules reg (sort_by string_less (triggered_rule_ids st))"
    have rules: "set ?rules = {cr. \<exists>i. i \<in> set (triggered_rule_ids st) \<and> by_id reg i = Some cr}"
      by (auto simp: set_resolve_rules)
    have "max_pending (make_config st snapshot) =
        max (max_pending (build_lookup_index (replacements st))) (max_placeholder_len ?rules)"
      by (simp add: make_config_def Some Let_def max_def)
    also have "\<dots> = Max ({0} \<union> ?L \<union> cr_placeholder_len ` set ?rules)"
      unfolding lit max_placeholder_len_Max by (subst Max_Un [symmetric]) (simp_all add: Un_commute insert_absorb)
    finally show ?thesis by (simp add: Some rules)
  qed
qed

section \<open>Every call returns\<close>

lemma best_entry_length:
  "best_entry cfg rest lens best = Some (i, n) \<Longrightarrow> best = Some (i, n) \<or> n \<in> set lens"
  by (induction lens arbitrary: best) (auto split: if_splits option.splits)

lemma exact_loop_total:
  assumes "config_ok cfg"
  shows "\<exists>out. exact_loop cfg json s = Some out"
proof (induction s rule: length_induct)
  case (1 s)
  show ?case
  proof (cases s)
    case (Cons c cs)
    have IH: "\<exists>out. exact_loop cfg json t = Some out" if "length t < length s" for t using 1 that by blast
    show ?thesis
    proof (cases "best_entry cfg (c # cs) (placeholder_lengths cfg) None")
      case None
      then show ?thesis using IH [of cs] Cons by auto
    next
      case (Some bn)
      obtain b n where bn: "bn = (b, n)" by force
      then have "n \<in> set (placeholder_lengths cfg)" using best_entry_length [of cfg _ _ None b n] Some by blast
      then have "0 < n" using assms by (cases n) (auto simp: config_ok_def lengths_ok_def)
      then have "\<exists>out. exact_loop cfg json (drop n (c # cs)) = Some out" using IH Cons by simp
      then show ?thesis using Some bn \<open>0 < n\<close> IH [of cs] Cons by (auto simp: Let_def)
    qed
  qed simp
qed

lemma apply_exact_total: "config_ok cfg \<Longrightarrow> \<exists>out. apply_exact cfg json s = Some out"
  by (simp add: apply_exact_def exact_loop_total)

lemma scan_rule_loop_total:
  assumes "re2_contract re"
  shows "pos \<le> length text + 1 \<Longrightarrow> length text + 1 < pos + fuel \<Longrightarrow> \<exists>ms. scan_rule_loop fuel text cr re pos out = Some ms"
proof (induction fuel arbitrary: pos out)
  case (Suc fuel)
  show ?case
  proof (cases "re_match re text pos")
    case (Some sc)
    obtain s e caps where sc: "sc = ((s, e), caps)" by (metis prod.collapse)
    have "pos \<le> s" "s \<le> e" "e \<le> length text" using re2_contractD(1,2,3) [OF assms] Some sc by blast+
    then have "(if s < e then e else s + 1) \<le> length text + 1" "length text + 1 < (if s < e then e else s + 1) + fuel"
      using Suc.prems by auto
    then show ?thesis using Suc.IH Some sc by (simp add: Let_def)
  qed simp
qed simp

definition recognisers_ok :: "registry option \<Rightarrow> bool" where
  "recognisers_ok snapshot \<longleftrightarrow> (\<forall>reg i cr re. snapshot = Some reg \<longrightarrow> by_id reg i = Some cr \<longrightarrow>
     cr_placeholder_re cr = Some re \<longrightarrow> re2_contract re)"

lemma tolerant_scan_total:
  assumes "\<forall>cr\<in>set crs. \<forall>re. cr_placeholder_re cr = Some re \<longrightarrow> re2_contract re"
  shows "\<exists>ms. tolerant_scan crs text = Inr ms"
proof -
  have "\<exists>ms. scan_placeholder_rules text crs out = Inr ms" for out
    using assms
  proof (induction crs arbitrary: out)
    case (Cons cr crs)
    have "\<exists>ms. scan_rule text cr out = Inr ms"
    proof (cases "cr_placeholder_re cr")
      case (Some re)
      then have "\<exists>ms. scan_rule_loop (length text + 2) text cr re 0 out = Some ms"
        using Cons.prems by (intro scan_rule_loop_total) auto
      then show ?thesis using Some by (auto simp: scan_rule_def)
    qed (simp add: scan_rule_def)
    then show ?case using Cons.IH Cons.prems by fastforce
  qed simp
  then show ?thesis unfolding tolerant_scan_def by (metis map_sum.simps(2))
qed

lemma make_config_scan_cases:
  "cfg_scan (make_config st snapshot) = None \<or>
   (\<exists>reg. snapshot = Some reg \<and> cfg_scan (make_config st snapshot) =
      Some (tolerant_scan (resolve_rules reg (sort_by string_less (triggered_rule_ids st)))))"
proof (cases snapshot)
  case (Some reg)
  have "cfg_scan (make_config st None) = None" by (rule make_config_scan)
  then show ?thesis by (simp add: make_config_def Some Let_def)
qed (simp add: make_config_scan)

lemma collect_replacements_not_diverging: "collect_replacements cfg json text ms \<noteq> Inl ScanDiverges"
proof (induction ms)
  case (Cons m ms)
  then show ?case by (cases "collect_replacements cfg json text ms") (auto split: option.split)
qed simp

lemma demask_all_total:
  assumes "recognisers_ok snapshot"
  shows "demask_all (make_config st snapshot) s json \<noteq> Inl DemaskDiverges"
proof -
  let ?cfg = "make_config st snapshot"
  obtain exact where exact: "apply_exact ?cfg json s = Some exact" using apply_exact_total [OF make_config_ok] by blast
  have "apply_placeholder_regex ?cfg json exact \<noteq> Inl ScanDiverges"
  proof (cases "cfg_scan ?cfg")
    case (Some scan)
    then obtain reg where reg: "snapshot = Some reg"
        "scan = tolerant_scan (resolve_rules reg (sort_by string_less (triggered_rule_ids st)))"
      using make_config_scan_cases [of st snapshot] by auto
    have "\<forall>cr\<in>set (resolve_rules reg (sort_by string_less (triggered_rule_ids st))).
        \<forall>re. cr_placeholder_re cr = Some re \<longrightarrow> re2_contract re"
      using assms reg(1) by (auto simp: set_resolve_rules recognisers_ok_def)
    then obtain ms where "scan exact = Inr ms" using tolerant_scan_total reg(2) by blast
    then show ?thesis using Some collect_replacements_not_diverging [of ?cfg json exact ms]
      by (cases "collect_replacements ?cfg json exact ms") (auto simp: apply_placeholder_regex_def)
  qed (simp add: apply_placeholder_regex_def)
  then show ?thesis using exact
    by (auto simp: demask_all_def demask_chunk_def new_demasker_def Let_def split: sum.split scan_error.split)
qed


section \<open>Witnesses\<close>

definition sample_state :: masking_state where
  "sample_state = \<lparr>triggered_rule_ids = [''r''], triggered_data_types = [dt_credentials],
     replacements = [\<lparr>rep_rule_id = ''r'', rep_data_type = dt_credentials, rep_original = ''k1'',
                      rep_placeholder = ''<S_1>''\<rparr>], state_format = []\<rparr>"

lemma sample_state_bracketed: "bracketed ''<S_1>''"
  unfolding bracketed_def by (intro exI [of _ "''S_1''"]) (simp add: is_bracket_char_def)


theorem utf8_safe_prefix_end_greatest_witness:
  "\<exists>k\<le>length [''a'', [CHR 0xC3, CHR 0xA9]]. utf8_safe_prefix_end (concat [''a'', [CHR 0xC3, CHR 0xA9]]) 2 =
     boundary [''a'', [CHR 0xC3, CHR 0xA9]] k"
proof -
  have "list_all rune_ok [''a'', [CHR 0xC3, CHR 0xA9]]" by code_simp
  from utf8_safe_prefix_end_greatest [OF this, of 2] show ?thesis by blast
qed

theorem demask_chunk_contract_witness:
  "pending (snd (demask_chunk ''x'' True (new_demasker (make_config sample_state None) False))) = []"
proof -
  have "demask_chunk ''x'' True (new_demasker (make_config sample_state None) False) =
      (Inr ''x'', new_demasker (make_config sample_state None) False)"
    by (simp add: demask_chunk_def Let_def new_demasker_def apply_exact_restore make_config_ok
        make_config_bracketed sample_state_def sample_state_bracketed apply_placeholder_regex_def make_config_scan
        head_literal_def)
  from demask_chunk_contract [OF this] this show ?thesis by auto
qed


end
