(* ===== verification/Sse.thy ===== *)
theory Sse
  imports Json
begin

text \<open>
  \<open>src/src/guard/sse/Common.hpp\<close>: splitting the bytes of a server-sent event stream into frames,
  classifying a frame, tracking where a streamed JSON object closes, and recording the masked text.
\<close>

section \<open>Definitions\<close>

subsection \<open>Frames\<close>

definition lf_char :: char where "lf_char = CHR 0x0A"
definition cr_char :: char where "cr_char = CHR 0x0D"

definition kFrameSepLF :: string where "kFrameSepLF = [lf_char, lf_char]"
definition kFrameSepCRLF :: string where "kFrameSepCRLF = [cr_char, lf_char, cr_char, lf_char]"
definition kDataLinePrefix :: string where "kDataLinePrefix = ''data:''"
definition kDoneSentinel :: string where "kDoneSentinel = ''[DONE]''"
definition kDataPrefix :: string where "kDataPrefix = ''data: ''"

record found_separator =
  fs_sep :: string
  fs_idx :: "nat option"

definition find_frame_separator :: "string \<Rightarrow> found_separator" where
  "find_frame_separator data =
     (let lf_idx = find_sub kFrameSepLF data; crlf_idx = find_sub kFrameSepCRLF data in
      case crlf_idx of
        Some c \<Rightarrow>
          if (case lf_idx of None \<Rightarrow> True | Some l \<Rightarrow> c < l)
          then \<lparr>fs_sep = kFrameSepCRLF, fs_idx = crlf_idx\<rparr>
          else \<lparr>fs_sep = kFrameSepLF, fs_idx = lf_idx\<rparr>
      | None \<Rightarrow> \<lparr>fs_sep = kFrameSepLF, fs_idx = lf_idx\<rparr>)"

text \<open>The line and the rest.\<close>

definition next_line :: "string \<Rightarrow> string \<times> string" where
  "next_line buf =
     (case find_char lf_char buf of
        None \<Rightarrow> (buf, [])
      | Some idx \<Rightarrow> (take idx buf, drop (idx + 1) buf))"

definition trim_trailing_cr :: "string \<Rightarrow> string" where
  "trim_trailing_cr line = (if line \<noteq> [] \<and> last line = cr_char then butlast line else line)"

record frame_split =
  sse_frames :: "string list"
  sse_tail :: string

function split_frames :: "string \<Rightarrow> frame_split" where
  "split_frames buf =
     (if buf = [] then \<lparr>sse_frames = [], sse_tail = []\<rparr>
      else let found = find_frame_separator buf in
        case fs_idx found of
          None \<Rightarrow> \<lparr>sse_frames = [], sse_tail = buf\<rparr>
        | Some idx \<Rightarrow>
            let e = idx + length (fs_sep found); rest = split_frames (drop e buf)
            in rest\<lparr>sse_frames := take e buf # sse_frames rest\<rparr>)"
  by pat_completeness auto

lemma fs_sep_nonempty: "0 < length (fs_sep (find_frame_separator buf))"
  by (auto simp: find_frame_separator_def kFrameSepLF_def kFrameSepCRLF_def Let_def split: option.split)

termination split_frames
  by (relation "measure length") (use fs_sep_nonempty in \<open>auto simp: length_greater_0_conv\<close>)

declare split_frames.simps [simp del]

datatype frame_kind = FrameEvent | FrameDone | FramePassthrough

record classified_frame =
  cf_kind :: frame_kind
  cf_data :: string
  cf_raw :: string

text \<open>The walk over the lines: the data joined so far, \<^const>\<open>None\<close> before the first \<open>data:\<close> line.\<close>

definition data_payload :: "string \<Rightarrow> string" where
  "data_payload trimmed =
     (let payload = drop (length kDataLinePrefix) trimmed in
      if payload \<noteq> [] \<and> hd payload = CHR 0x20 then tl payload else payload)"

lemma next_line_shorter: "buf \<noteq> [] \<Longrightarrow> length (snd (next_line buf)) < length buf"
  by (auto simp: next_line_def split: option.split)

function classify_lines :: "string \<Rightarrow> string option \<Rightarrow> frame_kind \<times> string" where
  "classify_lines rest data =
     (if rest = [] then
        (let joined = (case data of None \<Rightarrow> [] | Some d \<Rightarrow> d) in
         (if joined = [] then FramePassthrough else FrameEvent, joined))
      else
        let trimmed = trim_trailing_cr (fst (next_line rest)); rest' = snd (next_line rest) in
        if trimmed = [] then classify_lines rest' data
        else if take (length kDataLinePrefix) trimmed \<noteq> kDataLinePrefix then classify_lines rest' data
        else let payload = data_payload trimmed in
          if payload = kDoneSentinel then (FrameDone, case data of None \<Rightarrow> [] | Some d \<Rightarrow> d)
          else classify_lines rest' (Some (case data of None \<Rightarrow> payload | Some d \<Rightarrow> d @ lf_char # payload)))"
  by pat_completeness auto
termination
  by (relation "measure (\<lambda>(rest, data). length rest)") (simp_all add: next_line_shorter)

declare classify_lines.simps [simp del]

definition classify_frame :: "string \<Rightarrow> classified_frame" where
  "classify_frame frame =
     (let (kind, data) = classify_lines frame None in \<lparr>cf_kind = kind, cf_data = data, cf_raw = frame\<rparr>)"

definition build_event_frame :: "string \<Rightarrow> string" where
  "build_event_frame data = kDataPrefix @ data @ [lf_char, lf_char]"

subsection \<open>The close of a streamed object\<close>

text \<open>The depth is an \<open>int\<close> and a stray closing brace takes it below zero.\<close>

record json_close_tracker =
  brace_depth :: int
  in_string :: bool
  escaped :: bool
  opened :: bool
  closed :: bool

definition fresh_tracker :: json_close_tracker where
  "fresh_tracker = \<lparr>brace_depth = 0, in_string = False, escaped = False, opened = False, closed = False\<rparr>"

definition feed_byte :: "char \<Rightarrow> json_close_tracker \<Rightarrow> json_close_tracker" where
  "feed_byte c t =
     (if escaped t then t\<lparr>escaped := False\<rparr>
      else if c = CHR 0x5C then t\<lparr>escaped := True\<rparr>
      else if c = CHR 0x22 then t\<lparr>in_string := \<not> in_string t\<rparr>
      else if in_string t then t
      else if c = CHR ''{'' then t\<lparr>brace_depth := brace_depth t + 1, opened := True\<rparr>
      else if c = CHR ''}'' then
        (let t' = t\<lparr>brace_depth := brace_depth t - 1\<rparr> in
         if opened t' \<and> brace_depth t' = 0 then t'\<lparr>closed := True\<rparr> else t')
      else t)"

definition feed :: "string \<Rightarrow> json_close_tracker \<Rightarrow> json_close_tracker" where
  "feed fragment t = fold feed_byte fragment t"

definition reset :: "json_close_tracker \<Rightarrow> json_close_tracker" where
  "reset t = t\<lparr>brace_depth := 0, in_string := False, escaped := False, opened := False, closed := False\<rparr>"

subsection \<open>The recorder\<close>

record recorder =
  by_key :: "string \<Rightarrow> string option"
  key_order :: "string list"

definition new_recorder :: recorder where
  "new_recorder = \<lparr>by_key = Map.empty, key_order = []\<rparr>"

definition record_text :: "string \<Rightarrow> string \<Rightarrow> recorder \<Rightarrow> recorder" where
  "record_text key text r =
     (if text = [] then r
      else case by_key r key of
        None \<Rightarrow> r\<lparr>key_order := key_order r @ [key], by_key := (by_key r)(key \<mapsto> text)\<rparr>
      | Some old \<Rightarrow> r\<lparr>by_key := (by_key r)(key \<mapsto> old @ text)\<rparr>)"

definition recorded_texts :: "recorder \<Rightarrow> string list" where
  "recorded_texts r = filter (\<lambda>s. s \<noteq> []) (map (\<lambda>k. the (by_key r k)) (key_order r))"

section \<open>Splitting into frames\<close>

lemma prefix_drop_append:
  assumes "j + length p \<le> length a"
  shows "prefix p (drop j (a @ b)) \<longleftrightarrow> prefix p (drop j a)"
proof -
  have "length p \<le> length (drop j a)" "drop j (a @ b) = drop j a @ b" using assms by simp_all
  then show ?thesis by (auto simp: prefix_append dest: prefix_length_le)
qed

lemma find_sub_append:
  assumes "find_sub p a = Some i"
  shows "find_sub p (a @ b) = Some i"
proof (rule find_sub_Some_intro)
  note i = find_sub_SomeD [OF assms] find_sub_length [OF assms]
  show "prefix p (drop i (a @ b))" using i by (simp only: prefix_drop_append)
  show "i \<le> length (a @ b)" using i by simp
  show "\<not> prefix p (drop j (a @ b))" if "j < i" for j
    using prefix_drop_append [of j p a b] i that by auto
qed

lemma find_sub_append_late:
  assumes "find_sub p a = None" "find_sub p (a @ b) = Some c"
  shows "length a < c + length p"
proof (rule ccontr)
  assume "\<not> length a < c + length p"
  then have "prefix p (drop c a)" using find_sub_SomeD [OF assms(2)] prefix_drop_append [of c p a b] by simp
  then show False using find_sub_NoneD [OF assms(1)] by blast
qed

definition has_separator :: "string \<Rightarrow> bool" where
  "has_separator s \<longleftrightarrow> sublist kFrameSepLF s \<or> sublist kFrameSepCRLF s"

definition is_separator :: "string \<Rightarrow> bool" where
  "is_separator s \<longleftrightarrow> s = kFrameSepLF \<or> s = kFrameSepCRLF"

lemma find_frame_separator_None: "fs_idx (find_frame_separator buf) = None \<longleftrightarrow> \<not> has_separator buf"
  by (auto simp: find_frame_separator_def has_separator_def find_sub_None_iff [symmetric] Let_def split: option.split)

lemma find_frame_separator_Some:
  assumes "fs_idx (find_frame_separator buf) = Some i"
  shows "is_separator (fs_sep (find_frame_separator buf)) \<and>
    find_sub (fs_sep (find_frame_separator buf)) buf = Some i"
  using assms by (auto simp: find_frame_separator_def is_separator_def Let_def split: option.splits if_splits)

lemma separators_apart:
  assumes "find_sub kFrameSepLF buf = Some l" "find_sub kFrameSepCRLF buf = Some c" "c < l"
  shows "c + 4 \<le> l + 2"
proof -
  obtain u where u: "drop l buf = lf_char # lf_char # u" using find_sub_SomeD [OF assms(1)] by (auto simp: kFrameSepLF_def prefix_def)
  obtain v where v: "drop c buf = cr_char # lf_char # cr_char # lf_char # v"
    using find_sub_SomeD [OF assms(2)] by (auto simp: kFrameSepCRLF_def prefix_def)
  have l: "buf ! (l + k) = (lf_char # lf_char # u) ! k" if "l + k \<le> length buf" "k < 2" for k
    using u that find_sub_length [OF assms(1)] by (metis le_add1 le_trans nth_drop)
  have c: "buf ! (c + k) = (cr_char # lf_char # cr_char # lf_char # v) ! k" if "k < 4" for k
    using v that find_sub_length [OF assms(2)] by (metis le_add1 le_trans nth_drop)
  have "l \<noteq> c + 1"
  proof
    assume "l = c + 1"
    then have "buf ! (c + 2) = lf_char" using l [of 1] find_sub_length [OF assms(1)] by (simp add: kFrameSepLF_def)
    then show False using c [of 2] by (simp add: lf_char_def cr_char_def)
  qed
  then show ?thesis using assms(3) by linarith
qed

lemma find_frame_separator_append:
  assumes "fs_idx (find_frame_separator a) = Some i"
  shows "find_frame_separator (a @ b) = find_frame_separator a"
proof (cases "find_sub kFrameSepLF a")
  case None
  then obtain c where c: "find_sub kFrameSepCRLF a = Some c"
    using assms by (auto simp: find_frame_separator_def Let_def split: option.splits)
  have "c < l" if "find_sub kFrameSepLF (a @ b) = Some l" for l
    using find_sub_append_late [OF None that] find_sub_length [OF c]
    by (simp add: kFrameSepLF_def kFrameSepCRLF_def)
  then show ?thesis using c None find_sub_append [OF c, of b]
    by (auto simp: find_frame_separator_def Let_def split: option.split)
next
  case (Some l)
  note lf' = find_sub_append [OF Some, of b]
  show ?thesis
  proof (cases "find_sub kFrameSepCRLF a")
    case None
    have "\<not> c < l" if "find_sub kFrameSepCRLF (a @ b) = Some c" for c
    proof
      assume "c < l"
      then have "c + 4 \<le> l + 2" using separators_apart [OF lf' that] by blast
      moreover have "length a < c + 4" using find_sub_append_late [OF None that] by (simp add: kFrameSepCRLF_def)
      ultimately show False using find_sub_length [OF Some] by (simp add: kFrameSepLF_def)
    qed
    then show ?thesis using Some None lf'
      by (auto simp: find_frame_separator_def Let_def split: option.split)
  next
    case (Some c)
    then show ?thesis using \<open>find_sub kFrameSepLF a = Some l\<close> lf' find_sub_append [OF Some, of b]
      by (simp add: find_frame_separator_def)
  qed
qed

text \<open>Splitting a buffer into frames loses nothing: the frames followed by the tail are the buffer,
  every frame ends with a separator and holds none before it, and the tail holds none at all.\<close>

theorem split_frames_partition:
  "concat (sse_frames (split_frames buf)) @ sse_tail (split_frames buf) = buf \<and>
   list_all (\<lambda>f. \<exists>body sep. f = body @ sep \<and> is_separator sep \<and> find_sub sep f = Some (length body))
     (sse_frames (split_frames buf)) \<and>
   \<not> has_separator (sse_tail (split_frames buf))"
proof (induction buf rule: split_frames.induct)
  case (1 buf)
  show ?case
  proof (cases "buf = []")
    case True
    then show ?thesis by (simp add: split_frames.simps [of "[]"] has_separator_def kFrameSepLF_def kFrameSepCRLF_def)
  next
    case False
    show ?thesis
    proof (cases "fs_idx (find_frame_separator buf)")
      case None
      then have "\<not> has_separator buf" by (simp add: find_frame_separator_None)
      then show ?thesis using None False by (simp add: split_frames.simps [of buf] Let_def)
    next
      case (Some i)
      let ?sep = "fs_sep (find_frame_separator buf)"
      let ?e = "i + length ?sep"
      have split: "split_frames buf = (split_frames (drop ?e buf))\<lparr>sse_frames :=
          take ?e buf # sse_frames (split_frames (drop ?e buf))\<rparr>"
        using False Some by (simp add: split_frames.simps [of buf] Let_def)
      note sep = find_frame_separator_Some [OF Some]
      have at: "prefix ?sep (drop i buf)" "?e \<le> length buf"
        using sep find_sub_SomeD find_sub_length by blast+
      then obtain zs where "drop i buf = ?sep @ zs" by (auto simp: prefix_def)
      then have frame: "take ?e buf = take i buf @ ?sep" by (simp add: take_add)
      have "find_sub ?sep (take ?e buf) = Some i"
      proof (rule find_sub_Some_intro)
        show "prefix ?sep (drop i (take ?e buf))" using frame at(2) by simp
        show "i \<le> length (take ?e buf)" using at(2) by simp
        show "\<not> prefix ?sep (drop j (take ?e buf))" if "j < i" for j
          using find_sub_SomeD [of ?sep buf i] sep that prefix_drop_append [of j ?sep "take ?e buf" "drop ?e buf"] at(2)
          by simp
      qed
      moreover have "length (take i buf) = i" using at(2) by simp
      ultimately have "\<exists>body sep. take ?e buf = body @ sep \<and> is_separator sep \<and> find_sub sep (take ?e buf) = Some (length body)"
        using frame sep by (intro exI [of _ "take i buf"] exI [of _ ?sep]) simp
      moreover have "concat (sse_frames (split_frames (drop ?e buf))) @ sse_tail (split_frames (drop ?e buf)) = drop ?e buf \<and>
          list_all (\<lambda>f. \<exists>body sep. f = body @ sep \<and> is_separator sep \<and> find_sub sep f = Some (length body))
            (sse_frames (split_frames (drop ?e buf))) \<and>
          \<not> has_separator (sse_tail (split_frames (drop ?e buf)))"
        using "1.IH" [OF False refl Some refl] by simp
      ultimately show ?thesis by (simp add: split)
    qed
  qed
qed

text \<open>Splitting the first piece and then its tail together with the second gives the frames and the tail of
  the whole.\<close>

lemma split_frames_incremental:
  "split_frames (a @ b) =
     (let first = split_frames a; second = split_frames (sse_tail first @ b) in
      second\<lparr>sse_frames := sse_frames first @ sse_frames second\<rparr>)"
proof (induction a rule: split_frames.induct)
  case (1 a)
  show ?case
  proof (cases "a = []")
    case True
    then show ?thesis by (simp add: split_frames.simps [of "[]"])
  next
    case False
    show ?thesis
    proof (cases "fs_idx (find_frame_separator a)")
      case None
      then show ?thesis using False by (simp add: split_frames.simps [of a] Let_def)
    next
      case (Some i)
      let ?sep = "fs_sep (find_frame_separator a)"
      let ?e = "i + length ?sep"
      have e: "?e \<le> length a" using find_frame_separator_Some [OF Some] find_sub_length by blast
      have "split_frames a = (split_frames (drop ?e a))\<lparr>sse_frames :=
          take ?e a # sse_frames (split_frames (drop ?e a))\<rparr>"
        using False Some by (simp add: split_frames.simps [of a] Let_def)
      moreover have "split_frames (a @ b) = (split_frames (drop ?e a @ b))\<lparr>sse_frames :=
          take ?e a # sse_frames (split_frames (drop ?e a @ b))\<rparr>"
        using False Some e find_frame_separator_append [OF Some, of b]
        by (simp add: split_frames.simps [of "a @ b"] Let_def)
      moreover have "split_frames (drop ?e a @ b) =
          (let first = split_frames (drop ?e a); second = split_frames (sse_tail first @ b) in
           second\<lparr>sse_frames := sse_frames first @ sse_frames second\<rparr>)"
        using "1.IH" [OF False refl Some refl] by simp
      ultimately show ?thesis by (simp add: Let_def)
    qed
  qed
qed

text \<open>A reader keeps the tail between two reads.\<close>

definition read_frames :: "string \<Rightarrow> string \<Rightarrow> string list \<times> string" where
  "read_frames piece tail = (let split = split_frames (tail @ piece) in (sse_frames split, sse_tail split))"

interpretation frame_reader: piecewise read_frames "[]"
proof
  show "read_frames (p @ q) s = (let (out, s1) = read_frames p s; (out', s2) = read_frames q s1 in (out @ out', s2))" for p q s
    using split_frames_incremental [of "s @ p" q] by (simp add: read_frames_def Let_def)
  show "read_frames [] [] = ([], [])" by (simp add: read_frames_def split_frames.simps)
qed

text \<open>C19. Frames may arrive in any pieces: a reader that keeps the tail of what it has read and puts the next
  piece behind it gets the frames and the tail of the whole stream, wherever it was cut.\<close>

theorem split_frames_pieces:
  "run_pieces (\<lambda>piece tail. (sse_frames (split_frames (tail @ piece)), sse_tail (split_frames (tail @ piece)))) pieces [] =
     (sse_frames (split_frames (concat pieces)), sse_tail (split_frames (concat pieces)))"
  using frame_reader.run_pieces_concat [of pieces] by (simp add: read_frames_def [abs_def] Let_def)

section \<open>Classifying a frame\<close>

text \<open>A data payload that fits on one line, and the frame a sender builds of several of them.\<close>

definition line_payload :: "string \<Rightarrow> bool" where
  "line_payload d \<longleftrightarrow> lf_char \<notin> set d \<and> (d = [] \<or> last d \<noteq> cr_char) \<and> d \<noteq> kDoneSentinel"

definition data_line :: "string \<Rightarrow> string" where
  "data_line d = kDataPrefix @ d @ [lf_char]"

lemma next_line_eq: "lf_char \<notin> set l \<Longrightarrow> next_line (l @ lf_char # rest) = (l, rest)"
  by (simp add: next_line_def find_char_append)

lemma classify_data_line:
  assumes "lf_char \<notin> set d" "d = [] \<or> last d \<noteq> cr_char"
  shows "classify_lines (data_line d @ rest) data =
    (if d = kDoneSentinel then (FrameDone, case data of None \<Rightarrow> [] | Some x \<Rightarrow> x)
     else classify_lines rest (Some (case data of None \<Rightarrow> d | Some x \<Rightarrow> x @ lf_char # d)))"
proof -
  have "lf_char \<notin> set (kDataPrefix @ d)" using assms(1) by (simp add: kDataPrefix_def lf_char_def)
  from next_line_eq [OF this, of rest] have line: "next_line (data_line d @ rest) = (kDataPrefix @ d, rest)"
    by (simp add: data_line_def)
  have "last (kDataPrefix @ d) \<noteq> cr_char" using assms(2) by (auto simp: kDataPrefix_def cr_char_def)
  then have trimmed: "trim_trailing_cr (kDataPrefix @ d) = kDataPrefix @ d" by (simp add: trim_trailing_cr_def)
  have "data_payload (kDataPrefix @ d) = d"
    by (simp add: data_payload_def kDataPrefix_def kDataLinePrefix_def)
  moreover have "take (length kDataLinePrefix) (kDataPrefix @ d) = kDataLinePrefix"
    by (simp add: kDataPrefix_def kDataLinePrefix_def)
  moreover have "data_line d @ rest \<noteq> []" by (simp add: data_line_def kDataPrefix_def)
  moreover have "kDataPrefix @ d \<noteq> []" by (simp add: kDataPrefix_def)
  ultimately show ?thesis
    by (subst classify_lines.simps) (simp only: line trimmed Let_def fst_conv snd_conv if_False simp_thms)
qed

lemma join_char_merge: "join_char c ((x @ c # d) # ds) = join_char c (x # d # ds)"
  by (cases ds) simp_all

lemma classify_data_lines:
  "list_all line_payload ds \<Longrightarrow>
     classify_lines (concat (map data_line ds) @ rest) data =
     classify_lines rest (case data of None \<Rightarrow> (if ds = [] then None else Some (join_char lf_char ds))
       | Some x \<Rightarrow> Some (join_char lf_char (x # ds)))"
proof (induction ds arbitrary: data)
  case (Cons d ds)
  have d: "lf_char \<notin> set d" "d = [] \<or> last d \<noteq> cr_char" "d \<noteq> kDoneSentinel"
    using Cons.prems by (simp_all add: line_payload_def)
  have IH: "classify_lines (concat (map data_line ds) @ rest) (Some y) =
      classify_lines rest (Some (join_char lf_char (y # ds)))" for y
    using Cons by simp
  show ?case
    using classify_data_line [OF d(1,2), of "concat (map data_line ds) @ rest" data] d(3)
    by (cases data) (simp_all add: IH join_char_merge)
qed (simp split: option.split)

lemma classify_blank_line: "classify_lines [lf_char] data = classify_lines [] data"
  using next_line_eq [of "[]" "[]"] by (subst classify_lines.simps) (simp add: trim_trailing_cr_def)

text \<open>Classification undoes building: the payloads of a frame's data lines come back joined by line
  feeds, an empty result is passed through, a built event frame gives its data back, and a later
  \<open>[DONE]\<close> line ends the frame as done.\<close>

theorem classify_data_frame:
  assumes "list_all line_payload ds"
  shows "classify_frame (concat (map data_line ds) @ [lf_char]) =
      \<lparr>cf_kind = (if join_char lf_char ds = [] then FramePassthrough else FrameEvent),
       cf_data = join_char lf_char ds, cf_raw = concat (map data_line ds) @ [lf_char]\<rparr> \<and>
    cf_kind (classify_frame (concat (map data_line ds) @ data_line kDoneSentinel @ rest)) = FrameDone \<and>
    (\<forall>d. ds = [d] \<longrightarrow> build_event_frame d = concat (map data_line ds) @ [lf_char])"
proof (intro conjI)
  have "classify_lines (concat (map data_line ds) @ [lf_char]) None =
      classify_lines [] (if ds = [] then None else Some (join_char lf_char ds))"
    using classify_data_lines [OF assms, of "[lf_char]" None] by (simp add: classify_blank_line)
  then show "classify_frame (concat (map data_line ds) @ [lf_char]) =
      \<lparr>cf_kind = (if join_char lf_char ds = [] then FramePassthrough else FrameEvent),
       cf_data = join_char lf_char ds, cf_raw = concat (map data_line ds) @ [lf_char]\<rparr>"
    by (simp add: classify_frame_def classify_lines.simps [of "[]"])
  have "lf_char \<notin> set kDoneSentinel" "last kDoneSentinel \<noteq> cr_char"
    by (simp_all add: kDoneSentinel_def lf_char_def cr_char_def)
  then have "fst (classify_lines (data_line kDoneSentinel @ rest) data) = FrameDone" for data
    using classify_data_line [of kDoneSentinel rest data] by simp
  then show "cf_kind (classify_frame (concat (map data_line ds) @ data_line kDoneSentinel @ rest)) = FrameDone"
    using classify_data_lines [OF assms, of "data_line kDoneSentinel @ rest" None]
    by (simp add: classify_frame_def split: prod.split) (metis fst_conv)
  show "\<forall>d. ds = [d] \<longrightarrow> build_event_frame d = concat (map data_line ds) @ [lf_char]"
    by (simp add: build_event_frame_def data_line_def)
qed

text \<open>A frame that ends with \<open>[DONE]\<close> keeps the data joined before the sentinel.\<close>

theorem classify_done_keeps_data:
  "classify_frame (data_line ''x'' @ data_line kDoneSentinel @ [lf_char]) =
     \<lparr>cf_kind = FrameDone, cf_data = ''x'', cf_raw = data_line ''x'' @ data_line kDoneSentinel @ [lf_char]\<rparr>"
  by code_simp

section \<open>The recorder\<close>

text \<open>The states a recorder goes through, with the calls made so far.\<close>

inductive recorded :: "recorder \<Rightarrow> (string \<times> string) list \<Rightarrow> bool" where
  start: "recorded new_recorder []"
| call: "recorded r log \<Longrightarrow> recorded (record_text k t r) (log @ [(k, t)])"

inductive_cases recorded_emptyE: "recorded r []"

definition text_of_key :: "(string \<times> string) list \<Rightarrow> string \<Rightarrow> string" where
  "text_of_key log k = concat (map snd (filter (\<lambda>e. fst e = k) log))"

definition keys_seen :: "(string \<times> string) list \<Rightarrow> string list" where
  "keys_seen log = rev (remdups (rev (map fst (filter (\<lambda>e. snd e \<noteq> []) log))))"

lemma text_of_key_snoc: "text_of_key (log @ [(k, t)]) k' = text_of_key log k' @ (if k = k' then t else [])"
  by (simp add: text_of_key_def)

lemma keys_seen_snoc:
  "keys_seen (log @ [(k, t)]) = (if t = [] \<or> k \<in> set (keys_seen log) then keys_seen log else keys_seen log @ [k])"
  by (simp add: keys_seen_def)

lemma set_keys_seen: "set (keys_seen log) = {k. text_of_key log k \<noteq> []}"
proof (induction log rule: rev_induct)
  case (snoc e log)
  then show ?case by (cases e) (auto simp: keys_seen_snoc text_of_key_snoc)
qed (simp add: keys_seen_def text_of_key_def)

lemma recorded_inv:
  "recorded r log \<Longrightarrow> key_order r = keys_seen log \<and>
     (\<forall>k. by_key r k = (if text_of_key log k = [] then None else Some (text_of_key log k)))"
proof (induction rule: recorded.induct)
  case start
  then show ?case by (simp add: new_recorder_def keys_seen_def text_of_key_def)
next
  case (call r log k t)
  show ?case
  proof (cases "t = []")
    case True
    then show ?thesis using call by (simp add: record_text_def keys_seen_snoc text_of_key_snoc)
  next
    case False
    have "by_key r k = (if k \<in> set (keys_seen log) then Some (text_of_key log k) else None)"
      using call by (simp add: set_keys_seen)
    then show ?thesis using call False
      by (auto simp: record_text_def keys_seen_snoc text_of_key_snoc set_keys_seen)
  qed
qed

text \<open>The recorder returns one string per key, in the order in which the keys first received text, and
  each string is the concatenation of all the key's fragments in the order of the calls.\<close>

theorem recorded_texts_spec:
  assumes "recorded r log"
  shows "recorded_texts r = map (\<lambda>k. concat (map snd (filter (\<lambda>e. fst e = k) log)))
    (rev (remdups (rev (map fst (filter (\<lambda>e. snd e \<noteq> []) log)))))"
proof -
  have "map (\<lambda>k. the (by_key r k)) (key_order r) = map (text_of_key log) (keys_seen log)"
    using recorded_inv [OF assms] set_keys_seen [of log] by (auto intro: map_cong)
  moreover have "filter (\<lambda>s. s \<noteq> []) (map (text_of_key log) (keys_seen log)) = map (text_of_key log) (keys_seen log)"
    using set_keys_seen [of log] by (auto simp: filter_id_conv)
  ultimately show ?thesis by (simp add: recorded_texts_def text_of_key_def [abs_def] keys_seen_def)
qed

section \<open>The close tracker and the value walker agree\<close>

lemma feed_append: "feed (a @ b) t = feed b (feed a t)"
  by (simp add: feed_def)

definition read_fragment :: "string \<Rightarrow> json_close_tracker \<Rightarrow> unit list \<times> json_close_tracker" where
  "read_fragment fragment t = ([], feed fragment t)"

interpretation tracker: piecewise read_fragment fresh_tracker
  by unfold_locales (simp_all add: read_fragment_def feed_append, simp add: feed_def)

lemma run_fragments: "run_pieces read_fragment parts t = ([], fold feed parts t)"
  by (induction parts arbitrary: t) (simp_all add: read_fragment_def)

text \<open>The tracker after the first \<open>n\<close> bytes of a document.\<close>

definition fed :: "string \<Rightarrow> nat \<Rightarrow> json_close_tracker" where
  "fed doc n = feed (take n doc) fresh_tracker"

lemma fed_Suc: "n < length doc \<Longrightarrow> fed doc (Suc n) = feed_byte (doc ! n) (fed doc n)"
  by (simp add: fed_def feed_append take_Suc_conv_app_nth) (simp add: feed_def)

lemma closed_sticky_byte: "closed t \<Longrightarrow> closed (feed_byte c t)"
  by (simp add: feed_byte_def Let_def)

lemma closed_sticky: "m \<le> n \<Longrightarrow> n \<le> length doc \<Longrightarrow> closed (fed doc m) \<Longrightarrow> closed (fed doc n)"
  by (induction n rule: dec_induct) (simp_all add: fed_Suc closed_sticky_byte)

definition plain :: "char \<Rightarrow> bool" where
  "plain c \<longleftrightarrow> c \<noteq> CHR 0x5C \<and> c \<noteq> CHR 0x22 \<and> c \<noteq> CHR ''{'' \<and> c \<noteq> CHR ''}''"

definition quiet :: "json_close_tracker \<Rightarrow> bool" where
  "quiet t \<longleftrightarrow> \<not> in_string t \<and> \<not> escaped t"

lemma plain_bytes [simp]:
  "is_ws c \<Longrightarrow> plain c" "is_digit_char c \<Longrightarrow> plain c" "is_hex_digit c \<Longrightarrow> plain c"
  by (auto simp: plain_def is_ws_def is_hex_digit_def is_digit_char_def)

lemma feed_plain: "plain c \<Longrightarrow> \<not> escaped t \<Longrightarrow> feed_byte c t = t"
  by (simp add: plain_def feed_byte_def)

lemma fed_plain:
  "q \<le> length doc \<Longrightarrow> p \<le> q \<Longrightarrow> (\<And>i. p \<le> i \<Longrightarrow> i < q \<Longrightarrow> plain (doc ! i)) \<Longrightarrow> \<not> escaped (fed doc p) \<Longrightarrow>
     fed doc q = fed doc p"
proof (induction "q - p" arbitrary: q)
  case (Suc n)
  then obtain q' where q': "q = Suc q'" "p \<le> q'" by (cases q) auto
  then have "fed doc q' = fed doc p" using Suc by simp
  then show ?case using q' Suc.prems by (simp add: fed_Suc feed_plain)
qed simp

lemma skip_ws_plain: "p \<le> i \<Longrightarrow> i < skip_ws doc p \<Longrightarrow> plain (doc ! i)"
proof (induction doc p rule: skip_ws.induct)
  case (1 doc p)
  then show ?case by (cases "i = p") (auto simp: skip_ws.simps [of doc p] split: if_splits)
qed

lemma skip_digits_plain: "p \<le> i \<Longrightarrow> i < skip_digits doc p \<Longrightarrow> plain (doc ! i)"
proof (induction doc p rule: skip_digits.induct)
  case (1 doc p)
  then show ?case by (cases "i = p") (auto simp: skip_digits.simps [of doc p] split: if_splits)
qed

lemma skip_int_plain:
  assumes "skip_int doc p = Some q" "p \<le> i" "i < q"
  shows "plain (doc ! i)"
proof -
  define r where "r = (if p < length doc \<and> doc ! p = CHR ''-'' then p + 1 else p)"
  have "skip_int doc p =
      (if \<not> digit_at doc r then None else if doc ! r = CHR ''0'' then Some (r + 1) else Some (skip_digits doc r))"
    by (simp only: skip_int_def r_def Let_def)
  then have q: "q = (if doc ! r = CHR ''0'' then r + 1 else skip_digits doc r)" "digit_at doc r"
    using assms(1) by (simp_all split: if_splits)
  show ?thesis
  proof (cases "i < r")
    case True
    then have "doc ! i = CHR ''-''" using assms(2) by (auto simp: r_def less_Suc_eq split: if_splits)
    then show ?thesis by (simp add: plain_def)
  next
    case False
    then show ?thesis using q assms(3) skip_digits_plain [of r i doc]
      by (cases "doc ! r = CHR ''0''") (auto simp: digit_at_def less_Suc_eq not_less)
  qed
qed

lemma skip_frac_plain:
  assumes "skip_frac doc p = Some q" "p \<le> i" "i < q"
  shows "plain (doc ! i)"
  using assms skip_digits_plain [of "p + 1" i doc]
  by (cases "i = p") (auto simp: skip_frac_def plain_def split: if_splits)

lemma skip_exp_plain:
  assumes "skip_exp doc p = Some q" "p \<le> i" "i < q"
  shows "plain (doc ! i)"
proof (cases "p < length doc \<and> (doc ! p = CHR ''e'' \<or> doc ! p = CHR ''E'')")
  case True
  define r where "r = (if p + 1 < length doc \<and> (doc ! (p + 1) = CHR ''+'' \<or> doc ! (p + 1) = CHR ''-'')
    then p + 2 else p + 1)"
  have "skip_exp doc p = (if \<not> digit_at doc r then None else Some (skip_digits doc r))"
    by (simp only: skip_exp_def r_def Let_def True simp_thms if_True)
  then have q: "q = skip_digits doc r" using assms(1) by (simp split: if_splits)
  show ?thesis
  proof (cases "r \<le> i")
    case False
    then have "i = p \<or> i = p + 1 \<and> (doc ! i = CHR ''+'' \<or> doc ! i = CHR ''-'')"
      using assms(2) by (auto simp: r_def less_Suc_eq not_le split: if_splits)
    then show ?thesis using True by (auto simp: plain_def)
  qed (use q assms(3) skip_digits_plain in blast)
next
  case False
  then have "q = p" using assms(1) by (auto simp: skip_exp_def)
  then show ?thesis using assms by simp
qed

lemma skip_number_plain:
  assumes "skip_number doc p = Some q" "p \<le> i" "i < q"
  shows "plain (doc ! i)"
proof -
  obtain p1 p2 where p: "skip_int doc p = Some p1" "skip_frac doc p1 = Some p2" "skip_exp doc p2 = Some q"
    using assms(1) by (auto simp: skip_number_def split: option.splits if_splits)
  consider "i < p1" | "p1 \<le> i" "i < p2" | "p2 \<le> i" by linarith
  then show ?thesis
    using skip_int_plain [OF p(1) assms(2)] skip_frac_plain [OF p(2)] skip_exp_plain [OF p(3)] assms(3) by cases blast+
qed

lemma literal_plain:
  assumes "match_literal doc p lit" "p \<le> i" "i < p + length lit" "list_all plain lit"
  shows "plain (doc ! i)"
proof -
  have "substr doc p (length lit) = lit" "p + length lit \<le> length doc"
    using assms(1) by (auto simp: match_literal_def split: if_splits)
  then have "doc ! i = lit ! (i - p)" using assms(2,3) by (auto simp: substr_def dest!: arg_cong [of _ lit "\<lambda>s. s ! (i - p)"])
  then show ?thesis using assms(2,3,4) by (simp add: list_all_length)
qed

text \<open>Inside a string nothing changes but the escape flag, until the closing quote.\<close>

lemma fed_string_loop:
  "skip_string_loop doc p = Some e \<Longrightarrow> fed doc p = t\<lparr>in_string := True\<rparr> \<Longrightarrow> quiet t \<Longrightarrow> fed doc e = t"
proof (induction doc p rule: skip_string_loop.induct)
  case (1 doc p)
  have lt: "p < length doc" using "1.prems"(1) by (subst (asm) skip_string_loop.simps) (simp split: if_splits)
  have quiet: "\<not> escaped t" "\<not> in_string t" using "1.prems"(3) by (simp_all add: quiet_def)
  let ?c = "doc ! p" and ?e = "doc ! (p + 1)" and ?t = "t\<lparr>in_string := True\<rparr>"
  have eq: "skip_string_loop doc p =
      (if ?c = CHR 0x22 then Some (p + 1)
       else if ?c = CHR 0x5C then
         (if p + 1 \<ge> length doc then None
          else if is_short_escape ?e then skip_string_loop doc (p + 2)
          else if ?e = CHR ''u'' then
            (if p + 2 + 4 > length doc then None
             else if list_all is_hex_digit (substr doc (p + 2) 4) then skip_string_loop doc (p + 6) else None)
          else None)
       else if byte ?c < 0x20 then None else skip_string_loop doc (p + 1))"
    using lt by (subst skip_string_loop.simps) (simp add: Let_def)
  have one: "fed doc (p + 1) = feed_byte ?c ?t" using fed_Suc [OF lt] "1.prems"(2) by simp
  consider (quote) "?c = CHR 0x22" | (escape) "?c = CHR 0x5C" | (other) "?c \<noteq> CHR 0x22" "?c \<noteq> CHR 0x5C" by blast
  then show ?case
  proof cases
    case quote
    then show ?thesis using "1.prems"(1) eq one quiet by (simp add: feed_byte_def)
  next
    case other
    then have "skip_string_loop doc (p + 1) = Some e" "\<not> byte ?c < 0x20" using "1.prems"(1) eq by (auto split: if_splits)
    moreover have "fed doc (p + 1) = ?t" using one other quiet by (simp add: feed_byte_def)
    moreover have "\<not> length doc \<le> p" using lt by simp
    ultimately show ?thesis using "1.IH"(3) [OF _ refl] other "1.prems"(3) by blast
  next
    case escape
    have lt2: "p + 1 < length doc" using "1.prems"(1) eq escape by (auto split: if_splits)
    have "fed doc (p + 1) = ?t\<lparr>escaped := True\<rparr>" using one escape quiet by (simp add: feed_byte_def)
    then have two: "fed doc (p + 2) = ?t" using fed_Suc [OF lt2] quiet by (simp add: feed_byte_def)
    have neq: "?c \<noteq> CHR 0x22" using escape by simp
    have in1: "\<not> length doc \<le> p" "\<not> length doc \<le> p + 1" using lt lt2 by simp_all
    show ?thesis
    proof (cases "is_short_escape ?e")
      case True
      then have "skip_string_loop doc (p + 2) = Some e" using "1.prems"(1) eq escape lt2 by simp
      then show ?thesis using "1.IH"(1) [OF in1(1) refl neq escape in1(2) refl True] two "1.prems"(3) by blast
    next
      case False
      then have u: "?e = CHR ''u''" "p + 6 \<le> length doc" "list_all is_hex_digit (substr doc (p + 2) 4)"
          "skip_string_loop doc (p + 6) = Some e"
        using "1.prems"(1) eq escape lt2 by (auto split: if_splits)
      have "is_hex_digit (doc ! i)" if "p + 2 \<le> i" "i < p + 6" for i
      proof -
        define k where "k = i - (p + 2)"
        have k: "i = p + 2 + k" "k < 4" using that by (simp_all add: k_def)
        then have "substr doc (p + 2) 4 ! k = doc ! i" "k < length (substr doc (p + 2) 4)"
          using u(2) by (simp_all add: substr_def add.assoc)
        then show ?thesis using u(3) unfolding list_all_length by metis
      qed
      then have "fed doc (p + 6) = fed doc (p + 2)"
        using u(2) two quiet by (intro fed_plain) auto
      then have "fed doc (p + 6) = ?t" using two by simp
      moreover have "\<not> length doc < p + 2 + 4" using u(2) by simp
      ultimately show ?thesis using "1.IH"(2) [OF in1(1) refl neq escape in1(2) refl False u(1) _ u(3,4)] "1.prems"(3)
        by blast
    qed
  qed
qed

lemma fed_string:
  assumes "skip_string doc p = Some e" "quiet (fed doc p)"
  shows "fed doc e = fed doc p"
proof -
  have p: "p < length doc" "doc ! p = CHR 0x22" "skip_string_loop doc (p + 1) = Some e"
    using assms(1) by (auto simp: skip_string_def split: if_splits)
  then have "fed doc (p + 1) = (fed doc p)\<lparr>in_string := True\<rparr>"
    using assms(2) by (simp add: fed_Suc feed_byte_def quiet_def)
  then show ?thesis using fed_string_loop [OF p(3) _ assms(2)] by blast
qed

text \<open>The tracker follows the container stack: its depth is the number of open objects.\<close>

fun frame_ok :: "walk_frame \<Rightarrow> bool" where
  "frame_ok (k, s) \<longleftrightarrow>
     (if s = ArrayStart \<or> s = ArrayAfterValue \<or> s = ArrayAfterComma then k = CHR ''['' else k = CHR ''{'')"

definition stack_ok :: "walk_frame list \<Rightarrow> bool" where
  "stack_ok fs \<longleftrightarrow> fs \<noteq> [] \<and> list_all frame_ok fs \<and> fst (last fs) = CHR ''{''"

definition open_objects :: "walk_frame list \<Rightarrow> nat" where
  "open_objects fs = length (filter (\<lambda>f. fst f = CHR ''{'') fs)"

definition tracks :: "walk_frame list \<Rightarrow> json_close_tracker \<Rightarrow> bool" where
  "tracks fs t \<longleftrightarrow> quiet t \<and> opened t \<and> \<not> closed t \<and> brace_depth t = int (open_objects fs)"

lemma open_or_scalar_fed:
  assumes "open_or_scalar doc p fs = Some (q, fs')" "quiet (fed doc p)"
  shows "fs' = fs \<and> fed doc q = fed doc p \<or>
    fs' = (CHR ''['', ArrayStart) # fs \<and> fed doc q = fed doc p \<or>
    fs' = (CHR ''{'', ObjectStart) # fs \<and>
      fed doc q = (fed doc p)\<lparr>brace_depth := brace_depth (fed doc p) + 1, opened := True\<rparr>"
proof -
  have esc: "\<not> escaped (fed doc p)" using assms(2) by (simp add: quiet_def)
  have p: "p < length doc" using assms(1) by (auto simp: open_or_scalar_def split: if_splits)
  have q: "p < q" "q \<le> length doc" using open_or_scalar_bounds [OF assms(1)] by simp_all
  have lit: "fed doc (p + length l) = fed doc p" if "match_literal doc p l" "list_all plain l" for l
    using that esc match_literal_bounds [OF that(1)] literal_plain by (intro fed_plain) auto
  consider (str) "skip_string doc p = Some q" "fs' = fs" | (num) "skip_number doc p = Some q" "fs' = fs"
    | (lits) l where "match_literal doc p l" "list_all plain l" "q = p + length l" "fs' = fs"
    | (obj) "doc ! p = CHR ''{''" "q = p + 1" "fs' = (CHR ''{'', ObjectStart) # fs"
    | (arr) "doc ! p = CHR ''[''" "q = p + 1" "fs' = (CHR ''['', ArrayStart) # fs"
  proof -
    have plain: "list_all plain ''true''" "list_all plain ''false''" "list_all plain ''null''"
      by (simp_all add: plain_def)
    show ?thesis
      using assms(1) p that(1,2,4,5) that(3) [of "''true''"] that(3) [of "''false''"] that(3) [of "''null''"] plain
      by (auto simp: open_or_scalar_def Let_def split: if_splits)
  qed
  then show ?thesis
  proof cases
    case str
    then show ?thesis using fed_string assms(2) by blast
  next
    case num
    then show ?thesis using fed_plain [OF q(2) _ _ esc] q(1) skip_number_plain by simp
  next
    case lits
    then show ?thesis using lit by blast
  next
    case obj
    then show ?thesis using p assms(2) by (simp add: fed_Suc feed_byte_def quiet_def)
  next
    case arr
    then show ?thesis using p esc by (simp add: fed_Suc feed_plain plain_def)
  qed
qed

lemma stack_ok_change: "stack_ok ((k, s) # fs) \<Longrightarrow> frame_ok (k, s') \<Longrightarrow> stack_ok ((k, s') # fs)"
  by (auto simp: stack_ok_def split: if_splits)

lemma tracks_change [simp]: "tracks ((k, s) # fs) t \<longleftrightarrow> tracks ((k, s') # fs) t"
  by (simp add: tracks_def open_objects_def)

lemma walk_value_fed:
  assumes "walk_value doc p fs after = Some (q, fs')" "stack_ok fs" "tracks fs (fed doc p)"
    and "fs = (k, s) # rest" "frame_ok (k, after)"
  shows "stack_ok fs' \<and> tracks fs' (fed doc q)"
proof -
  obtain fs1 where fs1: "open_or_scalar doc p fs = Some (q, fs1)"
      "fs' = (if length fs1 = length fs then set_top after fs1 else fs1)"
    using assms(1) by (auto simp: walk_value_def split: option.splits)
  have t: "quiet (fed doc p)" "opened (fed doc p)" "\<not> closed (fed doc p)"
      "brace_depth (fed doc p) = int (open_objects fs)"
    using assms(3) by (simp_all add: tracks_def)
  from open_or_scalar_fed [OF fs1(1) t(1)] show ?thesis
  proof (elim disjE conjE)
    assume "fs1 = fs" "fed doc q = fed doc p"
    then show ?thesis using fs1(2) assms(2-5) stack_ok_change by (simp add: tracks_change [of k after rest _ s])
  next
    assume "fs1 = (CHR ''['', ArrayStart) # fs" "fed doc q = fed doc p"
    then show ?thesis using fs1(2) assms(2,3) by (simp add: stack_ok_def tracks_def open_objects_def)
  next
    assume "fs1 = (CHR ''{'', ObjectStart) # fs"
      "fed doc q = (fed doc p)\<lparr>brace_depth := brace_depth (fed doc p) + 1, opened := True\<rparr>"
    then show ?thesis using fs1(2) assms(2) t
      by (simp add: stack_ok_def tracks_def open_objects_def quiet_def)
  qed
qed

lemma walk_key_fed:
  assumes "walk_key doc p fs = Some (q, fs')" "stack_ok fs" "tracks fs (fed doc p)"
    and "fs = (CHR ''{'', s) # rest"
  shows "stack_ok fs' \<and> tracks fs' (fed doc q)"
proof -
  have "skip_string doc p = Some q" "fs' = (CHR ''{'', ObjectAfterKey) # rest"
    using assms(1,4) by (auto simp: walk_key_def split: if_splits)
  moreover have "quiet (fed doc p)" using assms(3) by (simp add: tracks_def)
  ultimately show ?thesis using fed_string assms(2,3,4) stack_ok_change [of "CHR ''{''" s rest ObjectAfterKey]
    by (simp add: tracks_change [of "CHR ''{''" ObjectAfterKey rest _ s])
qed

text \<open>A closing bracket: the popped container completes a value of its parent, or the whole object.\<close>

lemma stack_parent:
  assumes "stack_ok (f # fs)" "fs \<noteq> []"
  shows "stack_ok (complete_value_in_parent fs) \<and> open_objects (complete_value_in_parent fs) = open_objects fs"
proof -
  obtain k s rest where fs: "fs = (k, s) # rest" using assms(2) by (cases fs) auto
  have "k = CHR ''['' \<or> k = CHR ''{''" using assms(1) by (auto simp: fs stack_ok_def split: if_splits)
  then show ?thesis using assms(1) by (auto simp: fs stack_ok_def open_objects_def split: if_splits)
qed

lemma walk_close_fed:
  assumes "walk_close p ((k, s) # fs) = Some (q, fs')" "stack_ok ((k, s) # fs)" "tracks ((k, s) # fs) (fed doc p)"
    and "p < length doc" "doc ! p = (if k = CHR ''['' then CHR '']'' else CHR ''}'')"
  shows "if fs' = [] then closed (fed doc q) \<and> q = p + 1 \<and> \<not> closed (fed doc p)
    else stack_ok fs' \<and> tracks fs' (fed doc q)"
proof -
  have q: "q = p + 1" "fs' = complete_value_in_parent fs" using assms(1) by (simp_all add: walk_close_def)
  have t: "\<not> in_string (fed doc p)" "\<not> escaped (fed doc p)" "opened (fed doc p)" "\<not> closed (fed doc p)"
      "brace_depth (fed doc p) = int (open_objects ((k, s) # fs))"
    using assms(3) by (simp_all add: tracks_def quiet_def)
  have byte: "fed doc q = feed_byte (doc ! p) (fed doc p)" using q(1) fed_Suc [OF assms(4)] by simp
  show ?thesis
  proof (cases "fs = []")
    case True
    then have "k = CHR ''{''" using assms(2) by (simp add: stack_ok_def)
    then have "closed (fed doc q)" using byte t True assms(5) by (simp add: feed_byte_def open_objects_def)
    then show ?thesis using True q t by simp
  next
    case False
    note parent = stack_parent [OF assms(2) False]
    have "open_objects fs \<noteq> 0"
      using assms(2) False last_in_set [OF False] by (auto simp: stack_ok_def open_objects_def filter_empty_conv)
    moreover have "k = CHR ''['' \<or> k = CHR ''{''" using assms(2) by (auto simp: stack_ok_def split: if_splits)
    ultimately have "tracks fs' (fed doc q)" using byte t assms(5) parent q(2)
      by (elim disjE) (auto simp: tracks_def quiet_def feed_byte_def open_objects_def Let_def)
    then show ?thesis using parent q(2) False by (auto simp: stack_ok_def)
  qed
qed

lemma walk_step_fed:
  assumes step: "walk_step doc p0 fs = Some (q, fs')" and ok: "stack_ok fs" and t0: "tracks fs (fed doc p0)"
    and le: "p0 \<le> length doc"
  shows "if fs' = [] then closed (fed doc q) \<and> \<not> closed (fed doc (q - 1)) else stack_ok fs' \<and> tracks fs' (fed doc q)"
proof -
  obtain k s rest where fs: "fs = (k, s) # rest" using ok by (cases fs) (auto simp: stack_ok_def)
  define p where "p = skip_ws doc p0"
  have p: "p < length doc" using step by (simp add: walk_step_def p_def Let_def split: if_splits)
  have "fed doc p = fed doc p0"
    unfolding p_def using t0 skip_ws_le [OF le] skip_ws_ge skip_ws_plain by (intro fed_plain) (auto simp: tracks_def quiet_def)
  then have t: "tracks fs (fed doc p)" using t0 by simp
  have k: "frame_ok (k, s)" using ok by (simp add: fs stack_ok_def)
  have val: ?thesis if "walk_value doc p fs after = Some (q, fs')" "frame_ok (k, after)" for after
    using walk_value_fed [OF that(1) ok t fs that(2)] by (auto simp: stack_ok_def)
  have key: ?thesis if "walk_key doc p fs = Some (q, fs')" "k = CHR ''{''"
    using walk_key_fed [OF that(1) ok t] fs that(2) by (auto simp: stack_ok_def)
  have close: ?thesis if "walk_close p fs = Some (q, fs')" "doc ! p = (if k = CHR ''['' then CHR '']'' else CHR ''}'')"
    using walk_close_fed [of p k s rest q fs' doc] that ok t p by (auto simp: fs)
  have sep: ?thesis if "Some (p + 1, set_top s' fs) = Some (q, fs')" "plain (doc ! p)" "frame_ok (k, s')" for s'
  proof -
    have "fed doc q = fed doc p" using that(1,2) t p by (auto simp: fed_Suc feed_plain tracks_def quiet_def)
    then show ?thesis using that t ok stack_ok_change [of k s rest s'] by (auto simp: fs tracks_change [of k s' rest _ s])
  qed
  have comma: "plain CHR '',''" "plain CHR '':''" by (simp_all add: plain_def)
  show ?thesis
  proof (cases s)
    case ArrayStart
    then have "(if doc ! p = CHR '']'' then walk_close p fs else walk_value doc p fs ArrayAfterValue) = Some (q, fs')"
      using step p by (simp add: walk_step_def p_def [symmetric] fs Let_def split: if_splits)
    then show ?thesis using ArrayStart k close val [of ArrayAfterValue] by (cases "doc ! p = CHR '']''") auto
  next
    case ArrayAfterComma
    then have "walk_value doc p fs ArrayAfterValue = Some (q, fs')"
      using step p by (simp add: walk_step_def p_def [symmetric] fs Let_def split: if_splits)
    then show ?thesis by (rule val) (use ArrayAfterComma k in simp)
  next
    case ArrayAfterValue
    then have "(if doc ! p = CHR '']'' then walk_close p fs
        else if doc ! p = CHR '','' then Some (p + 1, set_top ArrayAfterComma fs) else None) = Some (q, fs')"
      using step p by (simp add: walk_step_def p_def [symmetric] fs Let_def split: if_splits)
    then show ?thesis using ArrayAfterValue k close sep [of ArrayAfterComma] comma
      by (cases "doc ! p = CHR '']''"; cases "doc ! p = CHR '',''") auto
  next
    case ObjectStart
    then have "(if doc ! p = CHR ''}'' then walk_close p fs else walk_key doc p fs) = Some (q, fs')"
      using step p by (simp add: walk_step_def p_def [symmetric] fs Let_def split: if_splits)
    then show ?thesis using ObjectStart k close key by (cases "doc ! p = CHR ''}''") auto
  next
    case ObjectAfterComma
    then have "walk_key doc p fs = Some (q, fs')"
      using step p by (simp add: walk_step_def p_def [symmetric] fs Let_def split: if_splits)
    then show ?thesis by (rule key) (use ObjectAfterComma k in simp)
  next
    case ObjectAfterKey
    then have "(if doc ! p \<noteq> CHR '':'' then None else Some (p + 1, set_top ObjectAfterColon fs)) = Some (q, fs')"
      using step p by (simp add: walk_step_def p_def [symmetric] fs Let_def split: if_splits)
    then show ?thesis using ObjectAfterKey k sep [of ObjectAfterColon] comma by (cases "doc ! p = CHR '':''") auto
  next
    case ObjectAfterColon
    then have "walk_value doc p fs ObjectAfterValue = Some (q, fs')"
      using step p by (simp add: walk_step_def p_def [symmetric] fs Let_def split: if_splits)
    then show ?thesis by (rule val) (use ObjectAfterColon k in simp)
  next
    case ObjectAfterValue
    then have "(if doc ! p = CHR ''}'' then walk_close p fs
        else if doc ! p = CHR '','' then Some (p + 1, set_top ObjectAfterComma fs) else None) = Some (q, fs')"
      using step p by (simp add: walk_step_def p_def [symmetric] fs Let_def split: if_splits)
    then show ?thesis using ObjectAfterValue k close sep [of ObjectAfterComma] comma
      by (cases "doc ! p = CHR ''}''"; cases "doc ! p = CHR '',''") auto
  qed
qed

lemma walk_loop_fed:
  "walk_loop doc p fs = Some e \<Longrightarrow> stack_ok fs \<Longrightarrow> tracks fs (fed doc p) \<Longrightarrow> p \<le> length doc \<Longrightarrow>
     closed (fed doc e) \<and> \<not> closed (fed doc (e - 1))"
proof (induction doc p fs rule: walk_loop.induct)
  case (1 doc p fs)
  have ne: "fs \<noteq> []" using "1.prems"(2) by (simp add: stack_ok_def)
  then obtain p' fs' where st: "walk_step doc p fs = Some (p', fs')" "walk_loop doc p' fs' = Some e"
    using "1.prems"(1) by (auto simp: walk_loop.simps [of doc p] split: option.splits)
  note fed = walk_step_fed [OF st(1) "1.prems"(2,3,4)]
  show ?case
  proof (cases "fs' = []")
    case True
    then show ?thesis using fed st(2) by (simp add: walk_loop.simps [of doc p'])
  next
    case False
    then show ?thesis using fed "1.IH" [OF ne st(1) refl st(2)] walk_step_bounds [OF st(1)] by simp
  qed
qed

text \<open>C18. The close tracker is exact: fed with a complete JSON object, it reports the close after the last
  byte and after no shorter prefix, wherever the fragments were cut and whatever braces and quotes the
  strings inside hold.\<close>

theorem close_tracker_exact:
  assumes "skip_value doc 0 = Some (length doc)" "doc ! 0 = CHR ''{''"
  shows "closed (feed doc fresh_tracker) \<and> (\<forall>a b. doc = a @ b \<and> b \<noteq> [] \<longrightarrow> \<not> closed (feed a fresh_tracker)) \<and>
    (\<forall>parts. concat parts = doc \<longrightarrow> fold feed parts fresh_tracker = feed doc fresh_tracker)"
proof -
  have ws: "skip_ws doc 0 = 0" using assms(2) by (simp add: skip_ws.simps [of doc 0] is_ws_def)
  have len: "0 < length doc" using skip_value_gt [OF assms(1)] by simp
  have "open_or_scalar doc 0 [] = Some (1, [(CHR ''{'', ObjectStart)])"
    using assms(2) len by (simp add: open_or_scalar_def is_digit_char_def)
  then have loop: "walk_loop doc 1 [(CHR ''{'', ObjectStart)] = Some (length doc)"
    using assms(1) ws len by (simp add: skip_value_def)
  have "fed doc 1 = feed_byte (doc ! 0) fresh_tracker" using fed_Suc [OF len] by (simp add: fed_def feed_def)
  then have "tracks [(CHR ''{'', ObjectStart)] (fed doc 1)"
    using assms(2) by (simp add: feed_byte_def fresh_tracker_def tracks_def quiet_def open_objects_def)
  moreover have "stack_ok [(CHR ''{'', ObjectStart)]" by (simp add: stack_ok_def)
  ultimately have c: "closed (fed doc (length doc))" "\<not> closed (fed doc (length doc - 1))"
    using walk_loop_fed [OF loop] len by simp_all
  have "\<not> closed (feed a fresh_tracker)" if "doc = a @ b" "b \<noteq> []" for a b
  proof
    assume "closed (feed a fresh_tracker)"
    then have "closed (fed doc (length a))" using that(1) by (simp add: fed_def)
    moreover have "length a \<le> length doc - 1" using that by (cases b) auto
    ultimately show False using closed_sticky [of "length a" "length doc - 1" doc] c(2) by simp
  qed
  moreover have "fold feed parts fresh_tracker = feed (concat parts) fresh_tracker" for parts
    using tracker.run_pieces_concat [of parts] by (simp add: run_fragments read_fragment_def)
  ultimately show ?thesis using c(1) by (auto simp: fed_def)
qed

section \<open>Witnesses\<close>

theorem classify_data_frame_witness:
  "cf_data (classify_frame (data_line ''a'' @ data_line ''b'' @ [lf_char])) = ''a'' @ lf_char # ''b''"
proof -
  have "list_all line_payload [''a'', ''b'']" by code_simp
  from classify_data_frame [OF this, of "[]"] show ?thesis by simp
qed

theorem recorded_texts_spec_witness:
  "recorded_texts (record_text ''k'' ''b'' (record_text ''j'' ''x'' (record_text ''k'' ''a'' new_recorder))) = [''ab'', ''x'']"
proof -
  have "recorded (record_text ''k'' ''b'' (record_text ''j'' ''x'' (record_text ''k'' ''a'' new_recorder)))
      ((([] @ [(''k'', ''a'')]) @ [(''j'', ''x'')]) @ [(''k'', ''b'')])"
    by (intro recorded.intros)
  from recorded_texts_spec [OF this] show ?thesis by simp
qed

theorem close_tracker_exact_witness:
  "closed (feed (''{'' @ encode_string ''}'' True @ '':[{}]}'') fresh_tracker)"
proof -
  let ?doc = "''{'' @ encode_string ''}'' True @ '':[{}]}''"
  have "skip_value ?doc 0 = Some (length ?doc)" "?doc ! 0 = CHR ''{''" by code_simp+
  from close_tracker_exact [OF this] show ?thesis by blast
qed

end
