(* ===== verification/JsonPath.thy ===== *)
theory JsonPath
  imports Json "HOL-Library.Sublist"
begin

text \<open>
  What the lookups of \<open>json/Json.hpp\<close> mean for one another: a lookup inside the span of a container
  agrees with the lookup in the whole document, a path composes, paths that part address disjoint
  spans, and the elements of an array are what its index segments select.
\<close>

section \<open>A container inside its document\<close>

text \<open>A document that occurs in another at an offset, and one that also ends with a closing bracket.\<close>

definition occurs :: "string \<Rightarrow> nat \<Rightarrow> string \<Rightarrow> bool" where
  "occurs d off w \<longleftrightarrow> off + length d \<le> length w \<and> substr w off (length d) = d"

definition embedded :: "string \<Rightarrow> nat \<Rightarrow> string \<Rightarrow> bool" where
  "embedded d off w \<longleftrightarrow> occurs d off w \<and> d \<noteq> [] \<and> (last d = CHR ''}'' \<or> last d = CHR '']'')"

lemma embedded_occurs: "embedded d off w \<Longrightarrow> occurs d off w"
  by (simp add: embedded_def)

lemma occ_less: "occurs d off w \<Longrightarrow> p < length d \<Longrightarrow> off + p < length w"
  by (simp add: occurs_def)

lemma occ_substr: "occurs d off w \<Longrightarrow> p + n \<le> length d \<Longrightarrow> substr w (off + p) n = substr d p n"
proof -
  assume occ: "occurs d off w" and le: "p + n \<le> length d"
  have "substr d p n = take n (drop p (take (length d) (drop off w)))" using occ by (simp add: occurs_def substr_def)
  then show ?thesis using le by (simp add: substr_def drop_take min_def add.commute)
qed

lemma occ_nth: "occurs d off w \<Longrightarrow> p < length d \<Longrightarrow> w ! (off + p) = d ! p"
  using occ_substr [of d off w p 1] by (simp add: substr_def hd_drop_conv_nth take_Suc occurs_def drop_eq_Nil)

lemmas emb_less = occ_less [OF embedded_occurs]
lemmas emb_substr = occ_substr [OF embedded_occurs]
lemmas emb_nth = occ_nth [OF embedded_occurs]

lemma emb_inside:
  "embedded d off w \<Longrightarrow> p < length d \<Longrightarrow> is_ws (d ! p) \<or> is_digit_char (d ! p) \<Longrightarrow> Suc p < length d"
proof (rule ccontr)
  assume a: "embedded d off w" "p < length d" "is_ws (d ! p) \<or> is_digit_char (d ! p)" "\<not> Suc p < length d"
  then have "p = length d - 1" "d \<noteq> []" by (auto simp: embedded_def)
  then have "d ! p = last d" by (simp add: last_conv_nth)
  then show False using a(1,3) by (auto simp: embedded_def is_ws_def is_digit_char_def)
qed

lemma skip_ws_emb:
  "embedded d off w \<Longrightarrow> p < length d \<Longrightarrow> skip_ws w (off + p) = off + skip_ws d p \<and> skip_ws d p < length d"
proof (induction d p rule: skip_ws.induct)
  case (1 d p)
  note [simp] = emb_nth [OF "1.prems"] emb_less [OF "1.prems"]
  show ?case
  proof (cases "is_ws (d ! p)")
    case True
    then have "Suc p < length d" using emb_inside "1.prems" by blast
    then show ?thesis using "1.IH" True "1.prems" by (simp add: skip_ws.simps [of d p] skip_ws.simps [of w "off + p"])
  qed (use "1.prems" in \<open>simp add: skip_ws.simps [of d p] skip_ws.simps [of w "off + p"]\<close>)
qed

lemma skip_digits_emb:
  "embedded d off w \<Longrightarrow> p < length d \<Longrightarrow> skip_digits w (off + p) = off + skip_digits d p \<and> skip_digits d p < length d"
proof (induction d p rule: skip_digits.induct)
  case (1 d p)
  note [simp] = emb_nth [OF "1.prems"] emb_less [OF "1.prems"]
  show ?case
  proof (cases "is_digit_char (d ! p)")
    case True
    then have "Suc p < length d" using emb_inside "1.prems" by blast
    then show ?thesis using "1.IH" True "1.prems" by (simp add: skip_digits.simps [of d p] skip_digits.simps [of w "off + p"])
  qed (use "1.prems" in \<open>simp add: skip_digits.simps [of d p] skip_digits.simps [of w "off + p"]\<close>)
qed

lemma skip_string_loop_occ:
  "occurs d off w \<Longrightarrow> skip_string_loop d p = Some q \<Longrightarrow> skip_string_loop w (off + p) = Some (off + q)"
proof (induction d p rule: skip_string_loop.induct)
  case (1 d p)
  note nth = occ_nth [OF "1.prems"(1)] and lt = occ_less [OF "1.prems"(1)]
  have p: "p < length d" using "1.prems"(2) by (auto simp: skip_string_loop.simps [of d p] split: if_splits)
  have n: "w ! (off + p) = d ! p" "off + p < length w" using p nth lt by blast+
  consider (quote) "d ! p = CHR 0x22" | (escape) "d ! p = CHR 0x5C"
    | (other) "d ! p \<noteq> CHR 0x22" "d ! p \<noteq> CHR 0x5C" by blast
  then show ?case
  proof cases
    case quote
    then show ?thesis using "1.prems"(2) p n
      by (simp add: skip_string_loop.simps [of d p] skip_string_loop.simps [of w "off + p"])
  next
    case escape
    then have s: "Suc p < length d" using "1.prems"(2) p
      by (auto simp: skip_string_loop.simps [of d p] split: if_splits)
    have n1: "w ! Suc (off + p) = d ! Suc p" "Suc (off + p) < length w"
      using nth [OF s] lt [OF s] by simp_all
    show ?thesis
    proof (cases "is_short_escape (d ! Suc p)")
      case True
      then show ?thesis using "1.IH"(1) "1.prems" escape p s n n1
        by (simp add: skip_string_loop.simps [of d p] skip_string_loop.simps [of w "off + p"])
    next
      case False
      then have u: "d ! Suc p = CHR ''u''" "p + 6 \<le> length d" "list_all is_hex_digit (substr d (p + 2) 4)"
          "skip_string_loop d (p + 6) = Some q"
        using "1.prems"(2) escape p s by (auto simp: skip_string_loop.simps [of d p] split: if_splits)
      have "substr w (off + (p + 2)) 4 = substr d (p + 2) 4" using occ_substr [OF "1.prems"(1), of "p + 2" 4] u(2) by simp
      moreover have "off + p + 6 \<le> length w" using u(2) "1.prems"(1) by (simp add: occurs_def)
      ultimately show ?thesis using "1.IH"(2) "1.prems"(1) escape False p s n n1 u
        by (simp add: skip_string_loop.simps [of w "off + p"] add.assoc)
    qed
  next
    case other
    then show ?thesis using "1.IH"(3) "1.prems" p n
      by (simp add: skip_string_loop.simps [of d p] skip_string_loop.simps [of w "off + p"] split: if_splits)
  qed
qed

lemma skip_string_occ:
  "occurs d off w \<Longrightarrow> skip_string d p = Some q \<Longrightarrow> skip_string w (off + p) = Some (off + q)"
  using skip_string_loop_occ [of d off w "Suc p" q] occ_nth [of d off w p] occ_less [of d off w p]
  by (simp add: skip_string_def split: if_splits)

lemmas skip_string_emb = skip_string_occ [OF embedded_occurs]

lemma digit_at_emb: "embedded d off w \<Longrightarrow> digit_at d p \<Longrightarrow> digit_at w (off + p)"
  using emb_nth emb_less by (simp add: digit_at_def)

lemma digit_before_end: "embedded d off w \<Longrightarrow> digit_at d p \<Longrightarrow> Suc p < length d"
  using emb_inside by (simp add: digit_at_def)

lemma skip_digits_emb_at:
  "embedded d off w \<Longrightarrow> digit_at d p \<Longrightarrow> skip_digits w (off + p) = off + skip_digits d p \<and> skip_digits d p < length d"
  using skip_digits_emb by (simp add: digit_at_def)

lemma skip_int_emb:
  assumes "embedded d off w" "skip_int d p = Some q"
  shows "skip_int w (off + p) = Some (off + q) \<and> q < length d"
proof -
  define s where "s = (if p < length d \<and> d ! p = CHR ''-'' then p + 1 else p)"
  have digit: "digit_at d s" using assms(2) by (auto simp: skip_int_def s_def Let_def split: if_splits)
  then have p: "p < length d" by (auto simp: digit_at_def s_def split: if_splits)
  have s: "(if off + p < length w \<and> w ! (off + p) = CHR ''-'' then off + p + 1 else off + p) = off + s"
    using emb_nth [OF assms(1) p] emb_less [OF assms(1) p] p by (simp add: s_def)
  have w: "digit_at w (off + s)" "w ! (off + s) = d ! s"
    using digit_at_emb [OF assms(1) digit] emb_nth [OF assms(1)] digit by (simp_all add: digit_at_def)
  have "skip_int d p = (if d ! s = CHR ''0'' then Some (s + 1) else Some (skip_digits d s))"
    using digit by (simp add: skip_int_def s_def [symmetric])
  moreover have "skip_int w (off + p) = (if d ! s = CHR ''0'' then Some (off + s + 1) else Some (skip_digits w (off + s)))"
    unfolding skip_int_def s Let_def using w by simp
  ultimately show ?thesis
    using assms(2) skip_digits_emb_at [OF assms(1) digit] digit_before_end [OF assms(1) digit] by (auto split: if_splits)
qed

lemma skip_frac_emb:
  assumes "embedded d off w" "p < length d" "skip_frac d p = Some q"
  shows "skip_frac w (off + p) = Some (off + q) \<and> q < length d"
proof (cases "d ! p = CHR ''.''")
  case True
  then have digit: "digit_at d (Suc p)" and q: "q = skip_digits d (Suc p)"
    using assms(2,3) by (auto simp: skip_frac_def split: if_splits)
  then show ?thesis
    using True assms emb_nth [OF assms(1,2)] emb_less [OF assms(1,2)] digit_at_emb [OF assms(1) digit]
      skip_digits_emb_at [OF assms(1) digit] by (simp add: skip_frac_def)
next
  case False
  then show ?thesis using assms emb_nth [OF assms(1,2)] emb_less [OF assms(1,2)] by (simp add: skip_frac_def)
qed

lemma skip_exp_emb:
  assumes "embedded d off w" "p < length d" "skip_exp d p = Some q"
  shows "skip_exp w (off + p) = Some (off + q) \<and> q < length d"
proof (cases "d ! p = CHR ''e'' \<or> d ! p = CHR ''E''")
  case True
  define s where "s = (if p + 1 < length d \<and> (d ! (p + 1) = CHR ''+'' \<or> d ! (p + 1) = CHR ''-'') then p + 2 else p + 1)"
  have digit: "digit_at d s" and q: "q = skip_digits d s"
    using True assms(2,3) by (auto simp: skip_exp_def s_def Let_def split: if_splits)
  then have p1: "p + 1 < length d" by (auto simp: digit_at_def s_def split: if_splits)
  have s: "(if off + p + 1 < length w \<and> (w ! (off + p + 1) = CHR ''+'' \<or> w ! (off + p + 1) = CHR ''-'')
      then off + p + 2 else off + p + 1) = off + s"
    using emb_nth [OF assms(1) p1] emb_less [OF assms(1) p1] p1 by (simp add: s_def)
  show ?thesis
    using True assms(1,2) q emb_nth [OF assms(1,2)] emb_less [OF assms(1,2)] digit_at_emb [OF assms(1) digit]
      skip_digits_emb_at [OF assms(1) digit] unfolding skip_exp_def s Let_def by simp
next
  case False
  then show ?thesis using assms emb_nth [OF assms(1,2)] emb_less [OF assms(1,2)] by (simp add: skip_exp_def)
qed

lemma skip_number_emb:
  assumes "embedded d off w" "skip_number d p = Some q"
  shows "skip_number w (off + p) = Some (off + q)"
proof -
  obtain a where a: "skip_int d p = Some a" using assms(2) by (auto simp: skip_number_def split: option.splits)
  note A = skip_int_emb [OF assms(1) a]
  obtain b where b: "skip_frac d a = Some b" using assms(2) a by (auto simp: skip_number_def split: option.splits)
  note B = skip_frac_emb [OF assms(1) conjunct2 [OF A] b]
  obtain c where c: "skip_exp d b = Some c" using assms(2) a b by (auto simp: skip_number_def split: option.splits)
  note C = skip_exp_emb [OF assms(1) conjunct2 [OF B] c]
  show ?thesis using assms(2) a b c A B C by (simp add: skip_number_def split: if_splits)
qed

lemma match_literal_emb: "embedded d off w \<Longrightarrow> match_literal d p lit \<Longrightarrow> match_literal w (off + p) lit"
  using emb_substr [of d off w p "length lit"] by (auto simp: match_literal_def embedded_def occurs_def split: if_splits)

lemma open_or_scalar_emb:
  assumes "embedded d off w" "open_or_scalar d p frames = Some (q, t)"
  shows "open_or_scalar w (off + p) frames = Some (off + q, t)"
proof -
  have p: "p < length d" using assms(2) by (auto simp: open_or_scalar_def split: if_splits)
  show ?thesis
    using assms(2) p emb_nth [OF assms(1) p] emb_less [OF assms(1) p]
      skip_string_emb [OF assms(1)] skip_number_emb [OF assms(1)] match_literal_emb [OF assms(1)]
    by (auto simp: open_or_scalar_def Let_def split: if_splits)
qed

lemma walk_value_emb:
  "embedded d off w \<Longrightarrow> walk_value d p frames a = Some (q, t) \<Longrightarrow> walk_value w (off + p) frames a = Some (off + q, t)"
  using open_or_scalar_emb by (fastforce simp: walk_value_def split: option.splits)

lemma walk_key_emb:
  "embedded d off w \<Longrightarrow> p < length d \<Longrightarrow> walk_key d p frames = Some (q, t) \<Longrightarrow> walk_key w (off + p) frames = Some (off + q, t)"
  using skip_string_emb [of d off w p] emb_nth [of d off w p] by (auto simp: walk_key_def split: if_splits)

lemma walk_step_emb:
  assumes "embedded d off w" "walk_step d p frames = Some (q, t)"
  shows "walk_step w (off + p) frames = Some (off + q, t)"
proof -
  let ?p = "skip_ws d p"
  have p: "?p < length d" using assms(2) by (auto simp: walk_step_def Let_def split: if_splits)
  then have "p < length d" using skip_ws_ge [of p d] by simp
  then have ws: "skip_ws w (off + p) = off + ?p" using skip_ws_emb [OF assms(1)] by blast
  note [simp] = emb_nth [OF assms(1) p] emb_less [OF assms(1) p, folded not_le]
  show ?thesis
    using assms(2) p ws walk_value_emb [OF assms(1)] walk_key_emb [OF assms(1) p]
    by (cases "snd (hd frames)") (auto simp: walk_step_def Let_def walk_close_def split: if_splits)
qed

lemma walk_loop_emb:
  "embedded d off w \<Longrightarrow> walk_loop d p frames = Some q \<Longrightarrow> walk_loop w (off + p) frames = Some (off + q)"
proof (induction d p frames rule: walk_loop.induct)
  case (1 d p frames)
  show ?case
  proof (cases "frames = []")
    case True
    then show ?thesis using "1.prems" by (simp add: walk_loop.simps)
  next
    case False
    then obtain p' t where st: "walk_step d p frames = Some (p', t)" "walk_loop d p' t = Some q"
      using "1.prems"(2) by (auto simp: walk_loop.simps [of d p] split: option.splits)
    then show ?thesis
      using "1.IH" [OF False st(1) refl "1.prems"(1) st(2)] walk_step_emb [OF "1.prems"(1) st(1)] False
      by (simp add: walk_loop.simps [of w "off + p"])
  qed
qed

lemma skip_value_emb:
  assumes "embedded d off w" "skip_value d p = Some q"
  shows "skip_value w (off + p) = Some (off + q)"
proof -
  let ?p = "skip_ws d p"
  have p: "?p < length d" using assms(2) by (auto simp: skip_value_def Let_def split: if_splits)
  then have "p < length d" using skip_ws_ge [of p d] by simp
  then have ws: "skip_ws w (off + p) = off + ?p" using skip_ws_emb [OF assms(1)] by blast
  obtain q' t where o: "open_or_scalar d ?p [] = Some (q', t)" "walk_loop d q' t = Some q"
    using assms(2) p by (auto simp: skip_value_def Let_def split: option.splits)
  then show ?thesis
    using open_or_scalar_emb [OF assms(1) o(1)] walk_loop_emb [OF assms(1) o(2)] emb_less [OF assms(1) p] ws
    by (simp add: skip_value_def)
qed

lemma skip_ws_emb_at:
  "embedded d off w \<Longrightarrow> skip_ws d p < length d \<Longrightarrow> skip_ws w (off + p) = off + skip_ws d p"
  using skip_ws_emb skip_ws_ge [of p d] by (meson le_less_trans)

lemma find_element_emb:
  "embedded d off w \<Longrightarrow> find_element d p idx n = Some (a, b) \<Longrightarrow>
   find_element w (off + p) idx n = Some (off + a, off + b)"
proof (induction d p idx n rule: find_element.induct)
  case (1 d p idx n)
  let ?p = "skip_ws d p"
  have p: "?p < length d" "d ! ?p \<noteq> CHR '']''"
    using "1.prems"(2) by (simp_all add: find_element.simps [of d p] Let_def split: if_splits)
  obtain e where e: "skip_value d ?p = Some e"
    using "1.prems"(2) p by (auto simp: find_element.simps [of d p] Let_def split: option.splits)
  let ?q = "skip_ws d e"
  have eq: "find_element d p idx n = (if idx = n then Some (?p, e)
      else if ?q < length d \<and> d ! ?q = CHR '','' then find_element d (?q + 1) (idx + 1) n else None)"
    using p e by (simp add: find_element.simps [of d p] Let_def)
  note emb = "1.prems"(1)
  have eq': "find_element w (off + p) idx n = (if idx = n then Some (off + ?p, off + e)
      else if skip_ws w (off + e) < length w \<and> w ! skip_ws w (off + e) = CHR '',''
        then find_element w (skip_ws w (off + e) + 1) (idx + 1) n else None)"
    using p skip_ws_emb_at [OF emb p(1)] skip_value_emb [OF emb e] emb_nth [OF emb p(1)] emb_less [OF emb p(1)]
    by (simp add: find_element.simps [of w "off + p"] Let_def)
  show ?case
  proof (cases "idx = n")
    case True
    then show ?thesis using "1.prems"(2) eq eq' by simp
  next
    case False
    then have q: "?q < length d \<and> d ! ?q = CHR '',''" and rest: "find_element d (?q + 1) (idx + 1) n = Some (a, b)"
      using trans [OF eq [symmetric] "1.prems"(2)] by (simp_all split: if_splits)
    have "find_element w (off + (?q + 1)) (idx + 1) n = Some (off + a, off + b)"
      using "1.IH" [OF refl _ e False refl q emb rest] p by simp
    then show ?thesis
      using eq' False q skip_ws_emb_at [OF emb, of e] emb_nth [OF emb, of ?q] emb_less [OF emb, of ?q]
      by (simp add: add.assoc)
  qed
qed

lemma find_member_step:
  assumes "find_member d p target = Some (a, b)"
  shows "\<exists>ke ve. let pos = skip_ws d p; colon = skip_ws d ke; v = skip_ws d (colon + 1); q = skip_ws d ve in
    pos < length d \<and> d ! pos = CHR 0x22 \<and> skip_string d pos = Some ke \<and> colon < length d \<and> d ! colon = CHR '':'' \<and>
    v < length d \<and> skip_value d v = Some ve \<and>
    (if decode_string (substr d pos (ke - pos)) = target then a = v \<and> b = ve
     else q < length d \<and> d ! q = CHR '','' \<and> find_member d (q + 1) target = Some (a, b))"
proof -
  let ?pos = "skip_ws d p"
  have pos: "?pos < length d" "d ! ?pos = CHR 0x22"
    using assms by (simp_all add: find_member.simps [of d p] Let_def split: if_splits)
  obtain ke where ke: "skip_string d ?pos = Some ke"
    using assms pos by (auto simp: find_member.simps [of d p] Let_def split: option.splits)
  let ?colon = "skip_ws d ke" let ?v = "skip_ws d (?colon + 1)"
  have v: "?colon < length d" "d ! ?colon = CHR '':''" "?v < length d"
    using assms pos ke by (simp_all add: find_member.simps [of d p] Let_def split: if_splits)
  obtain ve where ve: "skip_value d ?v = Some ve"
    using assms pos ke v by (simp add: find_member.simps [of d p] Let_def split: option.splits)
  have "find_member d p target =
      (if decode_string (substr d ?pos (ke - ?pos)) = target then Some (?v, ve)
       else if skip_ws d ve < length d \<and> d ! skip_ws d ve = CHR '','' then find_member d (skip_ws d ve + 1) target else None)"
    using pos ke v ve by (simp add: find_member.simps [of d p] Let_def)
  then show ?thesis
    using assms pos ke v ve by (intro exI [of _ ke] exI [of _ ve]) (auto simp: Let_def split: if_splits)
qed

lemma find_member_emb:
  "embedded d off w \<Longrightarrow> find_member d p target = Some (a, b) \<Longrightarrow>
   find_member w (off + p) target = Some (off + a, off + b)"
proof (induction "length d - p" arbitrary: p rule: less_induct)
  case less
  note emb = less.prems(1)
  obtain ke ve where m: "skip_ws d p < length d" "d ! skip_ws d p = CHR 0x22" "skip_string d (skip_ws d p) = Some ke"
      "skip_ws d ke < length d" "d ! skip_ws d ke = CHR '':''" "skip_ws d (skip_ws d ke + 1) < length d"
      "skip_value d (skip_ws d (skip_ws d ke + 1)) = Some ve"
    and last: "if decode_string (substr d (skip_ws d p) (ke - skip_ws d p)) = target
      then a = skip_ws d (skip_ws d ke + 1) \<and> b = ve
      else skip_ws d ve < length d \<and> d ! skip_ws d ve = CHR '','' \<and> find_member d (skip_ws d ve + 1) target = Some (a, b)"
    using find_member_step [OF less.prems(2)] unfolding Let_def by blast
  let ?p = "skip_ws d p" let ?c = "skip_ws d ke" let ?v = "skip_ws d (?c + 1)" let ?q = "skip_ws d ve"
  have ke: "?p + 1 < ke" "ke \<le> length d" using skip_string_bounds [OF m(3)] by simp_all
  have ws: "skip_ws w (off + p) = off + ?p" "skip_ws w (off + ke) = off + ?c" "skip_ws w (off + ?c + 1) = off + ?v"
    using skip_ws_emb_at [OF emb m(1)] skip_ws_emb_at [OF emb m(4)] skip_ws_emb_at [OF emb m(6)] by (simp_all add: add.assoc)
  have key: "substr w (off + ?p) (ke - ?p) = substr d ?p (ke - ?p)" using emb_substr [OF emb] ke by simp
  have eq: "find_member w (off + p) target =
      (if decode_string (substr d ?p (ke - ?p)) = target then Some (off + ?v, off + ve)
       else if skip_ws w (off + ve) < length w \<and> w ! skip_ws w (off + ve) = CHR '',''
         then find_member w (skip_ws w (off + ve) + 1) target else None)"
    using m ws key skip_string_emb [OF emb m(3)] skip_value_emb [OF emb m(7)] emb_nth [OF emb m(1)] emb_nth [OF emb m(4)]
      emb_less [OF emb m(1)] emb_less [OF emb m(4)] emb_less [OF emb m(6)]
    by (simp add: find_member.simps [of w "off + p"] Let_def)
  show ?case
  proof (cases "decode_string (substr d ?p (ke - ?p)) = target")
    case True
    then show ?thesis using last eq by simp
  next
    case False
    then have q: "?q < length d" "d ! ?q = CHR '',''" "find_member d (?q + 1) target = Some (a, b)" using last by simp_all
    have "p \<le> ?p" "ke \<le> ?c" "?c + 1 \<le> ?v" "?v < ve" "ve \<le> ?q"
      using skip_ws_ge skip_value_gt [OF m(7)] by blast+
    then have "length d - (?q + 1) < length d - p" using q(1) ke by linarith
    then have "find_member w (off + (?q + 1)) target = Some (off + a, off + b)" using less.hyps emb q(3) by blast
    then show ?thesis
      using False eq q skip_ws_emb_at [OF emb q(1)] emb_nth [OF emb q(1)] emb_less [OF emb q(1)] by (simp add: add.assoc)
  qed
qed

lemma find_child_emb:
  assumes "embedded d off w" "p < length d" "find_child d p seg = Some (a, b)"
  shows "find_child w (off + p) seg = Some (off + a, off + b)"
  using assms find_element_emb [OF assms(1), of "p + 1"] find_member_emb [OF assms(1), of "p + 1"]
    emb_nth [OF assms(1,2)] by (simp add: find_child_def split: if_splits)

lemma find_from_emb:
  "embedded d off w \<Longrightarrow> p < length d \<Longrightarrow> find_from d p path = Some sp \<Longrightarrow> find_from w (off + p) path = Some (shift_span off sp)"
proof (induction d p path rule: find_from.induct)
  case (1 d p)
  then show ?case using skip_value_emb [of d off w p] emb_nth [of d off w p] by (auto simp: span_at_def shift_span_def)
next
  case (2 d p seg path)
  let ?p = "skip_ws d p"
  have p: "?p < length d" using "2.prems"(3) by (simp add: Let_def split: if_splits)
  obtain a b where c: "find_child d ?p seg = Some (a, b)" using "2.prems"(3) p by (auto simp: Let_def split: option.splits)
  have a: "a < length d" using find_child_complete [OF c] by (simp add: complete_value_def)
  show ?case
  proof (cases "path = []")
    case True
    then show ?thesis
      using "2.prems"(3) p c a emb_nth [OF "2.prems"(1) a] emb_less [OF "2.prems"(1) p] skip_ws_emb_at [OF "2.prems"(1) p]
        find_child_emb [OF "2.prems"(1) p c] by (auto simp: Let_def span_at_def shift_span_def add.commute)
  next
    case False
    then have "find_from d a path = Some sp" using "2.prems"(3) p c by (simp add: Let_def)
    then have "find_from w (off + a) path = Some (shift_span off sp)"
      using "2.IH" [OF refl _ c refl False "2.prems"(1) a] p by simp
    then show ?thesis
      using False emb_less [OF "2.prems"(1) p] skip_ws_emb_at [OF "2.prems"(1) p] find_child_emb [OF "2.prems"(1) p c]
      by (simp add: Let_def)
  qed
qed

section \<open>Lookups in a container\<close>

text \<open>The walk over a container ends with its closing bracket.\<close>

lemma walk_step_empties:
  assumes "walk_step d p frames = Some (q, [])" "frames \<noteq> []"
  shows "0 < q \<and> (d ! (q - 1) = CHR ''}'' \<or> d ! (q - 1) = CHR '']'')"
proof -
  have "walk_value d r frames a \<noteq> Some (q, [])" "walk_key d r frames \<noteq> Some (q, [])" for r a
    using assms(2) open_or_scalar_length [of d r frames]
    by (auto simp: walk_value_def walk_key_def split: option.splits if_splits)
  then show ?thesis
    using assms by (auto simp: walk_step_def Let_def walk_close_def split: walk_state.splits if_splits)
qed

lemma walk_loop_last:
  "walk_loop d p frames = Some q \<Longrightarrow> frames \<noteq> [] \<Longrightarrow> 0 < q \<and> (d ! (q - 1) = CHR ''}'' \<or> d ! (q - 1) = CHR '']'')"
proof (induction d p frames rule: walk_loop.induct)
  case (1 d p frames)
  obtain p' t where st: "walk_step d p frames = Some (p', t)" "walk_loop d p' t = Some q"
    using "1.prems" by (auto simp: walk_loop.simps [of d p] split: option.splits)
  show ?case
  proof (cases "t = []")
    case True
    then have "q = p'" using st(2) by (simp add: walk_loop.simps)
    then show ?thesis using walk_step_empties [OF st(1) [unfolded True] "1.prems"(2)] by simp
  next
    case False
    then show ?thesis using "1.IH" [OF "1.prems"(2) st(1) refl st(2)] by blast
  qed
qed

definition opens_container :: "string \<Rightarrow> nat \<Rightarrow> bool" where
  "opens_container d p \<longleftrightarrow> d ! p = CHR ''{'' \<or> d ! p = CHR ''[''"

lemma find_child_opens: "find_child d p seg = Some (a, b) \<Longrightarrow> opens_container d p"
  by (auto simp: find_child_def opens_container_def split: if_splits)

lemma container_walk:
  assumes "skip_value d p = Some e" "opens_container d (skip_ws d p)"
  shows "\<exists>k s. (k = CHR ''{'' \<and> s = ObjectStart \<or> k = CHR ''['' \<and> s = ArrayStart) \<and> d ! skip_ws d p = k \<and>
    walk_loop d (skip_ws d p + 1) [(k, s)] = Some e"
  using assms skip_value_open [OF assms(1) refl] by (auto simp: opens_container_def)

lemma container_last:
  assumes "skip_value d p = Some e" "opens_container d (skip_ws d p)"
  shows "d ! (e - 1) = CHR ''}'' \<or> d ! (e - 1) = CHR '']''"
  using container_walk [OF assms] walk_loop_last by blast

lemma skip_ws_occ:
  "occurs d off w \<Longrightarrow> skip_ws d p < length d \<Longrightarrow> skip_ws w (off + p) = off + skip_ws d p"
proof (induction d p rule: skip_ws.induct)
  case (1 d p)
  have "p < length d" using "1.prems"(2) skip_ws_ge [of p d] by simp
  then have n: "w ! (off + p) = d ! p" "off + p < length w" "p < length d"
    using occ_nth [OF "1.prems"(1)] occ_less [OF "1.prems"(1)] by blast+
  show ?case
  proof (cases "is_ws (d ! p)")
    case True
    then show ?thesis using "1.IH" "1.prems" n by (simp add: skip_ws.simps [of d p] skip_ws.simps [of w "off + p"])
  qed (use n in \<open>simp add: skip_ws.simps [of d p] skip_ws.simps [of w "off + p"]\<close>)
qed

lemma sub_doc_occurs: "in_doc w sp \<Longrightarrow> occurs (sub_doc w sp) (vs_start sp) w \<and> length (sub_doc w sp) = vs_end sp - vs_start sp"
  by (simp add: occurs_def sub_doc_def substr_def in_doc_def min_absorb2 diff_le_mono not_less)

lemma find_value_from: "path \<noteq> [] \<Longrightarrow> find_value d path = find_from d 0 path"
  by (cases path) (simp_all add: find_value_def Let_def)

lemma sub_doc_embedded:
  assumes "skip_value w (vs_start sp) = Some (vs_end sp)" "skip_ws (sub_doc w sp) 0 < length (sub_doc w sp)"
    and "opens_container (sub_doc w sp) (skip_ws (sub_doc w sp) 0)"
  shows "embedded (sub_doc w sp) (vs_start sp) w"
proof -
  let ?d = "sub_doc w sp" let ?s = "vs_start sp" let ?e = "vs_end sp"
  have e: "?s < ?e" "?e \<le> length w" using skip_value_gt [OF assms(1)] by simp_all
  then have occ: "occurs ?d ?s w" and len: "length ?d = ?e - ?s" using sub_doc_occurs [of w sp] by (simp_all add: in_doc_def)
  have "skip_ws w ?s = ?s + skip_ws ?d 0" using skip_ws_occ [OF occ, of 0] assms(2) by simp
  then have "opens_container w (skip_ws w ?s)"
    using assms(2,3) occ_nth [OF occ assms(2)] by (simp add: opens_container_def)
  then have "w ! (?e - 1) = CHR ''}'' \<or> w ! (?e - 1) = CHR '']''" by (rule container_last [OF assms(1)])
  moreover have "?d \<noteq> []" using len e by auto
  moreover from this have "last ?d = w ! (?e - 1)"
    using occ_nth [OF occ, of "length ?d - 1"] len e by (simp add: last_conv_nth)
  ultimately show ?thesis using occ by (auto simp: embedded_def)
qed

text \<open>A lookup scoped to the span of a value is the lookup from that value in the document.\<close>

lemma find_value_in_from:
  assumes "skip_value w (vs_start sp) = Some (vs_end sp)" "find_value_in w sp path = Some sp2" "path \<noteq> []"
  shows "find_from w (vs_start sp) path = Some sp2"
proof -
  let ?d = "sub_doc w sp"
  obtain sp1 where sp1: "find_from ?d 0 path = Some sp1" "sp2 = shift_span (vs_start sp) sp1"
    using assms(2,3) find_value_from by (auto simp: find_value_in_def split: if_splits)
  obtain seg rest where path: "path = seg # rest" using assms(3) by (cases path) auto
  have d: "skip_ws ?d 0 < length ?d" "opens_container ?d (skip_ws ?d 0)"
    using sp1(1) find_child_opens unfolding path by (auto simp: Let_def split: if_splits option.splits)
  moreover have "0 < length ?d" using d(1) by linarith
  ultimately show ?thesis using find_from_emb [OF sub_doc_embedded [OF assms(1) d], of 0] sp1 by simp
qed

lemma find_from_append:
  "xs \<noteq> [] \<Longrightarrow> ys \<noteq> [] \<Longrightarrow> find_from d p xs = Some sp \<Longrightarrow> find_from d p (xs @ ys) = find_from d (vs_start sp) ys"
proof (induction d p xs rule: find_from.induct)
  case (2 d p seg path)
  obtain a b where c: "skip_ws d p < length d" "find_child d (skip_ws d p) seg = Some (a, b)"
    using "2.prems"(3) by (auto simp: Let_def split: if_splits option.splits)
  show ?case
  proof (cases "path = []")
    case True
    then have "vs_start sp = a" using "2.prems"(3) c by (auto simp: Let_def span_at_def)
    then show ?thesis using "2.prems"(2) c True by (simp add: Let_def)
  next
    case False
    then show ?thesis using "2.IH" [OF refl _ c(2) refl False False "2.prems"(2)] "2.prems"(2,3) c by (simp add: Let_def)
  qed
qed simp

lemma find_from_skip_ws: "path \<noteq> [] \<Longrightarrow> find_from d (skip_ws d p) path = find_from d p path"
  by (cases path) (simp_all add: Let_def)

section \<open>Elements of an array\<close>

lemma skip_value_not_close: "skip_value d p = Some e \<Longrightarrow> d ! skip_ws d p \<noteq> CHR '']''"
  by (auto simp: skip_value_def open_or_scalar_def is_digit_char_def Let_def split: if_splits)

lemma elements_loop_nth:
  "i < length (elements_loop d q) \<Longrightarrow> skip_ws d q = skip_ws d p \<Longrightarrow>
   find_element d p idx (idx + i) = Some (skip_ws d (vs_start (elements_loop d q ! i)), vs_end (elements_loop d q ! i))"
proof (induction d q arbitrary: i p idx rule: elements_loop.induct)
  case (1 d q)
  obtain ve where ve: "skip_value d q = Some ve"
    using "1.prems"(1) by (cases "skip_value d q") (simp_all add: elements_loop.simps [of d q])
  let ?q = "skip_ws d ve"
  define more where "more = (?q < length d \<and> d ! ?q = CHR '','')"
  have el: "elements_loop d q = span_at d (q, ve) # (if more then elements_loop d (?q + 1) else [])"
    using ve by (subst elements_loop.simps) (simp add: Let_def more_def)
  have v: "skip_value d (skip_ws d p) = Some ve" using ve "1.prems"(2) by (metis skip_value_skip_ws)
  then have "skip_ws d p < length d" "d ! skip_ws d p \<noteq> CHR '']''"
    using skip_value_bounds [OF v] skip_value_not_close [OF v] by simp_all
  then have fe: "find_element d p idx n = (if idx = n then Some (skip_ws d p, ve)
      else if more then find_element d (?q + 1) (idx + 1) n else None)" for n
    using v by (simp add: find_element.simps [of d p] Let_def more_def)
  show ?case
  proof (cases i)
    case 0
    then show ?thesis using el fe "1.prems"(2) by (simp add: span_at_def)
  next
    case (Suc j)
    then have "more" "j < length (elements_loop d (?q + 1))"
      using "1.prems"(1) el by (auto split: if_splits)
    then show ?thesis
      using "1.IH" [OF ve refl, of j "?q + 1" "idx + 1"] el fe Suc by (simp add: more_def)
  qed
qed

lemma array_elements_nth:
  assumes "i < length (array_elements d sp)"
  shows "find_child d (vs_start sp) (index_seg i) =
    Some (skip_ws d (vs_start (array_elements d sp ! i)), vs_end (array_elements d sp ! i))"
proof -
  let ?p = "skip_ws d (vs_start sp + 1)"
  have a: "d ! vs_start sp = CHR ''[''" "array_elements d sp = elements_loop d ?p"
    using assms by (auto simp: array_elements_def Let_def split: if_splits)
  show ?thesis
    using elements_loop_nth [of i d ?p "vs_start sp + 1" 0] assms a by (simp add: find_child_def index_seg_def)
qed

section \<open>Paths\<close>

text \<open>A path leads to a value whose recorded span may start with blanks, as those of \<open>array_elements\<close> do.\<close>

definition resolves :: "string \<Rightarrow> path_seg list \<Rightarrow> value_span \<Rightarrow> bool" where
  "resolves w path sp \<longleftrightarrow>
     path \<noteq> [] \<and> skip_value w (vs_start sp) = Some (vs_end sp) \<and>
     (\<exists>sp'. find_value w path = Some sp' \<and> vs_start sp' = skip_ws w (vs_start sp) \<and> vs_end sp' = vs_end sp)"

lemma find_value_skip:
  assumes "find_value w path = Some sp"
  shows "skip_value w (vs_start sp) = Some (vs_end sp)" "skip_ws w (vs_start sp) = vs_start sp" "in_doc w sp"
  using find_value_complete [OF assms] by (simp_all add: skip_ws_stop in_doc_def)

lemma resolves_found: "find_value w path = Some sp \<Longrightarrow> path \<noteq> [] \<Longrightarrow> resolves w path sp"
  using find_value_skip by (simp add: resolves_def)

lemma resolves_in:
  assumes "resolves w p sp" "find_value_in w sp q = Some sp2" "q \<noteq> []"
  shows "find_value w (p @ q) = Some sp2"
proof -
  obtain sp' where sp': "p \<noteq> []" "find_value w p = Some sp'" "vs_start sp' = skip_ws w (vs_start sp)"
      "skip_value w (vs_start sp) = Some (vs_end sp)"
    using assms(1) by (auto simp: resolves_def)
  have "find_from w (vs_start sp') q = Some sp2"
    using find_value_in_from [OF sp'(4) assms(2,3)] assms(3) by (simp add: sp'(3) find_from_skip_ws)
  then show ?thesis using sp'(1,2) assms(3) by (simp add: find_value_from find_from_append)
qed

lemma resolves_element:
  assumes "find_value w p = Some sp" "p \<noteq> []" "i < length (array_elements w sp)"
  shows "resolves w (p @ [index_seg i]) (array_elements w sp ! i)"
proof -
  let ?e = "array_elements w sp ! i" and ?n = "skip_ws w (vs_start sp)"
  note c = array_elements_nth [OF assms(3)]
  have "find_from w (vs_start sp) [index_seg i] = Some (span_at w (skip_ws w (vs_start ?e), vs_end ?e))"
    using c find_value_skip [OF assms(1)] find_value_complete [OF assms(1)] by (simp add: Let_def)
  then have "find_value w (p @ [index_seg i]) = Some (span_at w (skip_ws w (vs_start ?e), vs_end ?e))"
    using assms(1,2) by (simp add: find_value_from find_from_append)
  moreover have "skip_value w (vs_start ?e) = Some (vs_end ?e)"
    using find_child_complete [OF c] by (simp add: complete_value_def)
  ultimately show ?thesis by (simp add: resolves_def span_at_def)
qed

section \<open>Where the values of different paths lie\<close>

lemma find_member_ge: "find_member d p t = Some (a, b) \<Longrightarrow> p < a \<and> a < b"
proof (induction "length d - p" arbitrary: p rule: less_induct)
  case less
  obtain ke ve where m: "skip_ws d p < length d" "skip_string d (skip_ws d p) = Some ke"
      "skip_value d (skip_ws d (skip_ws d ke + 1)) = Some ve"
    and last: "if decode_string (substr d (skip_ws d p) (ke - skip_ws d p)) = t
      then a = skip_ws d (skip_ws d ke + 1) \<and> b = ve
      else skip_ws d ve < length d \<and> d ! skip_ws d ve = CHR '','' \<and> find_member d (skip_ws d ve + 1) t = Some (a, b)"
    using find_member_step [OF less.prems] unfolding Let_def by blast
  have le: "p \<le> skip_ws d p" "skip_ws d p + 1 < ke" "ke \<le> skip_ws d ke" "skip_ws d ke + 1 \<le> skip_ws d (skip_ws d ke + 1)"
      "skip_ws d (skip_ws d ke + 1) < ve" "ve \<le> skip_ws d ve"
    using skip_ws_ge skip_string_bounds [OF m(2)] skip_value_gt [OF m(3)] by blast+
  show ?case
  proof (cases "decode_string (substr d (skip_ws d p) (ke - skip_ws d p)) = t")
    case True
    then show ?thesis using last le by auto
  next
    case False
    then have "skip_ws d ve < length d" "find_member d (skip_ws d ve + 1) t = Some (a, b)" using last by simp_all
    then show ?thesis using less.hyps [of "skip_ws d ve + 1"] le by fastforce
  qed
qed

lemma find_element_step:
  assumes "find_element d p idx n = Some (a, b)"
  shows "\<exists>ve. let pos = skip_ws d p; q = skip_ws d ve in
    pos < length d \<and> d ! pos \<noteq> CHR '']'' \<and> skip_value d pos = Some ve \<and>
    (if idx = n then a = pos \<and> b = ve
     else q < length d \<and> d ! q = CHR '','' \<and> find_element d (q + 1) (idx + 1) n = Some (a, b))"
proof -
  let ?p = "skip_ws d p"
  have p: "?p < length d" "d ! ?p \<noteq> CHR '']''"
    using assms by (simp_all add: find_element.simps [of d p] Let_def split: if_splits)
  obtain ve where ve: "skip_value d ?p = Some ve"
    using assms p by (auto simp: find_element.simps [of d p] Let_def split: option.splits)
  have "find_element d p idx n = (if idx = n then Some (?p, ve)
      else if skip_ws d ve < length d \<and> d ! skip_ws d ve = CHR '','' then find_element d (skip_ws d ve + 1) (idx + 1) n else None)"
    using p ve by (simp add: find_element.simps [of d p] Let_def)
  then show ?thesis using assms p ve by (intro exI [of _ ve]) (auto simp: Let_def split: if_splits)
qed

lemma find_element_ge: "find_element d p idx n = Some (a, b) \<Longrightarrow> p \<le> a \<and> a < b"
proof (induction "length d - p" arbitrary: p idx rule: less_induct)
  case less
  obtain ve where m: "skip_ws d p < length d" "skip_value d (skip_ws d p) = Some ve"
    and last: "if idx = n then a = skip_ws d p \<and> b = ve
      else skip_ws d ve < length d \<and> d ! skip_ws d ve = CHR '','' \<and> find_element d (skip_ws d ve + 1) (idx + 1) n = Some (a, b)"
    using find_element_step [OF less.prems] unfolding Let_def by blast
  have le: "p \<le> skip_ws d p" "skip_ws d p < ve" "ve \<le> skip_ws d ve"
    using skip_ws_ge skip_value_gt [OF m(2)] by blast+
  show ?case
  proof (cases "idx = n")
    case True
    then show ?thesis using last le by auto
  next
    case False
    then have "skip_ws d ve < length d" "find_element d (skip_ws d ve + 1) (idx + 1) n = Some (a, b)" using last by simp_all
    then show ?thesis using less.hyps [of "skip_ws d ve + 1" "idx + 1"] le by fastforce
  qed
qed

text \<open>Members with different keys and elements with different indexes do not overlap.\<close>

lemma find_members_apart:
  "find_member d p t = Some (a, b) \<Longrightarrow> find_member d p t' = Some (a', b') \<Longrightarrow> t \<noteq> t' \<Longrightarrow> b \<le> a' \<or> b' \<le> a"
proof (induction "length d - p" arbitrary: p rule: less_induct)
  case less
  obtain ke ve where m: "skip_ws d p < length d" "skip_string d (skip_ws d p) = Some ke"
      "skip_value d (skip_ws d (skip_ws d ke + 1)) = Some ve"
    and last: "if decode_string (substr d (skip_ws d p) (ke - skip_ws d p)) = t
      then a = skip_ws d (skip_ws d ke + 1) \<and> b = ve
      else skip_ws d ve < length d \<and> d ! skip_ws d ve = CHR '','' \<and> find_member d (skip_ws d ve + 1) t = Some (a, b)"
    using find_member_step [OF less.prems(1)] unfolding Let_def by blast
  have last': "if decode_string (substr d (skip_ws d p) (ke - skip_ws d p)) = t'
      then a' = skip_ws d (skip_ws d ke + 1) \<and> b' = ve
      else skip_ws d ve < length d \<and> d ! skip_ws d ve = CHR '','' \<and> find_member d (skip_ws d ve + 1) t' = Some (a', b')"
    using find_member_step [OF less.prems(2)] m(2,3) unfolding Let_def by auto
  have le: "p \<le> skip_ws d p" "skip_ws d p + 1 < ke" "ke \<le> skip_ws d ke" "skip_ws d ke + 1 \<le> skip_ws d (skip_ws d ke + 1)"
      "skip_ws d (skip_ws d ke + 1) < ve" "ve \<le> skip_ws d ve"
    using skip_ws_ge skip_string_bounds [OF m(2)] skip_value_gt [OF m(3)] by blast+
  consider "decode_string (substr d (skip_ws d p) (ke - skip_ws d p)) = t"
    | "decode_string (substr d (skip_ws d p) (ke - skip_ws d p)) = t'"
    | "decode_string (substr d (skip_ws d p) (ke - skip_ws d p)) \<noteq> t" "decode_string (substr d (skip_ws d p) (ke - skip_ws d p)) \<noteq> t'"
    by blast
  then show ?case
  proof cases
    case 1
    then have "b = ve" "find_member d (skip_ws d ve + 1) t' = Some (a', b')" using last last' less.prems(3) by simp_all
    then show ?thesis using find_member_ge le by fastforce
  next
    case 2
    then have "b' = ve" "find_member d (skip_ws d ve + 1) t = Some (a, b)" using last last' less.prems(3) by simp_all
    then show ?thesis using find_member_ge le by fastforce
  next
    case 3
    moreover from this have "skip_ws d ve < length d" using last by simp
    then have "length d - (skip_ws d ve + 1) < length d - p" using le by linarith
    ultimately show ?thesis using last last' less.hyps [of "skip_ws d ve + 1"] less.prems(3) by simp
  qed
qed

lemma find_elements_apart:
  "find_element d p idx n = Some (a, b) \<Longrightarrow> find_element d p idx n' = Some (a', b') \<Longrightarrow> n \<noteq> n' \<Longrightarrow> b \<le> a' \<or> b' \<le> a"
proof (induction "length d - p" arbitrary: p idx rule: less_induct)
  case less
  obtain ve where m: "skip_ws d p < length d" "skip_value d (skip_ws d p) = Some ve"
    and last: "if idx = n then a = skip_ws d p \<and> b = ve
      else skip_ws d ve < length d \<and> d ! skip_ws d ve = CHR '','' \<and> find_element d (skip_ws d ve + 1) (idx + 1) n = Some (a, b)"
    using find_element_step [OF less.prems(1)] unfolding Let_def by blast
  have last': "if idx = n' then a' = skip_ws d p \<and> b' = ve
      else skip_ws d ve < length d \<and> d ! skip_ws d ve = CHR '','' \<and> find_element d (skip_ws d ve + 1) (idx + 1) n' = Some (a', b')"
    using find_element_step [OF less.prems(2)] m(2) unfolding Let_def by auto
  have le: "p \<le> skip_ws d p" "skip_ws d p < ve" "ve \<le> skip_ws d ve"
    using skip_ws_ge skip_value_gt [OF m(2)] by blast+
  consider "idx = n" | "idx = n'" | "idx \<noteq> n" "idx \<noteq> n'" by blast
  then show ?case
  proof cases
    case 1
    then have "b = ve" "find_element d (skip_ws d ve + 1) (idx + 1) n' = Some (a', b')" using last last' less.prems(3) by simp_all
    then show ?thesis using find_element_ge le by fastforce
  next
    case 2
    then have "b' = ve" "find_element d (skip_ws d ve + 1) (idx + 1) n = Some (a, b)" using last last' less.prems(3) by simp_all
    then show ?thesis using find_element_ge le by fastforce
  next
    case 3
    moreover from this have "skip_ws d ve < length d" using last by simp
    then have "length d - (skip_ws d ve + 1) < length d - p" using le by linarith
    ultimately show ?thesis using last last' less.hyps [of "skip_ws d ve + 1" "idx + 1"] less.prems(3) by simp
  qed
qed

text \<open>A member or an element of a complete container ends before the container does.\<close>

lemma find_member_inside:
  "walk_loop d p [(CHR ''{'', s)] = Some e \<Longrightarrow> s = ObjectAfterComma \<or> s = ObjectStart \<Longrightarrow>
   find_member d p t = Some (a, b) \<Longrightarrow> b < e"
proof (induction "length d - p" arbitrary: p s rule: less_induct)
  case less
  obtain ke ve where m: "skip_ws d p < length d" "d ! skip_ws d p = CHR 0x22" "skip_string d (skip_ws d p) = Some ke"
      "skip_value d (skip_ws d (skip_ws d ke + 1)) = Some ve"
    and last: "if decode_string (substr d (skip_ws d p) (ke - skip_ws d p)) = t
      then a = skip_ws d (skip_ws d ke + 1) \<and> b = ve
      else skip_ws d ve < length d \<and> d ! skip_ws d ve = CHR '','' \<and> find_member d (skip_ws d ve + 1) t = Some (a, b)"
    using find_member_step [OF less.prems(3)] unfolding Let_def by blast
  have w: "walk_loop d ve [(CHR ''{'', ObjectAfterValue)] = Some e"
    using walk_object_member [OF less.prems(1)] less.prems(2) m by (auto simp: Let_def)
  have le: "p \<le> skip_ws d p" "skip_ws d p + 1 < ke" "ke \<le> skip_ws d ke" "skip_ws d ke + 1 \<le> skip_ws d (skip_ws d ke + 1)"
      "skip_ws d (skip_ws d ke + 1) < ve" "ve \<le> skip_ws d ve"
    using skip_ws_ge skip_string_bounds [OF m(3)] skip_value_gt [OF m(4)] by blast+
  consider "e = skip_ws d ve + 1" "d ! skip_ws d ve = CHR ''}''"
    | "d ! skip_ws d ve = CHR '',''" "walk_loop d (skip_ws d ve + 1) [(CHR ''{'', ObjectAfterComma)] = Some e"
      "skip_ws d ve < length d"
    using walk_after_member [OF w] by blast
  then show ?case
  proof cases
    case 1
    then show ?thesis using last le by (auto split: if_splits)
  next
    case 2
    have "skip_ws d ve + 1 \<le> e" using walk_loop_bounds [OF 2(2)] 2(3) by simp
    moreover have "length d - (skip_ws d ve + 1) < length d - p" using le 2(3) by simp
    ultimately show ?thesis using last le less.hyps [OF _ 2(2)] by (auto split: if_splits)
  qed
qed

lemma find_element_inside:
  "walk_loop d p [(CHR ''['', s)] = Some e \<Longrightarrow> s = ArrayAfterComma \<or> s = ArrayStart \<Longrightarrow>
   find_element d p idx n = Some (a, b) \<Longrightarrow> b < e"
proof (induction "length d - p" arbitrary: p s idx rule: less_induct)
  case less
  obtain ve where m: "skip_ws d p < length d" "d ! skip_ws d p \<noteq> CHR '']''" "skip_value d (skip_ws d p) = Some ve"
    and last: "if idx = n then a = skip_ws d p \<and> b = ve
      else skip_ws d ve < length d \<and> d ! skip_ws d ve = CHR '','' \<and> find_element d (skip_ws d ve + 1) (idx + 1) n = Some (a, b)"
    using find_element_step [OF less.prems(3)] unfolding Let_def by blast
  have w: "walk_loop d ve [(CHR ''['', ArrayAfterValue)] = Some e"
    using walk_array_elem [OF less.prems(1)] less.prems(2) m by auto
  have le: "p \<le> skip_ws d p" "skip_ws d p < ve" "ve \<le> skip_ws d ve"
    using skip_ws_ge skip_value_gt [OF m(3)] by blast+
  consider "e = skip_ws d ve + 1" "d ! skip_ws d ve = CHR '']''"
    | "d ! skip_ws d ve = CHR '',''" "walk_loop d (skip_ws d ve + 1) [(CHR ''['', ArrayAfterComma)] = Some e"
      "skip_ws d ve < length d"
    using walk_after_value [OF w] by blast
  then show ?case
  proof cases
    case 1
    then show ?thesis using last le by (auto split: if_splits)
  next
    case 2
    have "skip_ws d ve + 1 \<le> e" using walk_loop_bounds [OF 2(2)] 2(3) by simp
    moreover have "length d - (skip_ws d ve + 1) < length d - p" using le 2(3) by simp
    ultimately show ?thesis using last le less.hyps [OF _ 2(2), of "idx + 1"] by (auto split: if_splits)
  qed
qed

lemma find_child_inside:
  assumes "skip_value d p = Some e" "find_child d (skip_ws d p) seg = Some (a, b)"
  shows "p < a \<and> a < b \<and> b < e"
proof -
  obtain k s where w: "k = CHR ''{'' \<and> s = ObjectStart \<or> k = CHR ''['' \<and> s = ArrayStart" "d ! skip_ws d p = k"
      "walk_loop d (skip_ws d p + 1) [(k, s)] = Some e"
    using container_walk [OF assms(1) find_child_opens [OF assms(2)]] by blast
  have "skip_ws d p + 1 \<le> a \<and> a < b \<and> b < e"
  proof (cases "is_index seg")
    case True
    then have f: "k = CHR ''[''" "s = ArrayStart" "find_element d (skip_ws d p + 1) 0 (seg_index seg) = Some (a, b)"
      using w(1,2) assms(2) by (auto simp: find_child_def split: if_splits)
    show ?thesis using find_element_ge [OF f(3)] find_element_inside [OF w(3) [unfolded f(1)] _ f(3)] f(2) by simp
  next
    case False
    then have f: "k = CHR ''{''" "s = ObjectStart" "find_member d (skip_ws d p + 1) (seg_key seg) = Some (a, b)"
      using w(1,2) assms(2) by (auto simp: find_child_def split: if_splits)
    show ?thesis using find_member_ge [OF f(3)] find_member_inside [OF w(3) [unfolded f(1)] _ f(3)] f(2) by simp
  qed
  then show ?thesis using skip_ws_ge [of p d] by linarith
qed

lemma find_from_inside:
  "skip_value d p = Some e \<Longrightarrow> find_from d p path = Some sp \<Longrightarrow> p \<le> vs_start sp \<and> vs_start sp < vs_end sp \<and> vs_end sp \<le> e"
proof (induction d p path arbitrary: e rule: find_from.induct)
  case (1 d p)
  then show ?case using skip_value_gt by (auto simp: span_at_def)
next
  case (2 d p seg path)
  obtain a b where c: "\<not> skip_ws d p \<ge> length d" "find_child d (skip_ws d p) seg = Some (a, b)"
    using "2.prems"(2) by (auto simp: Let_def split: if_splits option.splits)
  note in_child = find_child_inside [OF "2.prems"(1) c(2)]
  show ?case
  proof (cases "path = []")
    case True
    then have "sp = span_at d (a, b)" using "2.prems"(2) c by (simp add: Let_def)
    then show ?thesis using in_child by (simp add: span_at_def)
  next
    case False
    then have "find_from d a path = Some sp" using "2.prems"(2) c by (simp add: Let_def)
    moreover have "skip_value d a = Some b" using find_child_complete [OF c(2)] by (simp add: complete_value_def)
    ultimately show ?thesis using "2.IH" [OF refl c(1) c(2) refl False] in_child by fastforce
  qed
qed

lemma find_from_child:
  assumes "find_from d p (seg # path) = Some sp"
  shows "\<exists>a b. find_child d (skip_ws d p) seg = Some (a, b) \<and> skip_value d a = Some b \<and> find_from d a path = Some sp"
proof -
  obtain a b where c: "\<not> skip_ws d p \<ge> length d" "find_child d (skip_ws d p) seg = Some (a, b)"
    using assms by (auto simp: Let_def split: if_splits option.splits)
  note complete_value = find_child_complete [OF c(2)]
  then show ?thesis using c assms by (auto simp: Let_def complete_value_def split: if_splits)
qed

text \<open>The segments that the program builds; a general \<open>PathSeg\<close> could carry an unused key or index.\<close>

definition plain_seg :: "path_seg \<Rightarrow> bool" where
  "plain_seg s \<longleftrightarrow> (if is_index s then seg_key s = [] else seg_index s = 0)"

lemma plain_seg_simps [simp]: "plain_seg (key_seg k)" "plain_seg (index_seg i)"
  by (simp_all add: plain_seg_def key_seg_def index_seg_def)

lemma find_children_apart:
  assumes "find_child d p s = Some (a, b)" "find_child d p s' = Some (a', b')" "plain_seg s" "plain_seg s'" "s \<noteq> s'"
  shows "b \<le> a' \<or> b' \<le> a"
proof -
  have "is_index s = is_index s'" using assms(1,2) by (auto simp: find_child_def split: if_splits)
  moreover from this have "if is_index s then seg_index s \<noteq> seg_index s' else seg_key s \<noteq> seg_key s'"
    using assms(3-5) path_seg.equality [of s s'] by (auto simp: plain_seg_def split: if_splits)
  ultimately show ?thesis
    using assms find_elements_apart [of d "p + 1" 0 "seg_index s" a b "seg_index s'" a' b']
      find_members_apart [of d "p + 1" "seg_key s" a b "seg_key s'" a' b']
    by (simp add: find_child_def split: if_splits)
qed

lemma find_from_apart:
  "find_from d p path = Some sp \<Longrightarrow> find_from d p path' = Some sp' \<Longrightarrow>
   list_all plain_seg path \<Longrightarrow> list_all plain_seg path' \<Longrightarrow> \<not> prefix path path' \<Longrightarrow> \<not> prefix path' path \<Longrightarrow>
   vs_end sp \<le> vs_start sp' \<or> vs_end sp' \<le> vs_start sp"
proof (induction path arbitrary: p path')
  case (Cons s path)
  then obtain s' rest where path': "path' = s' # rest" by (cases path') auto
  obtain a b a' b' where c: "find_child d (skip_ws d p) s = Some (a, b)" "skip_value d a = Some b" "find_from d a path = Some sp"
      "find_child d (skip_ws d p) s' = Some (a', b')" "skip_value d a' = Some b'" "find_from d a' rest = Some sp'"
    using find_from_child [OF Cons.prems(1)] find_from_child [OF Cons.prems(2) [unfolded path']] by blast
  show ?case
  proof (cases "s = s'")
    case True
    then show ?thesis using Cons.IH [OF c(3), of rest] c Cons.prems(3-6) path' by simp
  next
    case False
    then have "b \<le> a' \<or> b' \<le> a" using find_children_apart [OF c(1,4)] Cons.prems(3,4) path' by simp
    then show ?thesis using find_from_inside [OF c(2,3)] find_from_inside [OF c(5,6)] by linarith
  qed
qed simp

text \<open>Spans that do not overlap, in any order, and spans inside a range.\<close>

definition apart :: "value_span list \<Rightarrow> bool" where
  "apart sps \<longleftrightarrow> sorted_wrt (\<lambda>a b. vs_end a \<le> vs_start b \<or> vs_end b \<le> vs_start a) sps"

definition inside :: "nat \<Rightarrow> nat \<Rightarrow> value_span list \<Rightarrow> bool" where
  "inside lo hi sps \<longleftrightarrow> (\<forall>sp\<in>set sps. lo \<le> vs_start sp \<and> vs_start sp < vs_end sp \<and> vs_end sp \<le> hi)"

lemma apart_simps [simp]: "apart []" "apart [sp]"
  by (simp_all add: apart_def)

lemma inside_simps [simp]:
  "inside lo hi []" "inside lo hi (sps @ sps') \<longleftrightarrow> inside lo hi sps \<and> inside lo hi sps'"
  "inside lo hi [sp] \<longleftrightarrow> lo \<le> vs_start sp \<and> vs_start sp < vs_end sp \<and> vs_end sp \<le> hi"
  by (auto simp: inside_def)

lemma inside_mono: "inside lo hi sps \<Longrightarrow> lo' \<le> lo \<Longrightarrow> hi \<le> hi' \<Longrightarrow> inside lo' hi' sps"
  by (fastforce simp: inside_def)

lemma apart_append:
  "apart sps \<Longrightarrow> apart sps' \<Longrightarrow> inside lo hi sps \<Longrightarrow> inside lo' hi' sps' \<Longrightarrow> hi \<le> lo' \<or> hi' \<le> lo \<Longrightarrow> apart (sps @ sps')"
  by (fastforce simp: apart_def inside_def sorted_wrt_append)

lemma sorted_wrt_sort_by:
  assumes "\<And>x y. R x y \<Longrightarrow> R y x"
  shows "sorted_wrt R xs \<Longrightarrow> sorted_wrt R (sort_by lt xs)"
proof (induction xs)
  case (Cons x xs)
  have "sorted_wrt R ys \<Longrightarrow> \<forall>y\<in>set ys. R x y \<Longrightarrow> sorted_wrt R (insert_by lt x ys)" for ys
  proof (induction ys)
    case (Cons y ys)
    moreover have "set (insert_by lt x ys) = insert x (set ys)" by (metis mset_insert_by set_mset_add_mset_insert set_mset_mset)
    ultimately show ?case using assms by auto
  qed simp
  then show ?case using Cons by simp
qed simp

lemma edits_ok_apart:
  assumes "apart (map fst edits)" "inside 0 (length doc) (map fst edits)"
  shows "edits_ok doc (sort_by (\<lambda>a b. vs_start (fst a) < vs_start (fst b)) edits)"
proof -
  let ?s = "sort_by (\<lambda>a b. vs_start (fst a) < vs_start (fst b)) edits"
  let ?R = "\<lambda>a b. vs_end (fst a) \<le> vs_start (fst b) \<or> vs_end (fst b) \<le> vs_start (fst a)"
  have "sorted (map (\<lambda>e. vs_start (fst e)) ?s)" by (rule sorted_sort_by) auto
  moreover have "sorted_wrt ?R ?s"
    using assms(1) by (intro sorted_wrt_sort_by) (auto simp: apart_def sorted_wrt_map)
  ultimately have order: "sorted_wrt (\<lambda>a b. vs_start (fst a) \<le> vs_start (fst b) \<and> ?R a b) ?s"
    by (auto simp: sorted_wrt_iff_nth_less sorted_iff_nth_mono)
  have range: "vs_start (fst e) < vs_end (fst e) \<and> vs_end (fst e) \<le> length doc" if "e \<in> set ?s" for e
    using assms(2) that by (auto simp: inside_def)
  have "sorted_wrt (\<lambda>a b. vs_end (fst a) \<le> vs_start (fst b)) ?s"
    by (rule sorted_wrt_mono_rel [OF _ order]) (use range in fastforce)
  then show ?thesis using range by (fastforce simp: edits_ok_def in_doc_def)
qed

text \<open>C13. Paths that part address parts of the document that do not overlap, and a longer path stays
  inside what its prefix addresses.\<close>

theorem find_value_layout:
  assumes "find_value doc path = Some sp" "find_value doc path' = Some sp'"
    and "list_all plain_seg path" "list_all plain_seg path'" "path \<noteq> []" "path' \<noteq> []"
  shows "if prefix path path' then vs_start sp \<le> vs_start sp' \<and> vs_end sp' \<le> vs_end sp
    else if prefix path' path then vs_start sp' \<le> vs_start sp \<and> vs_end sp \<le> vs_end sp'
    else vs_end sp \<le> vs_start sp' \<or> vs_end sp' \<le> vs_start sp"
proof -
  have nested: "vs_start s \<le> vs_start t \<and> vs_end t \<le> vs_end s"
    if "find_value doc p = Some s" "find_value doc q = Some t" "prefix p q" "p \<noteq> []" for p q s t
  proof -
    obtain r where r: "q = p @ r" using \<open>prefix p q\<close> by (auto simp: prefix_def)
    show ?thesis
    proof (cases "r = []")
      case True
      then show ?thesis using that r by simp
    next
      case False
      then have "find_from doc (vs_start s) r = Some t" using that r by (simp add: find_value_from find_from_append)
      then show ?thesis using find_from_inside [OF find_value_skip(1) [OF that(1)]] by blast
    qed
  qed
  show ?thesis
    using nested [OF assms(1,2) _ assms(5)] nested [OF assms(2,1) _ assms(6)] find_from_apart [of doc 0 path sp path' sp'] assms
    by (simp add: find_value_from)
qed

theorem find_value_layout_witness:
  "let doc = ''{'' @ encode_string ''a'' True @ '': [10, 2]}'' in
     find_value doc [key_seg ''a'', index_seg 0] = Some \<lparr>vs_start = 7, vs_end = 9, is_string = False\<rparr> \<and>
     find_value doc [key_seg ''a'', index_seg 1] = Some \<lparr>vs_start = 11, vs_end = 12, is_string = False\<rparr> \<and>
     (9 \<le> (11 :: nat) \<or> 12 \<le> (7 :: nat))"
proof -
  let ?doc = "''{'' @ encode_string ''a'' True @ '': [10, 2]}''"
  have f: "find_value ?doc [key_seg ''a'', index_seg 0] = Some \<lparr>vs_start = 7, vs_end = 9, is_string = False\<rparr>"
    "find_value ?doc [key_seg ''a'', index_seg 1] = Some \<lparr>vs_start = 11, vs_end = 12, is_string = False\<rparr>"
    by code_simp+
  then show ?thesis
    using find_value_layout [OF f] by (simp add: Let_def)
qed

end
