(* ===== verification/Extract.thy ===== *)
theory Extract
  imports JsonPath Unicode
begin

text \<open>
  \<open>extract/*.hpp\<close>: the text fields of a request or response body in the three wire formats
  (\<open>ApiFormat.hpp\<close>), each with its path, its span in the body and its decoded text.  The C++ collectors
  append to a vector; here each returns what it appends.  The helpers that the three headers repeat
  under different namespaces are defined once, and the other functions carry the format as a prefix.
\<close>

section \<open>Fields\<close>

datatype api_format = ChatCompletions | Messages | Responses

record content_field =
  field_path :: "path_seg list"
  field_span :: value_span
  field_text :: string
  is_raw_object :: bool

datatype extract_result = Fields "content_field list" | Unsupported

definition is_array_span :: "string \<Rightarrow> value_span \<Rightarrow> bool" where
  "is_array_span body span \<longleftrightarrow> \<not> is_string span \<and> vs_start span < vs_end span \<and> body ! vs_start span = CHR ''[''"

definition push_if_nonempty_string :: "string \<Rightarrow> path_seg list \<Rightarrow> value_span option \<Rightarrow> content_field list" where
  "push_if_nonempty_string body path span =
     (case span of
        None \<Rightarrow> []
      | Some sp \<Rightarrow>
          if \<not> is_string sp then []
          else let txt = decode_string (sub_doc body sp) in
            if txt = [] then []
            else [\<lparr>field_path = path, field_span = sp, field_text = txt, is_raw_object = False\<rparr>])"

text \<open>The loop over the elements of an array, with their indexes.\<close>

definition each_element :: "(nat \<Rightarrow> value_span \<Rightarrow> content_field list) \<Rightarrow> value_span list \<Rightarrow> content_field list" where
  "each_element f spans = concat (map (\<lambda>(i, sp). f i sp) (enumerate 0 spans))"

section \<open>Chat completions\<close>

definition chat_text_part :: "string \<Rightarrow> path_seg list \<Rightarrow> nat \<Rightarrow> value_span \<Rightarrow> content_field list" where
  "chat_text_part body content_path j part_span =
     (let part_path = content_path @ [index_seg j] in
      case find_value_in body part_span [key_seg ''type''] of
        None \<Rightarrow> []
      | Some type_span \<Rightarrow>
          if \<not> is_string type_span then []
          else if decode_string (sub_doc body type_span) \<noteq> ''text'' then []
          else push_if_nonempty_string body (part_path @ [key_seg ''text''])
            (find_value_in body part_span [key_seg ''text'']))"

definition chat_message_content :: "string \<Rightarrow> path_seg list \<Rightarrow> value_span \<Rightarrow> content_field list" where
  "chat_message_content body msg_path msg_span =
     (case find_value_in body msg_span [key_seg ''content''] of
        None \<Rightarrow> []
      | Some content_span \<Rightarrow>
          let content_path = msg_path @ [key_seg ''content''] in
          if is_string content_span then push_if_nonempty_string body content_path (Some content_span)
          else if \<not> is_array_span body content_span then []
          else each_element (chat_text_part body content_path) (array_elements body content_span))"

definition chat_function_call :: "string \<Rightarrow> path_seg list \<Rightarrow> value_span \<Rightarrow> content_field list" where
  "chat_function_call body container_path container_span =
     push_if_nonempty_string body (container_path @ [key_seg ''function_call'', key_seg ''arguments''])
       (find_value_in body container_span [key_seg ''function_call'', key_seg ''arguments''])"

definition chat_tool_call :: "string \<Rightarrow> path_seg list \<Rightarrow> nat \<Rightarrow> value_span \<Rightarrow> content_field list" where
  "chat_tool_call body tc_path j element =
     push_if_nonempty_string body (tc_path @ [index_seg j, key_seg ''function'', key_seg ''arguments''])
       (find_value_in body element [key_seg ''function'', key_seg ''arguments''])"

definition chat_tool_calls :: "string \<Rightarrow> path_seg list \<Rightarrow> value_span \<Rightarrow> content_field list" where
  "chat_tool_calls body container_path container_span =
     (case find_value_in body container_span [key_seg ''tool_calls''] of
        None \<Rightarrow> []
      | Some tc_span \<Rightarrow>
          if \<not> is_array_span body tc_span then []
          else each_element (chat_tool_call body (container_path @ [key_seg ''tool_calls''])) (array_elements body tc_span))"

definition kPlainResponseFields :: "string list" where
  "kPlainResponseFields = [''content'', ''reasoning'', ''reasoning_content'', ''refusal'']"

definition chat_message :: "string \<Rightarrow> path_seg list \<Rightarrow> value_span \<Rightarrow> content_field list" where
  "chat_message body msg_path element =
     chat_message_content body msg_path element @ chat_function_call body msg_path element @
     chat_tool_calls body msg_path element"

definition chat_extract_request :: "string \<Rightarrow> extract_result" where
  "chat_extract_request body =
     (case find_value body [key_seg ''messages''] of
        None \<Rightarrow> Unsupported
      | Some messages_span \<Rightarrow>
          if \<not> is_array_span body messages_span then Unsupported
          else Fields (each_element (\<lambda>i. chat_message body [key_seg ''messages'', index_seg i])
            (array_elements body messages_span)))"

definition chat_choice :: "string \<Rightarrow> path_seg list \<Rightarrow> value_span \<Rightarrow> content_field list" where
  "chat_choice body choice_path choice =
     (case find_value_in body choice [key_seg ''message''] of
        None \<Rightarrow> []
      | Some msg_span \<Rightarrow>
          let msg_path = choice_path @ [key_seg ''message''] in
          concat (map (\<lambda>name. push_if_nonempty_string body (msg_path @ [key_seg name])
            (find_value_in body msg_span [key_seg name])) kPlainResponseFields) @
          chat_function_call body msg_path msg_span @ chat_tool_calls body msg_path msg_span)"

definition chat_extract_response :: "string \<Rightarrow> extract_result" where
  "chat_extract_response body =
     (case find_value body [key_seg ''choices''] of
        None \<Rightarrow> Fields []
      | Some choices_span \<Rightarrow>
          if \<not> is_array_span body choices_span then Fields []
          else Fields (each_element (\<lambda>i. chat_choice body [key_seg ''choices'', index_seg i])
            (array_elements body choices_span)))"

section \<open>Messages\<close>

definition block_type :: "string \<Rightarrow> value_span \<Rightarrow> string" where
  "block_type body block_span =
     (case find_value_in body block_span [key_seg ''type''] of
        None \<Rightarrow> []
      | Some span \<Rightarrow> if \<not> is_string span then [] else decode_string (sub_doc body span))"

definition messages_typed_text_parts :: "string \<Rightarrow> path_seg list \<Rightarrow> value_span \<Rightarrow> content_field list" where
  "messages_typed_text_parts body array_path array_span =
     each_element (\<lambda>i part_span.
       if block_type body part_span \<noteq> ''text'' then []
       else push_if_nonempty_string body (array_path @ [index_seg i, key_seg ''text''])
         (find_value_in body part_span [key_seg ''text''])) (array_elements body array_span)"

definition messages_input_leaves :: "string \<Rightarrow> path_seg list \<Rightarrow> value_span \<Rightarrow> content_field list" where
  "messages_input_leaves body input_path input_span =
     concat (map (\<lambda>leaf.
       let decoded = decode_string (sub_doc body (leaf_span leaf)) in
       if decoded = [] then []
       else [\<lparr>field_path = input_path @ leaf_path leaf, field_span = leaf_span leaf, field_text = decoded,
              is_raw_object = False\<rparr>]) (string_leaves_in body input_span []))"

definition messages_tool_result :: "string \<Rightarrow> path_seg list \<Rightarrow> value_span \<Rightarrow> content_field list" where
  "messages_tool_result body block_path block_span =
     (case find_value_in body block_span [key_seg ''content''] of
        None \<Rightarrow> []
      | Some content_span \<Rightarrow>
          let content_path = block_path @ [key_seg ''content''] in
          if is_string content_span then push_if_nonempty_string body content_path (Some content_span)
          else if is_array_span body content_span then messages_typed_text_parts body content_path content_span
          else [])"

definition messages_content_block :: "string \<Rightarrow> path_seg list \<Rightarrow> nat \<Rightarrow> value_span \<Rightarrow> content_field list" where
  "messages_content_block body array_path i block_span =
     (let block_path = array_path @ [index_seg i]; type = block_type body block_span in
      if type = ''text''
      then push_if_nonempty_string body (block_path @ [key_seg ''text'']) (find_value_in body block_span [key_seg ''text''])
      else if type = ''tool_use''
      then (case find_value_in body block_span [key_seg ''input''] of
              None \<Rightarrow> []
            | Some input_span \<Rightarrow> messages_input_leaves body (block_path @ [key_seg ''input'']) input_span)
      else if type = ''tool_result'' then messages_tool_result body block_path block_span
      else [])"

definition messages_content_blocks :: "string \<Rightarrow> path_seg list \<Rightarrow> value_span \<Rightarrow> content_field list" where
  "messages_content_blocks body array_path array_span =
     each_element (messages_content_block body array_path) (array_elements body array_span)"

definition messages_system :: "string \<Rightarrow> content_field list" where
  "messages_system body =
     (let sys_path = [key_seg ''system''] in
      case find_value body sys_path of
        None \<Rightarrow> []
      | Some sys_span \<Rightarrow>
          if is_string sys_span then push_if_nonempty_string body sys_path (Some sys_span)
          else if is_array_span body sys_span then messages_typed_text_parts body sys_path sys_span
          else [])"

definition messages_message :: "string \<Rightarrow> path_seg list \<Rightarrow> value_span \<Rightarrow> content_field list" where
  "messages_message body msg_path element =
     (case find_value_in body element [key_seg ''content''] of
        None \<Rightarrow> []
      | Some content_span \<Rightarrow>
          let content_path = msg_path @ [key_seg ''content''] in
          if is_string content_span then push_if_nonempty_string body content_path (Some content_span)
          else if is_array_span body content_span then messages_content_blocks body content_path content_span
          else [])"

definition messages_extract_request :: "string \<Rightarrow> extract_result" where
  "messages_extract_request body =
     Fields (messages_system body @
       (case find_value body [key_seg ''messages''] of
          None \<Rightarrow> []
        | Some messages_span \<Rightarrow>
            if is_array_span body messages_span
            then each_element (\<lambda>i. messages_message body [key_seg ''messages'', index_seg i])
              (array_elements body messages_span)
            else []))"

definition messages_response_block :: "string \<Rightarrow> nat \<Rightarrow> value_span \<Rightarrow> content_field list" where
  "messages_response_block body i block_span =
     (let block_path = [key_seg ''content'', index_seg i]; type = block_type body block_span in
      if type = ''text''
      then push_if_nonempty_string body (block_path @ [key_seg ''text'']) (find_value_in body block_span [key_seg ''text''])
      else if type = ''thinking''
      then push_if_nonempty_string body (block_path @ [key_seg ''thinking''])
        (find_value_in body block_span [key_seg ''thinking''])
      else if type = ''tool_use''
      then (case find_value_in body block_span [key_seg ''input''] of
              None \<Rightarrow> []
            | Some input_span \<Rightarrow>
                if \<not> is_string input_span \<and> vs_start input_span < vs_end input_span \<and>
                  body ! vs_start input_span = CHR ''{''
                then let raw = sub_doc body input_span in
                  if raw \<noteq> ''{}''
                  then [\<lparr>field_path = block_path @ [key_seg ''input''], field_span = input_span, field_text = raw,
                         is_raw_object = True\<rparr>]
                  else []
                else [])
      else [])"

definition messages_extract_response :: "string \<Rightarrow> extract_result" where
  "messages_extract_response body =
     (case find_value body [key_seg ''content''] of
        None \<Rightarrow> Fields []
      | Some content_span \<Rightarrow>
          if \<not> is_array_span body content_span then Fields []
          else Fields (each_element (messages_response_block body) (array_elements body content_span)))"

section \<open>Responses\<close>

definition type_of :: "string \<Rightarrow> value_span \<Rightarrow> string" where
  "type_of body container =
     (case find_value_in body container [key_seg ''type''] of
        None \<Rightarrow> []
      | Some span \<Rightarrow> if \<not> is_string span then [] else decode_string (sub_doc body span))"

definition responses_text_parts :: "string \<Rightarrow> path_seg list \<Rightarrow> value_span \<Rightarrow> content_field list" where
  "responses_text_parts body base_path array_span =
     each_element (\<lambda>j part_span.
       let type = type_of body part_span in
       if type \<noteq> ''output_text'' \<and> type \<noteq> ''input_text'' \<and> type \<noteq> ''text'' then []
       else push_if_nonempty_string body (base_path @ [index_seg j, key_seg ''text''])
         (find_value_in body part_span [key_seg ''text''])) (array_elements body array_span)"

text \<open>A member that is a string or an array of text parts: \<open>output\<close> or \<open>content\<close> of an input item.\<close>

definition responses_string_or_parts :: "string \<Rightarrow> path_seg list \<Rightarrow> value_span \<Rightarrow> string \<Rightarrow> content_field list" where
  "responses_string_or_parts body item_path item_span name =
     (let span = find_value_in body item_span [key_seg name]; path = item_path @ [key_seg name] in
      case span of
        None \<Rightarrow> []
      | Some sp \<Rightarrow>
          if is_string sp then push_if_nonempty_string body path (Some sp)
          else if is_array_span body sp then responses_text_parts body path sp
          else [])"

definition responses_input_item :: "string \<Rightarrow> path_seg list \<Rightarrow> value_span \<Rightarrow> content_field list" where
  "responses_input_item body item_path item_span =
     (let type = type_of body item_span in
      if type = ''function_call_output'' then responses_string_or_parts body item_path item_span ''output''
      else if type = ''function_call''
      then push_if_nonempty_string body (item_path @ [key_seg ''arguments''])
        (find_value_in body item_span [key_seg ''arguments''])
      else responses_string_or_parts body item_path item_span ''content'')"

definition responses_typed_text_parts :: "string \<Rightarrow> path_seg list \<Rightarrow> value_span \<Rightarrow> string \<Rightarrow> content_field list" where
  "responses_typed_text_parts body base_path array_span allowed_type =
     each_element (\<lambda>j part_span.
       if type_of body part_span \<noteq> allowed_type then []
       else push_if_nonempty_string body (base_path @ [index_seg j, key_seg ''text''])
         (find_value_in body part_span [key_seg ''text''])) (array_elements body array_span)"

definition responses_typed_member :: "string \<Rightarrow> path_seg list \<Rightarrow> value_span \<Rightarrow> string \<Rightarrow> string \<Rightarrow> content_field list" where
  "responses_typed_member body item_path item_span name allowed_type =
     (case find_value_in body item_span [key_seg name] of
        None \<Rightarrow> []
      | Some sp \<Rightarrow>
          if is_array_span body sp then responses_typed_text_parts body (item_path @ [key_seg name]) sp allowed_type
          else [])"

definition responses_item_fields :: "string \<Rightarrow> path_seg list \<Rightarrow> value_span \<Rightarrow> content_field list" where
  "responses_item_fields body item_path item_span =
     (let type = type_of body item_span in
      if type = ''message'' then responses_typed_member body item_path item_span ''content'' ''output_text''
      else if type = ''function_call''
      then push_if_nonempty_string body (item_path @ [key_seg ''arguments''])
        (find_value_in body item_span [key_seg ''arguments''])
      else if type = ''reasoning''
      then responses_typed_member body item_path item_span ''summary'' ''summary_text'' @
        responses_typed_member body item_path item_span ''content'' ''reasoning_text''
      else [])"

definition responses_extract_request :: "string \<Rightarrow> extract_result" where
  "responses_extract_request body =
     (let input_path = [key_seg ''input'']; instructions_path = [key_seg ''instructions''];
          input_span = find_value body input_path; instructions_span = find_value body instructions_path in
      if input_span = None \<and> instructions_span = None then Unsupported
      else Fields (push_if_nonempty_string body instructions_path instructions_span @
        (case input_span of
           None \<Rightarrow> []
         | Some sp \<Rightarrow>
             if is_string sp then push_if_nonempty_string body input_path (Some sp)
             else if is_array_span body sp
             then each_element (\<lambda>i. responses_input_item body (input_path @ [index_seg i])) (array_elements body sp)
             else [])))"

definition extract_response_item_fields :: "string \<Rightarrow> path_seg list \<Rightarrow> content_field list" where
  "extract_response_item_fields body item_path =
     (case find_value body item_path of
        None \<Rightarrow> []
      | Some item_span \<Rightarrow> responses_item_fields body item_path item_span)"

definition extract_response_output_fields :: "string \<Rightarrow> path_seg list \<Rightarrow> content_field list" where
  "extract_response_output_fields body base =
     (let output_path = base @ [key_seg ''output''] in
      case find_value body output_path of
        None \<Rightarrow> []
      | Some output_span \<Rightarrow>
          if \<not> is_array_span body output_span then []
          else each_element (\<lambda>i. responses_item_fields body (output_path @ [index_seg i])) (array_elements body output_span))"

section \<open>Dispatch\<close>

definition extract_request :: "string \<Rightarrow> api_format \<Rightarrow> extract_result" where
  "extract_request body fmt =
     (case fmt of
        ChatCompletions \<Rightarrow> chat_extract_request body
      | Messages \<Rightarrow> messages_extract_request body
      | Responses \<Rightarrow> responses_extract_request body)"

definition extract_response :: "string \<Rightarrow> api_format \<Rightarrow> extract_result" where
  "extract_response body fmt =
     (case fmt of
        ChatCompletions \<Rightarrow> chat_extract_response body
      | Messages \<Rightarrow> messages_extract_response body
      | Responses \<Rightarrow> Fields (extract_response_output_fields body []))"

text \<open>
  \<open>std::strtod(s) != 0.0\<close> on the text of a JSON number: the digits before the exponent as one integer,
  scaled by a power of ten.  The nearest double is zero exactly when the magnitude is at most half of the
  smallest subnormal, \<open>2 ^ -1075\<close>.
\<close>

definition strtod_nonzero :: "string \<Rightarrow> bool" where
  "strtod_nonzero s =
     (let unsigned = (if s \<noteq> [] \<and> hd s = CHR ''-'' then tl s else s);
          int_part = takeWhile is_digit_char unsigned; rest = dropWhile is_digit_char unsigned;
          frac_part = (if rest \<noteq> [] \<and> hd rest = CHR ''.'' then takeWhile is_digit_char (tl rest) else []);
          rest' = (if rest \<noteq> [] \<and> hd rest = CHR ''.'' then dropWhile is_digit_char (tl rest) else rest);
          expo = (if rest' \<noteq> [] \<and> (hd rest' = CHR ''e'' \<or> hd rest' = CHR ''E'') then tl rest' else []);
          negative = (expo \<noteq> [] \<and> hd expo = CHR ''-'');
          digits = (if expo \<noteq> [] \<and> (hd expo = CHR ''-'' \<or> hd expo = CHR ''+'') then tl expo else expo);
          magnitude = int (digits_value (takeWhile is_digit_char digits));
          scale = (if negative then - magnitude else magnitude) - int (length frac_part);
          mantissa = digits_value (int_part @ frac_part) in
      if scale \<ge> 0 then mantissa \<noteq> 0 else mantissa * 2 ^ 1075 > 10 ^ nat (- scale))"

definition wants_stream :: "string \<Rightarrow> bool" where
  "wants_stream body =
     (case find_value body [key_seg ''stream''] of
        None \<Rightarrow> False
      | Some span \<Rightarrow>
          let raw = sub_doc body span in
          if raw = [] then False
          else if raw = ''true'' then True
          else if raw = ''false'' then False
          else if hd raw = CHR 0x22
          then let s = List.map ascii_lower_byte (decode_string raw) in s = ''1'' \<or> s = ''t'' \<or> s = ''true''
          else if hd raw = CHR ''-'' \<or> is_digit_char (hd raw) then strtod_nonzero raw
          else False)"

section \<open>Where the fields lie\<close>

text \<open>What every extracted field is: a string literal with its decoded, non-empty text, or a non-trivial
  object with its bytes.\<close>

definition field_ok :: "string \<Rightarrow> content_field \<Rightarrow> bool" where
  "field_ok body f \<longleftrightarrow>
     (if is_raw_object f
      then field_text f = sub_doc body (field_span f) \<and> field_text f \<noteq> ''{}'' \<and>
        skip_value body (vs_start (field_span f)) = Some (vs_end (field_span f)) \<and>
        body ! vs_start (field_span f) = CHR ''{''
      else skip_string body (vs_start (field_span f)) = Some (vs_end (field_span f)) \<and>
        field_text f = decode_string (sub_doc body (field_span f)) \<and> field_text f \<noteq> [])"

definition addressed :: "string \<Rightarrow> content_field \<Rightarrow> bool" where
  "addressed body f \<longleftrightarrow> find_value body (field_path f) = Some (field_span f)"

text \<open>Fields with these properties in a range of the body; with the flag each is what its path addresses.\<close>

definition fields_in :: "bool \<Rightarrow> string \<Rightarrow> nat \<Rightarrow> nat \<Rightarrow> content_field list \<Rightarrow> bool" where
  "fields_in by_path body lo hi fs \<longleftrightarrow>
     (\<forall>f\<in>set fs. field_ok body f \<and> (by_path \<longrightarrow> addressed body f)) \<and>
     apart (List.map field_span fs) \<and> inside lo hi (List.map field_span fs)"

lemma fields_in_Nil [simp]: "fields_in b body lo hi []"
  by (simp add: fields_in_def)

lemma fields_in_mono: "fields_in b body lo hi fs \<Longrightarrow> lo' \<le> lo \<Longrightarrow> hi \<le> hi' \<Longrightarrow> fields_in b body lo' hi' fs"
  by (auto simp: fields_in_def elim: inside_mono)

lemma fields_in_weaken: "fields_in True body lo hi fs \<Longrightarrow> fields_in b body lo hi fs"
  by (simp add: fields_in_def)

lemma fields_in_append:
  "fields_in b body lo hi fs \<Longrightarrow> fields_in b body lo' hi' gs \<Longrightarrow> hi \<le> lo' \<or> hi' \<le> lo \<Longrightarrow>
   fields_in b body (min lo lo') (max hi hi') (fs @ gs)"
  by (auto simp: fields_in_def elim: inside_mono intro: apart_append)

lemma fields_in_push:
  assumes "\<And>sp. span = Some sp \<Longrightarrow> find_value body path = Some sp \<and> lo \<le> vs_start sp \<and> vs_end sp \<le> hi"
  shows "fields_in b body lo hi (push_if_nonempty_string body path span)"
proof (cases span)
  case (Some sp)
  note f = assms [OF Some]
  then have v: "skip_value body (vs_start sp) = Some (vs_end sp)" "vs_start sp < vs_end sp" "vs_end sp \<le> length body"
      "is_string sp = (body ! vs_start sp = CHR 0x22)"
    using find_value_complete [of body path sp] by simp_all
  moreover have "skip_string body (vs_start sp) = Some (vs_end sp)" if "is_string sp"
    using skip_value_string [of "vs_start sp" body] v that by simp
  ultimately show ?thesis
    using Some f by (simp add: push_if_nonempty_string_def Let_def fields_in_def field_ok_def addressed_def)
qed (simp add: push_if_nonempty_string_def)

lemma each_element_simps:
  "each_element f [] = []" "each_element f (sps @ [sp]) = each_element f sps @ f (length sps) sp"
  by (simp_all add: each_element_def enumerate_append_eq)

text \<open>The groups of fields of ordered spans, each in its span.\<close>

lemma fields_in_each:
  assumes "\<And>i. i < length sps \<Longrightarrow> fields_in b body (vs_start (sps ! i)) (vs_end (sps ! i)) (f i (sps ! i))"
    and "sorted_wrt (\<lambda>x y. vs_end x \<le> vs_start y) sps" "\<forall>sp\<in>set sps. lo \<le> vs_start sp \<and> vs_start sp < vs_end sp \<and> vs_end sp \<le> hi"
  shows "fields_in b body lo hi (each_element f sps)"
proof -
  have "fields_in b body lo (if sps = [] then lo else vs_end (last sps)) (each_element f sps)"
    using assms
  proof (induction sps rule: rev_induct)
    case (snoc sp sps)
    let ?hi = "if sps = [] then lo else vs_end (last sps)"
    have "fields_in b body (vs_start ((sps @ [sp]) ! i)) (vs_end ((sps @ [sp]) ! i)) (f i ((sps @ [sp]) ! i))"
      if "i < length sps" for i using snoc.prems(1) [of i] that by simp
    then have "fields_in b body lo ?hi (each_element f sps)"
      using snoc.IH snoc.prems(2,3) by (simp add: sorted_wrt_append nth_append)
    moreover have "fields_in b body (vs_start sp) (vs_end sp) (f (length sps) sp)"
      using snoc.prems(1) [of "length sps"] by simp
    moreover have "lo \<le> vs_start sp" "?hi \<le> vs_start sp" "vs_start sp < vs_end sp"
      using snoc.prems(2,3) by (auto simp: sorted_wrt_append)
    ultimately have "fields_in b body (min lo (vs_start sp)) (max ?hi (vs_end sp)) (each_element f sps @ f (length sps) sp)"
      by (intro fields_in_append) simp_all
    then show ?case using \<open>lo \<le> vs_start sp\<close> \<open>?hi \<le> vs_start sp\<close> \<open>vs_start sp < vs_end sp\<close>
      by (simp add: each_element_simps min_absorb1 max_absorb2)
  qed (simp add: each_element_simps)
  then show ?thesis using assms(3) by (cases "sps = []") (auto simp: each_element_simps elim: fields_in_mono)
qed

lemma array_elements_inside:
  assumes "find_value body path = Some sp" "path \<noteq> []"
  shows "\<forall>e\<in>set (array_elements body sp). vs_start sp \<le> vs_start e \<and> vs_start e < vs_end e \<and> vs_end e \<le> vs_end sp"
proof
  fix e assume "e \<in> set (array_elements body sp)"
  then obtain i where i: "i < length (array_elements body sp)" "e = array_elements body sp ! i" by (auto simp: in_set_conv_nth)
  note c = array_elements_nth [OF i(1)]
  have "skip_ws body (vs_start sp) = vs_start sp" "skip_value body (vs_start sp) = Some (vs_end sp)"
    using find_value_skip [OF assms(1)] by simp_all
  then have "vs_end e < vs_end sp" using find_child_inside [of body "vs_start sp" "vs_end sp"] c i(2) by simp
  moreover have "vs_start sp < vs_start e" "vs_start e < vs_end e"
    using array_elements_ordered [of body sp] \<open>e \<in> set _\<close> by (auto simp: list_all_iff)
  ultimately show "vs_start sp \<le> vs_start e \<and> vs_start e < vs_end e \<and> vs_end e \<le> vs_end sp" by simp
qed

text \<open>The fields of an array from the fields of its elements.\<close>

lemma fields_in_elements:
  assumes "find_value body path = Some sp" "path \<noteq> []"
    and "\<And>i e. resolves body (path @ [index_seg i]) e \<Longrightarrow> fields_in b body (vs_start e) (vs_end e) (f i e)"
  shows "fields_in b body (vs_start sp) (vs_end sp) (each_element f (array_elements body sp))"
  using array_elements_inside [OF assms(1,2)] array_elements_ordered [of body sp] resolves_element [OF assms(1,2)] assms(3)
  by (intro fields_in_each) auto

section \<open>The members of an object\<close>

text \<open>Fields that all come from one member of the object at a span.\<close>

definition member_fields :: "bool \<Rightarrow> string \<Rightarrow> value_span \<Rightarrow> string \<Rightarrow> content_field list \<Rightarrow> bool" where
  "member_fields b body sp k fs \<longleftrightarrow>
     fs = [] \<or> (\<exists>lo hi. find_child body (skip_ws body (vs_start sp)) (key_seg k) = Some (lo, hi) \<and> fields_in b body lo hi fs)"

lemma member_fieldsI:
  assumes "resolves body p sp"
    and "\<And>sp2. find_value_in body sp (key_seg k # q) = Some sp2 \<Longrightarrow>
      find_value body (p @ key_seg k # q) = Some sp2 \<Longrightarrow> fields_in b body (vs_start sp2) (vs_end sp2) (g (Some sp2))"
    and "g None = []"
  shows "member_fields b body sp k (g (find_value_in body sp (key_seg k # q)))"
proof (cases "find_value_in body sp (key_seg k # q)")
  case (Some sp2)
  have v: "skip_value body (vs_start sp) = Some (vs_end sp)" using assms(1) by (simp add: resolves_def)
  obtain lo hi where c: "find_child body (skip_ws body (vs_start sp)) (key_seg k) = Some (lo, hi)"
      "skip_value body lo = Some hi" "find_from body lo q = Some sp2"
    using find_from_child [OF find_value_in_from [OF v Some]] by auto
  have "fields_in b body (vs_start sp2) (vs_end sp2) (g (Some sp2))"
    using assms(2) [OF Some] resolves_in [OF assms(1) Some] by simp
  then have "fields_in b body lo hi (g (Some sp2))" using find_from_inside [OF c(2,3)] by (auto elim: fields_in_mono)
  then show ?thesis using c(1) Some by (auto simp: member_fields_def)
qed (simp add: assms(3) member_fields_def)

lemma member_fields_push:
  assumes "resolves body p sp"
  shows "member_fields b body sp k (push_if_nonempty_string body (p @ key_seg k # q) (find_value_in body sp (key_seg k # q)))"
proof (rule member_fieldsI [OF assms, where g = "push_if_nonempty_string body (p @ key_seg k # q)"])
  show "fields_in b body (vs_start sp2) (vs_end sp2) (push_if_nonempty_string body (p @ key_seg k # q) (Some sp2))"
    if "find_value body (p @ key_seg k # q) = Some sp2" for sp2 using that by (intro fields_in_push) simp
qed (simp add: push_if_nonempty_string_def)

text \<open>The members of an object do not overlap, so their fields make up fields of the object.\<close>

lemma fields_in_members:
  assumes "resolves body p sp" "distinct (List.map fst groups)" "\<forall>(k, fs)\<in>set groups. member_fields b body sp k fs"
  shows "fields_in b body (vs_start sp) (vs_end sp) (concat (List.map snd groups))"
  using assms(2,3)
proof (induction groups)
  case (Cons g groups)
  obtain k fs where g: "g = (k, fs)" by force
  have rest: "fields_in b body (vs_start sp) (vs_end sp) (concat (List.map snd groups))" using Cons by simp
  have v: "skip_value body (vs_start sp) = Some (vs_end sp)" using assms(1) by (simp add: resolves_def)
  show ?case
  proof (cases "fs = []")
    case True
    then show ?thesis using rest g by simp
  next
    case False
    then obtain lo hi where fs: "find_child body (skip_ws body (vs_start sp)) (key_seg k) = Some (lo, hi)" "fields_in b body lo hi fs"
      using Cons.prems(2) g by (auto simp: member_fields_def)
    have away: "vs_end (field_span f) \<le> lo \<or> hi \<le> vs_start (field_span f)" if f: "f \<in> set (concat (List.map snd groups))" for f
    proof -
      obtain k' gs where k': "(k', gs) \<in> set groups" "f \<in> set gs" using f by auto
      then have "member_fields b body sp k' gs" "gs \<noteq> []" using Cons.prems(2) by auto
      then obtain lo' hi' where c: "find_child body (skip_ws body (vs_start sp)) (key_seg k') = Some (lo', hi')" "fields_in b body lo' hi' gs"
        by (auto simp: member_fields_def)
      have "k \<noteq> k'" using Cons.prems(1) g k' by force
      then have "key_seg k \<noteq> key_seg k'" by (simp add: key_seg_def)
      then have "hi \<le> lo' \<or> hi' \<le> lo" using find_children_apart [OF fs(1) c(1)] by simp
      moreover have "lo' \<le> vs_start (field_span f)" "vs_end (field_span f) \<le> hi'"
        using c(2) k'(2) by (auto simp: fields_in_def inside_def)
      ultimately show ?thesis by linarith
    qed
    have "lo \<le> vs_start (field_span f) \<and> vs_end (field_span f) \<le> hi" if "f \<in> set fs" for f
      using fs(2) that by (auto simp: fields_in_def inside_def)
    then have "apart (List.map field_span (fs @ concat (List.map snd groups)))"
      using fs(2) rest away by (fastforce simp: fields_in_def apart_def sorted_wrt_append)
    moreover have "inside (vs_start sp) (vs_end sp) (List.map field_span fs)"
      using fs find_child_inside [OF v fs(1)] by (auto simp: fields_in_def elim: inside_mono)
    ultimately show ?thesis using rest fs(2) g by (auto simp: fields_in_def)
  qed
qed simp

lemma fields_in_member:
  assumes "resolves body p sp" "member_fields b body sp k fs"
  shows "fields_in b body (vs_start sp) (vs_end sp) fs"
  using fields_in_members [OF assms(1), of "[(k, fs)]" b] assms(2) by simp

lemma fields_in_push_member:
  assumes "resolves body p sp" "path = p @ key_seg k # q"
  shows "fields_in b body (vs_start sp) (vs_end sp) (push_if_nonempty_string body path (find_value_in body sp (key_seg k # q)))"
  unfolding assms(2) by (rule fields_in_member [OF assms(1) member_fields_push [OF assms(1)]])

lemma fields_in_push_found:
  "find_value body p = Some sp \<Longrightarrow> fields_in b body (vs_start sp) (vs_end sp) (push_if_nonempty_string body p (Some sp))"
  by (rule fields_in_push) simp

text \<open>A value that is a string or an array.\<close>

lemma fields_in_string_or_array:
  assumes "find_value body p = Some sp" "fields_in b body (vs_start sp) (vs_end sp) arr"
  shows "fields_in b body (vs_start sp) (vs_end sp)
    (if is_string sp then push_if_nonempty_string body p (Some sp) else if is_array_span body sp then arr else [])"
  using assms fields_in_push_found [OF assms(1)] by simp

lemmas fields_in_intros = fields_in_elements fields_in_push_member fields_in_string_or_array fields_in_push_found

section \<open>The collectors\<close>

subsection \<open>Chat completions\<close>

lemma chat_text_part_fields:
  assumes "resolves body (p @ [index_seg j]) sp"
  shows "fields_in b body (vs_start sp) (vs_end sp) (chat_text_part body p j sp)"
  using fields_in_push_member [OF assms, of "p @ [index_seg j, key_seg ''text'']" "''text''" "[]" b]
  by (auto simp: chat_text_part_def Let_def split: option.split)

lemma chat_content_member:
  assumes "resolves body p sp"
  shows "member_fields b body sp ''content'' (chat_message_content body p sp)"
  unfolding chat_message_content_def Let_def
proof (rule member_fieldsI [OF assms])
  fix sp2 assume "find_value body (p @ [key_seg ''content'']) = Some sp2"
  then show "fields_in b body (vs_start sp2) (vs_end sp2) (case Some sp2 of None \<Rightarrow> [] | Some content_span \<Rightarrow>
      if is_string content_span then push_if_nonempty_string body (p @ [key_seg ''content'']) (Some content_span)
      else if \<not> is_array_span body content_span then []
      else each_element (chat_text_part body (p @ [key_seg ''content''])) (array_elements body content_span))"
    by (auto intro: fields_in_push_found fields_in_elements chat_text_part_fields)
qed simp

lemma chat_function_call_member:
  "resolves body p sp \<Longrightarrow> member_fields b body sp ''function_call'' (chat_function_call body p sp)"
  unfolding chat_function_call_def by (rule member_fields_push)

lemma chat_tool_call_fields:
  assumes "resolves body (p @ [index_seg j]) sp"
  shows "fields_in b body (vs_start sp) (vs_end sp) (chat_tool_call body p j sp)"
  unfolding chat_tool_call_def by (rule fields_in_push_member [OF assms]) simp

lemma chat_tool_calls_member:
  assumes "resolves body p sp"
  shows "member_fields b body sp ''tool_calls'' (chat_tool_calls body p sp)"
  unfolding chat_tool_calls_def
proof (rule member_fieldsI [OF assms])
  fix sp2 assume "find_value body (p @ [key_seg ''tool_calls'']) = Some sp2"
  then show "fields_in b body (vs_start sp2) (vs_end sp2) (case Some sp2 of None \<Rightarrow> [] | Some tc_span \<Rightarrow>
      if \<not> is_array_span body tc_span then []
      else each_element (chat_tool_call body (p @ [key_seg ''tool_calls''])) (array_elements body tc_span))"
    by (auto intro: fields_in_elements chat_tool_call_fields)
qed simp

lemma chat_message_fields:
  assumes "resolves body p sp"
  shows "fields_in b body (vs_start sp) (vs_end sp) (chat_message body p sp)"
  using fields_in_members [OF assms, of "[(''content'', chat_message_content body p sp),
      (''function_call'', chat_function_call body p sp), (''tool_calls'', chat_tool_calls body p sp)]" b]
    chat_content_member [OF assms] chat_function_call_member [OF assms] chat_tool_calls_member [OF assms]
  by (simp add: chat_message_def)

lemma chat_choice_fields:
  assumes "resolves body p sp"
  shows "fields_in b body (vs_start sp) (vs_end sp) (chat_choice body p sp)"
proof (cases "find_value_in body sp [key_seg ''message'']")
  case (Some m)
  let ?p = "p @ [key_seg ''message'']"
  let ?push = "\<lambda>name. push_if_nonempty_string body (?p @ [key_seg name]) (find_value_in body m [key_seg name])"
  have found: "find_value body ?p = Some m" using resolves_in [OF assms Some] by simp
  then have r: "resolves body ?p m" by (rule resolves_found) simp
  have "fields_in b body (vs_start m) (vs_end m) (concat (List.map snd
      (List.map (\<lambda>name. (name, ?push name)) kPlainResponseFields @
        [(''function_call'', chat_function_call body ?p m), (''tool_calls'', chat_tool_calls body ?p m)])))"
    using member_fields_push [OF r, of b _ "[]"] chat_function_call_member [OF r] chat_tool_calls_member [OF r]
    by (intro fields_in_members [OF r]) (auto simp: kPlainResponseFields_def)
  moreover have "chat_choice body p sp = concat (List.map snd
      (List.map (\<lambda>name. (name, ?push name)) kPlainResponseFields @
        [(''function_call'', chat_function_call body ?p m), (''tool_calls'', chat_tool_calls body ?p m)]))"
    using Some by (simp add: chat_choice_def Let_def comp_def)
  ultimately have "fields_in b body (vs_start m) (vs_end m) (chat_choice body p sp)" by simp
  moreover have v: "skip_value body (vs_start sp) = Some (vs_end sp)" using assms by (simp add: resolves_def)
  have "find_from body (vs_start sp) [key_seg ''message''] = Some m" by (rule find_value_in_from [OF v Some]) simp
  then have "vs_start sp \<le> vs_start m" "vs_end m \<le> vs_end sp" using find_from_inside [OF v] by blast+
  ultimately show ?thesis by (rule fields_in_mono)
qed (simp add: chat_choice_def)

subsection \<open>Messages\<close>

lemma messages_typed_text_fields:
  assumes "find_value body p = Some sp" "p \<noteq> []"
  shows "fields_in b body (vs_start sp) (vs_end sp) (messages_typed_text_parts body p sp)"
  unfolding messages_typed_text_parts_def
  by (rule fields_in_elements [OF assms]) (auto intro: fields_in_push_member)

lemma string_leaves_in_spans:
  assumes "in_doc body sp"
  shows "sorted_wrt (\<lambda>x y. vs_end (leaf_span x) \<le> vs_start (leaf_span y)) (string_leaves_in body sp root)"
    "\<forall>l\<in>set (string_leaves_in body sp root). skip_string body (vs_start (leaf_span l)) = Some (vs_end (leaf_span l)) \<and>
       vs_start sp \<le> vs_start (leaf_span l) \<and> vs_start (leaf_span l) < vs_end (leaf_span l) \<and> vs_end (leaf_span l) \<le> vs_end sp"
proof -
  let ?d = "sub_doc body sp"
  note ord = string_leaves_ordered [of ?d root]
  have occ: "occurs ?d (vs_start sp) body" "length ?d = vs_end sp - vs_start sp" using sub_doc_occurs [OF assms] by simp_all
  show "sorted_wrt (\<lambda>x y. vs_end (leaf_span x) \<le> vs_start (leaf_span y)) (string_leaves_in body sp root)"
    using ord assms by (simp add: string_leaves_in_def sorted_wrt_map shift_span_def)
  have "skip_string body (vs_start (leaf_span l) + vs_start sp) = Some (vs_end (leaf_span l) + vs_start sp) \<and>
      vs_start (leaf_span l) < vs_end (leaf_span l) \<and> vs_end (leaf_span l) + vs_start sp \<le> vs_end sp"
    if "l \<in> set (string_leaves ?d root)" for l
  proof -
    have "skip_string ?d (vs_start (leaf_span l)) = Some (vs_end (leaf_span l))"
      using ord that by (auto simp: list_all_iff)
    then show ?thesis using skip_string_occ [OF occ(1)] skip_string_bounds occ(2) assms
      by (fastforce simp: add.commute in_doc_def)
  qed
  then show "\<forall>l\<in>set (string_leaves_in body sp root). skip_string body (vs_start (leaf_span l)) = Some (vs_end (leaf_span l)) \<and>
       vs_start sp \<le> vs_start (leaf_span l) \<and> vs_start (leaf_span l) < vs_end (leaf_span l) \<and> vs_end (leaf_span l) \<le> vs_end sp"
    using assms by (auto simp: string_leaves_in_def shift_span_def)
qed

lemma concat_map_if: "concat (List.map (\<lambda>x. if P x then [] else [f x]) xs) = List.map f (filter (\<lambda>x. \<not> P x) xs)"
  by (induction xs) auto

lemma messages_input_leaves_fields:
  assumes "find_value body q = Some sp"
  shows "fields_in False body (vs_start sp) (vs_end sp) (messages_input_leaves body p sp)"
proof -
  note leaves = string_leaves_in_spans [OF find_value_skip(3) [OF assms], of "[]"]
  let ?sub = "\<lambda>leaf. decode_string (sub_doc body (leaf_span leaf))"
  let ?f = "\<lambda>leaf. \<lparr>field_path = p @ leaf_path leaf, field_span = leaf_span leaf, field_text = ?sub leaf, is_raw_object = False\<rparr>"
  have eq: "messages_input_leaves body p sp = List.map ?f (filter (\<lambda>leaf. ?sub leaf \<noteq> []) (string_leaves_in body sp []))"
    unfolding messages_input_leaves_def Let_def by (rule concat_map_if)
  have "sorted_wrt (\<lambda>x y. vs_end (leaf_span x) \<le> vs_start (leaf_span y) \<or> vs_end (leaf_span y) \<le> vs_start (leaf_span x))
      (filter (\<lambda>leaf. ?sub leaf \<noteq> []) (string_leaves_in body sp []))"
    using leaves(1) by (intro sorted_wrt_filter) (auto elim: sorted_wrt_mono_rel [rotated])
  then show ?thesis
    using leaves(2) unfolding eq by (auto simp: fields_in_def field_ok_def apart_def inside_def sorted_wrt_map)
qed

lemma messages_tool_result_fields:
  assumes "resolves body p sp"
  shows "fields_in b body (vs_start sp) (vs_end sp) (messages_tool_result body p sp)"
proof (rule fields_in_member [OF assms])
  show "member_fields b body sp ''content'' (messages_tool_result body p sp)"
    unfolding messages_tool_result_def Let_def
    by (rule member_fieldsI [OF assms]) (auto intro: fields_in_push_found messages_typed_text_fields)
qed

lemma messages_content_block_fields:
  assumes "resolves body (p @ [index_seg i]) sp"
  shows "fields_in False body (vs_start sp) (vs_end sp) (messages_content_block body p i sp)"
proof -
  let ?p = "p @ [index_seg i]"
  have "member_fields False body sp ''input'' (case find_value_in body sp [key_seg ''input''] of None \<Rightarrow> []
      | Some input_span \<Rightarrow> messages_input_leaves body (?p @ [key_seg ''input'']) input_span)"
    by (rule member_fieldsI [OF assms]) (auto intro: messages_input_leaves_fields)
  then show ?thesis
    using fields_in_member [OF assms] messages_tool_result_fields [OF assms]
      fields_in_push_member [OF assms, of "p @ [index_seg i, key_seg ''text'']" "''text''" "[]"]
    by (simp add: messages_content_block_def Let_def)
qed

lemma messages_message_fields:
  assumes "resolves body p sp"
  shows "fields_in False body (vs_start sp) (vs_end sp) (messages_message body p sp)"
proof (rule fields_in_member [OF assms])
  show "member_fields False body sp ''content'' (messages_message body p sp)"
    unfolding messages_message_def messages_content_blocks_def Let_def
    by (rule member_fieldsI [OF assms])
      (auto intro: fields_in_push_found fields_in_elements messages_content_block_fields)
qed

lemma messages_response_block_fields:
  assumes "resolves body [key_seg ''content'', index_seg i] sp"
  shows "fields_in b body (vs_start sp) (vs_end sp) (messages_response_block body i sp)"
proof -
  let ?p = "[key_seg ''content'', index_seg i]"
  have "member_fields b body sp ''input'' (case find_value_in body sp [key_seg ''input''] of None \<Rightarrow> []
      | Some input_span \<Rightarrow>
          if \<not> is_string input_span \<and> vs_start input_span < vs_end input_span \<and> body ! vs_start input_span = CHR ''{''
          then let raw = sub_doc body input_span in
            if raw \<noteq> ''{}'' then [\<lparr>field_path = ?p @ [key_seg ''input''], field_span = input_span, field_text = raw, is_raw_object = True\<rparr>]
            else []
          else [])"
    by (rule member_fieldsI [OF assms])
      (auto simp: fields_in_def field_ok_def addressed_def Let_def find_value_skip)
  then show ?thesis
    using fields_in_member [OF assms] fields_in_push_member [OF assms, of "?p @ [key_seg ''text'']" "''text''" "[]"]
      fields_in_push_member [OF assms, of "?p @ [key_seg ''thinking'']" "''thinking''" "[]"]
    by (simp add: messages_response_block_def Let_def)
qed

subsection \<open>Responses\<close>

lemma responses_text_parts_fields:
  assumes "find_value body p = Some sp" "p \<noteq> []"
  shows "fields_in b body (vs_start sp) (vs_end sp) (responses_text_parts body p sp)"
  unfolding responses_text_parts_def Let_def
  by (rule fields_in_elements [OF assms]) (auto intro: fields_in_push_member)

lemma responses_typed_text_parts_fields:
  assumes "find_value body p = Some sp" "p \<noteq> []"
  shows "fields_in b body (vs_start sp) (vs_end sp) (responses_typed_text_parts body p sp t)"
  unfolding responses_typed_text_parts_def
  by (rule fields_in_elements [OF assms]) (auto intro: fields_in_push_member)

lemma responses_string_or_parts_fields:
  assumes "resolves body p sp"
  shows "fields_in b body (vs_start sp) (vs_end sp) (responses_string_or_parts body p sp k)"
proof (rule fields_in_member [OF assms])
  show "member_fields b body sp k (responses_string_or_parts body p sp k)"
    unfolding responses_string_or_parts_def Let_def
    by (rule member_fieldsI [OF assms]) (auto intro: fields_in_push_found responses_text_parts_fields)
qed

lemma responses_typed_member:
  assumes "resolves body p sp"
  shows "member_fields b body sp k (responses_typed_member body p sp k t)"
  unfolding responses_typed_member_def
  by (rule member_fieldsI [OF assms]) (auto intro: responses_typed_text_parts_fields)

lemma responses_input_item_fields:
  assumes "resolves body p sp"
  shows "fields_in b body (vs_start sp) (vs_end sp) (responses_input_item body p sp)"
  using responses_string_or_parts_fields [OF assms] fields_in_push_member [OF assms, of "p @ [key_seg ''arguments'']" "''arguments''" "[]"]
  by (simp add: responses_input_item_def Let_def)

lemma responses_item_fields:
  assumes "resolves body p sp"
  shows "fields_in b body (vs_start sp) (vs_end sp) (responses_item_fields body p sp)"
  using fields_in_member [OF assms responses_typed_member [OF assms]]
    fields_in_push_member [OF assms, of "p @ [key_seg ''arguments'']" "''arguments''" "[]"]
    fields_in_members [OF assms, of "[(''summary'', responses_typed_member body p sp ''summary'' ''summary_text''),
      (''content'', responses_typed_member body p sp ''content'' ''reasoning_text'')]" b] responses_typed_member [OF assms]
  by (simp add: responses_item_fields_def Let_def)

subsection \<open>Whole bodies\<close>

lemma fields_in_body:
  assumes "find_value body p = Some sp" "fields_in b body (vs_start sp) (vs_end sp) fs"
  shows "fields_in b body 0 (length body) fs"
  using find_value_complete [OF assms(1)] assms(2) by (auto elim: fields_in_mono)

lemma fields_in_two_members:
  assumes "\<And>sp. find_value body [key_seg k] = Some sp \<Longrightarrow> fields_in b body (vs_start sp) (vs_end sp) fs"
    "\<And>sp. find_value body [key_seg k'] = Some sp \<Longrightarrow> fields_in b body (vs_start sp) (vs_end sp) gs"
    "find_value body [key_seg k] = None \<Longrightarrow> fs = []" "find_value body [key_seg k'] = None \<Longrightarrow> gs = []" "k \<noteq> k'"
  shows "fields_in b body 0 (length body) (fs @ gs)"
proof (cases "find_value body [key_seg k] = None \<or> find_value body [key_seg k'] = None")
  case True
  then show ?thesis
    using assms(3,4) fields_in_body [OF _ assms(1)] fields_in_body [OF _ assms(2)]
    by (cases "find_value body [key_seg k]"; cases "find_value body [key_seg k']") auto
next
  case False
  then obtain sp sp' where f: "find_value body [key_seg k] = Some sp" "find_value body [key_seg k'] = Some sp'" by auto
  have "key_seg k \<noteq> key_seg k'" using assms(5) by (simp add: key_seg_def)
  then have "vs_end sp \<le> vs_start sp' \<or> vs_end sp' \<le> vs_start sp"
    using find_from_apart [of body 0 "[key_seg k]" sp "[key_seg k']" sp'] f
    by (simp add: find_value_from del: find_from.simps)
  then have "fields_in b body (min (vs_start sp) (vs_start sp')) (max (vs_end sp) (vs_end sp')) (fs @ gs)"
    using fields_in_append assms(1) [OF f(1)] assms(2) [OF f(2)] by blast
  then show ?thesis
    using find_value_complete [OF f(1)] find_value_complete [OF f(2)] by (auto elim: fields_in_mono)
qed

lemma chat_request_fields: "chat_extract_request body = Fields fs \<Longrightarrow> fields_in b body 0 (length body) fs"
  by (auto simp: chat_extract_request_def split: option.splits if_splits
      intro!: fields_in_body fields_in_elements chat_message_fields)

lemma chat_response_fields: "chat_extract_response body = Fields fs \<Longrightarrow> fields_in b body 0 (length body) fs"
  by (auto simp: chat_extract_response_def split: option.splits if_splits
      intro!: fields_in_body fields_in_elements chat_choice_fields)

lemma messages_request_fields: "messages_extract_request body = Fields fs \<Longrightarrow> fields_in False body 0 (length body) fs"
  unfolding messages_extract_request_def extract_result.inject
  by (erule subst, rule fields_in_two_members [where k = "''system''" and k' = "''messages''"])
    (auto simp: messages_system_def Let_def intro: fields_in_push_found messages_typed_text_fields
      intro!: fields_in_elements messages_message_fields)

lemma messages_response_fields: "messages_extract_response body = Fields fs \<Longrightarrow> fields_in b body 0 (length body) fs"
  by (auto simp: messages_extract_response_def split: option.splits if_splits
      intro!: fields_in_body fields_in_elements messages_response_block_fields)

lemma responses_request_fields: "responses_extract_request body = Fields fs \<Longrightarrow> fields_in b body 0 (length body) fs"
proof -
  assume "responses_extract_request body = Fields fs"
  then have fs: "fs = push_if_nonempty_string body [key_seg ''instructions''] (find_value body [key_seg ''instructions'']) @
      (case find_value body [key_seg ''input''] of None \<Rightarrow> []
       | Some sp \<Rightarrow> if is_string sp then push_if_nonempty_string body [key_seg ''input''] (Some sp)
           else if is_array_span body sp
           then each_element (\<lambda>i. responses_input_item body ([key_seg ''input''] @ [index_seg i])) (array_elements body sp)
           else [])"
    by (simp add: responses_extract_request_def Let_def split: if_splits)
  show ?thesis
    unfolding fs
    by (rule fields_in_two_members [where k = "''instructions''" and k' = "''input''"])
      (auto intro: fields_in_push_found intro!: fields_in_elements responses_input_item_fields
        simp: push_if_nonempty_string_def [of _ _ None])
qed

lemma responses_output_fields:
  "fields_in b body 0 (length body) (extract_response_output_fields body base)"
proof -
  have "fields_in b body (vs_start sp) (vs_end sp)
      (each_element (\<lambda>i. responses_item_fields body ((base @ [key_seg ''output'']) @ [index_seg i])) (array_elements body sp))"
    if "find_value body (base @ [key_seg ''output'']) = Some sp" for sp
    by (rule fields_in_elements [OF that]) (auto intro: responses_item_fields)
  then show ?thesis
    by (auto simp: extract_response_output_fields_def Let_def split: option.split intro: fields_in_body)
qed

lemma extract_request_fields: "extract_request body fmt = Fields fs \<Longrightarrow> fields_in (fmt \<noteq> Messages) body 0 (length body) fs"
  using chat_request_fields messages_request_fields responses_request_fields
  by (cases fmt) (simp_all add: extract_request_def)

lemma extract_response_fields: "extract_response body fmt = Fields fs \<Longrightarrow> fields_in True body 0 (length body) fs"
  using chat_response_fields messages_response_fields responses_output_fields
  by (cases fmt) (auto simp: extract_response_def)

end
