(* ===== verification/JsonScope.thy ===== *)
theory JsonScope
  imports JsonPath
begin

text \<open>
  A lookup scoped to a container agrees with the lookup from the document's root: what a scan of the
  document finds inside the container, the scan of the container alone finds as well.
\<close>

section \<open>From the document back to the container\<close>

text \<open>The converses: what ends inside the container is found there as well.\<close>

lemma occ_nth_less: "occurs d off w \<Longrightarrow> p < length d \<Longrightarrow> w ! (off + p) = d ! p \<and> off + p < length w"
  using occ_nth occ_less by blast

lemma skip_ws_back:
  "occurs d off w \<Longrightarrow> skip_ws w (off + p) = off + q \<Longrightarrow> q < length d \<Longrightarrow> skip_ws d p = q"
proof (induction d p rule: skip_ws.induct)
  case (1 d p)
  have "off + p \<le> off + q" using skip_ws_ge [of "off + p" w] "1.prems"(2) by simp
  then have p: "p < length d" using "1.prems"(3) by simp
  note n = occ_nth_less [OF "1.prems"(1) p]
  show ?case
  proof (cases "is_ws (d ! p)")
    case True
    then have "skip_ws w (off + (p + 1)) = off + q" using "1.prems"(2) n by (simp add: skip_ws.simps [of w "off + p"])
    then show ?thesis using "1.IH" True p "1.prems" by (simp add: skip_ws.simps [of d p])
  next
    case False
    then have "skip_ws d p = p" "skip_ws w (off + p) = off + p" using n by (simp_all add: skip_ws_stop)
    then show ?thesis using "1.prems"(2) by simp
  qed
qed

lemma skip_digits_back:
  "occurs d off w \<Longrightarrow> skip_digits w (off + p) = off + q \<Longrightarrow> q \<le> length d \<Longrightarrow> skip_digits d p = q"
proof (induction d p rule: skip_digits.induct)
  case (1 d p)
  have le: "p \<le> q" using skip_digits_ge [of "off + p" w] "1.prems"(2) by simp
  show ?case
  proof (cases "p < length d")
    case True
    note n = occ_nth_less [OF "1.prems"(1) True]
    show ?thesis
    proof (cases "is_digit_char (d ! p)")
      case digit: True
      then have "skip_digits w (off + (p + 1)) = off + q" using "1.prems"(2) n by (simp add: skip_digits.simps [of w "off + p"])
      then show ?thesis using "1.IH" True digit "1.prems" by (simp add: skip_digits.simps [of d p])
    next
      case False
      then have "skip_digits w (off + p) = off + p" using n by (simp add: skip_digits.simps [of w "off + p"])
      moreover have "skip_digits d p = p" using False by (simp add: skip_digits.simps [of d p])
      ultimately show ?thesis using "1.prems"(2) by simp
    qed
  next
    case False
    then show ?thesis using le "1.prems"(3) by (simp add: skip_digits.simps [of d p])
  qed
qed

lemma skip_string_loop_back:
  "occurs d off w \<Longrightarrow> skip_string_loop w (off + p) = Some (off + q) \<Longrightarrow> q \<le> length d \<Longrightarrow> skip_string_loop d p = Some q"
proof (induction d p rule: skip_string_loop.induct)
  case (1 d p)
  have p: "p < length d" using skip_string_loop_bounds [OF "1.prems"(2)] "1.prems"(3) by simp
  note n = occ_nth_less [OF "1.prems"(1) p]
  consider (quote) "d ! p = CHR 0x22" | (escape) "d ! p = CHR 0x5C"
    | (other) "d ! p \<noteq> CHR 0x22" "d ! p \<noteq> CHR 0x5C" by blast
  then show ?case
  proof cases
    case quote
    then show ?thesis using "1.prems"(2) p n
      by (simp add: skip_string_loop.simps [of d p] skip_string_loop.simps [of w "off + p"])
  next
    case escape
    have eq: "skip_string_loop w (off + p) = (if off + p + 1 \<ge> length w then None
        else if is_short_escape (w ! (off + p + 1)) then skip_string_loop w (off + p + 2)
        else if w ! (off + p + 1) = CHR ''u'' then
          (if off + p + 2 + 4 > length w then None
           else if list_all is_hex_digit (substr w (off + p + 2) 4) then skip_string_loop w (off + p + 6) else None)
        else None)"
      using escape n by (simp add: skip_string_loop.simps [of w "off + p"])
    consider (short) "is_short_escape (w ! (off + p + 1))" "skip_string_loop w (off + (p + 2)) = Some (off + q)"
      | (unicode) "\<not> is_short_escape (w ! (off + p + 1))" "w ! (off + p + 1) = CHR ''u''"
          "list_all is_hex_digit (substr w (off + (p + 2)) 4)" "skip_string_loop w (off + (p + 6)) = Some (off + q)"
      using "1.prems"(2) unfolding eq by (auto simp: add.assoc split: if_splits)
    then show ?thesis
    proof cases
      case short
      then have "p + 2 < q" using skip_string_loop_bounds [OF short(2)] by simp
      then have s: "Suc p < length d" using "1.prems"(3) by simp
      have "is_short_escape (d ! Suc p)" using short(1) occ_nth [OF "1.prems"(1) s] by simp
      then show ?thesis using "1.IH"(1) "1.prems" escape p s short(2)
        by (simp add: skip_string_loop.simps [of d p])
    next
      case unicode
      then have "p + 6 < q" using skip_string_loop_bounds [OF unicode(4)] by simp
      then have s: "Suc p < length d" "p + 6 \<le> length d" using "1.prems"(3) by simp_all
      have "\<not> is_short_escape (d ! Suc p)" "d ! Suc p = CHR ''u''" using unicode(1,2) occ_nth [OF "1.prems"(1) s(1)] by simp_all
      moreover have "list_all is_hex_digit (substr d (p + 2) 4)"
        using unicode(3) occ_substr [OF "1.prems"(1), of "p + 2" 4] s(2) by simp
      ultimately show ?thesis using "1.IH"(2) "1.prems" escape p s unicode(4)
        by (simp add: skip_string_loop.simps [of d p])
    qed
  next
    case other
    then have "byte (d ! p) \<ge> 0x20" "skip_string_loop w (off + (p + 1)) = Some (off + q)"
      using "1.prems"(2) n by (simp_all add: skip_string_loop.simps [of w "off + p"] split: if_splits)
    then show ?thesis using "1.IH"(3) "1.prems" p other by (simp add: skip_string_loop.simps [of d p])
  qed
qed

lemma skip_string_back:
  assumes "occurs d off w" "skip_string w (off + p) = Some (off + q)" "q \<le> length d"
  shows "skip_string d p = Some q"
proof -
  have "p < length d" using skip_string_bounds [OF assms(2)] assms(3) by simp
  then show ?thesis
    using assms occ_nth_less [OF assms(1)] skip_string_loop_back [OF assms(1), of "p + 1"]
    by (simp add: skip_string_def split: if_splits)
qed

lemma digit_at_back: "occurs d off w \<Longrightarrow> digit_at w (off + p) \<Longrightarrow> p < length d \<Longrightarrow> digit_at d p"
  using occ_nth by (simp add: digit_at_def)

lemma skip_int_back:
  assumes "occurs d off w" "skip_int w (off + p) = Some (off + q)" "q \<le> length d"
  shows "skip_int d p = Some q"
proof -
  define s where "s = (if w ! (off + p) = CHR ''-'' \<and> off + p < length w then p + 1 else p)"
  have step: "(if off + p < length w \<and> w ! (off + p) = CHR ''-'' then off + p + 1 else off + p) = off + s"
    by (simp add: s_def)
  have w: "digit_at w (off + s)" "if w ! (off + s) = CHR ''0'' then q = s + 1 else skip_digits w (off + s) = off + q"
    using assms(2) unfolding skip_int_def step Let_def by (auto split: if_splits)
  have "s < q" using w skip_digits_gt [OF w(1)] by (auto split: if_splits)
  then have s: "s < length d" using assms(3) by simp
  then have "p < length d" by (simp add: s_def split: if_splits)
  then have d: "(if p < length d \<and> d ! p = CHR ''-'' then p + 1 else p) = s"
    using occ_nth_less [OF assms(1)] by (simp add: s_def)
  show ?thesis
    unfolding skip_int_def d Let_def
    using w digit_at_back [OF assms(1) w(1) s] occ_nth [OF assms(1) s] skip_digits_back [OF assms(1) _ assms(3), of s]
    by (auto split: if_splits)
qed

lemma skip_frac_back:
  assumes "occurs d off w" "skip_frac w (off + p) = Some (off + q)" "q \<le> length d"
  shows "skip_frac d p = Some q"
proof (cases "off + p < length w \<and> w ! (off + p) = CHR ''.''")
  case True
  then have w: "digit_at w (off + (p + 1))" "skip_digits w (off + (p + 1)) = off + q"
    using assms(2) by (auto simp: skip_frac_def split: if_splits)
  then have "p + 1 < length d" using skip_digits_gt [OF w(1)] assms(3) by simp
  then show ?thesis
    using True occ_nth [OF assms(1), of p] digit_at_back [OF assms(1) w(1)] skip_digits_back [OF assms(1) w(2) assms(3)]
    by (simp add: skip_frac_def)
next
  case False
  then have "p = q" using assms(2) by (auto simp: skip_frac_def split: if_splits)
  then show ?thesis using False occ_nth_less [OF assms(1)] by (auto simp: skip_frac_def)
qed

lemma skip_exp_back:
  assumes "occurs d off w" "skip_exp w (off + p) = Some (off + q)" "q \<le> length d"
  shows "skip_exp d p = Some q"
proof (cases "off + p < length w \<and> (w ! (off + p) = CHR ''e'' \<or> w ! (off + p) = CHR ''E'')")
  case True
  define s where "s = (if off + p + 1 < length w \<and> (w ! (off + p + 1) = CHR ''+'' \<or> w ! (off + p + 1) = CHR ''-'') then p + 2 else p + 1)"
  have step: "(if off + p + 1 < length w \<and> (w ! (off + p + 1) = CHR ''+'' \<or> w ! (off + p + 1) = CHR ''-'')
      then off + p + 2 else off + p + 1) = off + s"
    by (simp add: s_def)
  have w: "digit_at w (off + s)" "skip_digits w (off + s) = off + q"
    using assms(2) True unfolding skip_exp_def step Let_def by (auto split: if_splits)
  then have s: "s < length d" using skip_digits_gt [OF w(1)] assms(3) by simp
  then have p: "p < length d" "p + 1 < length d" by (simp_all add: s_def split: if_splits)
  then have d: "(if p + 1 < length d \<and> (d ! (p + 1) = CHR ''+'' \<or> d ! (p + 1) = CHR ''-'') then p + 2 else p + 1) = s"
    using occ_nth_less [OF assms(1) p(2)] by (simp add: s_def)
  show ?thesis
    using True p occ_nth [OF assms(1) p(1)] digit_at_back [OF assms(1) w(1) s] skip_digits_back [OF assms(1) w(2) assms(3)]
    unfolding skip_exp_def d Let_def by simp
next
  case False
  then have "p = q" using assms(2) by (auto simp: skip_exp_def split: if_splits)
  then show ?thesis using False occ_nth_less [OF assms(1)] by (auto simp: skip_exp_def)
qed

lemma skip_number_back:
  assumes "occurs d off w" "skip_number w (off + p) = Some (off + q)" "q \<le> length d"
  shows "skip_number d p = Some q"
proof -
  obtain a b where ab: "skip_int w (off + p) = Some a" "skip_frac w a = Some b" "skip_exp w b = Some (off + q)" "off + q \<noteq> off + p"
    using assms(2) by (auto simp: skip_number_def split: option.splits if_splits)
  have a: "off + p < a \<and> a \<le> length w"
    using ab(1) skip_digits_gt by (fastforce simp: skip_int_def Let_def digit_at_def split: if_splits)
  have b: "a \<le> b \<and> b \<le> length w"
    using ab(2) a skip_digits_gt by (fastforce simp: skip_frac_def split: if_splits)
  have c: "b \<le> off + q"
    using ab(3) skip_digits_gt by (fastforce simp: skip_exp_def Let_def split: if_splits)
  define a' b' where "a' = a - off" and "b' = b - off"
  have eq: "a = off + a'" "b = off + b'" "a' \<le> length d" "b' \<le> length d"
    using a b c assms(3) unfolding a'_def b'_def by linarith+
  show ?thesis
    using skip_int_back [OF assms(1) ab(1) [unfolded eq(1)] eq(3)] skip_frac_back [OF assms(1) ab(2) [unfolded eq(1,2)] eq(4)]
      skip_exp_back [OF assms(1) ab(3) [unfolded eq(2)] assms(3)] ab(4)
    by (simp add: skip_number_def)
qed

lemma match_literal_back:
  "occurs d off w \<Longrightarrow> match_literal w (off + p) lit \<Longrightarrow> p + length lit \<le> length d \<Longrightarrow> match_literal d p lit"
  using occ_substr [of d off w p "length lit"] by (simp add: match_literal_def split: if_splits)

lemma open_or_scalar_back:
  assumes "occurs d off w" "open_or_scalar w (off + p) frames = Some (off + q, t)" "q \<le> length d"
  shows "open_or_scalar d p frames = Some (q, t)"
proof -
  have p: "p < length d"
    using open_or_scalar_bounds [OF assms(2)] assms(3) by simp
  show ?thesis
    using assms(2,3) p occ_nth_less [OF assms(1) p] skip_string_back [OF assms(1) _ assms(3), of p]
      skip_number_back [OF assms(1) _ assms(3), of p] match_literal_back [OF assms(1), of p]
    by (auto simp: open_or_scalar_def Let_def split: if_splits)
qed

lemma walk_value_back:
  assumes "occurs d off w" "walk_value w (off + p) frames a = Some (off + q, t)" "q \<le> length d"
  shows "walk_value d p frames a = Some (q, t)"
proof -
  obtain t' where "open_or_scalar w (off + p) frames = Some (off + q, t')"
      "t = (if length t' = length frames then set_top a t' else t')"
    using assms(2) by (auto simp: walk_value_def split: option.splits)
  then show ?thesis using open_or_scalar_back [OF assms(1) _ assms(3)] by (simp add: walk_value_def)
qed

lemma walk_key_back:
  assumes "occurs d off w" "walk_key w (off + p) frames = Some (off + q, t)" "q \<le> length d" "p < length d"
  shows "walk_key d p frames = Some (q, t)"
  using assms(2) occ_nth [OF assms(1,4)] skip_string_back [OF assms(1) _ assms(3), of p]
  by (auto simp: walk_key_def split: if_splits)

lemma walk_step_back:
  assumes "occurs d off w" "walk_step w (off + p) frames = Some (off + q, t)" "q \<le> length d"
  shows "walk_step d p frames = Some (q, t)"
proof -
  define p' where "p' = skip_ws w (off + p) - off"
  have ws: "skip_ws w (off + p) = off + p'" using skip_ws_ge [of "off + p" w] by (simp add: p'_def)
  have "walk_step w (off + p') frames = Some (off + q, t)"
    using assms(2) unfolding walk_step_def Let_def skip_ws_idem [of w "off + p", unfolded ws] ws .
  then have p': "p' < length d" using walk_step_bounds assms(3) by fastforce
  note n = occ_nth_less [OF assms(1) p']
  have d: "skip_ws d p = p'" using skip_ws_back [OF assms(1) ws p'] .
  show ?thesis
    using assms(2,3) p' n walk_value_back [OF assms(1) _ assms(3), of p'] walk_key_back [OF assms(1) _ assms(3) p']
    unfolding walk_step_def Let_def ws d by (cases "snd (hd frames)") (auto simp: walk_close_def split: if_splits)
qed

lemma less_off: "off + p < x \<Longrightarrow> \<exists>y. x = off + y \<and> p < y" for x :: nat
  by (intro exI [of _ "x - off"]) simp

lemma walk_loop_back:
  "occurs d off w \<Longrightarrow> walk_loop w (off + p) frames = Some (off + q) \<Longrightarrow> p \<le> length d \<Longrightarrow> q \<le> length d \<Longrightarrow> walk_loop d p frames = Some q"
proof (induction "length d - p" arbitrary: p frames rule: less_induct)
  case less
  show ?case
  proof (cases "frames = []")
    case True
    then show ?thesis using less.prems by (simp add: walk_loop.simps)
  next
    case False
    then obtain r t where st: "walk_step w (off + p) frames = Some (r, t)" "walk_loop w r t = Some (off + q)"
      using less.prems(2) by (auto simp: walk_loop.simps [of w "off + p"] split: option.splits)
    have r: "off + p < r" "r \<le> length w" using walk_step_bounds [OF st(1)] by simp_all
    have "r \<le> off + q" using walk_loop_bounds [OF st(2) r(2)] by simp
      obtain r' where "r = off + r'" "p < r'" using less_off [OF r(1)] by blast
    with \<open>r \<le> off + q\<close> less.prems(4) have r': "r = off + r'" "p < r'" "r' \<le> length d" by simp_all
    have "walk_step d p frames = Some (r', t)" using walk_step_back [OF less.prems(1)] st(1) r' by simp
    moreover have "walk_loop d r' t = Some q" using less.hyps [of r' t] less.prems st(2) r' by simp
    ultimately show ?thesis using False by (simp add: walk_loop.simps [of d p])
  qed
qed

lemma skip_value_back:
  assumes "occurs d off w" "skip_value w (off + p) = Some (off + q)" "q \<le> length d"
  shows "skip_value d p = Some q"
proof -
  define p' where "p' = skip_ws w (off + p) - off"
  have ws: "skip_ws w (off + p) = off + p'" using skip_ws_ge [of "off + p" w] by (simp add: p'_def)
  have p': "p' < length d" using skip_value_bounds [OF assms(2)] assms(3) ws by simp
  have d: "skip_ws d p = p'" using skip_ws_back [OF assms(1) ws p'] .
  obtain r t where o: "open_or_scalar w (off + p') [] = Some (r, t)" "walk_loop w r t = Some (off + q)"
    using assms(2) ws by (auto simp: skip_value_def Let_def split: option.splits if_splits)
  have r: "off + p' < r" "r \<le> length w" using open_or_scalar_bounds [OF o(1)] by simp_all
  have "r \<le> off + q" using walk_loop_bounds [OF o(2) r(2)] by simp
  define r' where "r' = r - off"
  have r': "r = off + r'" "r' \<le> length d" using r \<open>r \<le> off + q\<close> assms(3) by (simp_all add: r'_def)
  show ?thesis
    using open_or_scalar_back [OF assms(1) o(1) [unfolded r'(1)] r'(2)] walk_loop_back [OF assms(1) o(2) [unfolded r'(1)] r'(2) assms(3)]
      p' d by (simp add: skip_value_def)
qed

lemma skip_ws_off: "\<exists>q. skip_ws w (off + p) = off + q \<and> p \<le> q"
  using skip_ws_ge [of "off + p" w] by (intro exI [of _ "skip_ws w (off + p) - off"]) simp

lemma find_element_back:
  "occurs d off w \<Longrightarrow> find_element w (off + p) idx n = Some (off + a, off + b) \<Longrightarrow> b \<le> length d \<Longrightarrow>
   find_element d p idx n = Some (a, b)"
proof (induction "length d - p" arbitrary: p idx rule: less_induct)
  case less
  note occ = less.prems(1)
  obtain ve where m: "skip_ws w (off + p) < length w" "w ! skip_ws w (off + p) \<noteq> CHR '']''"
      "skip_value w (skip_ws w (off + p)) = Some ve"
    and last: "if idx = n then off + a = skip_ws w (off + p) \<and> off + b = ve
      else skip_ws w ve < length w \<and> w ! skip_ws w ve = CHR '','' \<and>
        find_element w (skip_ws w ve + 1) (idx + 1) n = Some (off + a, off + b)"
    using find_element_step [OF less.prems(2)] unfolding Let_def by blast
  obtain p' where p': "skip_ws w (off + p) = off + p'" "p \<le> p'" using skip_ws_off by blast
  obtain e where e: "ve = off + e" "p' < e"
    using less_off [of off p' ve] skip_value_gt [OF m(3)] p'(1) by auto
  obtain q where q: "skip_ws w ve = off + q" "e \<le> q" using skip_ws_off [of w off e] e by blast
  have "(if idx = n then e else q + 1) \<le> b"
    using last e(1) q(1) find_element_ge [of w "skip_ws w ve + 1" "idx + 1" n] by (auto split: if_splits)
  then have le: "e \<le> length d" "idx \<noteq> n \<Longrightarrow> q + 1 \<le> b" using less.prems(3) q(2) by (auto split: if_splits)
  have pl: "p' < length d" using e(2) le(1) by simp
  note n = occ_nth_less [OF occ pl]
  have d: "skip_ws d p = p'" "skip_value d p' = Some e"
    using skip_ws_back [OF occ p'(1) pl] skip_value_back [OF occ _ le(1), of p'] m(3) p'(1) e(1) by simp_all
  have eq: "find_element d p idx n = (if idx = n then Some (p', e)
      else if skip_ws d e < length d \<and> d ! skip_ws d e = CHR '','' then find_element d (skip_ws d e + 1) (idx + 1) n else None)"
    using d pl n m(2) p'(1) by (simp add: find_element.simps [of d p] Let_def)
  show ?case
  proof (cases "idx = n")
    case True
    then show ?thesis using eq last p'(1) e(1) by simp
  next
    case False
    have ql: "q < length d" using le(2) [OF False] less.prems(3) by simp
    have f: "find_element w (off + (q + 1)) (idx + 1) n = Some (off + a, off + b)" "d ! q = CHR '',''"
      using last False q(1) occ_nth_less [OF occ ql] by (simp_all add: add.assoc)
    have "skip_ws d e = q" using skip_ws_back [OF occ _ ql, of e] q(1) e(1) by simp
    moreover have "length d - (q + 1) < length d - p" using ql p'(2) e(2) q(2) by linarith
    then have "find_element d (q + 1) (idx + 1) n = Some (a, b)" using less.hyps [OF _ occ f(1) less.prems(3)] by simp
    ultimately show ?thesis using eq False ql f(2) by simp
  qed
qed

lemma find_member_back:
  "occurs d off w \<Longrightarrow> find_member w (off + p) t = Some (off + a, off + b) \<Longrightarrow> b \<le> length d \<Longrightarrow>
   find_member d p t = Some (a, b)"
proof (induction "length d - p" arbitrary: p rule: less_induct)
  case less
  note occ = less.prems(1)
  obtain k ve where m: "skip_ws w (off + p) < length w" "w ! skip_ws w (off + p) = CHR 0x22"
      "skip_string w (skip_ws w (off + p)) = Some k" "skip_ws w k < length w" "w ! skip_ws w k = CHR '':''"
      "skip_value w (skip_ws w (skip_ws w k + 1)) = Some ve"
    and last: "if decode_string (substr w (skip_ws w (off + p)) (k - skip_ws w (off + p))) = t
      then off + a = skip_ws w (skip_ws w k + 1) \<and> off + b = ve
      else skip_ws w ve < length w \<and> w ! skip_ws w ve = CHR '','' \<and> find_member w (skip_ws w ve + 1) t = Some (off + a, off + b)"
    using find_member_step [OF less.prems(2)] unfolding Let_def by blast
  obtain p' where p': "skip_ws w (off + p) = off + p'" "p \<le> p'" using skip_ws_off by blast
  have "off + (p' + 1) < k" using skip_string_bounds [OF m(3)] p'(1) by simp
  then obtain ke where ke: "k = off + ke" "p' + 1 < ke" using less_off by blast
  obtain c where c: "skip_ws w k = off + c" "ke \<le> c" using skip_ws_off [of w off ke] ke by blast
  obtain v where v: "skip_ws w (skip_ws w k + 1) = off + v" "c + 1 \<le> v"
    using skip_ws_off [of w off "c + 1"] c(1) by (auto simp: add.assoc)
  have "off + v < ve" using skip_value_gt [OF m(6)] v(1) by simp
  then obtain e where e: "ve = off + e" "v < e" using less_off by blast
  obtain q where q: "skip_ws w ve = off + q" "e \<le> q" using skip_ws_off [of w off e] e by blast
  let ?key = "decode_string (substr w (off + p') (ke - p'))"
  have "(if ?key = t then e else q + 1) \<le> b"
    using last p'(1) ke(1) e(1) q(1) find_member_ge [of w "skip_ws w ve + 1" t] by (auto split: if_splits)
  then have le: "e \<le> length d" "?key \<noteq> t \<Longrightarrow> q + 1 \<le> b" using less.prems(3) q(2) by (auto split: if_splits)
  have pl: "p' < length d" "ke \<le> length d" "c < length d" "v < length d" using p'(2) ke(2) c(2) v(2) e(2) le(1) by linarith+
  have mv: "skip_value w (off + v) = Some (off + e)" using m(6) unfolding v(1) e(1) .
  have d: "skip_ws d p = p'" "skip_string d p' = Some ke" "skip_ws d ke = c" "skip_ws d (c + 1) = v" "skip_value d v = Some e"
    using skip_ws_back [OF occ p'(1) pl(1)] skip_string_back [OF occ _ pl(2), of p'] skip_ws_back [OF occ _ pl(3), of ke]
      skip_ws_back [OF occ _ pl(4), of "c + 1"] skip_value_back [OF occ _ le(1), of v] mv m(1-5) p'(1) ke(1) c(1) v(1)
    by (simp_all add: add.assoc)
  have key: "substr d p' (ke - p') = substr w (off + p') (ke - p')"
    using occ_substr [OF occ, of p' "ke - p'"] pl(2) ke(2) by simp
  have eq: "find_member d p t = (if ?key = t then Some (v, e)
      else if skip_ws d e < length d \<and> d ! skip_ws d e = CHR '','' then find_member d (skip_ws d e + 1) t else None)"
    using d pl key m(2,5) p'(1) c(1) occ_nth [OF occ pl(1)] occ_nth [OF occ pl(3)]
    by (simp add: find_member.simps [of d p] Let_def)
  show ?case
  proof (cases "?key = t")
    case True
    then show ?thesis using eq last p'(1) ke(1) v(1) e(1) by simp
  next
    case False
    have ql: "q < length d" using le(2) [OF False] less.prems(3) by simp
    have f: "find_member w (off + (q + 1)) t = Some (off + a, off + b)" "d ! q = CHR '',''"
      using last False p'(1) ke(1) q(1) occ_nth_less [OF occ ql] by (simp_all add: add.assoc)
    have "skip_ws d e = q" using skip_ws_back [OF occ _ ql, of e] q(1) e(1) by simp
    moreover have "length d - (q + 1) < length d - p" using ql p'(2) ke(2) c(2) v(2) e(2) q(2) by linarith
    then have "find_member d (q + 1) t = Some (a, b)" using less.hyps [OF _ occ f(1) less.prems(3)] by simp
    ultimately show ?thesis using eq False ql f(2) by simp
  qed
qed

lemma find_child_back:
  assumes "occurs d off w" "find_child w (off + p) seg = Some (off + a, off + b)" "b \<le> length d" "p < length d"
  shows "find_child d p seg = Some (a, b)"
  using assms find_element_back [OF assms(1), of "p + 1"] find_member_back [OF assms(1), of "p + 1"]
    occ_nth [OF assms(1,4)] by (simp add: find_child_def add.assoc split: if_splits)

lemma find_from_back:
  "occurs d off w \<Longrightarrow> find_from w (off + p) path = Some sp \<Longrightarrow> skip_value w (off + p) = Some (off + e) \<Longrightarrow> e \<le> length d \<Longrightarrow>
   path \<noteq> [] \<Longrightarrow> \<exists>sp'. find_from d p path = Some sp' \<and> sp = shift_span off sp'"
proof (induction path arbitrary: p e)
  case (Cons seg path)
  note occ = Cons.prems(1)
  obtain p' where p': "skip_ws w (off + p) = off + p'" "p \<le> p'" using skip_ws_off by blast
  obtain x y where c: "find_child w (off + p') seg = Some (x, y)" "skip_value w x = Some y" "find_from w x path = Some sp"
    using find_from_child [OF Cons.prems(2)] p'(1) by auto
  have b: "off + p < x" "x < y" "y < off + e" "off + p' < off + e"
    using find_child_inside [OF Cons.prems(3)] skip_value_bounds [OF Cons.prems(3)] c(1) p'(1) by simp_all
  obtain a where a: "x = off + a" "p < a" using less_off [OF b(1)] by blast
  obtain b where "y = off + b" "a < b" using less_off [of off a y] b(2) a(1) by blast
  with a(1) b Cons.prems(4) have ab: "x = off + a" "y = off + b" "b \<le> length d" "a < length d" by simp_all
  have pl: "p' < length d" using b(4) Cons.prems(4) by simp
  have d: "skip_ws d p = p'" "find_child d p' seg = Some (a, b)"
    using skip_ws_back [OF occ p'(1) pl] find_child_back [OF occ _ ab(3) pl, of seg a] c(1) ab(1,2) by simp_all
  show ?case
  proof (cases "path = []")
    case True
    then have "sp = span_at w (x, y)" using c(2,3) by simp
    then show ?thesis using True d pl ab occ_nth [OF occ ab(4)] by (auto simp: Let_def span_at_def shift_span_def)
  next
    case False
    then show ?thesis using Cons.IH [OF occ _ _ ab(3), of a] c(2,3) ab(1,2) d pl by (simp add: Let_def)
  qed
qed simp

text \<open>A scoped lookup and the lookup from the container agree.\<close>

lemma find_value_in_eq:
  assumes "skip_value w (vs_start sp) = Some (vs_end sp)" "path \<noteq> []"
  shows "find_value_in w sp path = find_from w (vs_start sp) path"
proof (cases "find_from w (vs_start sp) path")
  case None
  then have "find_value_in w sp path \<noteq> Some sp2" for sp2 using find_value_in_from [OF assms(1) _ assms(2)] by fastforce
  then have "find_value_in w sp path = None" by (cases "find_value_in w sp path") blast+
  then show ?thesis using None by simp
next
  case (Some sp2)
  let ?d = "sub_doc w sp"
  have doc: "in_doc w sp" using skip_value_gt [OF assms(1)] by (simp add: in_doc_def)
  then have occ: "occurs ?d (vs_start sp) w" and len: "vs_end sp = vs_start sp + length ?d"
    using sub_doc_occurs [OF doc] skip_value_gt [OF assms(1)] by simp_all
  have "\<exists>sp1. find_from ?d 0 path = Some sp1 \<and> sp2 = shift_span (vs_start sp) sp1"
    by (rule find_from_back [OF occ _ _ order_refl assms(2)]) (simp_all add: Some assms(1) len)
  then obtain sp1 where "find_value ?d path = Some sp1" "sp2 = shift_span (vs_start sp) sp1"
    using find_value_from [OF assms(2)] by auto
  then show ?thesis using Some doc by (simp add: find_value_in_def)
qed

lemma find_element_nth:
  "find_element d p idx n = Some (a, b) \<Longrightarrow> skip_ws d q = skip_ws d p \<Longrightarrow> idx \<le> n \<and> n - idx < length (elements_loop d q)"
proof (induction "length d - p" arbitrary: p q idx rule: less_induct)
  case less
  obtain ve where m: "skip_ws d p < length d" "skip_value d (skip_ws d p) = Some ve"
    and last: "if idx = n then a = skip_ws d p \<and> b = ve
      else skip_ws d ve < length d \<and> d ! skip_ws d ve = CHR '','' \<and> find_element d (skip_ws d ve + 1) (idx + 1) n = Some (a, b)"
    using find_element_step [OF less.prems(1)] unfolding Let_def by blast
  have "skip_value d q = Some ve" using m(2) less.prems(2) by (metis skip_value_skip_ws)
  then have el: "length (elements_loop d q) = Suc (length (if skip_ws d ve < length d \<and> d ! skip_ws d ve = CHR '',''
      then elements_loop d (skip_ws d ve + 1) else []))"
    by (subst elements_loop.simps) (simp add: Let_def)
  show ?case
  proof (cases "idx = n")
    case False
    have "length d - (skip_ws d ve + 1) < length d - p"
      using skip_value_gt [OF m(2)] skip_ws_ge [of p d] skip_ws_ge [of ve d] m(1) by linarith
    then have "idx + 1 \<le> n \<and> n - (idx + 1) < length (elements_loop d (skip_ws d ve + 1))"
      using less.hyps last False by simp
    then show ?thesis using el last False by auto
  qed (simp add: el)
qed

lemma find_child_element:
  assumes "find_child d (vs_start sp) (index_seg i) = Some (a, b)" "\<not> is_string sp" "in_doc d sp" "vs_start sp < vs_end sp"
  shows "i < length (array_elements d sp)"
proof -
  have f: "d ! vs_start sp = CHR ''[''" "find_element d (vs_start sp + 1) 0 i = Some (a, b)"
    using assms(1) by (auto simp: find_child_def index_seg_def split: if_splits)
  have "skip_ws d (vs_start sp + 1) < length d" "d ! skip_ws d (vs_start sp + 1) \<noteq> CHR '']''"
    using find_element_step [OF f(2)] by (auto simp: Let_def)
  then show ?thesis
    using find_element_nth [OF f(2), of "skip_ws d (vs_start sp + 1)"] f(1) assms(2-4) by (simp add: array_elements_def)
qed

end
