(* ===== verification/ExtractSpec.thy ===== *)
theory ExtractSpec
  imports Extract JsonScope
begin

text \<open>
  What the extractors promise, as patterns of paths: a specification that says for each format which
  values of a body are text fields, and the proof that the collectors return exactly those.
\<close>

section \<open>Text fields by path\<close>

definition text_field :: "string \<Rightarrow> path_seg list \<Rightarrow> content_field \<Rightarrow> bool" where
  "text_field body p f \<longleftrightarrow>
     find_value body p = Some (field_span f) \<and> is_string (field_span f) \<and> field_path f = p \<and>
     field_text f = decode_string (sub_doc body (field_span f)) \<and> field_text f \<noteq> [] \<and> \<not> is_raw_object f"

definition has_type :: "string \<Rightarrow> path_seg list \<Rightarrow> string \<Rightarrow> bool" where
  "has_type body p t \<longleftrightarrow>
     (\<exists>sp. find_value body (p @ [key_seg ''type'']) = Some sp \<and> is_string sp \<and> decode_string (sub_doc body sp) = t)"

text \<open>A text part of the array at a path, with one of the given types, and a value that is a string or such an array.\<close>

definition part_field :: "string \<Rightarrow> path_seg list \<Rightarrow> string set \<Rightarrow> content_field \<Rightarrow> bool" where
  "part_field body p types f \<longleftrightarrow>
     (\<exists>j. (\<exists>t\<in>types. has_type body (p @ [index_seg j]) t) \<and> text_field body (p @ [index_seg j, key_seg ''text'']) f)"

definition text_or_part_field :: "string \<Rightarrow> path_seg list \<Rightarrow> string set \<Rightarrow> content_field \<Rightarrow> bool" where
  "text_or_part_field body p types f \<longleftrightarrow> text_field body p f \<or> part_field body p types f"

definition call_field :: "string \<Rightarrow> path_seg list \<Rightarrow> content_field \<Rightarrow> bool" where
  "call_field body p f \<longleftrightarrow>
     text_field body (p @ [key_seg ''function_call'', key_seg ''arguments'']) f \<or>
     (\<exists>j. text_field body (p @ [key_seg ''tool_calls'', index_seg j, key_seg ''function'', key_seg ''arguments'']) f)"

definition leaf_field :: "string \<Rightarrow> path_seg list \<Rightarrow> content_field \<Rightarrow> bool" where
  "leaf_field body p f \<longleftrightarrow>
     (\<exists>sp. find_value body p = Some sp \<and> (\<exists>l\<in>set (string_leaves_in body sp []).
        field_path f = p @ leaf_path l \<and> field_span f = leaf_span l)) \<and>
     field_text f = decode_string (sub_doc body (field_span f)) \<and> field_text f \<noteq> [] \<and> \<not> is_raw_object f"

definition raw_field :: "string \<Rightarrow> path_seg list \<Rightarrow> content_field \<Rightarrow> bool" where
  "raw_field body p f \<longleftrightarrow>
     find_value body p = Some (field_span f) \<and> body ! vs_start (field_span f) = CHR ''{'' \<and> field_path f = p \<and>
     field_text f = sub_doc body (field_span f) \<and> field_text f \<noteq> ''{}'' \<and> is_raw_object f"

section \<open>The formats\<close>

definition messages_block_field :: "string \<Rightarrow> path_seg list \<Rightarrow> content_field \<Rightarrow> bool" where
  "messages_block_field body p f \<longleftrightarrow>
     has_type body p ''text'' \<and> text_field body (p @ [key_seg ''text'']) f \<or>
     has_type body p ''tool_use'' \<and> leaf_field body (p @ [key_seg ''input'']) f \<or>
     has_type body p ''tool_result'' \<and> text_or_part_field body (p @ [key_seg ''content'']) {''text''} f"

definition input_item_field :: "string \<Rightarrow> path_seg list \<Rightarrow> content_field \<Rightarrow> bool" where
  "input_item_field body p f \<longleftrightarrow>
     (let types = {''output_text'', ''input_text'', ''text''} in
      if has_type body p ''function_call_output'' then text_or_part_field body (p @ [key_seg ''output'']) types f
      else if has_type body p ''function_call'' then text_field body (p @ [key_seg ''arguments'']) f
      else text_or_part_field body (p @ [key_seg ''content'']) types f)"

text \<open>The fields of a request: the text a client sends to the model.\<close>

definition request_field :: "string \<Rightarrow> api_format \<Rightarrow> content_field \<Rightarrow> bool" where
  "request_field body fmt f \<longleftrightarrow>
     (case fmt of
        ChatCompletions \<Rightarrow>
          \<exists>i. let p = [key_seg ''messages'', index_seg i] in
            text_or_part_field body (p @ [key_seg ''content'']) {''text''} f \<or> call_field body p f
      | Messages \<Rightarrow>
          text_or_part_field body [key_seg ''system''] {''text''} f \<or>
          (\<exists>i. let p = [key_seg ''messages'', index_seg i, key_seg ''content''] in
             text_field body p f \<or> (\<exists>j. messages_block_field body (p @ [index_seg j]) f))
      | Responses \<Rightarrow>
          text_field body [key_seg ''instructions''] f \<or> text_field body [key_seg ''input''] f \<or>
          (\<exists>i. input_item_field body [key_seg ''input'', index_seg i] f))"

definition output_item_field :: "string \<Rightarrow> path_seg list \<Rightarrow> content_field \<Rightarrow> bool" where
  "output_item_field body p f \<longleftrightarrow>
     has_type body p ''message'' \<and> part_field body (p @ [key_seg ''content'']) {''output_text''} f \<or>
     has_type body p ''function_call'' \<and> text_field body (p @ [key_seg ''arguments'']) f \<or>
     has_type body p ''reasoning'' \<and>
       (part_field body (p @ [key_seg ''summary'']) {''summary_text''} f \<or>
        part_field body (p @ [key_seg ''content'']) {''reasoning_text''} f)"

definition response_field :: "string \<Rightarrow> api_format \<Rightarrow> content_field \<Rightarrow> bool" where
  "response_field body fmt f \<longleftrightarrow>
     (case fmt of
        ChatCompletions \<Rightarrow>
          \<exists>i. let p = [key_seg ''choices'', index_seg i, key_seg ''message''] in
            (\<exists>name\<in>set kPlainResponseFields. text_field body (p @ [key_seg name]) f) \<or> call_field body p f
      | Messages \<Rightarrow>
          \<exists>i. let p = [key_seg ''content'', index_seg i] in
            has_type body p ''text'' \<and> text_field body (p @ [key_seg ''text'']) f \<or>
            has_type body p ''thinking'' \<and> text_field body (p @ [key_seg ''thinking'']) f \<or>
            has_type body p ''tool_use'' \<and> raw_field body (p @ [key_seg ''input'']) f
      | Responses \<Rightarrow> \<exists>i. output_item_field body [key_seg ''output'', index_seg i] f)"

section \<open>Looking up by path\<close>

lemma resolves_eq:
  assumes "resolves body p sp" "q \<noteq> []"
  shows "find_value_in body sp q = find_value body (p @ q)"
proof -
  obtain sp' where sp': "p \<noteq> []" "find_value body p = Some sp'" "vs_start sp' = skip_ws body (vs_start sp)"
      "skip_value body (vs_start sp) = Some (vs_end sp)"
    using assms(1) by (auto simp: resolves_def)
  have "find_value_in body sp q = find_from body (vs_start sp') q"
    using find_value_in_eq [OF sp'(4) assms(2)] assms(2) by (simp add: sp'(3) find_from_skip_ws)
  then show ?thesis using sp'(1,2) assms(2) by (simp add: find_value_from find_from_append)
qed

lemma find_from_prefix:
  "find_from d p (xs @ ys) = Some sp \<Longrightarrow> xs \<noteq> [] \<Longrightarrow> \<exists>sp'. find_from d p xs = Some sp'"
proof (induction d p xs rule: find_from.induct)
  case (2 d p seg path)
  obtain a b where c: "\<not> skip_ws d p \<ge> length d" "find_child d (skip_ws d p) seg = Some (a, b)"
    using "2.prems"(1) by (auto simp: Let_def split: if_splits option.splits)
  show ?case
  proof (cases "path = []")
    case True
    then show ?thesis using c by (simp add: Let_def)
  next
    case False
    then show ?thesis using "2.IH" [OF refl c(1) c(2) refl False _ False] "2.prems"(1) c by (simp add: Let_def)
  qed
qed simp

lemma find_value_prefix:
  "find_value d (xs @ ys) = Some sp \<Longrightarrow> xs \<noteq> [] \<Longrightarrow> \<exists>sp'. find_value d xs = Some sp'"
  using find_from_prefix by (cases "ys = []") (auto simp: find_value_from)

text \<open>A path with an index segment leads through an array that has an element there.\<close>

lemma find_value_index:
  assumes "find_value d (xs @ index_seg i # ys) = Some sp" "xs \<noteq> []"
  shows "\<exists>a. find_value d xs = Some a \<and> is_array_span d a \<and> i < length (array_elements d a)"
proof -
  obtain a where a: "find_value d xs = Some a" using find_value_prefix assms by blast
  have "find_from d (vs_start a) (index_seg i # ys) = Some sp"
    using assms a by (simp add: find_value_from find_from_append del: find_from.simps)
  then obtain x y where c: "find_child d (vs_start a) (index_seg i) = Some (x, y)"
    using find_from_child find_value_skip(2) [OF a] by fastforce
  have "d ! vs_start a = CHR ''[''" using c by (auto simp: find_child_def index_seg_def split: if_splits)
  then have arr: "is_array_span d a" using find_value_complete [OF a] by (simp add: is_array_span_def)
  then show ?thesis
    using find_child_element [OF c] find_value_skip(3) [OF a] a by (auto simp: is_array_span_def)
qed

lemma is_array_not_string: "find_value body p = Some sp \<Longrightarrow> is_array_span body sp \<Longrightarrow> \<not> is_string sp"
  by (simp add: is_array_span_def)

section \<open>Membership in what a collector returns\<close>

lemma set_push:
  "f \<in> set (push_if_nonempty_string body p (find_value body p)) \<longleftrightarrow> text_field body p f"
  by (cases "find_value body p"; cases f) (auto simp: push_if_nonempty_string_def text_field_def Let_def)

lemma set_push_some:
  "find_value body p = Some sp \<Longrightarrow> f \<in> set (push_if_nonempty_string body p (Some sp)) \<longleftrightarrow> text_field body p f"
  using set_push [of f body p] by simp

lemma set_each_element:
  "f \<in> set (each_element g sps) \<longleftrightarrow> (\<exists>i<length sps. f \<in> set (g i (sps ! i)))"
proof -
  have "set (each_element g sps) = (\<Union>p\<in>set (enumerate 0 sps). set (g (fst p) (snd p)))"
    by (auto simp: each_element_def)
  also have "f \<in> \<dots> \<longleftrightarrow> (\<exists>i x. (i, x) \<in> set (enumerate 0 sps) \<and> f \<in> set (g i x))"
    by (simp add: Bex_def)
  finally show ?thesis by (simp add: in_set_enumerate_eq)
qed

text \<open>The elements of an array, where the group of an element is described by the element's path.\<close>

lemma set_elements:
  assumes "find_value body p = Some sp" "p \<noteq> []" "is_array_span body sp"
    and "\<And>i e. resolves body (p @ [index_seg i]) e \<Longrightarrow> f \<in> set (g i e) \<longleftrightarrow> Q (p @ [index_seg i])"
    and "\<And>i. Q (p @ [index_seg i]) \<Longrightarrow> \<exists>ys sp'. find_value body (p @ index_seg i # ys) = Some sp'"
  shows "f \<in> set (each_element g (array_elements body sp)) \<longleftrightarrow> (\<exists>i. Q (p @ [index_seg i]))"
proof -
  have "i < length (array_elements body sp)" if q: "Q (p @ [index_seg i])" for i
  proof -
    obtain ys sp' where "find_value body (p @ index_seg i # ys) = Some sp'" using assms(5) [OF q] by blast
    from find_value_index [OF this assms(2)] show ?thesis using assms(1) by auto
  qed
  moreover have "f \<in> set (g i (array_elements body sp ! i)) \<longleftrightarrow> Q (p @ [index_seg i])" if "i < length (array_elements body sp)" for i
    by (rule assms(4) [OF resolves_element [OF assms(1,2) that]])
  ultimately show ?thesis unfolding set_each_element by blast
qed

lemma text_field_value: "text_field body p f \<Longrightarrow> \<exists>sp. find_value body p = Some sp \<and> is_string sp"
  by (auto simp: text_field_def)

lemma set_parts:
  assumes "find_value body p = Some sp" "p \<noteq> []" "is_array_span body sp"
    and "\<And>j e. resolves body (p @ [index_seg j]) e \<Longrightarrow>
      f \<in> set (g j e) \<longleftrightarrow> (\<exists>t\<in>types. has_type body (p @ [index_seg j]) t) \<and> text_field body (p @ [index_seg j, key_seg ''text'']) f"
  shows "f \<in> set (each_element g (array_elements body sp)) \<longleftrightarrow> part_field body p types f"
  unfolding part_field_def
  using set_elements [OF assms(1-3), of f g "\<lambda>q. (\<exists>t\<in>types. has_type body q t) \<and> text_field body (q @ [key_seg ''text'']) f"]
    assms(4) text_field_value by (fastforce simp: append_assoc)

lemma part_field_array: "part_field body p types f \<Longrightarrow> p \<noteq> [] \<Longrightarrow> \<exists>sp. find_value body p = Some sp \<and> is_array_span body sp"
  using find_value_index text_field_value by (fastforce simp: part_field_def)

lemma set_typed_array:
  assumes "p \<noteq> []" "\<And>sp. find_value body p = Some sp \<Longrightarrow> is_array_span body sp \<Longrightarrow> f \<in> set (arr sp) \<longleftrightarrow> part_field body p types f"
  shows "f \<in> set (case find_value body p of None \<Rightarrow> [] | Some sp \<Rightarrow> if is_array_span body sp then arr sp else []) \<longleftrightarrow>
    part_field body p types f"
  using assms part_field_array [of body p types f] by (auto split: option.split)

lemma set_string_or_array:
  assumes "p \<noteq> []" "\<And>sp. find_value body p = Some sp \<Longrightarrow> is_array_span body sp \<Longrightarrow> f \<in> set (arr sp) \<longleftrightarrow> part_field body p types f"
  shows "f \<in> set (case find_value body p of None \<Rightarrow> [] | Some sp \<Rightarrow>
      if is_string sp then push_if_nonempty_string body p (Some sp) else if is_array_span body sp then arr sp else []) \<longleftrightarrow>
    text_or_part_field body p types f"
proof (cases "find_value body p")
  case None
  then show ?thesis
    using part_field_array [of body p types f] assms(1) text_field_value [of body p f] by (auto simp: text_or_part_field_def)
next
  case (Some sp)
  have str: "text_field body p f \<Longrightarrow> is_string sp" using text_field_value Some by fastforce
  have part: "part_field body p types f \<Longrightarrow> is_array_span body sp" using part_field_array assms(1) Some by fastforce
  show ?thesis
    using Some str part assms(2) [OF Some] set_push_some [OF Some, of f] by (auto simp: text_or_part_field_def is_array_span_def)
qed

lemma type_of_eq: "block_type body sp = type_of body sp"
  by (simp add: block_type_def type_of_def)

lemma set_type_of:
  assumes "resolves body p sp" "t \<noteq> []"
  shows "type_of body sp = t \<longleftrightarrow> has_type body p t"
  using assms by (auto simp: type_of_def has_type_def resolves_eq split: option.splits)

section \<open>Chat completions\<close>

lemma set_chat_text_part:
  assumes "resolves body (p @ [index_seg j]) e"
  shows "f \<in> set (chat_text_part body p j e) \<longleftrightarrow>
    has_type body (p @ [index_seg j]) ''text'' \<and> text_field body (p @ [index_seg j, key_seg ''text'']) f"
  using set_push [of f body "p @ [index_seg j, key_seg ''text'']"]
  by (cases "find_value body (p @ [index_seg j, key_seg ''type''])")
    (simp_all add: chat_text_part_def has_type_def resolves_eq [OF assms])

lemma set_chat_content:
  assumes "resolves body p e"
  shows "f \<in> set (chat_message_content body p e) \<longleftrightarrow> text_or_part_field body (p @ [key_seg ''content'']) {''text''} f"
proof -
  let ?p = "p @ [key_seg ''content'']"
  have "f \<in> set (case find_value body ?p of None \<Rightarrow> [] | Some sp \<Rightarrow>
      if is_string sp then push_if_nonempty_string body ?p (Some sp)
      else if is_array_span body sp then each_element (chat_text_part body ?p) (array_elements body sp) else []) \<longleftrightarrow>
    text_or_part_field body ?p {''text''} f"
    by (intro set_string_or_array set_parts) (simp_all add: set_chat_text_part)
  moreover have "chat_message_content body p e = (case find_value body ?p of None \<Rightarrow> [] | Some sp \<Rightarrow>
      if is_string sp then push_if_nonempty_string body ?p (Some sp)
      else if is_array_span body sp then each_element (chat_text_part body ?p) (array_elements body sp) else [])"
    by (simp add: chat_message_content_def resolves_eq [OF assms] Let_def split: option.split)
  ultimately show ?thesis by simp
qed

lemma set_chat_calls:
  assumes "resolves body p e"
  shows "f \<in> set (chat_function_call body p e @ chat_tool_calls body p e) \<longleftrightarrow> call_field body p f"
proof -
  let ?p = "p @ [key_seg ''tool_calls'']"
  let ?Q = "\<lambda>q. text_field body (q @ [key_seg ''function'', key_seg ''arguments'']) f"
  have call: "f \<in> set (chat_tool_call body ?p i e) \<longleftrightarrow> ?Q (?p @ [index_seg i])" if "resolves body (?p @ [index_seg i]) e" for i e
    using set_push [of f body "?p @ [index_seg i, key_seg ''function'', key_seg ''arguments'']"]
    by (simp add: chat_tool_call_def resolves_eq [OF that])
  have "f \<in> set (chat_tool_calls body p e) \<longleftrightarrow> (\<exists>i. ?Q (?p @ [index_seg i]))"
  proof (cases "\<exists>sp. find_value body ?p = Some sp \<and> is_array_span body sp")
    case True
    then obtain sp where sp: "find_value body ?p = Some sp" "is_array_span body sp" by blast
    have "f \<in> set (each_element (chat_tool_call body ?p) (array_elements body sp)) \<longleftrightarrow> (\<exists>i. ?Q (?p @ [index_seg i]))"
      using text_field_value by (intro set_elements [where Q = ?Q] sp call) fastforce+
    then show ?thesis using sp by (simp add: chat_tool_calls_def resolves_eq [OF assms])
  next
    case False
    then have "\<not> ?Q (?p @ [index_seg i])" for i
      using text_field_value find_value_index [of body ?p i] by fastforce
    then show ?thesis using False by (auto simp: chat_tool_calls_def resolves_eq [OF assms] split: option.split)
  qed
  moreover have "f \<in> set (chat_function_call body p e) \<longleftrightarrow> text_field body (p @ [key_seg ''function_call'', key_seg ''arguments'']) f"
    by (simp add: chat_function_call_def resolves_eq [OF assms] set_push)
  ultimately show ?thesis by (simp add: call_field_def)
qed

lemma set_chat_message:
  assumes "resolves body p e"
  shows "f \<in> set (chat_message body p e) \<longleftrightarrow>
    text_or_part_field body (p @ [key_seg ''content'']) {''text''} f \<or> call_field body p f"
  using set_chat_content [OF assms, of f] set_chat_calls [OF assms, of f] by (auto simp: chat_message_def)

text \<open>Whatever kind of field: its path leads somewhere, so an index segment on the way is in range.\<close>

lemma text_field_found: "text_field body (p @ q) f \<Longrightarrow> \<exists>ys sp. find_value body (p @ ys) = Some sp"
  by (auto simp: text_field_def)

lemma field_found:
  "part_field body (p @ q) types f \<Longrightarrow> \<exists>ys sp. find_value body (p @ ys) = Some sp"
  "text_or_part_field body (p @ q) types f \<Longrightarrow> \<exists>ys sp. find_value body (p @ ys) = Some sp"
  "call_field body p f \<Longrightarrow> \<exists>ys sp. find_value body (p @ ys) = Some sp"
  "has_type body p t \<Longrightarrow> \<exists>ys sp. find_value body (p @ ys) = Some sp"
  using text_field_found by (fastforce simp: part_field_def text_or_part_field_def call_field_def has_type_def)+

lemma set_body_array:
  assumes "\<And>i e. resolves body [key_seg k, index_seg i] e \<Longrightarrow> f \<in> set (g i e) \<longleftrightarrow> Q [key_seg k, index_seg i]"
    and "\<And>i. Q [key_seg k, index_seg i] \<Longrightarrow> \<exists>ys sp'. find_value body (key_seg k # index_seg i # ys) = Some sp'"
  shows "(case find_value body [key_seg k] of None \<Rightarrow> False
      | Some sp \<Rightarrow> is_array_span body sp \<and> f \<in> set (each_element g (array_elements body sp))) \<longleftrightarrow>
    (\<exists>i. Q [key_seg k, index_seg i])"
proof (cases "\<exists>sp. find_value body [key_seg k] = Some sp \<and> is_array_span body sp")
  case True
  then obtain sp where sp: "find_value body [key_seg k] = Some sp" "is_array_span body sp" by blast
  have "f \<in> set (each_element g (array_elements body sp)) \<longleftrightarrow> (\<exists>i. Q ([key_seg k] @ [index_seg i]))"
    using assms by (intro set_elements sp) auto
  then show ?thesis using sp by simp
next
  case False
  have "\<not> Q [key_seg k, index_seg i]" for i
    using assms(2) [of i] find_value_index [of body "[key_seg k]" i] False by fastforce
  then show ?thesis using False by (auto split: option.split)
qed

lemma set_chat_request:
  assumes "chat_extract_request body = Fields fs"
  shows "f \<in> set fs \<longleftrightarrow> request_field body ChatCompletions f"
proof -
  let ?Q = "\<lambda>p. text_or_part_field body (p @ [key_seg ''content'']) {''text''} f \<or> call_field body p f"
  have "(case find_value body [key_seg ''messages''] of None \<Rightarrow> False
      | Some sp \<Rightarrow> is_array_span body sp \<and>
          f \<in> set (each_element (\<lambda>i. chat_message body [key_seg ''messages'', index_seg i]) (array_elements body sp))) \<longleftrightarrow>
    (\<exists>i. ?Q [key_seg ''messages'', index_seg i])"
    using field_found [of body "[key_seg ''messages'', index_seg i]" for i]
    by (intro set_body_array set_chat_message) fastforce+
  then show ?thesis
    using assms by (auto simp: chat_extract_request_def request_field_def Let_def split: option.splits if_splits)
qed

lemma set_chat_choice:
  assumes "resolves body p e"
  shows "f \<in> set (chat_choice body p e) \<longleftrightarrow>
    (\<exists>name\<in>set kPlainResponseFields. text_field body (p @ [key_seg ''message'', key_seg name]) f) \<or>
    call_field body (p @ [key_seg ''message'']) f"
proof (cases "find_value body (p @ [key_seg ''message''])")
  case None
  have "\<not> text_field body ((p @ [key_seg ''message'']) @ q) f" for q
    using find_value_prefix [of body "p @ [key_seg ''message'']" q] text_field_value None by fastforce
  then show ?thesis
    using None text_field_found [of body "p @ [key_seg ''message'']" _ f] unfolding call_field_def
    by (simp add: chat_choice_def resolves_eq [OF assms])
next
  case (Some m)
  then have m: "resolves body (p @ [key_seg ''message'']) m" by (rule resolves_found) simp
  have "f \<in> set (chat_choice body p e) \<longleftrightarrow>
      (\<exists>name\<in>set kPlainResponseFields. f \<in> set (push_if_nonempty_string body (p @ [key_seg ''message'', key_seg name])
         (find_value body (p @ [key_seg ''message'', key_seg name])))) \<or>
      f \<in> set (chat_function_call body (p @ [key_seg ''message'']) m @ chat_tool_calls body (p @ [key_seg ''message'']) m)"
    using Some by (simp add: chat_choice_def resolves_eq [OF assms] resolves_eq [OF m] Let_def)
  then show ?thesis by (simp only: set_push set_chat_calls [OF m])
qed

lemma set_chat_response:
  assumes "chat_extract_response body = Fields fs"
  shows "f \<in> set fs \<longleftrightarrow> response_field body ChatCompletions f"
proof -
  let ?Q = "\<lambda>p. (\<exists>name\<in>set kPlainResponseFields. text_field body (p @ [key_seg ''message'', key_seg name]) f) \<or>
    call_field body (p @ [key_seg ''message'']) f"
  have found: "\<exists>ys sp. find_value body ([key_seg ''choices'', index_seg i] @ ys) = Some sp" if "?Q [key_seg ''choices'', index_seg i]" for i
    using that text_field_found [of body "[key_seg ''choices'', index_seg i]" _ f]
      field_found(3) [of body "[key_seg ''choices'', index_seg i, key_seg ''message'']" f] by fastforce
  have "(case find_value body [key_seg ''choices''] of None \<Rightarrow> False
      | Some sp \<Rightarrow> is_array_span body sp \<and>
          f \<in> set (each_element (\<lambda>i. chat_choice body [key_seg ''choices'', index_seg i]) (array_elements body sp))) \<longleftrightarrow>
    (\<exists>i. ?Q [key_seg ''choices'', index_seg i])"
    using found by (intro set_body_array set_chat_choice) simp_all
  then show ?thesis
    using assms by (auto simp: chat_extract_response_def response_field_def Let_def split: option.splits if_splits)
qed

section \<open>Messages\<close>

lemma set_messages_parts:
  assumes "find_value body p = Some sp" "p \<noteq> []" "is_array_span body sp"
  shows "f \<in> set (messages_typed_text_parts body p sp) \<longleftrightarrow> part_field body p {''text''} f"
  unfolding messages_typed_text_parts_def
proof (intro set_parts assms)
  fix j e assume e: "resolves body (p @ [index_seg j]) e"
  show "f \<in> set (if block_type body e \<noteq> ''text'' then []
      else push_if_nonempty_string body (p @ [index_seg j, key_seg ''text'']) (find_value_in body e [key_seg ''text''])) \<longleftrightarrow>
    (\<exists>t\<in>{''text''}. has_type body (p @ [index_seg j]) t) \<and> text_field body (p @ [index_seg j, key_seg ''text'']) f"
    using set_type_of [OF e, of "''text''"] set_push [of f body "p @ [index_seg j, key_seg ''text'']"]
    by (simp add: type_of_eq resolves_eq [OF e])
qed

lemma set_messages_tool_result:
  assumes "resolves body p e"
  shows "f \<in> set (messages_tool_result body p e) \<longleftrightarrow> text_or_part_field body (p @ [key_seg ''content'']) {''text''} f"
  unfolding messages_tool_result_def resolves_eq [OF assms list.simps(3)] Let_def
  by (intro set_string_or_array set_messages_parts) simp_all

lemma set_messages_leaves:
  assumes "find_value body p = Some sp"
  shows "f \<in> set (messages_input_leaves body p sp) \<longleftrightarrow> leaf_field body p f"
  by (cases f) (auto simp: messages_input_leaves_def leaf_field_def Let_def assms)

lemma has_type_unique: "has_type body p t \<Longrightarrow> has_type body p t' \<Longrightarrow> t = t'"
  by (auto simp: has_type_def)

lemma set_messages_block:
  assumes "resolves body (p @ [index_seg i]) e"
  shows "f \<in> set (messages_content_block body p i e) \<longleftrightarrow> messages_block_field body (p @ [index_seg i]) f"
proof -
  note ty = set_type_of [OF assms]
  have leaves: "f \<in> set (case find_value body (p @ [index_seg i, key_seg ''input'']) of None \<Rightarrow> []
      | Some sp \<Rightarrow> messages_input_leaves body (p @ [index_seg i, key_seg ''input'']) sp) \<longleftrightarrow>
      leaf_field body (p @ [index_seg i, key_seg ''input'']) f"
    using set_messages_leaves [of body "p @ [index_seg i, key_seg ''input'']" _ f]
    by (cases "find_value body (p @ [index_seg i, key_seg ''input''])") (simp_all add: leaf_field_def)
  show ?thesis
    using leaves set_messages_tool_result [OF assms, of f] set_push [of f body "p @ [index_seg i, key_seg ''text'']"]
      has_type_unique [of body "p @ [index_seg i]"]
    by (auto simp: messages_content_block_def messages_block_field_def Let_def type_of_eq ty resolves_eq [OF assms])
qed

lemma set_messages_message:
  assumes "resolves body p e"
  shows "f \<in> set (messages_message body p e) \<longleftrightarrow>
    text_field body (p @ [key_seg ''content'']) f \<or> (\<exists>j. messages_block_field body (p @ [key_seg ''content'', index_seg j]) f)"
proof -
  let ?p = "p @ [key_seg ''content'']"
  have found: "\<exists>ys sp. find_value body (?p @ index_seg j # ys) = Some sp" if "messages_block_field body (?p @ [index_seg j]) f" for j
    using that field_found(4) [of body "?p @ [index_seg j]"] by (fastforce simp: messages_block_field_def)
  show ?thesis
  proof (cases "\<exists>sp. find_value body ?p = Some sp \<and> is_array_span body sp")
    case True
    then obtain sp where sp: "find_value body ?p = Some sp" "is_array_span body sp" by blast
    have "f \<in> set (messages_content_blocks body ?p sp) \<longleftrightarrow> (\<exists>j. messages_block_field body (?p @ [index_seg j]) f)"
      unfolding messages_content_blocks_def using found set_messages_block sp
      by (intro set_elements [where Q = "\<lambda>q. messages_block_field body q f"]) simp_all
    moreover have "\<not> text_field body ?p f" using sp by (auto simp: text_field_def is_array_span_def)
    ultimately show ?thesis using sp is_array_not_string [OF sp] by (simp add: messages_message_def resolves_eq [OF assms] Let_def)
  next
    case False
    have "\<not> messages_block_field body (?p @ [index_seg j]) f" for j
      using found [of j] find_value_index [of body ?p j] False by fastforce
    then show ?thesis using False set_push [of f body ?p]
      by (auto simp: messages_message_def resolves_eq [OF assms] Let_def text_field_def push_if_nonempty_string_def split: option.splits)
  qed
qed

lemma set_messages_request:
  assumes "messages_extract_request body = Fields fs"
  shows "f \<in> set fs \<longleftrightarrow> request_field body Messages f"
proof -
  let ?Q = "\<lambda>p. text_field body (p @ [key_seg ''content'']) f \<or>
    (\<exists>j. messages_block_field body (p @ [key_seg ''content'', index_seg j]) f)"
  have found: "\<exists>ys sp. find_value body ([key_seg ''messages'', index_seg i] @ ys) = Some sp"
    if q: "?Q [key_seg ''messages'', index_seg i]" for i
    using q
  proof (elim disjE exE)
    fix j assume "messages_block_field body ([key_seg ''messages'', index_seg i] @ [key_seg ''content'', index_seg j]) f"
    then obtain t where "has_type body ([key_seg ''messages'', index_seg i] @ [key_seg ''content'', index_seg j]) t"
      by (auto simp: messages_block_field_def)
    then show ?thesis by (auto simp: has_type_def)
  qed (rule text_field_found)
  have msgs: "(case find_value body [key_seg ''messages''] of None \<Rightarrow> False
      | Some sp \<Rightarrow> is_array_span body sp \<and>
          f \<in> set (each_element (\<lambda>i. messages_message body [key_seg ''messages'', index_seg i]) (array_elements body sp))) \<longleftrightarrow>
    (\<exists>i. ?Q [key_seg ''messages'', index_seg i])"
    using found by (intro set_body_array set_messages_message) simp_all
  have sys: "f \<in> set (messages_system body) \<longleftrightarrow> text_or_part_field body [key_seg ''system''] {''text''} f"
    unfolding messages_system_def Let_def by (intro set_string_or_array set_messages_parts) simp_all
  have "fs = messages_system body @ (case find_value body [key_seg ''messages''] of None \<Rightarrow> []
      | Some sp \<Rightarrow> if is_array_span body sp
          then each_element (\<lambda>i. messages_message body [key_seg ''messages'', index_seg i]) (array_elements body sp) else [])"
    using assms by (simp add: messages_extract_request_def)
  then have "f \<in> set fs \<longleftrightarrow> f \<in> set (messages_system body) \<or> (case find_value body [key_seg ''messages''] of None \<Rightarrow> False
      | Some sp \<Rightarrow> is_array_span body sp \<and>
          f \<in> set (each_element (\<lambda>i. messages_message body [key_seg ''messages'', index_seg i]) (array_elements body sp)))"
    by (auto split: option.split)
  then show ?thesis unfolding msgs sys by (simp add: request_field_def Let_def)
qed

lemma set_messages_response_block:
  assumes "resolves body [key_seg ''content'', index_seg i] e"
  shows "f \<in> set (messages_response_block body i e) \<longleftrightarrow>
    (let p = [key_seg ''content'', index_seg i] in
      has_type body p ''text'' \<and> text_field body (p @ [key_seg ''text'']) f \<or>
      has_type body p ''thinking'' \<and> text_field body (p @ [key_seg ''thinking'']) f \<or>
      has_type body p ''tool_use'' \<and> raw_field body (p @ [key_seg ''input'']) f)"
proof -
  let ?p = "[key_seg ''content'', index_seg i]" let ?q = "?p @ [key_seg ''input'']"
  note ty = set_type_of [OF assms]
  have raw: "f \<in> set (case find_value body ?q of None \<Rightarrow> []
      | Some sp \<Rightarrow> if \<not> is_string sp \<and> vs_start sp < vs_end sp \<and> body ! vs_start sp = CHR ''{''
          then if sub_doc body sp \<noteq> ''{}'' then [\<lparr>field_path = ?q, field_span = sp, field_text = sub_doc body sp, is_raw_object = True\<rparr>]
            else [] else []) \<longleftrightarrow> raw_field body ?q f"
  proof (cases "find_value body ?q")
    case (Some sp)
    then show ?thesis using find_value_complete [OF Some] by (cases f) (auto simp: raw_field_def)
  qed (simp add: raw_field_def)
  have t: "has_type body ?p ''text'' \<longleftrightarrow> type_of body e = ''text''" "has_type body ?p ''thinking'' \<longleftrightarrow> type_of body e = ''thinking''"
      "has_type body ?p ''tool_use'' \<longleftrightarrow> type_of body e = ''tool_use''"
    using ty by simp_all
  have block: "messages_response_block body i e =
      (if type_of body e = ''text''
       then push_if_nonempty_string body (?p @ [key_seg ''text'']) (find_value body (?p @ [key_seg ''text'']))
       else if type_of body e = ''thinking''
       then push_if_nonempty_string body (?p @ [key_seg ''thinking'']) (find_value body (?p @ [key_seg ''thinking'']))
       else if type_of body e = ''tool_use''
       then (case find_value body ?q of None \<Rightarrow> []
         | Some sp \<Rightarrow> if \<not> is_string sp \<and> vs_start sp < vs_end sp \<and> body ! vs_start sp = CHR ''{''
             then if sub_doc body sp \<noteq> ''{}'' then [\<lparr>field_path = ?q, field_span = sp, field_text = sub_doc body sp, is_raw_object = True\<rparr>]
               else [] else [])
       else [])"
    unfolding messages_response_block_def Let_def type_of_eq resolves_eq [OF assms list.simps(3)] ..
  show ?thesis
    unfolding block Let_def t using raw by (simp only: set_push split: if_split) simp
qed

lemma set_messages_response:
  assumes "messages_extract_response body = Fields fs"
  shows "f \<in> set fs \<longleftrightarrow> response_field body Messages f"
proof -
  let ?Q = "\<lambda>p. has_type body p ''text'' \<and> text_field body (p @ [key_seg ''text'']) f \<or>
      has_type body p ''thinking'' \<and> text_field body (p @ [key_seg ''thinking'']) f \<or>
      has_type body p ''tool_use'' \<and> raw_field body (p @ [key_seg ''input'']) f"
  have found: "\<exists>ys sp. find_value body (key_seg ''content'' # index_seg i # ys) = Some sp" if "?Q [key_seg ''content'', index_seg i]" for i
    using that field_found(4) [of body "[key_seg ''content'', index_seg i]"] by fastforce
  have "(case find_value body [key_seg ''content''] of None \<Rightarrow> False
      | Some sp \<Rightarrow> is_array_span body sp \<and> f \<in> set (each_element (messages_response_block body) (array_elements body sp))) \<longleftrightarrow>
    (\<exists>i. ?Q [key_seg ''content'', index_seg i])"
    using set_messages_response_block found by (intro set_body_array) (simp_all add: Let_def)
  then show ?thesis
    using assms by (auto simp: messages_extract_response_def response_field_def Let_def split: option.splits if_splits)
qed

section \<open>Responses\<close>

lemma set_responses_parts:
  assumes "find_value body p = Some sp" "p \<noteq> []" "is_array_span body sp"
  shows "f \<in> set (responses_text_parts body p sp) \<longleftrightarrow> part_field body p {''output_text'', ''input_text'', ''text''} f"
  unfolding responses_text_parts_def Let_def
proof (intro set_parts assms)
  fix j e assume e: "resolves body (p @ [index_seg j]) e"
  show "f \<in> set (if type_of body e \<noteq> ''output_text'' \<and> type_of body e \<noteq> ''input_text'' \<and> type_of body e \<noteq> ''text'' then []
      else push_if_nonempty_string body (p @ [index_seg j, key_seg ''text'']) (find_value_in body e [key_seg ''text''])) \<longleftrightarrow>
    (\<exists>t\<in>{''output_text'', ''input_text'', ''text''}. has_type body (p @ [index_seg j]) t) \<and>
      text_field body (p @ [index_seg j, key_seg ''text'']) f"
    using set_type_of [OF e] set_push [of f body "p @ [index_seg j, key_seg ''text'']"] by (auto simp: resolves_eq [OF e])
qed

lemma set_responses_typed_parts:
  assumes "find_value body p = Some sp" "p \<noteq> []" "is_array_span body sp" "ty \<noteq> []"
  shows "f \<in> set (responses_typed_text_parts body p sp ty) \<longleftrightarrow> part_field body p {ty} f"
  unfolding responses_typed_text_parts_def
proof (intro set_parts assms)
  fix j e assume e: "resolves body (p @ [index_seg j]) e"
  show "f \<in> set (if type_of body e \<noteq> ty then []
      else push_if_nonempty_string body (p @ [index_seg j, key_seg ''text'']) (find_value_in body e [key_seg ''text''])) \<longleftrightarrow>
    (\<exists>t\<in>{ty}. has_type body (p @ [index_seg j]) t) \<and> text_field body (p @ [index_seg j, key_seg ''text'']) f"
    using set_type_of [OF e assms(4)] set_push [of f body "p @ [index_seg j, key_seg ''text'']"] by (simp add: resolves_eq [OF e])
qed

lemma set_responses_string_or_parts:
  assumes "resolves body p e"
  shows "f \<in> set (responses_string_or_parts body p e k) \<longleftrightarrow>
    text_or_part_field body (p @ [key_seg k]) {''output_text'', ''input_text'', ''text''} f"
  unfolding responses_string_or_parts_def resolves_eq [OF assms list.simps(3)] Let_def
  by (intro set_string_or_array set_responses_parts) simp_all

lemma set_responses_typed_member:
  assumes "resolves body p e" "ty \<noteq> []"
  shows "f \<in> set (responses_typed_member body p e k ty) \<longleftrightarrow> part_field body (p @ [key_seg k]) {ty} f"
  unfolding responses_typed_member_def resolves_eq [OF assms(1) list.simps(3)]
  using assms(2) by (intro set_typed_array set_responses_typed_parts) simp_all

lemma set_input_item:
  assumes "resolves body p e"
  shows "f \<in> set (responses_input_item body p e) \<longleftrightarrow> input_item_field body p f"
  using set_type_of [OF assms] set_push [of f body "p @ [key_seg ''arguments'']"]
  by (simp add: responses_input_item_def input_item_field_def Let_def set_responses_string_or_parts [OF assms] resolves_eq [OF assms])

lemma set_output_item:
  assumes "resolves body p e"
  shows "f \<in> set (responses_item_fields body p e) \<longleftrightarrow> output_item_field body p f"
  using set_type_of [OF assms] set_push [of f body "p @ [key_seg ''arguments'']"] has_type_unique [of body p]
  by (auto simp: responses_item_fields_def output_item_field_def Let_def set_responses_typed_member [OF assms] resolves_eq [OF assms])

lemma set_responses_request:
  assumes "responses_extract_request body = Fields fs"
  shows "f \<in> set fs \<longleftrightarrow> request_field body Responses f"
proof -
  let ?Q = "\<lambda>p. input_item_field body p f"
  have found: "\<exists>ys sp. find_value body ([key_seg ''input'', index_seg i] @ ys) = Some sp" if "?Q [key_seg ''input'', index_seg i]" for i
    using that text_field_found [of body "[key_seg ''input'', index_seg i]" _ f] field_found(2) [of body "[key_seg ''input'', index_seg i]" _ _ f]
    unfolding input_item_field_def Let_def by (meson)
  have items: "(case find_value body [key_seg ''input''] of None \<Rightarrow> False
      | Some sp \<Rightarrow> is_array_span body sp \<and>
          f \<in> set (each_element (\<lambda>i. responses_input_item body [key_seg ''input'', index_seg i]) (array_elements body sp))) \<longleftrightarrow>
    (\<exists>i. ?Q [key_seg ''input'', index_seg i])"
    using found by (intro set_body_array set_input_item) simp_all
  have "fs = push_if_nonempty_string body [key_seg ''instructions''] (find_value body [key_seg ''instructions'']) @
      (case find_value body [key_seg ''input''] of None \<Rightarrow> []
       | Some sp \<Rightarrow> if is_string sp then push_if_nonempty_string body [key_seg ''input''] (Some sp)
           else if is_array_span body sp
           then each_element (\<lambda>i. responses_input_item body [key_seg ''input'', index_seg i]) (array_elements body sp)
           else [])"
    using assms by (cases "find_value body [key_seg ''input'']")
      (simp_all add: responses_extract_request_def Let_def split: if_splits)
  moreover have "f \<in> set (case find_value body [key_seg ''input''] of None \<Rightarrow> []
       | Some sp \<Rightarrow> if is_string sp then push_if_nonempty_string body [key_seg ''input''] (Some sp)
           else if is_array_span body sp
           then each_element (\<lambda>i. responses_input_item body [key_seg ''input'', index_seg i]) (array_elements body sp)
           else []) \<longleftrightarrow> text_field body [key_seg ''input''] f \<or> (\<exists>i. ?Q [key_seg ''input'', index_seg i])"
    unfolding items [symmetric]
    using text_field_value [of body "[key_seg ''input'']" f] set_push_some [of body "[key_seg ''input'']" _ f]
    by (cases "find_value body [key_seg ''input'']") (auto simp: is_array_span_def)
  ultimately show ?thesis by (simp add: request_field_def set_push)
qed

lemma set_responses_response:
  "f \<in> set (extract_response_output_fields body []) \<longleftrightarrow> response_field body Responses f"
proof -
  have found: "\<exists>ys sp. find_value body (key_seg ''output'' # index_seg i # ys) = Some sp"
    if "output_item_field body [key_seg ''output'', index_seg i] f" for i
    using that field_found(4) [of body "[key_seg ''output'', index_seg i]"] by (fastforce simp: output_item_field_def)
  have "(case find_value body [key_seg ''output''] of None \<Rightarrow> False
      | Some sp \<Rightarrow> is_array_span body sp \<and>
          f \<in> set (each_element (\<lambda>i. responses_item_fields body [key_seg ''output'', index_seg i]) (array_elements body sp))) \<longleftrightarrow>
    (\<exists>i. output_item_field body [key_seg ''output'', index_seg i] f)"
    using found by (intro set_body_array [where Q = "\<lambda>p. output_item_field body p f"] set_output_item) simp_all
  then show ?thesis
    by (auto simp: extract_response_output_fields_def response_field_def Let_def split: option.splits)
qed

lemma splice_all_ok:
  assumes "edits_ok doc (sort_by (\<lambda>a b. vs_start (fst a) < vs_start (fst b)) edits)"
  shows "splice_all doc edits = Inr (splice_spec doc 0 (sort_by (\<lambda>a b. vs_start (fst a) < vs_start (fst b)) edits))"
proof (cases "edits = []")
  case False
  moreover have "check_edits doc None (sort_by (\<lambda>a b. vs_start (fst a) < vs_start (fst b)) edits) = None"
    using assms by (simp add: check_edits_None)
  ultimately show ?thesis using apply_edits_rev [OF assms, of 0] by (simp add: splice_all_def Let_def)
qed (simp add: splice_all_def)

section \<open>The extractors meet their specification\<close>

text \<open>C16. Extraction misses nothing and takes nothing else: the fields of a request or a response are exactly
  the non-empty text values at the paths that its format lists, for each of the three formats.\<close>

theorem extract_complete:
  assumes "if request then extract_request body fmt = Fields fs else extract_response body fmt = Fields fs"
  shows "f \<in> set fs \<longleftrightarrow> (if request then request_field body fmt f else response_field body fmt f)"
  using assms set_chat_request set_messages_request set_responses_request set_chat_response set_messages_response
    set_responses_response
  by (cases fmt; cases request) (auto simp: extract_request_def extract_response_def)

text \<open>A path that a field carries leads back to its span: looking the path up in the body finds the
  very span that was extracted (the leaves of a Messages tool input apart, whose objects may repeat a key).\<close>

theorem extract_paths_resolve:
  assumes "extract_request body fmt = Fields fs \<and> fmt \<noteq> Messages \<or> extract_response body fmt = Fields fs" "f \<in> set fs"
  shows "find_value body (field_path f) = Some (field_span f)"
  using assms extract_request_fields [of body fmt fs] extract_response_fields [of body fmt fs]
  by (auto simp: fields_in_def addressed_def)

text \<open>C17. Extracted fields can all be patched at once: in every format the spans lie in the body and do not
  overlap, so replacing each by any text succeeds and gives the one-pass reference result.\<close>

theorem extract_patchable:
  assumes "extract_request body fmt = Fields fs \<or> extract_response body fmt = Fields fs"
  shows "splice_all body (List.map (\<lambda>f. (field_span f, g f)) fs) =
    Inr (splice_spec body 0 (sort_by (\<lambda>a b. vs_start (fst a) < vs_start (fst b)) (List.map (\<lambda>f. (field_span f, g f)) fs)))"
proof -
  let ?edits = "List.map (\<lambda>f. (field_span f, g f)) fs"
  have "fields_in False body 0 (length body) fs"
    using assms extract_request_fields extract_response_fields by (auto simp: fields_in_def)
  then have "edits_ok body (sort_by (\<lambda>a b. vs_start (fst a) < vs_start (fst b)) ?edits)"
    by (intro edits_ok_apart) (simp_all add: fields_in_def comp_def)
  then show ?thesis by (simp add: splice_all_ok)
qed

text \<open>A request body counts as unsupported exactly when its format's mandatory member is missing:
  the array \<open>messages\<close> for chat completions, both \<open>input\<close> and \<open>instructions\<close> for responses; a response
  never does.\<close>

theorem extract_unsupported:
  "(extract_request body fmt = Unsupported \<longleftrightarrow>
     (case fmt of
        ChatCompletions \<Rightarrow> \<nexists>sp. find_value body [key_seg ''messages''] = Some sp \<and> body ! vs_start sp = CHR ''[''
      | Messages \<Rightarrow> False
      | Responses \<Rightarrow> find_value body [key_seg ''input''] = None \<and> find_value body [key_seg ''instructions''] = None)) \<and>
   extract_response body fmt \<noteq> Unsupported"
proof -
  have "is_array_span body sp \<longleftrightarrow> body ! vs_start sp = CHR ''[''" if "find_value body p = Some sp" for p sp
    using find_value_complete [OF that] by (auto simp: is_array_span_def)
  then show ?thesis
    by (cases fmt) (auto simp: extract_request_def extract_response_def chat_extract_request_def chat_extract_response_def
      messages_extract_request_def messages_extract_response_def responses_extract_request_def Let_def split: option.splits)
qed

section \<open>Witnesses\<close>

definition sample_body :: string where
  "sample_body = ''{'' @ encode_string ''messages'' True @ '': [{'' @ encode_string ''content'' True @ '':'' @
     encode_string ''hi'' True @ ''}]}''"

definition sample_field :: content_field where
  "sample_field = \<lparr>field_path = [key_seg ''messages'', index_seg 0, key_seg ''content''],
     field_span = \<lparr>vs_start = 25, vs_end = 29, is_string = True\<rparr>, field_text = ''hi'', is_raw_object = False\<rparr>"

lemma sample_extract: "extract_request sample_body ChatCompletions = Fields [sample_field]"
  by code_simp

theorem extract_complete_witness:
  "extract_request sample_body ChatCompletions = Fields [sample_field] \<and> request_field sample_body ChatCompletions sample_field"
  using extract_complete [of True sample_body ChatCompletions "[sample_field]" sample_field] sample_extract by simp

theorem extract_paths_resolve_witness:
  "find_value sample_body (field_path sample_field) = Some (field_span sample_field) \<and> sample_field \<in> set [sample_field]"
  using extract_paths_resolve [of sample_body ChatCompletions "[sample_field]" sample_field] sample_extract by simp

theorem extract_patchable_witness:
  "splice_all sample_body [(field_span sample_field, ''x'')] =
    Inr (splice_spec sample_body 0 [(field_span sample_field, ''x'')])"
  using extract_patchable [of sample_body ChatCompletions "[sample_field]" "\<lambda>_. ''x''"] sample_extract by simp

end
