(* ===== verification/PrefilterSound.thy ===== *)
theory PrefilterSound
  imports Registry Scanner
begin

text \<open>
  Why the keyword pre-filter may skip a rule: the texts that a syntax tree of \<open>Prefilter.hpp\<close> stands
  for, the proof that \<open>guarantees_keyword\<close> only accepts trees all of whose texts hold a keyword once
  lower-cased, and its composition with the rule registry and the scanner.
\<close>

section \<open>UTF-8 texts and case folding\<close>

text \<open>
  A text is a sequence of runes, the UTF-8 encodings of its code points.  \<open>rune e\<close> says that the bytes
  \<open>e\<close> are one encoded code point, and \<open>folds e e'\<close> that RE2 takes the rune \<open>e'\<close> for the rune \<open>e\<close> under
  \<open>(?i)\<close>.  What the code relies on: \<open>utf8proc_iterate\<close> decodes one rune at a time, ASCII bytes are
  runes of their own whose lower case is the ASCII one, and, as the comment of \<open>literal_is_fold_safe\<close>
  records, every rune that folds to an ASCII character other than \<open>s\<close> has the lower case of that
  character (the long s is the one that has not).
\<close>

record unicode_facts =
  rune :: "string \<Rightarrow> bool"
  folds :: "string \<Rightarrow> string \<Rightarrow> bool"

definition rune_lower :: "utf8proc \<Rightarrow> string \<Rightarrow> string" where
  "rune_lower u e =
     (let w = u8_encode u (u8_tolower u (snd (u8_iterate u e))) in if w \<noteq> [] then w else e)"

definition unicode_contract :: "utf8proc \<Rightarrow> unicode_facts \<Rightarrow> bool" where
  "unicode_contract u facts \<longleftrightarrow>
     (\<forall>e rest. rune facts e \<longrightarrow> e \<noteq> [] \<and> u8_iterate u (e @ rest) = (length e, snd (u8_iterate u e))) \<and>
     (\<forall>c. byte c < 128 \<longrightarrow> rune facts [c] \<and> rune_lower u [c] = [ascii_lower_byte c]) \<and>
     (\<forall>c cs. rune facts (c # cs) \<and> byte c < 128 \<longrightarrow> cs = []) \<and>
     (\<forall>c e. byte c < 128 \<and> c \<noteq> CHR ''s'' \<and> c \<noteq> CHR ''S'' \<and> rune facts e \<and> folds facts [c] e \<longrightarrow>
        rune_lower u e = [ascii_lower_byte c])"

definition runes :: "unicode_facts \<Rightarrow> string list \<Rightarrow> bool" where
  "runes facts w \<longleftrightarrow> (\<forall>e\<in>set w. rune facts e)"

lemma runes_simps [simp]:
  "runes facts []" "runes facts (e # w) \<longleftrightarrow> rune facts e \<and> runes facts w"
  "runes facts (v @ w) \<longleftrightarrow> runes facts v \<and> runes facts w"
  "runes facts (concat ws) \<longleftrightarrow> (\<forall>w\<in>set ws. runes facts w)"
  by (auto simp: runes_def)

lemma unicode_contractD:
  assumes "unicode_contract u facts"
  shows "rune facts e \<Longrightarrow> e \<noteq> []" "rune facts e \<Longrightarrow> u8_iterate u (e @ rest) = (length e, snd (u8_iterate u e))"
    "byte c < 128 \<Longrightarrow> rune facts [c]" "byte c < 128 \<Longrightarrow> rune_lower u [c] = [ascii_lower_byte c]"
    "rune facts (c # cs) \<Longrightarrow> byte c < 128 \<Longrightarrow> cs = []"
    "byte c < 128 \<Longrightarrow> c \<noteq> CHR ''s'' \<Longrightarrow> c \<noteq> CHR ''S'' \<Longrightarrow> rune facts e \<Longrightarrow> folds facts [c] e \<Longrightarrow>
       rune_lower u e = [ascii_lower_byte c]"
  using assms unfolding unicode_contract_def by blast+

lemma to_lower_loop_rune:
  assumes c: "unicode_contract u facts" and e: "rune facts e"
  shows "to_lower_loop u (e @ rest) = rune_lower u e @ to_lower_loop u rest"
proof -
  obtain c' cs where cs: "e = c' # cs" using unicode_contractD(1) [OF c e] by (cases e) auto
  have "u8_iterate u (c' # (cs @ rest)) = (Suc (length cs), snd (u8_iterate u e))"
    using unicode_contractD(2) [OF c e, of rest] cs by simp
  then show ?thesis by (simp add: cs to_lower_loop.simps(2) rune_lower_def Let_def)
qed

lemma to_lower_loop_runes:
  assumes "unicode_contract u facts"
  shows "runes facts w \<Longrightarrow> to_lower_loop u (concat w) = concat (map (rune_lower u) w)"
  by (induction w) (simp_all add: to_lower_loop_rune [OF assms])

lemma ascii_runes:
  assumes "unicode_contract u facts"
  shows "runes facts w \<Longrightarrow> is_ascii (concat w) \<Longrightarrow> w = map (\<lambda>c. [c]) (concat w)"
proof (induction w)
  case (Cons e w)
  then obtain c cs where e: "e = c # cs" using unicode_contractD(1) [OF assms] by (cases e) auto
  then have "cs = []" using Cons.prems unicode_contractD(5) [OF assms, of c cs] by (simp add: is_ascii_def)
  then show ?case using Cons e by (simp add: is_ascii_def)
qed simp

text \<open>Lower-casing a text works rune by rune, also in the ASCII fast path.\<close>

lemma to_lower_runes:
  assumes c: "unicode_contract u facts" and w: "runes facts w"
  shows "to_lower_utf8 u (concat w) = concat (map (rune_lower u) w)"
proof (cases "is_ascii (concat w)")
  case True
  have "map (rune_lower u) (map (\<lambda>c. [c]) s) = map (\<lambda>c. [ascii_lower_byte c]) s" if "is_ascii s" for s
    using that unicode_contractD(4) [OF c] by (simp add: is_ascii_def)
  then have "concat (map (rune_lower u) w) = concat (map (\<lambda>c. [ascii_lower_byte c]) (concat w))"
    using ascii_runes [OF c w True] True by metis
  then show ?thesis using True by (simp add: to_lower_utf8_def concat_map_singleton)
next
  case False
  then show ?thesis using to_lower_loop_runes [OF c w] by (simp add: to_lower_utf8_def)
qed

section \<open>The texts of a syntax tree\<close>

text \<open>
  \<open>matches facts tree w\<close>: the runes \<open>w\<close> are a text that the tree stands for.  A folded literal stands
  for everything that folds to it; nothing is known of an unsupported construct, so it stands for every
  text.
\<close>

inductive matches :: "unicode_facts \<Rightarrow> node \<Rightarrow> string list \<Rightarrow> bool" for facts where
  literal: "concat w = s \<Longrightarrow> runes facts w \<Longrightarrow> matches facts (Literal s False) w"
| folded: "concat v = s \<Longrightarrow> runes facts v \<Longrightarrow> runes facts w \<Longrightarrow> list_all2 (folds facts) v w \<Longrightarrow>
     matches facts (Literal s True) w"
| concat: "list_all2 (matches facts) ns ws \<Longrightarrow> matches facts (Concat ns) (concat ws)"
| alternate: "n \<in> set ns \<Longrightarrow> matches facts n w \<Longrightarrow> matches facts (Alternate ns) w"
| capture: "matches facts n w \<Longrightarrow> matches facts (Capture n) w"
| repeat: "m \<le> length ws \<Longrightarrow> (\<And>w. w \<in> set ws \<Longrightarrow> matches facts n w) \<Longrightarrow> matches facts (Repeat m n) (concat ws)"
| unsupported: "runes facts w \<Longrightarrow> matches facts Unsupported w"

inductive_cases matches_elims:
  "matches facts (Literal s f) w" "matches facts (Concat ns) w" "matches facts (Alternate ns) w"
  "matches facts (Capture n) w" "matches facts (Repeat m n) w"

inductive_simps matches_simps:
  "matches facts (Literal s f) w" "matches facts (Capture n) w" "matches facts Unsupported w"

text \<open>\<open>holds_keyword u kws w\<close>: the lower-cased text contains one of the keywords.\<close>

definition holds_keyword :: "utf8proc \<Rightarrow> string list \<Rightarrow> string list \<Rightarrow> bool" where
  "holds_keyword u kws w \<longleftrightarrow> (\<exists>kw\<in>set kws. kw \<noteq> [] \<and> sublist kw (concat (map (rune_lower u) w)))"

lemma holds_keyword_part:
  assumes "holds_keyword u kws w"
  shows "holds_keyword u kws (v @ w @ v')"
proof -
  obtain kw ps ss where "kw \<in> set kws" "kw \<noteq> []" "concat (map (rune_lower u) w) = ps @ kw @ ss"
    using assms by (auto simp: holds_keyword_def sublist_def)
  then show ?thesis unfolding holds_keyword_def sublist_def
    by (intro bexI [of _ kw] conjI exI [of _ "concat (map (rune_lower u) v) @ ps"]
        exI [of _ "ss @ concat (map (rune_lower u) v')"]) simp_all
qed

lemma holds_keyword_concat: "w \<in> set ws \<Longrightarrow> holds_keyword u kws w \<Longrightarrow> holds_keyword u kws (concat ws)"
  using holds_keyword_part [of u kws w] by (auto dest!: split_list)

lemma literal_holds_keyword:
  assumes c: "unicode_contract u facts" and m: "matches facts (Literal s f) w"
    and g: "guarantees_keyword u (Literal s f) kws"
  shows "holds_keyword u kws w"
proof -
  have safe: "literal_is_fold_safe s f" using g by (auto split: if_splits)
  have "to_lower_utf8 u s = concat (map (rune_lower u) w)"
  proof (cases f)
    case False
    then show ?thesis using m to_lower_runes [OF c] by (auto simp: matches_simps)
  next
    case True
    then obtain v where v: "concat v = s" "runes facts v" "runes facts w" "list_all2 (folds facts) v w"
      using m by (auto simp: matches_simps)
    have safe': "\<forall>c\<in>set s. byte c < 128 \<and> c \<noteq> CHR ''s'' \<and> c \<noteq> CHR ''S''"
      using safe True by (simp add: literal_is_fold_safe_def list_all_iff)
    then have asc: "is_ascii s" by (simp add: is_ascii_def)
    then have "v = map (\<lambda>c. [c]) s" using ascii_runes [OF c v(2)] v(1) by simp
    then have len: "length s = length w" and each: "\<forall>i<length s. folds facts [s ! i] (w ! i)"
      using v(4) by (auto simp: list_all2_conv_all_nth)
    have "rune_lower u (w ! i) = [ascii_lower_byte (s ! i)]" if "i < length s" for i
      using unicode_contractD(6) [OF c, of "s ! i" "w ! i"] safe' each that v(3) len by (simp add: runes_def)
    then have "map (rune_lower u) w = map (\<lambda>c. [ascii_lower_byte c]) s"
      using len by (auto intro: nth_equalityI)
    then show ?thesis using asc by (simp add: to_lower_utf8_ascii concat_map_singleton)
  qed
  then show ?thesis using g safe by (auto simp: holds_keyword_def list_ex_iff find_sub_None_iff)
qed

lemma guarantees_keyword_sound:
  assumes c: "unicode_contract u facts"
  shows "matches facts tree w \<Longrightarrow> guarantees_keyword u tree kws \<Longrightarrow> holds_keyword u kws w"
proof (induction rule: matches.induct)
  case (concat ns ws)
  then obtain n where n: "n \<in> set ns" "guarantees_keyword u n kws" by (auto simp: list_ex_iff)
  then obtain i where i: "i < length ns" "n = ns ! i" by (auto simp: in_set_conv_nth)
  have "holds_keyword u kws (ws ! i)"
    using concat.IH i n(2) by (auto simp: list_all2_conv_all_nth)
  then show ?case using concat.IH i
    by (intro holds_keyword_concat [of "ws ! i"]) (auto simp: list_all2_conv_all_nth)
next
  case (alternate n ns w)
  then show ?case by (auto simp: list_all_iff split: if_splits)
next
  case (repeat m ws n)
  then obtain w where "w \<in> set ws" by (cases ws) auto
  then show ?case using repeat by (auto intro: holds_keyword_concat)
next
  case (literal w s)
  then show ?case by (blast intro: literal_holds_keyword [OF c] matches.literal)
next
  case (folded v s w)
  then show ?case by (blast intro: literal_holds_keyword [OF c] matches.folded)
qed simp_all


section \<open>Registry and scanner\<close>

text \<open>
  \<open>engine_honours facts eng p\<close>: RE2's documented meaning of the pattern \<open>p\<close>, as far as the keyword
  proof reads it.  What the compiled pattern finds in a text of runes is one of the texts that the
  syntax tree of \<open>p\<close> stands for.
\<close>

definition engine_honours :: "unicode_facts \<Rightarrow> regex_engine \<Rightarrow> string \<Rightarrow> bool" where
  "engine_honours facts eng p \<longleftrightarrow>
     (\<forall>tree st re w0 m. pf_parse p = POk tree st \<and> re_compile eng (''(?m)'' @ p) = Inr re \<and>
        runes facts w0 \<and> re_match re (concat w0) 0 = Some m \<longrightarrow>
        (\<exists>v w v'. w0 = v @ w @ v' \<and> matches facts tree w))"

lemma eligible_rule_hit:
  assumes c: "unicode_contract (utf8 pf) facts" and eng: "engine_honours facts eng (regex r)"
    and cr: "compile_rule pf eng r = Inr cr" and el: "prefilter_eligible cr"
    and re: "cr_re cr = Some re" "re_match re (concat w0) 0 \<noteq> None" and w0: "runes facts w0"
  shows "keyword_hit (to_lower_utf8 (utf8 pf) (concat w0)) (prefilter_keywords cr)"
proof -
  let ?kws = "map (to_lower_utf8 (utf8 pf)) (rule_keywords r)"
  obtain tree st where tree: "pf_parse (regex r) = POk tree st" "guarantees_keyword (utf8 pf) tree ?kws"
    using compile_rule_InrD(5) [OF cr el] unfolding regex_guarantees_keyword_def
    by (cases "pf_parse (regex r)") (simp_all split: if_splits)
  obtain re' where re': "cr_re cr = Some re'" "re_compile eng (''(?m)'' @ regex r) = Inr re'"
    using compile_rule_InrD(4) [OF cr] by blast
  obtain m where m: "re_match re' (concat w0) 0 = Some m" using re re'(1) by fastforce
  obtain v w v' where w: "w0 = v @ w @ v'" "matches facts tree w"
    using eng [unfolded engine_honours_def, rule_format, OF conjI [OF tree(1) conjI [OF re'(2) conjI [OF w0 m]]]] by blast
  have "holds_keyword (utf8 pf) ?kws w0" unfolding w(1)
    by (intro holds_keyword_part guarantees_keyword_sound [OF c w(2) tree(2)])
  then show ?thesis
    by (simp only: keyword_hit_def compile_rule_InrD(6) [OF cr] to_lower_runes [OF c w0] holds_keyword_def
        list_ex_iff find_sub_None_iff not_not)
qed

lemma compiled_selection:
  assumes b: "build pf eng rules = Inr reg" and sel: "set crs \<subseteq> set (reg_rules reg)"
    and re2: "\<forall>p re. re_compile eng p = Inr re \<longrightarrow> re2_contract re"
  shows "\<forall>cr\<in>set crs. \<exists>r\<in>set rules. compile_rule pf eng r = Inr cr"
    "\<forall>cr\<in>set (map Some crs). scannable cr" "ids_unique (map Some crs)"
proof -
  have all: "list_all2 (\<lambda>r cr. compile_rule pf eng r = Inr cr) rules (reg_rules reg)"
    and ok: "registry_ok reg" using build_ok [OF b] by simp_all
  show rule: "\<forall>cr\<in>set crs. \<exists>r\<in>set rules. compile_rule pf eng r = Inr cr"
  proof
    fix cr assume "cr \<in> set crs"
    then obtain i where "i < length (reg_rules reg)" "cr = reg_rules reg ! i" using sel by (metis in_set_conv_nth subsetD)
    then show "\<exists>r\<in>set rules. compile_rule pf eng r = Inr cr"
      using all unfolding list_all2_conv_all_nth by (metis nth_mem)
  qed
  show "\<forall>cr\<in>set (map Some crs). scannable cr"
  proof
    fix x assume "x \<in> set (map Some crs)"
    then obtain cr where cr: "x = Some cr" "cr \<in> set crs" by auto
    then obtain r where "compile_rule pf eng r = Inr cr" using rule by blast
    then obtain re where "cr_re cr = Some re" "re2_contract re" using compile_rule_InrD(4) re2 by blast
    then show "scannable x" using cr(1) by (simp add: scannable_def)
  qed
  have "distinct (map (\<lambda>cr. rule_id (cr_rule cr)) (reg_rules reg))" using ok by (simp add: registry_ok_def)
  then have "inj_on (\<lambda>cr. rule_id (cr_rule cr)) (set (reg_rules reg))" by (simp add: distinct_map)
  then show "ids_unique (map Some crs)"
    using sel unfolding ids_unique_def inj_on_def by (metis (no_types, lifting) imageE list.set_map option.sel subsetD)
qed



section \<open>Witness\<close>

text \<open>A decoder of ASCII texts, the runes it decodes, and the platform with it.\<close>

definition ascii_utf8proc :: utf8proc where
  "ascii_utf8proc =
     \<lparr>u8_iterate = (\<lambda>s. case s of [] \<Rightarrow> (0, 0) | c # _ \<Rightarrow> if byte c < 128 then (1, byte c) else (0, 0)),
      u8_tolower = (\<lambda>cp. byte (ascii_lower_byte (char_of cp))),
      u8_encode = (\<lambda>cp. [char_of cp])\<rparr>"

definition ascii_facts :: unicode_facts where
  "ascii_facts = \<lparr>rune = (\<lambda>e. length e = 1 \<and> byte (hd e) < 128),
     folds = (\<lambda>e e'. map ascii_lower_byte e = map ascii_lower_byte e')\<rparr>"

definition ascii_platform :: platform where
  "ascii_platform = \<lparr>utf8 = ascii_utf8proc, inet_pton6 = (\<lambda>_. None)\<rparr>"

lemma ascii_rune_iff: "rune ascii_facts e \<longleftrightarrow> (\<exists>c. e = [c] \<and> byte c < 128)"
  by (cases e) (auto simp: ascii_facts_def)

lemma ascii_unicode_contract: "unicode_contract ascii_utf8proc ascii_facts"
proof -
  have low: "rune_lower ascii_utf8proc [c] = [ascii_lower_byte c]" if "byte c < 128" for c
    using that by (simp add: rune_lower_def ascii_utf8proc_def)
  show ?thesis unfolding unicode_contract_def ascii_rune_iff
    by (auto simp: low ascii_utf8proc_def) (simp_all add: low ascii_facts_def flip: ascii_utf8proc_def)
qed

lemma ascii_runes_of: "is_ascii s \<Longrightarrow> runes ascii_facts (map (\<lambda>c. [c]) s)"
  by (auto simp: runes_def ascii_rune_iff is_ascii_def)

lemma pf_parse_abc: "pf_parse ''abc'' = POk (Literal ''abc'' False) \<lparr>left = [], fold_case = False\<rparr>"
proof -
  have "pf_alternation_with nested \<lparr>left = ''abc'', fold_case = False\<rparr> =
      POk (Literal ''abc'' False) \<lparr>left = [], fold_case = False\<rparr>" for nested
    by code_simp
  then have "pf_alternation levels \<lparr>left = ''abc'', fold_case = False\<rparr> =
      POk (Literal ''abc'' False) \<lparr>left = [], fold_case = False\<rparr>" for levels
    by (cases levels) simp_all
  then show ?thesis by (simp add: pf_parse_def pbind_def)
qed

lemma literal_engine_honours: "engine_honours ascii_facts literal_engine ''abc''"
  unfolding engine_honours_def
proof (intro allI impI, elim conjE)
  fix tree st re w0 m
  assume p: "pf_parse ''abc'' = POk tree st" "re_compile literal_engine (''(?m)'' @ ''abc'') = Inr re"
    "runes ascii_facts w0" "re_match re (concat w0) 0 = Some m"
  let ?s = "\<lambda>s. map (\<lambda>c. [c]) s"
  have re: "re = literal_re2 ''abc''" using p(2) by (simp add: literal_engine_def)
  then have "find_sub ''abc'' (concat w0) \<noteq> None" using p(4) by (auto simp: literal_re2_def split: option.splits)
  then obtain ps ss where w: "concat w0 = ps @ ''abc'' @ ss" by (auto simp: find_sub_None_iff sublist_def)
  have "is_ascii (concat w0)" using p(3) by (auto simp: runes_def ascii_rune_iff is_ascii_def)
  then have "w0 = ?s ps @ ?s ''abc'' @ ?s ss"
    using ascii_runes [OF ascii_unicode_contract p(3)] w by (metis map_append)
  moreover have "matches ascii_facts tree (?s ''abc'')"
    using p(1) ascii_runes_of [of "''abc''"]
    by (auto simp: pf_parse_abc matches_simps is_ascii_def)
  ultimately show "\<exists>v w v'. w0 = v @ w @ v' \<and> matches ascii_facts tree w" by blast
qed


end
