(* ===== verification/Base64.thy ===== *)
theory Base64
  imports Rules "HOL-Library.Word"
begin

unbundle bit_operations_syntax

text \<open>
  \<open>src/src/utils/Base64.hpp\<close>: base64url without padding, on a 32-bit shift register, and the proof that
  its decoder accepts exactly the encodings, up to the characters it skips.
\<close>

section \<open>Definitions\<close>

type_synonym u32 = "32 word"

definition alphabet :: string where
  "alphabet = ''ABCDEFGHIJKLMNOPQRSTUVWXYZabcdefghijklmnopqrstuvwxyz0123456789-_''"

text \<open>The character for the low six bits of a register, and the value of a byte.\<close>

definition alpha_char :: "u32 \<Rightarrow> char" where
  "alpha_char w = alphabet ! unat (w AND 0x3F)"

definition byte_word :: "char \<Rightarrow> u32" where
  "byte_word c = word_of_nat (byte c)"

text \<open>The inner \<open>while (bits >= 6)\<close> loop, and the loop over the bytes with the last partial group.\<close>

fun emit_sextets :: "u32 \<Rightarrow> nat \<Rightarrow> string \<Rightarrow> nat \<times> string" where
  "emit_sextets buf bits out =
     (if bits \<ge> 6 then emit_sextets buf (bits - 6) (out @ [alpha_char (drop_bit (bits - 6) buf)]) else (bits, out))"

declare emit_sextets.simps [simp del]

fun url_encode_loop :: "u32 \<Rightarrow> nat \<Rightarrow> string \<Rightarrow> string \<Rightarrow> string" where
  "url_encode_loop buf bits out [] =
     (if bits > 0 then out @ [alpha_char (push_bit (6 - bits) buf)] else out)"
| "url_encode_loop buf bits out (c # cs) =
     (let buf' = push_bit 8 buf OR byte_word c; (bits', out') = emit_sextets buf' (bits + 8) out
      in url_encode_loop buf' bits' out' cs)"

definition url_encode :: "string \<Rightarrow> string" where
  "url_encode s = url_encode_loop 0 0 [] s"

text \<open>\<open>table[c]\<close>; \<^const>\<open>None\<close> is the entry \<open>-1\<close>.\<close>

definition alpha_table :: "char \<Rightarrow> nat option" where
  "alpha_table c = map_of (zip alphabet [0..<64]) c"

definition skipped :: "char \<Rightarrow> bool" where
  "skipped c \<longleftrightarrow> c = CHR ''='' \<or> c = CHR 0x0A \<or> c = CHR 0x0D"

fun url_decode_loop :: "u32 \<Rightarrow> nat \<Rightarrow> nat \<Rightarrow> string \<Rightarrow> string \<Rightarrow> runtime_error + string" where
  "url_decode_loop buf bits ndigits out [] =
     (if ndigits mod 4 = 1 then Inl (RuntimeError ''invalid base64url length'')
      else if bits > 0 \<and> buf AND (push_bit bits 1 - 1) \<noteq> 0 then Inl (RuntimeError ''invalid base64url padding bits'')
      else Inr out)"
| "url_decode_loop buf bits ndigits out (c # cs) =
     (if skipped c then url_decode_loop buf bits ndigits out cs
      else case alpha_table c of
        None \<Rightarrow> Inl (RuntimeError ''invalid base64url'')
      | Some v \<Rightarrow>
          let buf' = push_bit 6 buf OR word_of_nat v; bits' = bits + 6 in
          if bits' \<ge> 8
          then url_decode_loop buf' (bits' - 8) (ndigits + 1)
                 (out @ [char_of (unat (drop_bit (bits' - 8) buf' AND 0xFF))]) cs
          else url_decode_loop buf' bits' (ndigits + 1) out cs)"

definition url_decode :: "string \<Rightarrow> runtime_error + string" where
  "url_decode s = url_decode_loop 0 0 0 [] s"

section \<open>Groups of bits\<close>

text \<open>Words of at most \<open>n\<close> bits, and their bits.\<close>

definition narrow :: "nat \<Rightarrow> u32 \<Rightarrow> bool" where
  "narrow n w \<longleftrightarrow> (\<forall>i. bit w i \<longrightarrow> i < n)"

lemma narrowD: "narrow n w \<Longrightarrow> bit w i \<Longrightarrow> i < n"
  by (simp add: narrow_def)

lemma narrow_iff: "narrow n w \<longleftrightarrow> take_bit n w = w"
  using bit_imp_le_length [of w] by (auto simp: narrow_def bit_eq_iff bit_take_bit_iff)

lemma narrow_less: "narrow n w \<longleftrightarrow> unat w < 2 ^ n"
  unfolding narrow_iff word_unat_eq_iff [of "take_bit n w"] unsigned_take_bit_eq take_bit_nat_eq_self_iff ..

lemma mask_6: "(0x3F :: u32) = mask 6" by (simp add: mask_eq_exp_minus_1)
lemma mask_8: "(0xFF :: u32) = mask 8" by (simp add: mask_eq_exp_minus_1)

lemma mask_4: "(0xF :: u32) = mask 4" by (simp add: mask_eq_exp_minus_1)
lemma mask_2: "(0x3 :: u32) = mask 2" by (simp add: mask_eq_exp_minus_1)

lemma word_bits_iff: "(v :: u32) = w \<longleftrightarrow> (\<forall>n<32. bit v n = bit w n)"
  by (auto intro: bit_word_eqI)

lemmas bits_simps = word_bits_iff bit_simps mask_6 mask_8

lemma unat_byte_word [simp]: "unat (byte_word c) = byte c"
proof -
  have "byte c < 2 ^ 32" by (rule less_le_trans [OF byte_less_256]) simp
  then show ?thesis by (simp add: byte_word_def unat_of_nat)
qed

lemma narrow_byte: "narrow 8 (byte_word c)"
  by (simp add: narrow_less)

lemma char_of_byte_word [simp]: "char_of (unat (byte_word c)) = c"
  by simp

lemma byte_word_char_of: "narrow 8 w \<Longrightarrow> byte_word (char_of (unat w)) = w"
  by (simp add: narrow_less byte_word_def)

lemma Suc_Suc_diff_2 [simp]: "2 \<le> n \<Longrightarrow> Suc (Suc (n - 2)) = n"
  by simp

text \<open>Three bytes are four sextets; the registers hold whatever came before above them.\<close>

lemma sextets_of_bytes:
  assumes "narrow 8 a" "narrow 8 b" "narrow 8 c"
  shows "drop_bit 2 (push_bit 8 buf OR a) AND 0x3F = drop_bit 2 a"
    "drop_bit 4 (push_bit 8 (push_bit 8 buf OR a) OR b) AND 0x3F = (push_bit 4 a OR drop_bit 4 b) AND 0x3F"
    "drop_bit 6 (push_bit 8 (push_bit 8 (push_bit 8 buf OR a) OR b) OR c) AND 0x3F = (push_bit 2 b OR drop_bit 6 c) AND 0x3F"
    "(push_bit 8 (push_bit 8 (push_bit 8 buf OR a) OR b) OR c) AND 0x3F = c AND 0x3F"
    "push_bit 4 (push_bit 8 buf OR a) AND 0x3F = push_bit 4 a AND 0x3F"
    "push_bit 2 (push_bit 8 (push_bit 8 buf OR a) OR b) AND 0x3F = push_bit 2 b AND 0x3F"
  using assms by (auto simp: bits_simps dest: narrowD)


text \<open>Four sextets are three bytes.\<close>

lemma bytes_of_sextets:
  assumes "narrow 6 v" "narrow 6 w" "narrow 6 x" "narrow 6 y"
  shows "drop_bit 4 (push_bit 6 (push_bit 6 buf OR v) OR w) AND 0xFF = (push_bit 2 v OR drop_bit 4 w) AND 0xFF"
    "drop_bit 2 (push_bit 6 (push_bit 6 (push_bit 6 buf OR v) OR w) OR x) AND 0xFF = (push_bit 4 w OR drop_bit 2 x) AND 0xFF"
    "(push_bit 6 (push_bit 6 (push_bit 6 (push_bit 6 buf OR v) OR w) OR x) OR y) AND 0xFF = (push_bit 6 x OR y) AND 0xFF"
    "(push_bit 6 (push_bit 6 buf OR v) OR w) AND 0xF = w AND 0xF"
    "(push_bit 6 (push_bit 6 (push_bit 6 buf OR v) OR w) OR x) AND 0x3 = x AND 0x3"
  using assms by (auto simp: bits_simps mask_4 mask_2 dest: narrowD)

fun sextets :: "string \<Rightarrow> u32 list" where
  "sextets [] = []"
| "sextets [a] = [drop_bit 2 (byte_word a), push_bit 4 (byte_word a) AND 0x3F]"
| "sextets [a, b] =
     [drop_bit 2 (byte_word a), (push_bit 4 (byte_word a) OR drop_bit 4 (byte_word b)) AND 0x3F,
      push_bit 2 (byte_word b) AND 0x3F]"
| "sextets (a # b # c # cs) =
     drop_bit 2 (byte_word a) # ((push_bit 4 (byte_word a) OR drop_bit 4 (byte_word b)) AND 0x3F) #
     ((push_bit 2 (byte_word b) OR drop_bit 6 (byte_word c)) AND 0x3F) # (byte_word c AND 0x3F) # sextets cs"

definition low_char :: "u32 \<Rightarrow> char" where
  "low_char w = char_of (unat (w AND 0xFF))"

fun unsextets :: "u32 list \<Rightarrow> string option" where
  "unsextets [] = Some []"
| "unsextets [v] = None"
| "unsextets [v, w] = (if w AND 0xF \<noteq> 0 then None else Some [low_char (push_bit 2 v OR drop_bit 4 w)])"
| "unsextets [v, w, x] =
     (if x AND 0x3 \<noteq> 0 then None
      else Some [low_char (push_bit 2 v OR drop_bit 4 w), low_char (push_bit 4 w OR drop_bit 2 x)])"
| "unsextets (v # w # x # y # vs) =
     map_option (\<lambda>s. low_char (push_bit 2 v OR drop_bit 4 w) # low_char (push_bit 4 w OR drop_bit 2 x) #
       low_char (push_bit 6 x OR y) # s) (unsextets vs)"

lemma narrow_sextets: "list_all (narrow 6) (sextets s)"
  by (induction s rule: sextets.induct)
    (auto simp: narrow_def bit_simps mask_6 dest!: narrowD [OF narrow_byte])

lemma narrow_mask [simp]: "narrow 8 (w AND 0xFF)"
  by (auto simp: narrow_def bit_simps mask_8)

lemma byte_low_char: "byte_word (low_char w) = w AND 0xFF"
  by (simp add: low_char_def byte_word_char_of)

lemma low_charI: "w AND 0xFF = byte_word c \<Longrightarrow> low_char w = c"
  by (simp add: low_char_def)

lemma unsextets_sextets: "unsextets (sextets s) = Some s"
proof (induction s rule: sextets.induct)
  case (2 a)
  have "(push_bit 2 (drop_bit 2 (byte_word a)) OR drop_bit 4 (push_bit 4 (byte_word a) AND 0x3F)) AND 0xFF = byte_word a"
    "(push_bit 4 (byte_word a) AND 0x3F) AND 0xF = 0"
    using narrow_byte [of a] by (auto simp: bits_simps mask_4 dest: narrowD)
  then show ?case by (simp add: low_charI)
next
  case (3 a b)
  let ?d1 = "(push_bit 4 (byte_word a) OR drop_bit 4 (byte_word b)) AND 0x3F"
  have "(push_bit 2 (drop_bit 2 (byte_word a)) OR drop_bit 4 ?d1) AND 0xFF = byte_word a"
    "(push_bit 4 ?d1 OR drop_bit 2 (push_bit 2 (byte_word b) AND 0x3F)) AND 0xFF = byte_word b"
    "(push_bit 2 (byte_word b) AND 0x3F) AND 0x3 = 0"
    using narrow_byte [of a] narrow_byte [of b] by (auto simp: bits_simps mask_2 dest: narrowD)
  then show ?case by (simp add: low_charI)
next
  case (4 a b c cs)
  let ?d1 = "(push_bit 4 (byte_word a) OR drop_bit 4 (byte_word b)) AND 0x3F"
  let ?d2 = "(push_bit 2 (byte_word b) OR drop_bit 6 (byte_word c)) AND 0x3F"
  have "(push_bit 2 (drop_bit 2 (byte_word a)) OR drop_bit 4 ?d1) AND 0xFF = byte_word a"
    "(push_bit 4 ?d1 OR drop_bit 2 ?d2) AND 0xFF = byte_word b"
    "(push_bit 6 ?d2 OR (byte_word c AND 0x3F)) AND 0xFF = byte_word c"
    using narrow_byte [of a] narrow_byte [of b] narrow_byte [of c] by (auto simp: bits_simps dest: narrowD)
  then show ?case using 4 by (simp add: low_charI)
qed simp

lemma sextets_unsextets: "list_all (narrow 6) vs \<Longrightarrow> unsextets vs = Some s \<Longrightarrow> vs = sextets s"
proof (induction vs arbitrary: s rule: unsextets.induct)
  case (3 v w)
  then have n: "narrow 6 v" "narrow 6 w" "w AND 0xF = 0" and s: "s = [low_char (push_bit 2 v OR drop_bit 4 w)]"
    by (auto split: if_splits)
  have low: "\<not> bit w i" if "i < 4" for i
  proof
    assume "bit w i"
    then have "bit (w AND 0xF) i" using that by (simp add: bit_simps mask_4)
    then show False using n(3) by simp
  qed
  have "drop_bit 2 ((push_bit 2 v OR drop_bit 4 w) AND 0xFF) = v" using n(1,2) by (auto simp: bits_simps dest: narrowD)
  moreover have "push_bit 4 ((push_bit 2 v OR drop_bit 4 w) AND 0xFF) AND 0x3F = w"
  proof -
    have "4 + (i - 4) = i" if "bit w i" for i using low [of i] that by (cases "i < 4") simp_all
    then show ?thesis using n(1,2) low by (auto simp: bits_simps dest: narrowD)
  qed
  ultimately show ?case by (simp add: s byte_low_char)
next
  case (4 v w x)
  then have n: "narrow 6 v" "narrow 6 w" "narrow 6 x" "x AND 0x3 = 0"
    and s: "s = [low_char (push_bit 2 v OR drop_bit 4 w), low_char (push_bit 4 w OR drop_bit 2 x)]"
    by (auto split: if_splits)
  have low: "\<not> bit x i" if "i < 2" for i
  proof
    assume "bit x i"
    then have "bit (x AND 0x3) i" using that by (simp add: bit_simps mask_2)
    then show False using n(4) by simp
  qed
  have "drop_bit 2 ((push_bit 2 v OR drop_bit 4 w) AND 0xFF) = v" using n(1,2) by (auto simp: bits_simps dest: narrowD)
  moreover have "(push_bit 4 ((push_bit 2 v OR drop_bit 4 w) AND 0xFF) OR
      drop_bit 4 ((push_bit 4 w OR drop_bit 2 x) AND 0xFF)) AND 0x3F = w"
    using n(1,2,3) by (auto simp: bits_simps dest: narrowD)
  moreover have "push_bit 2 ((push_bit 4 w OR drop_bit 2 x) AND 0xFF) AND 0x3F = x"
  proof -
    have "Suc (Suc (i - 2)) = i" if "bit x i" for i using low [of i] that by (cases "i < 2") simp_all
    then show ?thesis using n(2,3) low by (auto simp: bits_simps dest: narrowD)
  qed
  ultimately show ?case by (simp add: s byte_low_char)
next
  case (5 v w x y vs)
  then obtain t where t: "unsextets vs = Some t"
    and s: "s = low_char (push_bit 2 v OR drop_bit 4 w) # low_char (push_bit 4 w OR drop_bit 2 x) #
       low_char (push_bit 6 x OR y) # t" by auto
  have n: "narrow 6 v" "narrow 6 w" "narrow 6 x" "narrow 6 y" using "5.prems"(1) by simp_all
  have "drop_bit 2 ((push_bit 2 v OR drop_bit 4 w) AND 0xFF) = v" using n(1,2) by (auto simp: bits_simps dest: narrowD)
  moreover have "(push_bit 4 ((push_bit 2 v OR drop_bit 4 w) AND 0xFF) OR
      drop_bit 4 ((push_bit 4 w OR drop_bit 2 x) AND 0xFF)) AND 0x3F = w"
    using n(1,2,3) by (auto simp: bits_simps dest: narrowD)
  moreover have "(push_bit 2 ((push_bit 4 w OR drop_bit 2 x) AND 0xFF) OR
      drop_bit 6 ((push_bit 6 x OR y) AND 0xFF)) AND 0x3F = x"
    using n by (auto simp: bits_simps dest: narrowD)
  moreover have "((push_bit 6 x OR y) AND 0xFF) AND 0x3F = y" using n by (auto simp: bits_simps dest: narrowD)
  moreover have "vs = sextets t" using "5.IH" t "5.prems"(1) by simp
  ultimately show ?case by (simp add: s byte_low_char)
qed (auto split: if_splits)


section \<open>The loops\<close>

declare drop_bit_or [simp del] push_bit_or [simp del] push_bit_push_bit [simp del] drop_bit_push_bit [simp del]

lemma length_alphabet [simp]: "length alphabet = 64"
  by (simp add: alphabet_def)

lemma distinct_alphabet: "distinct alphabet"
  by (simp add: alphabet_def)

lemma alpha_table_nth: "k < 64 \<Longrightarrow> alpha_table (alphabet ! k) = Some k"
  unfolding alpha_table_def by (rule map_of_is_SomeI) (auto simp: distinct_alphabet in_set_zip intro!: exI [of _ k])

lemma alpha_table_Some: "alpha_table c = Some k \<Longrightarrow> k < 64 \<and> alphabet ! k = c"
  by (auto simp: alpha_table_def in_set_zip dest!: map_of_SomeD)

lemma alpha_table_surj: "alpha_table c \<noteq> None \<Longrightarrow> \<exists>v. narrow 6 v \<and> alpha_char v = c"
proof -
  assume "alpha_table c \<noteq> None"
  then obtain k where k: "k < 64" "alphabet ! k = c" using alpha_table_Some by blast
  have n: "narrow 6 (word_of_nat k)" using k(1) by (simp add: narrow_less unat_of_nat)
  then have "word_of_nat k AND 0x3F = (word_of_nat k :: u32)" by (auto simp: bits_simps dest: narrowD)
  moreover have "unat (word_of_nat k :: u32) = k" using k(1) by (simp add: unat_of_nat)
  ultimately have "alpha_char (word_of_nat k) = c" using k(2) by (simp add: alpha_char_def)
  then show ?thesis using n by blast
qed

lemma unat_mask_6: "unat (w AND 0x3F :: u32) < 64"
proof -
  have "narrow 6 (w AND 0x3F)" by (auto simp: narrow_def bit_simps mask_6)
  then show ?thesis by (simp add: narrow_less)
qed

lemma alpha_table_char: "alpha_table (alpha_char w) = Some (unat (w AND 0x3F))"
  by (simp add: alpha_char_def alpha_table_nth unat_mask_6)

lemma alphabet_kept: "c \<in> set alphabet \<Longrightarrow> \<not> skipped c"
  by (auto simp: alphabet_def skipped_def)

lemma alpha_char_kept: "\<not> skipped (alpha_char w)"
  by (intro alphabet_kept) (simp add: alpha_char_def unat_mask_6)

lemma alpha_char_and [simp]: "alpha_char (w AND 0x3F) = alpha_char w"
  by (simp add: alpha_char_def and.assoc)

lemma emit_small: "bits < 6 \<Longrightarrow> emit_sextets buf bits out = (bits, out)"
  by (simp add: emit_sextets.simps)

lemma emit_byte:
  "emit_sextets buf 8 out = (2, out @ [alpha_char (drop_bit 2 buf)])"
  "emit_sextets buf 10 out = (4, out @ [alpha_char (drop_bit 4 buf)])"
  "emit_sextets buf 12 out = (0, out @ [alpha_char (drop_bit 6 buf), alpha_char buf])"
  by (simp_all add: emit_sextets.simps [of _ 8] emit_sextets.simps [of _ 10] emit_sextets.simps [of _ 12]
      emit_sextets.simps [of _ 6] emit_small)

lemma alpha_char_cong: "w AND 0x3F = v AND 0x3F \<Longrightarrow> alpha_char w = alpha_char v"
  by (simp add: alpha_char_def)

lemma alpha_low: "w AND 0x3F = v \<Longrightarrow> alpha_char w = alpha_char v"
  using alpha_char_and [of w] by simp

lemma url_encode_loop_sextets:
  "url_encode_loop buf 0 out s = out @ map alpha_char (sextets s)"
proof (induction s arbitrary: buf out rule: sextets.induct)
  case (2 a)
  note g = sextets_of_bytes [OF narrow_byte narrow_byte narrow_byte, THEN alpha_low]
  show ?case by (simp add: Let_def emit_byte g(1) g(5))
next
  case (3 a b)
  note g = sextets_of_bytes [OF narrow_byte narrow_byte narrow_byte, THEN alpha_low]
  show ?case by (simp add: Let_def emit_byte g(1) g(2) g(6))
next
  case (4 a b c cs)
  note g = sextets_of_bytes [OF narrow_byte narrow_byte narrow_byte, THEN alpha_low]
  show ?case by (simp add: Let_def emit_byte g(1) g(2,3,4) 4 del: alpha_char_and)
qed simp


lemma url_encode_sextets: "url_encode s = map alpha_char (sextets s)"
  by (simp add: url_encode_def url_encode_loop_sextets)

text \<open>The decoder skips some characters, fails on the others outside the alphabet, and takes the rest in
  groups of four.\<close>

lemma url_decode_loop_skips:
  "url_decode_loop buf bits nd out t = url_decode_loop buf bits nd out (filter (\<lambda>c. \<not> skipped c) t)"
  by (induction buf bits nd out t rule: url_decode_loop.induct) (auto simp: Let_def split: option.splits)

lemma url_decode_loop_bad:
  "c \<in> set t \<Longrightarrow> \<not> skipped c \<Longrightarrow> alpha_table c = None \<Longrightarrow> \<exists>e. url_decode_loop buf bits nd out t = Inl e"
  by (induction buf bits nd out t rule: url_decode_loop.induct) (auto simp: Let_def split: option.splits)

declare url_decode_loop.simps(2) [simp del]

lemma low_char_cong: "w AND 0xFF = v AND 0xFF \<Longrightarrow> low_char w = low_char v"
  by (simp add: low_char_def)

lemma decode_char:
  assumes "narrow 6 v"
  shows "url_decode_loop buf 0 nd out (alpha_char v # cs) = url_decode_loop (push_bit 6 buf OR v) 6 (nd + 1) out cs"
    "url_decode_loop buf 6 nd out (alpha_char v # cs) =
       url_decode_loop (push_bit 6 buf OR v) 4 (nd + 1) (out @ [low_char (drop_bit 4 (push_bit 6 buf OR v))]) cs"
    "url_decode_loop buf 4 nd out (alpha_char v # cs) =
       url_decode_loop (push_bit 6 buf OR v) 2 (nd + 1) (out @ [low_char (drop_bit 2 (push_bit 6 buf OR v))]) cs"
    "url_decode_loop buf 2 nd out (alpha_char v # cs) =
       url_decode_loop (push_bit 6 buf OR v) 0 (nd + 1) (out @ [low_char (push_bit 6 buf OR v)]) cs"
proof -
  have "v AND 0x3F = v" using assms by (auto simp: bits_simps dest: narrowD)
  then have "alpha_table (alpha_char v) = Some (unat v)" by (simp add: alpha_table_char)
  then show "url_decode_loop buf 0 nd out (alpha_char v # cs) = url_decode_loop (push_bit 6 buf OR v) 6 (nd + 1) out cs"
    "url_decode_loop buf 6 nd out (alpha_char v # cs) =
       url_decode_loop (push_bit 6 buf OR v) 4 (nd + 1) (out @ [low_char (drop_bit 4 (push_bit 6 buf OR v))]) cs"
    "url_decode_loop buf 4 nd out (alpha_char v # cs) =
       url_decode_loop (push_bit 6 buf OR v) 2 (nd + 1) (out @ [low_char (drop_bit 2 (push_bit 6 buf OR v))]) cs"
    "url_decode_loop buf 2 nd out (alpha_char v # cs) =
       url_decode_loop (push_bit 6 buf OR v) 0 (nd + 1) (out @ [low_char (push_bit 6 buf OR v)]) cs"
    by (simp_all add: url_decode_loop.simps(2) alpha_char_kept low_char_def Let_def)
qed

lemma decode_end:
  "url_decode_loop buf 0 nd out [] = (if nd mod 4 = 1 then Inl (RuntimeError ''invalid base64url length'') else Inr out)"
  "url_decode_loop buf 4 nd out [] =
     (if nd mod 4 = 1 then Inl (RuntimeError ''invalid base64url length'')
      else if buf AND 0xF \<noteq> 0 then Inl (RuntimeError ''invalid base64url padding bits'') else Inr out)"
  "url_decode_loop buf 2 nd out [] =
     (if nd mod 4 = 1 then Inl (RuntimeError ''invalid base64url length'')
      else if buf AND 0x3 \<noteq> 0 then Inl (RuntimeError ''invalid base64url padding bits'') else Inr out)"
  by simp_all

lemma url_decode_loop_unsextets:
  "list_all (narrow 6) vs \<Longrightarrow> nd mod 4 = 0 \<Longrightarrow>
     (case unsextets vs of
        Some s \<Rightarrow> url_decode_loop buf 0 nd out (map alpha_char vs) = Inr (out @ s)
      | None \<Rightarrow> \<exists>e. url_decode_loop buf 0 nd out (map alpha_char vs) = Inl e)"
proof (induction vs arbitrary: buf nd out rule: unsextets.induct)
  case (2 v)
  then have "(nd + 1) mod 4 = 1" by presburger
  then show ?case using 2 by (simp add: decode_char)
next
  case (3 v w)
  then have v: "narrow 6 v" "narrow 6 w" and nd: "(nd + 1 + 1) mod 4 \<noteq> 1" by (simp_all, presburger)
  note g = bytes_of_sextets [OF v v]
  show ?case
    by (simp only: list.map decode_char v decode_end nd g(4) low_char_cong [OF g(1)] unsextets.simps if_False)
      (simp split: option.splits)
next
  case (4 v w x)
  then have v: "narrow 6 v" "narrow 6 w" "narrow 6 x" and nd: "(nd + 1 + 1 + 1) mod 4 \<noteq> 1" by (simp_all, presburger)
  note g = bytes_of_sextets [OF v v(1)]
  show ?case
    by (simp only: list.map decode_char v decode_end nd g(5) low_char_cong [OF g(1)] low_char_cong [OF g(2)]
        unsextets.simps if_False) (simp split: option.splits)
next
  case (5 v w x y vs)
  then have v: "narrow 6 v" "narrow 6 w" "narrow 6 x" "narrow 6 y" "list_all (narrow 6) vs"
    by simp_all
  have nd: "(nd + 1 + 1 + 1 + 1) mod 4 = 0" using "5.prems"(2) by presburger
  note g = bytes_of_sextets [OF v(1-4)]
  show ?case
    using "5.IH" [OF v(5) nd, of "push_bit 6 (push_bit 6 (push_bit 6 (push_bit 6 buf OR v) OR w) OR x) OR y"
        "((out @ [low_char (push_bit 2 v OR drop_bit 4 w)]) @ [low_char (push_bit 4 w OR drop_bit 2 x)]) @
           [low_char (push_bit 6 x OR y)]"]
    by (simp only: list.map decode_char v low_char_cong [OF g(1)] low_char_cong [OF g(2)] low_char_cong [OF g(3)]
        unsextets.simps) (simp split: option.splits)
qed (simp add: decode_end)

text \<open>What decodes is, without the skipped characters, the encoding of its value, and every encoding decodes.\<close>

lemma url_decode_kept: "url_decode (filter (\<lambda>c. \<not> skipped c) t) = url_decode t"
  unfolding url_decode_def by (rule url_decode_loop_skips [symmetric])

lemma url_decode_encode: "url_decode (url_encode s) = Inr s"
  using url_decode_loop_unsextets [OF narrow_sextets [of s], of 0 0 "[]"]
  by (simp add: url_decode_def url_encode_sextets unsextets_sextets)

lemma url_decode_InrD:
  assumes ok: "url_decode t = Inr s"
  shows "filter (\<lambda>c. \<not> skipped c) t = url_encode s"
proof -
  let ?t = "filter (\<lambda>c. \<not> skipped c) t"
  have kept: "url_decode_loop 0 0 0 [] ?t = Inr s" using ok by (simp add: url_decode_kept flip: url_decode_def)
  have "alpha_table c \<noteq> None" if "c \<in> set ?t" for c
    using url_decode_loop_bad [of c ?t 0 0 0 "[]"] that kept by fastforce
  then have "\<exists>v. narrow 6 v \<and> alpha_char v = c" if "c \<in> set ?t" for c
    using alpha_table_surj [of c] that by blast
  then obtain f where f: "\<forall>c\<in>set ?t. narrow 6 (f c) \<and> alpha_char (f c) = c" by metis
  define vs where "vs = map f ?t"
  have "map alpha_char vs = ?t" unfolding vs_def map_map by (rule map_idI) (use f in simp)
  moreover have "list_all (narrow 6) vs" using f by (simp add: vs_def list_all_iff)
  ultimately have vs: "?t = map alpha_char vs" "list_all (narrow 6) vs" by simp_all
  show ?thesis
    using url_decode_loop_unsextets [OF vs(2), of 0 0 "[]"] kept sextets_unsextets [OF vs(2)]
    by (auto simp: vs(1) url_encode_sextets split: option.splits)
qed

definition url_value :: "string \<Rightarrow> string option" where
  "url_value t = (case url_decode t of Inl _ \<Rightarrow> None | Inr s \<Rightarrow> Some s)"

interpretation base64url: strict_codec url_encode url_value "\<lambda>_. True" "filter (\<lambda>c. \<not> skipped c)"
  by unfold_locales (auto simp: url_value_def url_decode_encode url_decode_kept split: sum.splits dest: url_decode_InrD)

lemma url_value_Some_iff: "url_value t = Some s \<longleftrightarrow> url_decode t = Inr s"
  by (simp add: url_value_def split: sum.split)

section \<open>Properties\<close>

text \<open>C26. The base64url decoder accepts exactly the encodings: a text decodes to some bytes if and only if it
  is the encoding of those bytes once the characters that the decoder skips, the equals sign, line feed
  and carriage return, are taken out.\<close>

theorem url_decode_iff:
  "url_decode t = Inr s \<longleftrightarrow> filter (\<lambda>c. \<not> skipped c) t = url_encode s"
  using base64url.dec_iff by (simp add: url_value_Some_iff)

end
