(* ===== verification/RulesYaml.thy ===== *)
theory RulesYaml
  imports Registry
begin

text \<open>
  \<open>src/src/guard/RulesYaml.hpp\<close>: the loader of rule catalogs, field by field, and the merging of several
  files.  yaml-cpp is a parameter: a type of nodes with the subscript, the test for a sequence and the
  conversions that the loader uses.
\<close>

section \<open>The YAML library\<close>

text \<open>
  A left summand is the text of a \<open>YAML::Exception\<close>.  \<open>child n k\<close> is \<open>n[k]\<close>, with \<^const>\<open>None\<close> for an
  undefined node; \<open>elements\<close> are the items of a sequence, \<^const>\<open>None\<close> for any other node; the rest is
  \<open>as<T>()\<close> for the types \<open>T\<close> in use.
\<close>

record 'n yaml_lib =
  load_file :: "string \<Rightarrow> string + 'n"
  child :: "'n \<Rightarrow> string \<Rightarrow> string + 'n option"
  elements :: "'n \<Rightarrow> 'n list option"
  to_str :: "'n \<Rightarrow> string + string"
  to_strs :: "'n \<Rightarrow> string + string list"
  to_size :: "'n \<Rightarrow> string + nat"
  to_double :: "'n \<Rightarrow> string + real"
  to_bool :: "'n \<Rightarrow> string + bool"
  to_int :: "'n \<Rightarrow> string + int"
  to_ints :: "'n \<Rightarrow> string + int list"

text \<open>\<open>if (n[k]) field = n[k].as<T>()\<close>, where \<open>old\<close> is what the field holds before.\<close>

definition read_key :: "'n yaml_lib \<Rightarrow> ('n \<Rightarrow> string + 'a) \<Rightarrow> 'n \<Rightarrow> string \<Rightarrow> 'a \<Rightarrow> string + 'a" where
  "read_key Y conv n k old =
     ebind (child Y n k) (\<lambda>c. case c of None \<Rightarrow> Inr old | Some m \<Rightarrow> conv m)"

section \<open>One file\<close>

record loaded_rules =
  groups :: "data_type_group list"
  loaded :: "rule list"

text \<open>What a load throws: a \<open>RuleError\<close>, or a \<open>YAML::Exception\<close> from outside the try blocks.\<close>

datatype load_failure = RuleFault rule_error | YamlFault string

definition lower_all_utf8 :: "utf8proc \<Rightarrow> string list \<Rightarrow> string list" where
  "lower_all_utf8 u vs = map (to_lower_utf8 u) vs"

definition read_masking :: "'n yaml_lib \<Rightarrow> 'n \<Rightarrow> string + masking" where
  "read_masking Y n =
     ebind (child Y n ''masking'') (\<lambda>m.
     case m of
       None \<Rightarrow> Inr (rule_masking default_rule)
     | Some m \<Rightarrow>
         ebind (read_key Y (to_ints Y) m ''capture_groups'' []) (\<lambda>gs.
         ebind (read_key Y (to_str Y) m ''placeholder'' []) (\<lambda>p.
         Inr \<lparr>capture_groups = gs, placeholder = p\<rparr>)))"

definition parse_rule :: "'n yaml_lib \<Rightarrow> utf8proc \<Rightarrow> string \<Rightarrow> 'n \<Rightarrow> load_failure + rule" where
  "parse_rule Y u path n =
     (let fields =
        ebind (read_key Y (to_str Y) n ''rule_id'' []) (\<lambda>i.
        ebind (read_key Y (to_str Y) n ''name'' []) (\<lambda>nm.
        ebind (read_key Y (to_str Y) n ''regex'' []) (\<lambda>re.
        ebind (read_key Y (\<lambda>m. map_sum id (lower_all_utf8 u) (to_strs Y m)) n ''keywords'' []) (\<lambda>ks.
        ebind (read_key Y (to_strs Y) n ''validators'' []) (\<lambda>vs.
        ebind (read_key Y (to_size Y) n ''min_length'' 0) (\<lambda>ml.
        ebind (read_key Y (to_double Y) n ''entropy'' 0) (\<lambda>en.
        ebind (read_key Y (\<lambda>m. map_sum id (lower_all_utf8 u) (to_strs Y m)) n ''banlist'' []) (\<lambda>bl.
        ebind (read_key Y (to_bool Y) n ''default_on'' True) (\<lambda>don.
        ebind (read_masking Y n) (\<lambda>mk.
        Inr (default_rule\<lparr>rule_id := i, rule_name := nm, regex := re, rule_keywords := ks, validators := vs,
               min_length := ml, entropy := en, banlist := bl, default_on := don, rule_masking := mk\<rparr>)))))))))))
      in case fields of
           Inl e \<Rightarrow> Inl (RuleFault (rule_fault ParseError (''parse rule in '' @ path @ '': '' @ e)))
         | Inr r \<Rightarrow> Inr r)"

text \<open>The rules of one group, which carry the name and the data type of the group.\<close>

fun parse_rules :: "'n yaml_lib \<Rightarrow> utf8proc \<Rightarrow> string \<Rightarrow> data_type_group \<Rightarrow> 'n list \<Rightarrow> load_failure + rule list" where
  "parse_rules Y u path g [] = Inr []"
| "parse_rules Y u path g (n # ns) =
     ebind (parse_rule Y u path n) (\<lambda>r.
     ebind (parse_rules Y u path g ns) (\<lambda>rs.
     Inr (r\<lparr>rule_group := group_name g, rule_data_type := group_data_type g\<rparr> # rs)))"

definition parse_group :: "'n yaml_lib \<Rightarrow> string \<Rightarrow> 'n \<Rightarrow> load_failure + data_type_group" where
  "parse_group Y path n =
     (let fields =
        ebind (read_key Y (to_int Y) n ''data_type'' 0) (\<lambda>dt.
        ebind (read_key Y (to_int Y) n ''group_priority'' 0) (\<lambda>pr.
        ebind (read_key Y (to_str Y) n ''name'' []) (\<lambda>nm.
        ebind (read_key Y (to_str Y) n ''display_name'' []) (\<lambda>dn.
        ebind (read_key Y (to_str Y) n ''description'' []) (\<lambda>ds.
        Inr \<lparr>group_data_type = dt, group_priority = pr, group_name = nm, group_display_name = dn,
             group_description = ds\<rparr>)))))
      in case fields of
           Inl e \<Rightarrow> Inl (RuleFault (rule_fault ParseError (''parse group in '' @ path @ '': '' @ e)))
         | Inr g \<Rightarrow> Inr g)"

definition group_rules :: "'n yaml_lib \<Rightarrow> utf8proc \<Rightarrow> string \<Rightarrow> data_type_group \<Rightarrow> 'n \<Rightarrow> load_failure + rule list" where
  "group_rules Y u path g n =
     (case child Y n ''rules'' of
        Inl e \<Rightarrow> Inl (YamlFault e)
      | Inr None \<Rightarrow> Inr []
      | Inr (Some rs) \<Rightarrow>
          (case elements Y rs of
             None \<Rightarrow> Inl (RuleFault (rule_fault ParseError
               (''group '' @ quoted (group_name g) @ '' rules is not a sequence in '' @ path)))
           | Some ns \<Rightarrow> parse_rules Y u path g ns))"

fun load_groups :: "'n yaml_lib \<Rightarrow> utf8proc \<Rightarrow> string \<Rightarrow> 'n list \<Rightarrow> load_failure + loaded_rules" where
  "load_groups Y u path [] = Inr \<lparr>groups = [], loaded = []\<rparr>"
| "load_groups Y u path (n # ns) =
     ebind (parse_group Y path n) (\<lambda>g.
     ebind (group_rules Y u path g n) (\<lambda>rs.
     ebind (load_groups Y u path ns) (\<lambda>l.
     Inr \<lparr>groups = g # groups l, loaded = rs @ loaded l\<rparr>)))"

definition load_rules_file :: "'n yaml_lib \<Rightarrow> utf8proc \<Rightarrow> string \<Rightarrow> load_failure + loaded_rules" where
  "load_rules_file Y u path =
     (case load_file Y path of
        Inl e \<Rightarrow> Inl (RuleFault (rule_fault ParseError (''read rules file '' @ path @ '': '' @ e)))
      | Inr doc \<Rightarrow>
          (case child Y doc ''guardrails_regex_rules'' of
             Inl e \<Rightarrow> Inl (RuleFault (rule_fault ParseError (''parse rules YAML '' @ path @ '': '' @ e)))
           | Inr None \<Rightarrow> Inr \<lparr>groups = [], loaded = []\<rparr>
           | Inr (Some gs) \<Rightarrow>
               (case elements Y gs of
                  None \<Rightarrow> Inl (RuleFault (rule_fault ParseError (''guardrails_regex_rules is not a sequence in '' @ path)))
                | Some ns \<Rightarrow> load_groups Y u path ns)))"

section \<open>Several files\<close>

text \<open>The inner loop over the rules of one file: the rules and the ids with the path each was first seen in.\<close>

fun merge_rules ::
  "string \<Rightarrow> rule list \<Rightarrow> (string \<Rightarrow> string option) \<Rightarrow> rule list \<Rightarrow> load_failure + (rule list \<times> (string \<Rightarrow> string option))" where
  "merge_rules path out seen [] = Inr (out, seen)"
| "merge_rules path out seen (r # rs) =
     (case seen (rule_id r) of
        Some first \<Rightarrow> Inl (RuleFault (rule_fault DuplicateId
          (''duplicate guardrails rule_id '' @ quoted (rule_id r) @ '' in files '' @ first @ '' and '' @ path)))
      | None \<Rightarrow> merge_rules path (out @ [r]) (seen(rule_id r \<mapsto> path)) rs)"

record load_state =
  all_groups :: "data_type_group list"
  all_rules :: "rule list"
  seen_paths :: "string set"
  seen_rule_ids :: "string \<Rightarrow> string option"
  loaded_files :: nat

definition load_one :: "'n yaml_lib \<Rightarrow> utf8proc \<Rightarrow> string \<Rightarrow> load_state \<Rightarrow> load_failure + load_state" where
  "load_one Y u raw_path st =
     (let path = ascii_trim raw_path in
      if path = [] then Inr st
      else if path \<in> seen_paths st then Inr st
      else
        ebind (load_rules_file Y u path) (\<lambda>l.
        ebind (merge_rules path (all_rules st) (seen_rule_ids st) (loaded l)) (\<lambda>(rs, ids).
        Inr \<lparr>all_groups = all_groups st @ groups l, all_rules = rs, seen_paths = insert path (seen_paths st),
             seen_rule_ids = ids, loaded_files = loaded_files st + 1\<rparr>)))"

fun load_loop :: "'n yaml_lib \<Rightarrow> utf8proc \<Rightarrow> load_state \<Rightarrow> string list \<Rightarrow> load_failure + load_state" where
  "load_loop Y u st [] = Inr st"
| "load_loop Y u st (p # ps) = ebind (load_one Y u p st) (\<lambda>st'. load_loop Y u st' ps)"

definition start_state :: load_state where
  "start_state = \<lparr>all_groups = [], all_rules = [], seen_paths = {}, seen_rule_ids = Map.empty, loaded_files = 0\<rparr>"

definition load_rules_files :: "'n yaml_lib \<Rightarrow> utf8proc \<Rightarrow> string list \<Rightarrow> load_failure + loaded_rules" where
  "load_rules_files Y u paths =
     ebind (load_loop Y u start_state paths) (\<lambda>st.
     if loaded_files st = 0 then Inl (RuleFault (rule_fault ParseError ''no guardrails rules files configured''))
     else Inr \<lparr>groups = all_groups st, loaded = all_rules st\<rparr>)"


section \<open>What a catalog holds\<close>

definition stamped :: "data_type_group list \<Rightarrow> rule \<Rightarrow> bool" where
  "stamped gs r \<longleftrightarrow> (\<exists>g\<in>set gs. rule_group r = group_name g \<and> rule_data_type r = group_data_type g)"

lemma stamped_append [intro]: "stamped gs r \<or> stamped hs r \<Longrightarrow> stamped (gs @ hs) r"
  by (auto simp: stamped_def)

lemma parse_rules_stamped:
  "parse_rules Y u path g ns = Inr rs \<Longrightarrow> g \<in> set gs \<Longrightarrow> list_all (stamped gs) rs"
  by (induction ns arbitrary: rs) (auto simp: stamped_def)

lemma group_rules_stamped:
  "group_rules Y u path g n = Inr rs \<Longrightarrow> g \<in> set gs \<Longrightarrow> list_all (stamped gs) rs"
  by (auto simp: group_rules_def parse_rules_stamped split: sum.splits option.splits)

lemma load_groups_stamped: "load_groups Y u path ns = Inr l \<Longrightarrow> list_all (stamped (groups l)) (loaded l)"
proof (induction ns arbitrary: l)
  case (Cons n ns)
  then obtain g rs l' where "group_rules Y u path g n = Inr rs" "load_groups Y u path ns = Inr l'"
      "l = \<lparr>groups = g # groups l', loaded = rs @ loaded l'\<rparr>" by auto
  then show ?case
    using group_rules_stamped [of Y u path g n rs "g # groups l'"] Cons.IH [of l']
    by (auto simp: list_all_iff stamped_def)
qed simp

lemma load_rules_file_stamped: "load_rules_file Y u path = Inr l \<Longrightarrow> list_all (stamped (groups l)) (loaded l)"
  by (auto simp: load_rules_file_def load_groups_stamped split: sum.splits option.splits)

text \<open>The invariant of the loop over the files.\<close>

definition state_ok :: "load_state \<Rightarrow> bool" where
  "state_ok st \<longleftrightarrow> dom (seen_rule_ids st) = rule_id ` set (all_rules st) \<and> distinct (map rule_id (all_rules st)) \<and>
     list_all (stamped (all_groups st)) (all_rules st)"

lemma merge_rules_ok:
  assumes "merge_rules path out ids rs = Inr (out', ids')" "dom ids = rule_id ` set out" "distinct (map rule_id out)"
  shows "out' = out @ rs \<and> dom ids' = rule_id ` set out' \<and> distinct (map rule_id out')"
  using assms
proof (induction rs arbitrary: out ids)
  case (Cons r rs)
  then have new: "ids (rule_id r) = None" "merge_rules path (out @ [r]) (ids(rule_id r \<mapsto> path)) rs = Inr (out', ids')"
    by (simp_all split: option.split_asm)
  have "rule_id r \<notin> rule_id ` set out" using new(1) Cons.prems(2) by blast
  then have "distinct (map rule_id (out @ [r]))" using Cons.prems(3) by simp
  moreover have "dom (ids(rule_id r \<mapsto> path)) = rule_id ` set (out @ [r])" using Cons.prems(2) by simp
  ultimately have "out' = (out @ [r]) @ rs \<and> dom ids' = rule_id ` set out' \<and> distinct (map rule_id out')"
    using Cons.IH [OF new(2)] by blast
  then show ?case by (metis append.assoc append_Cons append_Nil)
qed simp

lemma load_one_ok:
  assumes "load_one Y u p st = Inr st'" "state_ok st"
  shows "state_ok st'"
proof (cases "ascii_trim p = [] \<or> ascii_trim p \<in> seen_paths st")
  case False
  then have "ebind (load_rules_file Y u (ascii_trim p)) (\<lambda>l.
      ebind (merge_rules (ascii_trim p) (all_rules st) (seen_rule_ids st) (loaded l)) (\<lambda>(rs, ids).
      Inr \<lparr>all_groups = all_groups st @ groups l, all_rules = rs, seen_paths = insert (ascii_trim p) (seen_paths st),
           seen_rule_ids = ids, loaded_files = loaded_files st + 1\<rparr>)) = Inr st'"
    using assms(1) by (simp add: load_one_def Let_def)
  then obtain l rs ids where l: "load_rules_file Y u (ascii_trim p) = Inr l"
      "merge_rules (ascii_trim p) (all_rules st) (seen_rule_ids st) (loaded l) = Inr (rs, ids)"
      "all_groups st' = all_groups st @ groups l" "all_rules st' = rs" "seen_rule_ids st' = ids"
    by (fastforce split: prod.split_asm)
  have "rs = all_rules st @ loaded l \<and> dom ids = rule_id ` set rs \<and> distinct (map rule_id rs)"
    using merge_rules_ok [OF l(2)] assms(2) unfolding state_ok_def by blast
  moreover have "list_all (stamped (all_groups st @ groups l)) (all_rules st @ loaded l)"
    using assms(2) load_rules_file_stamped [OF l(1)] by (auto simp: state_ok_def list_all_iff)
  ultimately show ?thesis unfolding state_ok_def l(3-5) by metis
qed (use assms in \<open>auto simp: load_one_def Let_def split: if_split_asm\<close>)

lemma load_loop_ok: "load_loop Y u st ps = Inr st' \<Longrightarrow> state_ok st \<Longrightarrow> state_ok st'"
  by (induction ps arbitrary: st) (auto dest: load_one_ok)

lemma start_state_ok [simp]: "state_ok start_state"
  by (simp add: state_ok_def start_state_def)

lemma load_rules_files_ok:
  assumes "load_rules_files Y u paths = Inr l"
  shows "distinct (map rule_id (loaded l)) \<and> list_all (stamped (groups l)) (loaded l)"
proof -
  obtain st where "load_loop Y u start_state paths = Inr st" "l = \<lparr>groups = all_groups st, loaded = all_rules st\<rparr>"
    using assms by (auto simp: load_rules_files_def split: if_splits)
  then show ?thesis using load_loop_ok [OF _ start_state_ok, of Y u paths st] by (simp add: state_ok_def)
qed

section \<open>Building what was loaded\<close>

lemma by_id_index_add:
  "by_id_index (add_compiled cr reg) i = None \<longleftrightarrow> i \<noteq> rule_id (cr_rule cr) \<and> by_id_index reg i = None"
  by (simp add: add_compiled_def Let_def)

lemma build_from_fails:
  assumes "build_from pf eng reg rs = Inl e" "distinct (map rule_id rs)" "\<forall>r\<in>set rs. by_id_index reg (rule_id r) = None"
  shows "\<exists>r\<in>set rs. compile_rule pf eng r = Inl e"
  using assms
proof (induction rs arbitrary: reg)
  case (Cons r rs)
  show ?case
  proof (cases "compile_rule pf eng r")
    case (Inr cr)
    then have "cr_rule cr = r" by (rule compile_rule_InrD(1))
    then have "build_from pf eng (add_compiled cr reg) rs = Inl e" "\<forall>r'\<in>set rs. by_id_index (add_compiled cr reg) (rule_id r') = None"
      using Cons.prems Inr by (auto simp: by_id_index_add intro: rev_image_eqI)
    then have "\<exists>r\<in>set rs. compile_rule pf eng r = Inl e" using Cons.IH Cons.prems(2) by simp
    then show ?thesis by simp
  qed (use Cons.prems in simp)
qed simp

text \<open>C36. A catalog that loads is ready for the registry: its rules have distinct ids and carry the name and
  the data type of one of its groups, and building the registry from them either keeps them all, in order,
  or fails with the error of a rule that does not compile, never because of a duplicate.\<close>

theorem loaded_catalog_builds:
  assumes "load_rules_files Y u paths = Inr l"
  shows "distinct (map rule_id (loaded l)) \<and> list_all (stamped (groups l)) (loaded l) \<and>
    (case build pf eng (loaded l) of
       Inr reg \<Rightarrow> map cr_rule (reg_rules reg) = loaded l
     | Inl e \<Rightarrow> \<exists>r\<in>set (loaded l). compile_rule pf eng r = Inl e)"
proof -
  have ok: "distinct (map rule_id (loaded l))" "list_all (stamped (groups l)) (loaded l)"
    using load_rules_files_ok [OF assms] by simp_all
  show ?thesis
  proof (cases "build pf eng (loaded l)")
    case (Inl e)
    then have "build_from pf eng empty_registry (loaded l) = Inl e" by (simp add: build_def)
    then have "\<exists>r\<in>set (loaded l). compile_rule pf eng r = Inl e"
      using build_from_fails ok(1) by (fastforce simp: empty_registry_def)
    then show ?thesis using ok Inl by simp
  next
    case (Inr reg)
    then have "map cr_rule (reg_rules reg) = loaded l" using build_ok [OF Inr] compiled_rules_of by blast
    then show ?thesis using ok Inr by simp
  qed
qed

section \<open>Repeated paths\<close>

lemma load_one_seen_paths:
  "load_one Y u p st = Inr st' \<Longrightarrow> seen_paths st' = seen_paths st \<union> ({ascii_trim p} - {[]})"
  by (auto simp: load_one_def Let_def split: if_splits)

lemma load_loop_seen_paths:
  "load_loop Y u st ps = Inr st' \<Longrightarrow> seen_paths st' = seen_paths st \<union> (ascii_trim ` set ps - {[]})"
  by (induction ps arbitrary: st) (auto dest!: load_one_seen_paths)

lemma load_loop_append:
  "load_loop Y u st (ps @ qs) = ebind (load_loop Y u st ps) (\<lambda>st'. load_loop Y u st' qs)"
  by (induction ps arbitrary: st) (simp_all add: ebind_def split: sum.split)

lemma load_loop_known: "\<forall>q\<in>set qs. ascii_trim q = [] \<or> ascii_trim q \<in> seen_paths st \<Longrightarrow> load_loop Y u st qs = Inr st"
  by (induction qs) (auto simp: load_one_def Let_def)

text \<open>Naming a file again, with other blanks around its path, changes nothing.\<close>

lemma load_rules_files_repeat:
  assumes "\<forall>q\<in>set qs. ascii_trim q = [] \<or> ascii_trim q \<in> ascii_trim ` set ps"
  shows "load_rules_files Y u (ps @ qs) = load_rules_files Y u ps"
proof -
  have "load_loop Y u start_state (ps @ qs) = load_loop Y u start_state ps"
  proof (cases "load_loop Y u start_state ps")
    case (Inr st)
    then have "load_loop Y u st qs = Inr st"
      using assms load_loop_seen_paths [OF Inr] by (intro load_loop_known) auto
    then show ?thesis using Inr by (simp add: load_loop_append)
  qed (simp add: load_loop_append)
  then show ?thesis by (simp add: load_rules_files_def)
qed

section \<open>Witness\<close>

datatype demo_node = Text string | Items "demo_node list" | Fields "(string \<times> demo_node) list"

definition demo_yaml :: "demo_node yaml_lib" where
  "demo_yaml =
     \<lparr>load_file = (\<lambda>p. Inr (Fields [(''guardrails_regex_rules'', Items [Fields
         [(''name'', Text ''contact''), (''rules'', Items [Fields [(''rule_id'', Text p), (''regex'', Text ''a'')]])]])])),
      child = (\<lambda>n k. case n of Fields fs \<Rightarrow> Inr (map_of fs k) | Text _ \<Rightarrow> Inl ''bad subscript'' | Items _ \<Rightarrow> Inr None),
      elements = (\<lambda>n. case n of Items ns \<Rightarrow> Some ns | _ \<Rightarrow> None),
      to_str = (\<lambda>n. case n of Text s \<Rightarrow> Inr s | _ \<Rightarrow> Inl ''bad conversion''),
      to_strs = (\<lambda>n. Inl ''bad conversion''), to_size = (\<lambda>n. Inl ''bad conversion''),
      to_double = (\<lambda>n. Inl ''bad conversion''), to_bool = (\<lambda>n. Inl ''bad conversion''),
      to_int = (\<lambda>n. Inl ''bad conversion''), to_ints = (\<lambda>n. Inl ''bad conversion'')\<rparr>"

definition demo_utf8 :: utf8proc where
  "demo_utf8 = \<lparr>u8_iterate = (\<lambda>_. (0, 0)), u8_tolower = id, u8_encode = (\<lambda>_. [])\<rparr>"

definition demo_rule :: "string \<Rightarrow> rule" where
  "demo_rule i = default_rule\<lparr>rule_id := i, regex := ''a'', rule_group := ''contact''\<rparr>"

definition demo_catalog :: loaded_rules where
  "demo_catalog =
     (let g = \<lparr>group_data_type = 0, group_priority = 0, group_name = ''contact'', group_display_name = [],
               group_description = []\<rparr>
      in \<lparr>groups = [g, g], loaded = [demo_rule ''a'', demo_rule ''b'']\<rparr>)"

lemma demo_load: "load_rules_files demo_yaml demo_utf8 ['' a'', ''b'', ''a''] = Inr demo_catalog"
  by code_simp

theorem loaded_catalog_builds_witness:
  "distinct (map rule_id (loaded demo_catalog)) \<and>
   (\<forall>pf eng. case build pf eng (loaded demo_catalog) of
      Inr reg \<Rightarrow> map cr_rule (reg_rules reg) = loaded demo_catalog
    | Inl e \<Rightarrow> \<exists>r\<in>set (loaded demo_catalog). compile_rule pf eng r = Inl e)"
  using loaded_catalog_builds [OF demo_load] by blast

end
