(* ===== verification/Retry.thy ===== *)
theory Retry
  imports Rules
begin

text \<open>
  \<open>src/src/utils/Retry.hpp\<close>: running a callable again while it fails transiently, the back-off between
  two attempts, and the classifiers of transient errors.
\<close>

section \<open>Definitions\<close>

text \<open>
  What the code asks of a \<open>std::exception\<close>: the results of its \<open>dynamic_cast\<close>s to the classes of
  libpqxx and redis++, and \<open>what()\<close>.  \<open>ex_sqlstate\<close> is \<open>sqlstate()\<close> of a \<open>pqxx::sql_error\<close>.
\<close>

record std_exception =
  ex_broken_connection :: bool
  ex_sqlstate :: "string option"
  ex_redis_timeout :: bool
  ex_redis_io :: bool
  ex_redis_closed :: bool
  ex_what :: string

text \<open>What a callable throws: something derived from \<open>std::exception\<close>, or anything else, which
  \<open>catch (const std::exception&)\<close> lets through.\<close>

datatype thrown = Thrown std_exception | Foreign string

definition std_error :: "string \<Rightarrow> std_exception" where
  "std_error what =
     \<lparr>ex_broken_connection = False, ex_sqlstate = None, ex_redis_timeout = False, ex_redis_io = False,
      ex_redis_closed = False, ex_what = what\<rparr>"

record policy =
  max_attempts :: int
  base_delay_ms :: int
  max_delay_ms :: int
  jitter :: bool

definition default_policy :: policy where
  "default_policy = \<lparr>max_attempts = 3, base_delay_ms = 100, max_delay_ms = 2000, jitter = True\<rparr>"

text \<open>\<open>static_cast<int>\<close> of a 64-bit integer keeps its low 32 bits.\<close>

definition to_int32 :: "int \<Rightarrow> int" where
  "to_int32 x = (x + 2 ^ 31) mod 2 ^ 32 - 2 ^ 31"

text \<open>\<open>draw hi\<close> is the value \<open>std::uniform_int_distribution<int>(0, hi)\<close> gives.\<close>

definition compute_delay_ms :: "(int \<Rightarrow> int) \<Rightarrow> nat \<Rightarrow> policy \<Rightarrow> int" where
  "compute_delay_ms draw attempt_zero_based p =
     (let shift = min attempt_zero_based 10;
          expo = base_delay_ms p * 2 ^ shift;
          delay = to_int32 (min (max_delay_ms p) expo)
      in if jitter p then draw (max 1 delay) else delay)"

text \<open>
  The counter sink, a function pointer that may be null, and the events that a run leaves outside: calls
  of the sink (whose exceptions are swallowed) and pauses.
\<close>

datatype retry_event = Counted string string | Slept int

type_synonym metric_sink = bool

definition bind_metrics :: "metric_sink \<Rightarrow> metric_sink" where
  "bind_metrics fn = fn"

definition reset_metrics :: metric_sink where
  "reset_metrics = False"

definition inc_metric :: "metric_sink \<Rightarrow> string \<Rightarrow> string \<Rightarrow> retry_event list" where
  "inc_metric sink component outcome = (if sink then [Counted component outcome] else [])"

text \<open>
  \<open>run\<close>.  The callable works on the outside state; \<open>attempt\<close> is the loop's counter.  The loop goes on
  only below \<open>max_attempts\<close>, which bounds the number of rounds.
\<close>

type_synonym ('s, 'a) callable = "'s \<Rightarrow> (thrown + 'a) \<times> 's"

function run_loop ::
  "(nat \<Rightarrow> int) \<Rightarrow> ('s, 'a) callable \<Rightarrow> (std_exception \<Rightarrow> bool) \<Rightarrow> policy \<Rightarrow> metric_sink \<Rightarrow> string \<Rightarrow>
     nat \<Rightarrow> 's \<Rightarrow> ((thrown + 'a) \<times> 's) \<times> retry_event list" where
  "run_loop delay fn is_transient p sink component attempt s =
     (case fn s of
        (Inr a, s') \<Rightarrow> ((Inr a, s'), [])
      | (Inl (Foreign x), s') \<Rightarrow> ((Inl (Foreign x), s'), [])
      | (Inl (Thrown e), s') \<Rightarrow>
          if int (attempt + 1) < max_attempts p \<and> is_transient e
          then (let (result, events) = run_loop delay fn is_transient p sink component (attempt + 1) s'
                in (result, inc_metric sink component ''retried'' @ Slept (delay attempt) # events))
          else ((Inl (Thrown e), s'),
                if int (attempt + 1) \<ge> max_attempts p then inc_metric sink component ''exhausted'' else []))"
  by pat_completeness auto
termination
  by (relation "measure (\<lambda>(delay, fn, is_transient, p, sink, component, attempt, s). nat (max_attempts p) - attempt)")
    auto

declare run_loop.simps [simp del]

definition run ::
  "(nat \<Rightarrow> int \<Rightarrow> int) \<Rightarrow> ('s, 'a) callable \<Rightarrow> (std_exception \<Rightarrow> bool) \<Rightarrow> policy \<Rightarrow> metric_sink \<Rightarrow> string \<Rightarrow>
     's \<Rightarrow> ((thrown + 'a) \<times> 's) \<times> retry_event list" where
  "run draw fn is_transient p sink component s =
     run_loop (\<lambda>attempt. compute_delay_ms (draw attempt) attempt p) fn is_transient p sink component 0 s"

text \<open>The classifiers; a \<open>char\<close> comparison of a prefix reads only when the text is long enough.\<close>

definition is_transient_pqxx_read :: "std_exception \<Rightarrow> bool" where
  "is_transient_pqxx_read e \<longleftrightarrow>
     (if ex_broken_connection e then True
      else case ex_sqlstate e of
        Some ss \<Rightarrow>
          if length ss \<ge> 2 \<and> ss ! 0 = CHR ''0'' \<and> ss ! 1 = CHR ''8'' then True
          else if ss = ''40001'' \<or> ss = ''40P01'' then True
          else if length ss \<ge> 3 \<and> ss ! 0 = CHR ''5'' \<and> ss ! 1 = CHR ''7'' \<and> ss ! 2 = CHR ''P'' then True
          else False
      | None \<Rightarrow> False)"

definition is_transient_pqxx_write :: "std_exception \<Rightarrow> bool" where
  "is_transient_pqxx_write e \<longleftrightarrow>
     (case ex_sqlstate e of Some ss \<Rightarrow> ss = ''40001'' \<or> ss = ''40P01'' | None \<Rightarrow> False)"

definition is_transient_pqxx :: "std_exception \<Rightarrow> bool" where
  "is_transient_pqxx e = is_transient_pqxx_read e"

definition is_transient_redis :: "std_exception \<Rightarrow> bool" where
  "is_transient_redis e \<longleftrightarrow> ex_redis_timeout e \<or> ex_redis_io e \<or> ex_redis_closed e"

section \<open>The back-off\<close>

lemma to_int32_id: "- (2 ^ 31) \<le> x \<Longrightarrow> x < 2 ^ 31 \<Longrightarrow> to_int32 x = x"
  by (simp add: to_int32_def)

text \<open>The back-off before jitter: the base delay doubled at most ten times, and capped.\<close>

definition backoff :: "policy \<Rightarrow> nat \<Rightarrow> int" where
  "backoff p k = min (max_delay_ms p) (base_delay_ms p * 2 ^ min k 10)"

lemma backoff_nonneg: "0 \<le> base_delay_ms p \<Longrightarrow> 0 \<le> max_delay_ms p \<Longrightarrow> 0 \<le> backoff p k"
  by (simp add: backoff_def)

lemma backoff_Suc: "0 \<le> base_delay_ms p \<Longrightarrow> backoff p k \<le> backoff p (Suc k)"
  unfolding backoff_def by (intro min.mono mult_left_mono power_increasing) auto

lemma compute_delay_backoff:
  assumes "0 \<le> base_delay_ms p" "0 \<le> max_delay_ms p" "max_delay_ms p < 2 ^ 31"
  shows "compute_delay_ms draw k p = (if jitter p then draw (max 1 (backoff p k)) else backoff p k)"
proof -
  have "to_int32 (backoff p k) = backoff p k"
    using backoff_nonneg [OF assms(1,2), of k] assms(3)
    by (intro to_int32_id) (auto simp: backoff_def min_def)
  then show ?thesis by (simp add: compute_delay_ms_def Let_def backoff_def)
qed

text \<open>Without jitter the delay after the \<open>k\<close>-th failure (counted from zero) is the base delay doubled
  \<open>k\<close> times, at most ten times, and capped: it never decreases from one failure to the next and never
  exceeds the maximum.  With jitter it lies between zero and that delay, or one when the delay is zero.\<close>

theorem compute_delay_bounds:
  assumes "0 \<le> base_delay_ms p" "0 \<le> max_delay_ms p" "max_delay_ms p < 2 ^ 31"
    and "\<forall>hi\<ge>0. 0 \<le> draw hi \<and> draw hi \<le> hi"
  shows "let plain = compute_delay_ms draw k (p\<lparr>jitter := False\<rparr>) in
    plain = min (max_delay_ms p) (base_delay_ms p * 2 ^ min k 10) \<and> plain \<le> max_delay_ms p \<and>
    plain \<le> compute_delay_ms draw (Suc k) (p\<lparr>jitter := False\<rparr>) \<and>
    0 \<le> compute_delay_ms draw k p \<and> compute_delay_ms draw k p \<le> max 1 plain"
proof -
  let ?q = "p\<lparr>jitter := False\<rparr>"
  have q: "compute_delay_ms draw j ?q = backoff p j" for j
    using compute_delay_backoff [of ?q draw j] assms(1-3) by (simp add: backoff_def)
  have "0 \<le> draw (max 1 (backoff p k)) \<and> draw (max 1 (backoff p k)) \<le> max 1 (backoff p k)"
    using assms(4) by simp
  then have "0 \<le> compute_delay_ms draw k p \<and> compute_delay_ms draw k p \<le> max 1 (backoff p k)"
    using compute_delay_backoff [OF assms(1-3), of draw k] backoff_nonneg [OF assms(1,2), of k] by auto
  then show ?thesis
    using backoff_Suc [OF assms(1), of k] unfolding q Let_def by (simp add: backoff_def)
qed

section \<open>The retry loop\<close>

text \<open>What the callable does when it is simply called again and again, and the failures worth another
  attempt.\<close>

primrec state_after :: "('s, 'a) callable \<Rightarrow> 's \<Rightarrow> nat \<Rightarrow> 's" where
  "state_after fn s 0 = s"
| "state_after fn s (Suc k) = snd (fn (state_after fn s k))"

definition outcome :: "('s, 'a) callable \<Rightarrow> 's \<Rightarrow> nat \<Rightarrow> thrown + 'a" where
  "outcome fn s k = fst (fn (state_after fn s k))"

fun transient_failure :: "(std_exception \<Rightarrow> bool) \<Rightarrow> thrown + 'a \<Rightarrow> bool" where
  "transient_failure is_transient (Inl (Thrown e)) = is_transient e"
| "transient_failure is_transient _ = False"

fun_cases transient_failureE: "transient_failure is_transient r"

fun pauses :: "retry_event list \<Rightarrow> int list" where
  "pauses [] = []"
| "pauses (Slept d # es) = d # pauses es"
| "pauses (Counted c o' # es) = pauses es"

lemma pauses_append [simp]: "pauses (xs @ ys) = pauses xs @ pauses ys"
  by (induction xs rule: pauses.induct) auto

lemma pauses_inc_metric [simp]: "pauses (inc_metric sink c o') = []"
  by (simp add: inc_metric_def)

lemma state_after_Suc: "state_after fn (snd (fn s)) k = state_after fn s (Suc k)"
  by (induction k) simp_all

lemma outcome_Suc: "outcome fn (snd (fn s)) k = outcome fn s (Suc k)"
  by (simp add: outcome_def state_after_Suc del: state_after.simps)

text \<open>\<open>stops_at\<close>: the loop that starts with \<open>attempt\<close> failures behind it ends with the \<open>k\<close>-th of its calls.\<close>

definition stops_at ::
  "('s, 'a) callable \<Rightarrow> (std_exception \<Rightarrow> bool) \<Rightarrow> policy \<Rightarrow> nat \<Rightarrow> 's \<Rightarrow> nat \<Rightarrow> bool" where
  "stops_at fn is_transient p attempt s k \<longleftrightarrow>
     list_all (\<lambda>j. transient_failure is_transient (outcome fn s j) \<and> int (attempt + j + 1) < max_attempts p) [0..<k] \<and>
     (\<not> transient_failure is_transient (outcome fn s k) \<or> max_attempts p \<le> int (attempt + k + 1))"

lemma stops_at_0:
  "stops_at fn is_transient p attempt s 0 \<longleftrightarrow>
     \<not> transient_failure is_transient (fst (fn s)) \<or> max_attempts p \<le> int (attempt + 1)"
  by (simp add: stops_at_def outcome_def)

lemma stops_at_Suc:
  assumes "transient_failure is_transient (fst (fn s))" "int (attempt + 1) < max_attempts p"
  shows "stops_at fn is_transient p attempt s (Suc k) \<longleftrightarrow> stops_at fn is_transient p (attempt + 1) (snd (fn s)) k"
proof -
  have "[0..<Suc k] = 0 # map Suc [0..<k]" by (simp add: map_Suc_upt upt_conv_Cons del: upt_Suc)
  then show ?thesis
    using assms by (simp add: stops_at_def outcome_Suc list.pred_map comp_def outcome_def [of fn s 0] del: upt_Suc)
qed

lemma run_loop_spec:
  "\<exists>k. stops_at fn is_transient p attempt s k \<and>
     fst (run_loop delay fn is_transient p sink component attempt s) = (outcome fn s k, state_after fn s (Suc k)) \<and>
     pauses (snd (run_loop delay fn is_transient p sink component attempt s)) = map delay [attempt..<attempt + k]"
proof (induction delay fn is_transient p sink component attempt s rule: run_loop.induct)
  case (1 delay fn is_transient p sink component attempt s)
  let ?again = "transient_failure is_transient (fst (fn s)) \<and> int (attempt + 1) < max_attempts p"
  show ?case
  proof (cases ?again)
    case False
    then have "stops_at fn is_transient p attempt s 0" by (auto simp: stops_at_0)
    moreover have "fst (run_loop delay fn is_transient p sink component attempt s) = (outcome fn s 0, state_after fn s (Suc 0)) \<and>
        pauses (snd (run_loop delay fn is_transient p sink component attempt s)) = []"
      using False
      by (subst (1 2) run_loop.simps) (auto simp: outcome_def split: prod.splits sum.splits thrown.splits)
    ultimately show ?thesis by (intro exI [of _ 0]) simp
  next
    case True
    then obtain e s' where fn: "fn s = (Inl (Thrown e), s')" and e: "is_transient e" "int (attempt + 1) < max_attempts p"
      by (cases "fn s") (auto elim: transient_failureE)
    obtain k where k: "stops_at fn is_transient p (attempt + 1) s' k"
      "fst (run_loop delay fn is_transient p sink component (attempt + 1) s') = (outcome fn s' k, state_after fn s' (Suc k))"
      "pauses (snd (run_loop delay fn is_transient p sink component (attempt + 1) s')) =
         map delay [attempt + 1..<attempt + 1 + k]"
      using "1.IH" [OF fn [symmetric] refl refl] e by blast
    have s': "s' = snd (fn s)" by (simp add: fn)
    have "stops_at fn is_transient p attempt s (Suc k)"
      using stops_at_Suc [of is_transient fn s attempt p k] True k(1) by (simp add: s')
    moreover have "run_loop delay fn is_transient p sink component attempt s =
        (fst (run_loop delay fn is_transient p sink component (attempt + 1) s'),
         inc_metric sink component ''retried'' @
           Slept (delay attempt) # snd (run_loop delay fn is_transient p sink component (attempt + 1) s'))"
      using fn e by (subst run_loop.simps) (simp add: case_prod_beta)
    moreover have cons: "[attempt..<attempt + Suc k] = attempt # [attempt + 1..<attempt + 1 + k]"
      by (simp add: upt_conv_Cons del: upt_Suc)
    ultimately show ?thesis using k(2,3)
      by (intro exI [of _ "Suc k"])
        (simp add: s' outcome_Suc state_after_Suc cons del: state_after.simps upt_Suc)
  qed
qed


text \<open>C25. Retrying: the callable is called at least once and, when \<open>max_attempts\<close> is positive, at most that
  often; every call but the last failed transiently; the result and the state are those of the last
  call, which succeeded, failed otherwise, or was the last one allowed; and the loop slept exactly the
  back-off of each failed attempt in between.\<close>

theorem run_retries:
  "\<exists>k. k < max 1 (nat (max_attempts p)) \<and>
    list_all (\<lambda>j. transient_failure is_transient (outcome fn s j)) [0..<k] \<and>
    fst (run draw fn is_transient p sink component s) = (outcome fn s k, state_after fn s (Suc k)) \<and>
    (k + 1 = max 1 (nat (max_attempts p)) \<or> transient_failure is_transient (outcome fn s k) = False) \<and>
    pauses (snd (run draw fn is_transient p sink component s)) =
      map (\<lambda>j. compute_delay_ms (draw j) j p) [0..<k]"
proof -
  obtain k where k: "stops_at fn is_transient p 0 s k"
    "fst (run draw fn is_transient p sink component s) = (outcome fn s k, state_after fn s (Suc k))"
    "pauses (snd (run draw fn is_transient p sink component s)) = map (\<lambda>j. compute_delay_ms (draw j) j p) [0..<k]"
    using run_loop_spec [of fn is_transient p 0 s "\<lambda>j. compute_delay_ms (draw j) j p" sink component]
    by (auto simp: run_def)
  have "list_all (\<lambda>j. int (j + 1) < max_attempts p) [0..<k]"
    and tr: "list_all (\<lambda>j. transient_failure is_transient (outcome fn s j)) [0..<k]"
    using k(1) by (simp_all add: stops_at_def list_all_iff)
  then have less: "k = 0 \<or> int k < max_attempts p"
    by (cases k) (simp_all add: list_all_iff)
  then have bound: "k < max 1 (nat (max_attempts p))" by auto
  have "k + 1 = max 1 (nat (max_attempts p)) \<or> transient_failure is_transient (outcome fn s k) = False"
    using k(1) less bound by (auto simp: stops_at_def)
  then show ?thesis using k bound tr by blast
qed

text \<open>A write is never sent twice unless the server rolled it back: the write classifier accepts only
  serialization failures and deadlocks, which the read classifier accepts as well, and it rejects every
  broken connection and every connection error that carries another state.\<close>

theorem write_classifier_conservative:
  "(is_transient_pqxx_write e \<longleftrightarrow> ex_sqlstate e = Some ''40001'' \<or> ex_sqlstate e = Some ''40P01'') \<and>
   (is_transient_pqxx_write e \<longrightarrow> is_transient_pqxx_read e) \<and>
   (is_transient_pqxx_read e \<longleftrightarrow> ex_broken_connection e \<or>
      (\<exists>ss. ex_sqlstate e = Some ss \<and> (prefix ''08'' ss \<or> prefix ''57P'' ss \<or> ss \<in> {''40001'', ''40P01''})))"
proof -
  have two: "prefix [a, b] ss \<longleftrightarrow> 2 \<le> length ss \<and> ss ! 0 = a \<and> ss ! 1 = b" for a b :: char and ss
    by (cases ss; cases "tl ss") auto
  have three: "prefix [a, b, c] ss \<longleftrightarrow> 3 \<le> length ss \<and> ss ! 0 = a \<and> ss ! 1 = b \<and> ss ! 2 = c" for a b c :: char and ss
    by (cases ss; cases "tl ss"; cases "tl (tl ss)") auto
  show ?thesis
    by (auto simp: is_transient_pqxx_write_def is_transient_pqxx_read_def two three split: option.splits)
qed

section \<open>Witnesses\<close>

theorem compute_delay_bounds_witness:
  "compute_delay_ms id 2 (default_policy\<lparr>jitter := False\<rparr>) = 400 \<and>
   400 \<le> compute_delay_ms id (Suc 2) (default_policy\<lparr>jitter := False\<rparr>) \<and>
   compute_delay_ms id 2 default_policy \<le> 400"
proof -
  have "0 \<le> base_delay_ms default_policy" "0 \<le> max_delay_ms default_policy" "max_delay_ms default_policy < 2 ^ 31"
    "\<forall>hi\<ge>0. 0 \<le> id hi \<and> id hi \<le> (hi :: int)" "min (max_delay_ms default_policy) (base_delay_ms default_policy * 2 ^ min 2 10) = 400"
    by (simp_all add: default_policy_def)
  then show ?thesis using compute_delay_bounds [of default_policy id 2] unfolding Let_def by auto
qed

theorem write_classifier_conservative_witness:
  "is_transient_pqxx_read ((std_error ''x'')\<lparr>ex_sqlstate := Some ''40001''\<rparr>)"
  using write_classifier_conservative [of "(std_error ''x'')\<lparr>ex_sqlstate := Some ''40001''\<rparr>"] by (simp add: std_error_def)

end
