(* ===== verification/Utils.thy ===== *)
theory Utils
  imports Retry Rules
begin

text \<open>
  The small helpers of \<open>src/src/utils\<close>: \<open>Strings.hpp\<close>, \<open>Pg.hpp\<close>, \<open>Crypto.hpp\<close> and \<open>Time.hpp\<close>, and
  \<open>std::stoi\<close>, which several modules use to read numbers.  The digests, the random bytes and
  \<open>CRYPTO_memcmp\<close> of OpenSSL are parameters.
\<close>

section \<open>Numbers\<close>

definition is_c_space :: "char \<Rightarrow> bool" where
  [byte_defs]: "is_c_space c \<longleftrightarrow> byte c = 32 \<or> (9 \<le> byte c \<and> byte c \<le> 13)"

text \<open>\<open>std::stoi\<close>: blanks, a sign, the longest run of digits, and the range of a 32-bit \<open>int\<close>.  What
  follows the digits is ignored.\<close>

definition stoi :: "string \<Rightarrow> std_exception + int" where
  "stoi s =
     (let t = dropWhile is_c_space s;
          negative = (t \<noteq> [] \<and> hd t = CHR ''-'');
          u = (if t \<noteq> [] \<and> (hd t = CHR ''-'' \<or> hd t = CHR ''+'') then tl t else t);
          digits = takeWhile is_digit_char u;
          v = (if negative then - int (digits_value digits) else int (digits_value digits))
      in if digits = [] then Inl (std_error ''stoi'')
         else if v < - (2 ^ 31) \<or> 2 ^ 31 \<le> v then Inl (std_error ''stoi'')
         else Inr v)"

text \<open>\<open>std::to_string\<close> of an \<open>int\<close>.\<close>

definition int_to_string :: "int \<Rightarrow> string" where
  "int_to_string n = (if n < 0 then CHR ''-'' # nat_to_string (nat (- n)) else nat_to_string (nat n))"

section \<open>Strings\<close>

definition path_is_public :: "string set \<Rightarrow> string \<Rightarrow> bool" where
  "path_is_public public_paths path \<longleftrightarrow>
     (if path \<in> public_paths then True
      else \<exists>p\<in>public_paths. p \<noteq> [] \<and> last p = CHR ''*'' \<and>
        length path \<ge> length p - 1 \<and> take (length p - 1) path = take (length p - 1) p)"

text \<open>The lines that \<open>std::getline\<close> reads up to a delimiter; nothing follows a final delimiter.\<close>

function getlines :: "char \<Rightarrow> string \<Rightarrow> string list" where
  "getlines d s =
     (if s = [] then []
      else takeWhile (\<lambda>c. c \<noteq> d) s # getlines d (drop 1 (dropWhile (\<lambda>c. c \<noteq> d) s)))"
  by pat_completeness auto
termination
  by (relation "measure (length \<circ> snd)")
    (auto simp: neq_Nil_conv le_imp_less_Suc [OF le_trans [OF diff_le_self length_dropWhile_le]])

declare getlines.simps [simp del]

definition is_csv_blank :: "char \<Rightarrow> bool" where
  "is_csv_blank c \<longleftrightarrow> c \<in> {CHR '' '', CHR 0x09, CHR 0x0D, CHR 0x0A}"

definition split_csv_vec :: "string \<Rightarrow> string list" where
  "split_csv_vec csv =
     concat (map (\<lambda>piece.
         let rest = dropWhile is_csv_blank piece in
         if rest = [] then [] else [rev (dropWhile is_csv_blank (rev rest))])
       (getlines CHR '','' csv))"

definition split_csv_set :: "string \<Rightarrow> string set" where
  "split_csv_set csv = set (split_csv_vec csv)"

definition mask_email :: "string \<Rightarrow> string" where
  "mask_email email =
     (if email = [] then email
      else let (local, domain) =
             (case find_char CHR ''@'' email of
                None \<Rightarrow> (email, [])
              | Some i \<Rightarrow> (take i email, drop i email));
             masked = (if 1 < length local then local ! 0 # ''***'' else ''***'')
           in masked @ domain)"

section \<open>Connection strings\<close>

text \<open>\<open>Utils::Pg\<close>.  The quote and the backslash are written by their codes.\<close>

abbreviation squote :: char where "squote \<equiv> CHR 0x27"
abbreviation bslash :: char where "bslash \<equiv> CHR 0x5C"

fun quote_loop :: "string \<Rightarrow> string \<Rightarrow> string" where
  "quote_loop out [] = out"
| "quote_loop out (c # cs) =
     quote_loop ((if c = bslash \<or> c = squote then out @ [bslash] else out) @ [c]) cs"

definition quote_value :: "string \<Rightarrow> string" where
  "quote_value v = quote_loop [squote] v @ [squote]"

definition make_conninfo :: "string \<Rightarrow> int \<Rightarrow> string \<Rightarrow> string \<Rightarrow> string \<Rightarrow> string" where
  "make_conninfo host port user dbname password =
     (let dsn = ''host='' @ quote_value host @ '' port='' @ int_to_string port @ '' user='' @ quote_value user @
            '' dbname='' @ quote_value dbname
      in if password \<noteq> [] then dsn @ '' password='' @ quote_value password else dsn)"

section \<open>Hexadecimal and digests\<close>

definition hex_digits :: string where
  "hex_digits = ''0123456789abcdef''"

definition bytes_to_hex :: "string \<Rightarrow> string" where
  "bytes_to_hex data = concat (map (\<lambda>b. [hex_digits ! (byte b div 16), hex_digits ! (byte b mod 16)]) data)"

definition hmac_sha256 :: "(string \<Rightarrow> string \<Rightarrow> string option) \<Rightarrow> string \<Rightarrow> string \<Rightarrow> std_exception + string" where
  "hmac_sha256 hmac key data =
     (case hmac key data of None \<Rightarrow> Inl (std_error ''HMAC-SHA256 failed'') | Some mac \<Rightarrow> Inr mac)"

definition constant_time_equals :: "(string \<Rightarrow> string \<Rightarrow> int) \<Rightarrow> string \<Rightarrow> string \<Rightarrow> bool" where
  "constant_time_equals memcmp a b = (if length a \<noteq> length b then False else memcmp a b = 0)"

text \<open>\<open>rand_bytes n\<close> is what \<open>RAND_bytes\<close> fills in; the buffer has 64 bytes.\<close>

definition random_hex :: "(nat \<Rightarrow> string option) \<Rightarrow> nat \<Rightarrow> std_exception + string" where
  "random_hex rand_bytes byte_count =
     (let n = (if byte_count > 64 then 64 else byte_count) in
      case rand_bytes n of
        None \<Rightarrow> Inl (std_error ''CSPRNG (RAND_bytes) failed'')
      | Some buf \<Rightarrow> Inr (bytes_to_hex (take n buf)))"

text \<open>\<open>new_ctx\<close> and \<open>digest\<close> stand for the allocation of the context and for the three digest calls.\<close>

definition sha256_hex :: "bool \<Rightarrow> (string \<Rightarrow> string option) \<Rightarrow> string \<Rightarrow> std_exception + string" where
  "sha256_hex new_ctx digest s =
     (if \<not> new_ctx then Inl (std_error ''EVP_MD_CTX_new failed'')
      else case digest s of
        None \<Rightarrow> Inl (std_error ''EVP SHA-256 digest failed'')
      | Some hash \<Rightarrow> Inr (bytes_to_hex hash))"

section \<open>Times\<close>

definition pg_to_iso8601 :: "string \<Rightarrow> string" where
  "pg_to_iso8601 ts =
     (if length ts < 19 \<or> ts ! 10 \<noteq> CHR '' '' then ts
      else
        let out = take 10 ts @ ''T'' @ substr ts 11 8;
            rest = drop 19 ts;
            offset = (if rest \<noteq> [] \<and> hd rest = CHR ''.'' then dropWhile is_digit_char (tl rest) else rest)
        in if offset = ''+00'' \<or> offset = ''+00:00'' \<or> offset = ''Z'' \<or> offset = [] then out @ ''Z''
           else out @ offset)"


section \<open>Numbers are read back\<close>

lemma nat_to_string_list_all: "list_all is_digit_char (nat_to_string n)"
  by (auto simp: list_all_iff dest: nat_to_string_digits)

lemma takeWhile_digits [simp]: "takeWhile is_digit_char (nat_to_string n) = nat_to_string n"
  by (auto dest: nat_to_string_digits)

lemma stoi_int_to_string:
  assumes "- (2 ^ 31) \<le> n" "n < 2 ^ 31"
  shows "stoi (int_to_string n) = Inr n"
proof (cases "n < 0")
  case True
  then have "int_to_string n = CHR ''-'' # nat_to_string (nat (- n))" by (simp add: int_to_string_def)
  then show ?thesis using True assms by (simp add: stoi_def is_c_space_def Let_def)
next
  case False
  obtain c cs where s: "nat_to_string (nat n) = c # cs" by (cases "nat_to_string (nat n)") auto
  then have "is_digit_char c" using nat_to_string_digits [of c "nat n"] by simp
  then have "\<not> is_c_space c" "c \<noteq> CHR ''-''" "c \<noteq> CHR ''+''" by (auto simp: byte_defs)
  then have "dropWhile is_c_space (int_to_string n) = nat_to_string (nat n)"
    "hd (nat_to_string (nat n)) \<noteq> CHR ''-''" "hd (nat_to_string (nat n)) \<noteq> CHR ''+''"
    using False s by (simp_all add: int_to_string_def)
  then show ?thesis using False assms by (simp add: stoi_def Let_def)
qed

section \<open>Connection strings are read back\<close>

text \<open>
  How libpq documents that it reads a \<open>key=value\<close> string: a value in quotes runs to the next quote, any
  other to the next blank, and a backslash takes the following character as it is.
\<close>

fun read_quoted :: "string \<Rightarrow> (string \<times> string) option" where
  "read_quoted [] = None"
| "read_quoted (c # cs) =
     (if c = squote then Some ([], cs)
      else if c = bslash then
        (case cs of [] \<Rightarrow> None | d # ds \<Rightarrow> map_option (\<lambda>(v, rest). (d # v, rest)) (read_quoted ds))
      else map_option (\<lambda>(v, rest). (c # v, rest)) (read_quoted cs))"

fun read_plain :: "string \<Rightarrow> string \<times> string" where
  "read_plain [] = ([], [])"
| "read_plain (c # cs) =
     (if is_c_space c then ([], c # cs)
      else if c = bslash then
        (case cs of [] \<Rightarrow> ([], []) | d # ds \<Rightarrow> (let (v, rest) = read_plain ds in (d # v, rest)))
      else (let (v, rest) = read_plain cs in (c # v, rest)))"

definition read_value :: "string \<Rightarrow> (string \<times> string) option" where
  "read_value s = (if s \<noteq> [] \<and> hd s = squote then read_quoted (tl s) else Some (read_plain s))"

lemma read_quoted_length: "read_quoted s = Some (v, rest) \<Longrightarrow> length rest < length s"
proof (induction s arbitrary: v rest rule: read_quoted.induct)
  case (2 c cs)
  then show ?case by (fastforce split: if_splits list.splits)
qed simp

lemma read_plain_length: "read_plain s = (v, rest) \<Longrightarrow> length rest \<le> length s"
proof (induction s arbitrary: v rest rule: read_plain.induct)
  case (2 c cs)
  then show ?case by (fastforce split: if_splits list.splits prod.splits)
qed simp

lemma read_value_length: "read_value s = Some (v, rest) \<Longrightarrow> length rest \<le> length s"
proof -
  assume r: "read_value s = Some (v, rest)"
  show ?thesis
  proof (cases "s \<noteq> [] \<and> hd s = squote")
    case True
    then have "length rest < length (tl s)" using r by (auto simp: read_value_def dest: read_quoted_length)
    then show ?thesis by simp
  next
    case False
    then show ?thesis using r read_plain_length [of s v rest] by (simp add: read_value_def split: if_splits)
  qed
qed

function conninfo_parse :: "string \<Rightarrow> (string \<times> string) list option" where
  "conninfo_parse s =
     (let t = dropWhile is_c_space s; name = takeWhile (\<lambda>c. c \<noteq> CHR ''='') t in
      if t = [] then Some []
      else case read_value (drop (length name + 1) t) of
        None \<Rightarrow> None
      | Some (v, rest) \<Rightarrow> map_option (\<lambda>ps. (name, v) # ps) (conninfo_parse rest))"
  by pat_completeness auto
termination
proof (relation "measure length")
  fix s t name x v rest
  assume t: "t = dropWhile is_c_space s" "t \<noteq> []" and "read_value (drop (length (name :: string) + 1) t) = Some x" "(v, rest) = x"
  then have "length rest \<le> length t - (length name + 1)" by (auto dest: read_value_length)
  then show "(rest, s) \<in> measure length"
    using t length_dropWhile_le [of is_c_space s] by (cases "length t") auto
qed simp

declare conninfo_parse.simps [simp del]

definition escaped :: "string \<Rightarrow> string" where
  "escaped v = concat (map (\<lambda>c. if c = bslash \<or> c = squote then [bslash, c] else [c]) v)"

lemma quote_loop_escaped: "quote_loop out v = out @ escaped v"
  by (induction out v rule: quote_loop.induct) (auto simp: escaped_def)

lemma quote_value_escaped: "quote_value v = squote # escaped v @ [squote]"
  by (simp add: quote_value_def quote_loop_escaped)

lemma read_quoted_escaped: "read_quoted (escaped v @ squote # rest) = Some (v, rest)"
  by (induction v) (auto simp: escaped_def)

lemma read_value_quote: "read_value (quote_value v @ rest) = Some (v, rest)"
  by (simp add: read_value_def quote_value_escaped read_quoted_escaped)

definition plain_text :: "string \<Rightarrow> bool" where
  "plain_text v \<longleftrightarrow> v \<noteq> [] \<and> list_all (\<lambda>c. \<not> is_c_space c \<and> c \<noteq> bslash \<and> c \<noteq> squote) v"

lemma read_plain_plain: "list_all (\<lambda>c. \<not> is_c_space c \<and> c \<noteq> bslash) v \<Longrightarrow> read_plain (v @ CHR '' '' # rest) = (v, CHR '' '' # rest)"
  by (induction v) (auto simp: is_c_space_def)

lemma read_value_plain: "plain_text v \<Longrightarrow> read_value (v @ CHR '' '' # rest) = Some (v, CHR '' '' # rest)"
  by (cases v) (auto simp: plain_text_def read_value_def read_plain_plain list_all_iff)

lemma int_to_string_plain: "plain_text (int_to_string n)"
  by (auto simp: plain_text_def int_to_string_def list_all_iff byte_defs dest!: nat_to_string_digits)

text \<open>One pair of the string: a name of letters, an equals sign and a value.\<close>

lemma conninfo_parse_pair:
  assumes "name \<noteq> []" "list_all is_lower_char name" "read_value s = Some (v, rest)"
  shows "conninfo_parse (name @ CHR ''='' # s) = map_option (\<lambda>ps. (name, v) # ps) (conninfo_parse rest)"
proof -
  have "\<not> is_c_space c" "c \<noteq> CHR ''=''" if "c \<in> set name" for c
    using assms(2) that by (auto simp: list_all_iff byte_defs)
  then have "dropWhile is_c_space (name @ CHR ''='' # s) = name @ CHR ''='' # s"
    "takeWhile (\<lambda>c. c \<noteq> CHR ''='') (name @ CHR ''='' # s) = name"
    using assms(1) by (cases name; simp add: takeWhile_append)+
  then show ?thesis using assms(1,3) by (simp add: conninfo_parse.simps [of "name @ CHR ''='' # s"])
qed

lemma conninfo_parse_blank: "conninfo_parse (CHR '' '' # s) = conninfo_parse s"
  by (simp add: conninfo_parse.simps [of "CHR '' '' # s"] conninfo_parse.simps [of s] is_c_space_def)

lemma conninfo_parse_Nil: "conninfo_parse [] = Some []"
  by (simp add: conninfo_parse.simps)


section \<open>Lists of values\<close>

text \<open>A field of a comma-separated list that survives: not empty, without commas, and without blanks at
  its ends.\<close>

definition csv_field :: "string \<Rightarrow> bool" where
  "csv_field p \<longleftrightarrow> p \<noteq> [] \<and> CHR '','' \<notin> set p \<and> \<not> is_csv_blank (hd p) \<and> \<not> is_csv_blank (last p)"

lemma getlines_join:
  "list_all (\<lambda>p. p \<noteq> [] \<and> d \<notin> set p) ps \<Longrightarrow> getlines d (join_char d ps) = ps"
proof (induction ps)
  case (Cons p ps)
  have p: "takeWhile (\<lambda>c. c \<noteq> d) p = p" "dropWhile (\<lambda>c. c \<noteq> d) p = []"
    using Cons.prems by (auto simp: takeWhile_eq_all_conv dropWhile_eq_Nil_conv)
  show ?case
  proof (cases "ps = []")
    case True
    then show ?thesis using Cons.prems by (simp add: getlines.simps [of d p] getlines.simps [of d "[]"] p del: dropWhile_eq_Nil_conv)
  next
    case False
    have *: "c \<noteq> d" if "c \<in> set p" for c using Cons.prems that by auto
    then have "takeWhile (\<lambda>c. c \<noteq> d) (p @ d # r) = p" "dropWhile (\<lambda>c. c \<noteq> d) (p @ d # r) = d # r" for r
      by (simp_all add: takeWhile_append dropWhile_append p)
    then show ?thesis
      using False Cons by (simp add: join_char_Cons getlines.simps [of d "p @ d # join_char d ps"])
  qed
qed (simp add: getlines.simps)

lemma split_csv_join: "list_all csv_field ps \<Longrightarrow> split_csv_vec (join_char CHR '','' ps) = ps"
proof -
  assume ok: "list_all csv_field ps"
  have lines: "getlines CHR '','' (join_char CHR '','' ps) = ps"
    using ok by (intro getlines_join) (auto simp: list_all_iff csv_field_def)
  have "dropWhile is_csv_blank p = p" "dropWhile is_csv_blank (rev p) = rev p" if "p \<in> set ps" for p
    using ok that by (auto simp: list_all_iff csv_field_def dropWhile_eq_self_iff hd_rev)
  then have "map (\<lambda>piece. let rest = dropWhile is_csv_blank piece in
      if rest = [] then [] else [rev (dropWhile is_csv_blank (rev rest))]) ps = map (\<lambda>p. [p]) ps"
    using ok by (auto simp: list_all_iff csv_field_def)
  then show ?thesis by (simp only: split_csv_vec_def lines concat_map_singleton list.map_ident)
qed

section \<open>Hexadecimal and times\<close>

lemma length_bytes_to_hex [simp]: "length (bytes_to_hex bs) = 2 * length bs"
  by (induction bs) (simp_all add: bytes_to_hex_def)

lemma random_hex_length:
  assumes "random_hex rand_bytes n = Inr h" "\<And>k buf. rand_bytes k = Some buf \<Longrightarrow> length buf = k"
  shows "length h = 2 * min n 64"
  using assms(1) assms(2) [of n] assms(2) [of 64]
  by (auto simp: random_hex_def Let_def split: option.splits if_splits)

lemma pg_to_iso8601_idempotent: "pg_to_iso8601 (pg_to_iso8601 ts) = pg_to_iso8601 ts"
proof (cases "length ts < 19 \<or> ts ! 10 \<noteq> CHR '' ''")
  case False
  then have "take 10 (pg_to_iso8601 ts) = take 10 ts" "pg_to_iso8601 ts ! 10 = CHR ''T''"
    by (auto simp: pg_to_iso8601_def Let_def nth_append)
  then show ?thesis by (simp add: pg_to_iso8601_def [of "pg_to_iso8601 ts"])
qed (simp add: pg_to_iso8601_def)

lemma mask_email_hides:
  assumes "CHR ''@'' \<notin> set local" "CHR ''@'' \<notin> set local'" "length local > 1" "length local' > 1" "hd local = hd local'"
  shows "mask_email (local @ CHR ''@'' # domain) = mask_email (local' @ CHR ''@'' # domain)"
proof -
  have "mask_email (l @ CHR ''@'' # domain) = hd l # ''***'' @ CHR ''@'' # domain"
    if "CHR ''@'' \<notin> set l" "1 < length l" for l
    using that find_char_append [of "CHR ''@''" l domain] by (cases l) (simp_all add: mask_email_def)
  then show ?thesis using assms by simp
qed

end
