(* ===== verification/Config.thy ===== *)
theory Config
  imports Utils
begin

text \<open>
  \<open>src/src/utils/Config.hpp\<close>: the configuration document, the expansion of environment placeholders in it,
  and the typed lookups with their environment overrides.  The environment, the files and the JSON parser
  are parameters.
\<close>

section \<open>Documents\<close>

text \<open>\<open>nlohmann::json\<close> as a value; an object lists its members in order.\<close>

datatype json_value =
    JNull
  | JBool bool
  | JInt int
  | JReal real
  | JString string
  | JArray "json_value list"
  | JObject "(string \<times> json_value) list"

type_synonym environ = "string \<Rightarrow> string option"

text \<open>\<open>j.at(key)\<close>, \<^const>\<open>None\<close> where it throws.\<close>

fun json_at :: "json_value \<Rightarrow> string \<Rightarrow> json_value option" where
  "json_at (JObject ms) k = map_of ms k"
| "json_at _ k = None"

section \<open>Placeholders\<close>

text \<open>The value of the expression between the braces.\<close>

definition placeholder_value :: "environ \<Rightarrow> string \<Rightarrow> string" where
  "placeholder_value getenv expr =
     (let (var_name, default_value, has_default) =
            (case find_sub '':-'' expr of
               Some sep \<Rightarrow> (take sep expr, drop (sep + 2) expr, True)
             | None \<Rightarrow> (expr, [], False));
          env_value = (if var_name = [] then None else getenv var_name)
      in case env_value of
           Some v \<Rightarrow> v
         | None \<Rightarrow> if has_default then default_value else [])"

text \<open>The loop of \<open>expand_string\<close>, on what is left of the text.\<close>

function expand_loop :: "environ \<Rightarrow> string \<Rightarrow> string \<Rightarrow> string" where
  "expand_loop getenv out s =
     (if s = [] then out
      else if 1 < length s \<and> s ! 0 = CHR ''$'' \<and> s ! 1 = CHR 0x7B then
        (case find_char CHR 0x7D (drop 2 s) of
           None \<Rightarrow> out @ s
         | Some n \<Rightarrow> expand_loop getenv (out @ placeholder_value getenv (take n (drop 2 s))) (drop (n + 3) s))
      else expand_loop getenv (out @ [hd s]) (tl s))"
  by pat_completeness auto
termination
  by (relation "measure (\<lambda>(getenv, out, s). length s)") auto

declare expand_loop.simps [simp del]

definition expand_string :: "environ \<Rightarrow> string \<Rightarrow> string" where
  "expand_string getenv s = expand_loop getenv [] s"

fun substitute_env_placeholders :: "environ \<Rightarrow> json_value \<Rightarrow> json_value" where
  "substitute_env_placeholders getenv (JString raw) =
     (if find_sub [CHR ''$'', CHR 0x7B] raw \<noteq> None then JString (expand_string getenv raw) else JString raw)"
| "substitute_env_placeholders getenv (JObject ms) =
     JObject (map (\<lambda>(k, v). (k, substitute_env_placeholders getenv v)) ms)"
| "substitute_env_placeholders getenv (JArray vs) = JArray (map (substitute_env_placeholders getenv) vs)"
| "substitute_env_placeholders getenv v = v"

section \<open>Configurations\<close>

record app_config =
  config_data :: json_value
  config_path :: string

text \<open>\<open>open_file\<close> reads a file, \<open>parse\<close> is the JSON parser: the message of its error and what it leaves in
  the document, or the document.\<close>

record config_io =
  open_file :: "string \<Rightarrow> string option"
  parse :: "string \<Rightarrow> string \<times> json_value + json_value"

definition load_from_file :: "config_io \<Rightarrow> environ \<Rightarrow> string \<Rightarrow> app_config \<Rightarrow> (std_exception + unit) \<times> app_config" where
  "load_from_file io getenv path cfg =
     (case open_file io path of
        None \<Rightarrow> (Inl (std_error (''Failed to open config file: '' @ path)), cfg)
      | Some content \<Rightarrow>
          (case parse io content of
             Inl (what, left) \<Rightarrow> (Inl (std_error (''Failed to parse config file: '' @ what)), cfg\<lparr>config_data := left\<rparr>)
           | Inr doc \<Rightarrow> (Inr (), cfg\<lparr>config_data := substitute_env_placeholders getenv doc\<rparr>)))"

definition new_config :: "config_io \<Rightarrow> environ \<Rightarrow> string \<Rightarrow> std_exception + app_config" where
  "new_config io getenv config_file =
     (let (result, cfg) = load_from_file io getenv config_file \<lparr>config_data = JNull, config_path = config_file\<rparr>
      in map_sum id (\<lambda>_. cfg) result)"

definition reload :: "config_io \<Rightarrow> environ \<Rightarrow> app_config \<Rightarrow> (std_exception + unit) \<times> app_config" where
  "reload io getenv cfg = load_from_file io getenv (config_path cfg) cfg"

section \<open>Lookups\<close>

text \<open>\<open>get_nested_value\<close> walks along the dots of the key; \<open>conv\<close> is \<open>get<T>\<close>, \<^const>\<open>None\<close> where it throws.\<close>

function nested :: "json_value \<Rightarrow> string \<Rightarrow> json_value option" where
  "nested current key =
     (case find_char CHR ''.'' key of
        None \<Rightarrow> json_at current key
      | Some pos \<Rightarrow>
          (case json_at current (take pos key) of
             None \<Rightarrow> None
           | Some next \<Rightarrow> nested next (drop (pos + 1) key)))"
  by pat_completeness auto
termination
  by (relation "measure (\<lambda>(current, key). length key)") (auto dest!: find_char_SomeD)

declare nested.simps [simp del]

definition get_nested_value :: "(json_value \<Rightarrow> 'a option) \<Rightarrow> app_config \<Rightarrow> string \<Rightarrow> 'a option" where
  "get_nested_value conv cfg key = Option.bind (nested (config_data cfg) key) conv"

text \<open>\<open>parse_env_value\<close> for the types in use, and nlohmann's conversions to them.\<close>

definition env_string :: "string \<Rightarrow> std_exception + string" where
  "env_string v = Inr v"

definition env_int :: "string \<Rightarrow> std_exception + int" where
  "env_int v = stoi v"

definition env_bool :: "string \<Rightarrow> std_exception + bool" where
  "env_bool v = Inr (v = ''true'' \<or> v = ''1'' \<or> v = ''yes'')"

fun as_string :: "json_value \<Rightarrow> string option" where
  "as_string (JString s) = Some s"
| "as_string _ = None"

fun as_bool :: "json_value \<Rightarrow> bool option" where
  "as_bool (JBool b) = Some b"
| "as_bool _ = None"

fun as_int :: "json_value \<Rightarrow> int option" where
  "as_int (JInt n) = Some (to_int32 n)"
| "as_int (JReal x) = Some (to_int32 (if x < 0 then - \<lfloor>- x\<rfloor> else \<lfloor>x\<rfloor>))"
| "as_int (JBool b) = Some (if b then 1 else 0)"
| "as_int _ = None"

definition get ::
  "(string \<Rightarrow> std_exception + 'a) \<Rightarrow> (json_value \<Rightarrow> 'a option) \<Rightarrow> environ \<Rightarrow> app_config \<Rightarrow> string \<Rightarrow> string \<Rightarrow> 'a \<Rightarrow>
     std_exception + 'a" where
  "get parse_env conv getenv cfg key env_var default_value =
     (case (if env_var \<noteq> [] then getenv env_var else None) of
        Some v \<Rightarrow> parse_env v
      | None \<Rightarrow> (case get_nested_value conv cfg key of Some a \<Rightarrow> Inr a | None \<Rightarrow> Inr default_value))"

definition require ::
  "(string \<Rightarrow> std_exception + 'a) \<Rightarrow> (json_value \<Rightarrow> 'a option) \<Rightarrow> environ \<Rightarrow> app_config \<Rightarrow> string \<Rightarrow> string \<Rightarrow>
     std_exception + 'a" where
  "require parse_env conv getenv cfg key env_var =
     (case (if env_var \<noteq> [] then getenv env_var else None) of
        Some v \<Rightarrow> parse_env v
      | None \<Rightarrow>
          (case get_nested_value conv cfg key of
             Some a \<Rightarrow> Inr a
           | None \<Rightarrow> Inl (std_error (''Required configuration missing: key='' @ [squote] @ key @ [squote] @ '' env='' @
               [squote] @ env_var @ [squote]))))"

definition get_optional :: "(json_value \<Rightarrow> 'a option) \<Rightarrow> app_config \<Rightarrow> string \<Rightarrow> 'a option" where
  "get_optional conv cfg key = get_nested_value conv cfg key"

abbreviation "get_string \<equiv> get env_string as_string"
abbreviation "get_int \<equiv> get env_int as_int"
abbreviation "get_bool \<equiv> get env_bool as_bool"

section \<open>The global instance\<close>

type_synonym global_config = "app_config option"

definition initialize_config ::
  "config_io \<Rightarrow> environ \<Rightarrow> string \<Rightarrow> global_config \<Rightarrow> (std_exception + unit) \<times> global_config" where
  "initialize_config io getenv config_file g =
     (if g \<noteq> None then (Inl (std_error ''Configuration already initialized''), g)
      else case new_config io getenv config_file of Inl e \<Rightarrow> (Inl e, g) | Inr cfg \<Rightarrow> (Inr (), Some cfg))"

definition get_config :: "global_config \<Rightarrow> std_exception + app_config" where
  "get_config g = (case g of None \<Rightarrow> Inl (std_error ''Configuration not initialized'') | Some cfg \<Rightarrow> Inr cfg)"

definition config_is_initialized :: "global_config \<Rightarrow> bool" where
  "config_is_initialized g \<longleftrightarrow> g \<noteq> None"

definition shutdown_config :: "global_config \<Rightarrow> global_config" where
  "shutdown_config g = None"

text \<open>The instance is only set once the file has been loaded, so a start that fails can be repeated.\<close>

interpretation config_instance:
  clean_instance "\<lambda>g r g'. initialize_config io getenv config_file g = (r, g')" "\<lambda>_. True" for io getenv config_file
  by unfold_locales (auto simp: initialize_config_def split: sum.splits)

section \<open>Expansion of a text\<close>

text \<open>A text as its author writes it: literal text without dollar signs, and placeholders with or without a
  default.\<close>

datatype piece = Plain string | Variable string "string option"

fun piece_text :: "piece \<Rightarrow> string" where
  "piece_text (Plain s) = s"
| "piece_text (Variable name None) = [CHR ''$'', CHR 0x7B] @ name @ [CHR 0x7D]"
| "piece_text (Variable name (Some d)) = [CHR ''$'', CHR 0x7B] @ name @ '':-'' @ d @ [CHR 0x7D]"

fun piece_ok :: "piece \<Rightarrow> bool" where
  "piece_ok (Plain s) = (CHR ''$'' \<notin> set s)"
| "piece_ok (Variable name d) =
     (name \<noteq> [] \<and> CHR 0x7D \<notin> set name \<and> CHR '':'' \<notin> set name \<and> (\<forall>t. d = Some t \<longrightarrow> CHR 0x7D \<notin> set t))"

fun piece_value :: "environ \<Rightarrow> piece \<Rightarrow> string" where
  "piece_value getenv (Plain s) = s"
| "piece_value getenv (Variable name d) =
     (case getenv name of Some v \<Rightarrow> v | None \<Rightarrow> (case d of Some t \<Rightarrow> t | None \<Rightarrow> []))"

lemma expand_loop_plain:
  "CHR ''$'' \<notin> set s \<Longrightarrow> expand_loop getenv out (s @ t) = expand_loop getenv (out @ s) t"
proof (induction s arbitrary: out)
  case (Cons c s)
  then show ?case by (auto simp: expand_loop.simps [of getenv out "c # s @ t"])
qed simp

lemma find_sub_separator:
  "CHR '':'' \<notin> set name \<Longrightarrow> find_sub '':-'' (name @ CHR '':'' # CHR ''-'' # d) = Some (length name)"
  by (induction name) auto

lemma find_sub_no_separator: "CHR '':'' \<notin> set name \<Longrightarrow> find_sub '':-'' name = None"
  by (induction name) auto

lemma expand_loop_placeholder:
  "CHR 0x7D \<notin> set expr \<Longrightarrow>
     expand_loop getenv out ([CHR ''$'', CHR 0x7B] @ expr @ [CHR 0x7D] @ t) =
     expand_loop getenv (out @ placeholder_value getenv expr) t"
  by (simp add: expand_loop.simps [of getenv out "CHR ''$'' # CHR 0x7B # expr @ CHR 0x7D # t"] find_char_append numeral_3_eq_3)

lemma expand_loop_pieces:
  "list_all piece_ok ps \<Longrightarrow>
     expand_loop getenv out (concat (map piece_text ps)) = out @ concat (map (piece_value getenv) ps)"
proof (induction ps arbitrary: out)
  case Nil
  then show ?case by (simp add: expand_loop.simps)
next
  case (Cons p ps)
  show ?case
  proof (cases p)
    case (Plain s)
    then show ?thesis using Cons by (simp add: expand_loop_plain)
  next
    case (Variable name d)
    let ?expr = "name @ (case d of None \<Rightarrow> [] | Some t \<Rightarrow> '':-'' @ t)"
    have "piece_text p = [CHR ''$'', CHR 0x7B] @ ?expr @ [CHR 0x7D]"
      using Variable by (cases d) simp_all
    moreover have "CHR 0x7D \<notin> set ?expr" using Variable Cons.prems by (cases d) auto
    moreover have "placeholder_value getenv ?expr = piece_value getenv p"
      using Variable Cons.prems
      by (cases d) (auto simp: placeholder_value_def find_sub_separator find_sub_no_separator split: option.split)
    ultimately show ?thesis
      using Cons expand_loop_placeholder [of ?expr getenv out "concat (map piece_text ps)"] by simp
  qed
qed

text \<open>C32. The expansion of a text replaces each placeholder by the value of its variable, or by its default
  when the variable is not set, once and from left to right: nothing that a variable holds is expanded
  again, and the text around the placeholders stays as it is.\<close>

theorem expand_string_pieces:
  assumes "list_all piece_ok ps"
  shows "expand_string getenv (concat (map piece_text ps)) = concat (map (piece_value getenv) ps)"
  by (simp add: expand_string_def expand_loop_pieces [OF assms])

theorem expand_string_pieces_witness:
  "expand_string (\<lambda>v. if v = ''H'' then Some [CHR ''$'', CHR 0x7B, CHR ''P'', CHR 0x7D] else None)
     (''tcp://'' @ [CHR ''$'', CHR 0x7B] @ ''H'' @ [CHR 0x7D] @ '':'' @ [CHR ''$'', CHR 0x7B] @ ''P:-79'' @ [CHR 0x7D]) =
   ''tcp://'' @ [CHR ''$'', CHR 0x7B, CHR ''P'', CHR 0x7D] @ '':79''"
  using expand_string_pieces [of "[Plain ''tcp://'', Variable ''H'' None, Plain '':'', Variable ''P'' (Some ''79'')]"
      "\<lambda>v. if v = ''H'' then Some [CHR ''$'', CHR 0x7B, CHR ''P'', CHR 0x7D] else None"]
  by simp

end
