(* ===== verification/Cache.thy ===== *)
theory Cache
  imports Utils
begin

text \<open>
  \<open>src/src/cache/Cache.hpp\<close>: the Redis cache manager, its fail-open wrappers, the global instance, and the
  read-through helper \<open>cached\<close>.  redis++ is a parameter: the constructors of its clients and its commands.
\<close>

section \<open>Addresses\<close>

record redis_address =
  host :: string
  port :: int

definition default_address :: redis_address where
  "default_address = \<lparr>host = ''127.0.0.1'', port = 6379\<rparr>"

definition parse_redis_url :: "string \<Rightarrow> std_exception + redis_address" where
  "parse_redis_url url =
     (let addr = (if prefix ''tcp://'' url then drop 6 url else url) in
      case find_char CHR '':'' addr of
        None \<Rightarrow> Inr (if addr \<noteq> [] then default_address\<lparr>host := addr\<rparr> else default_address)
      | Some colon \<Rightarrow>
          let port_str = drop (colon + 1) addr in
          (case stoi port_str of
             Inl _ \<Rightarrow> Inl (std_error (''Invalid Redis port in connection string: '' @ [squote] @ port_str @ [squote]))
           | Inr p \<Rightarrow> Inr \<lparr>host = take colon addr, port = p\<rparr>))"

definition sentinel_node :: "string \<Rightarrow> (string \<times> int) list" where
  "sentinel_node node =
     (case find_char CHR '':'' node of
        None \<Rightarrow> []
      | Some colon \<Rightarrow> (case stoi (drop (colon + 1) node) of Inl _ \<Rightarrow> [] | Inr p \<Rightarrow> [(take colon node, p)]))"

definition parse_sentinel_nodes_csv :: "string \<Rightarrow> (string \<times> int) list" where
  "parse_sentinel_nodes_csv csv = concat (map sentinel_node (split_csv_vec csv))"

section \<open>Clients\<close>

text \<open>What a command or a constructor of redis++ throws: its own \<open>Error\<close>, or anything else.\<close>

datatype redis_failure = RedisError std_exception | OtherFailure thrown

type_synonym ('s, 'a) command = "'s \<Rightarrow> (redis_failure + 'a) \<times> 's"

record connection_options =
  opt_host :: "string option"
  opt_port :: "int option"
  opt_connect_timeout :: "int option"
  opt_socket_timeout :: "int option"
  opt_password :: "string option"

record pool_options =
  opt_size :: nat
  opt_wait_timeout :: int

record sentinel_options =
  opt_nodes :: "(string \<times> int) list"
  sentinel_connect_timeout :: int
  sentinel_socket_timeout :: int
  sentinel_password_option :: "string option"

record ('c, 's) redis =
  new_redis :: "connection_options \<Rightarrow> pool_options \<Rightarrow> redis_failure + 'c"
  new_sentinel_redis :: "sentinel_options \<Rightarrow> string \<Rightarrow> connection_options \<Rightarrow> pool_options \<Rightarrow> redis_failure + 'c"
  redis_ping :: "'c \<Rightarrow> ('s, unit) command"
  redis_set :: "'c \<Rightarrow> string \<Rightarrow> string \<Rightarrow> ('s, unit) command"
  redis_setex :: "'c \<Rightarrow> string \<Rightarrow> int \<Rightarrow> string \<Rightarrow> ('s, unit) command"
  redis_set_nx :: "'c \<Rightarrow> string \<Rightarrow> string \<Rightarrow> int \<Rightarrow> ('s, bool) command"
  redis_get :: "'c \<Rightarrow> string \<Rightarrow> ('s, string option) command"
  redis_del :: "'c \<Rightarrow> string list \<Rightarrow> ('s, int) command"
  redis_exists :: "'c \<Rightarrow> string \<Rightarrow> ('s, int) command"
  redis_expire :: "'c \<Rightarrow> string \<Rightarrow> int \<Rightarrow> ('s, bool) command"
  redis_ttl :: "'c \<Rightarrow> string \<Rightarrow> ('s, int) command"
  redis_incr :: "'c \<Rightarrow> string \<Rightarrow> ('s, int) command"
  redis_incrby :: "'c \<Rightarrow> string \<Rightarrow> int \<Rightarrow> ('s, int) command"
  redis_decr :: "'c \<Rightarrow> string \<Rightarrow> ('s, int) command"
  redis_decrby :: "'c \<Rightarrow> string \<Rightarrow> int \<Rightarrow> ('s, int) command"
  redis_sadd :: "'c \<Rightarrow> string \<Rightarrow> string \<Rightarrow> ('s, int) command"
  redis_smembers :: "'c \<Rightarrow> string \<Rightarrow> ('s, string list) command"
  redis_zadd :: "'c \<Rightarrow> string \<Rightarrow> string \<Rightarrow> real \<Rightarrow> ('s, int) command"
  redis_publish :: "'c \<Rightarrow> string \<Rightarrow> string \<Rightarrow> ('s, int) command"

definition some_password :: "string \<Rightarrow> string option" where
  "some_password password = (if password \<noteq> [] then Some password else None)"

definition make_standalone_client ::
  "('c, 's) redis \<Rightarrow> string \<Rightarrow> int \<Rightarrow> nat \<Rightarrow> string \<Rightarrow> int \<Rightarrow> int \<Rightarrow> redis_failure + 'c" where
  "make_standalone_client R h p pool_size password socket_timeout pool_wait_timeout =
     new_redis R
       \<lparr>opt_host = Some h, opt_port = Some p, opt_connect_timeout = None, opt_socket_timeout = Some socket_timeout,
        opt_password = some_password password\<rparr>
       \<lparr>opt_size = pool_size, opt_wait_timeout = pool_wait_timeout\<rparr>"

definition make_sentinel_client ::
  "('c, 's) redis \<Rightarrow> string \<Rightarrow> (string \<times> int) list \<Rightarrow> nat \<Rightarrow> string \<Rightarrow> string \<Rightarrow> int \<Rightarrow> int \<Rightarrow> redis_failure + 'c" where
  "make_sentinel_client R master_name sentinels pool_size password sentinel_password socket_timeout pool_wait_timeout =
     (let effective_sentinel_pw = (if sentinel_password = [] then password else sentinel_password) in
      new_sentinel_redis R
        \<lparr>opt_nodes = sentinels, sentinel_connect_timeout = 200, sentinel_socket_timeout = 200,
         sentinel_password_option = some_password effective_sentinel_pw\<rparr>
        master_name
        \<lparr>opt_host = None, opt_port = None, opt_connect_timeout = Some 200,
         opt_socket_timeout = Some socket_timeout, opt_password = some_password password\<rparr>
        \<lparr>opt_size = pool_size, opt_wait_timeout = pool_wait_timeout\<rparr>)"

section \<open>The manager\<close>

record 'c cache_manager =
  redis_client :: "'c option"
  use_sentinel :: bool
  initialized :: bool

definition new_cache :: "'c cache_manager" where
  "new_cache = \<lparr>redis_client = None, use_sentinel = False, initialized = False\<rparr>"

text \<open>The common part of the two \<open>initialize\<close> functions: the client is kept even when the ping fails, and
  only an \<open>Error\<close> of redis++ is turned into a message.\<close>

definition start_cache ::
  "('c, 's) redis \<Rightarrow> redis_failure + 'c \<Rightarrow> bool \<Rightarrow> string \<Rightarrow> 'c cache_manager \<Rightarrow> 's \<Rightarrow>
     (thrown + unit) \<times> 'c cache_manager \<times> 's" where
  "start_cache R client sentinel message m s =
     (let failed = (\<lambda>x. case x of
             RedisError e \<Rightarrow> Inl (Thrown (std_error (message @ ex_what e)))
           | OtherFailure y \<Rightarrow> Inl y)
      in case client of
        Inl x \<Rightarrow> (failed x, m, s)
      | Inr c \<Rightarrow>
          (case redis_ping R c s of
             (Inl x, s') \<Rightarrow> (failed x, m\<lparr>redis_client := Some c\<rparr>, s')
           | (Inr _, s') \<Rightarrow> (Inr (), m\<lparr>redis_client := Some c, initialized := True, use_sentinel := sentinel\<rparr>, s')))"

definition already_initialized :: thrown where
  "already_initialized = Thrown (std_error ''Cache already initialized'')"

definition initialize ::
  "('c, 's) redis \<Rightarrow> string \<Rightarrow> nat \<Rightarrow> string \<Rightarrow> int \<Rightarrow> int \<Rightarrow> 'c cache_manager \<Rightarrow> 's \<Rightarrow>
     (thrown + unit) \<times> 'c cache_manager \<times> 's" where
  "initialize R connection_str pool_size password socket_timeout pool_wait_timeout m s =
     (if initialized m then (Inl already_initialized, m, s)
      else case parse_redis_url connection_str of
        Inl e \<Rightarrow> (Inl (Thrown e), m, s)
      | Inr addr \<Rightarrow>
          start_cache R
            (make_standalone_client R (host addr) (port addr) pool_size password socket_timeout pool_wait_timeout)
            False ''Redis initialization failed: '' m s)"

definition initialize_with_sentinel ::
  "('c, 's) redis \<Rightarrow> string \<Rightarrow> (string \<times> int) list \<Rightarrow> nat \<Rightarrow> string \<Rightarrow> string \<Rightarrow> int \<Rightarrow> int \<Rightarrow> 'c cache_manager \<Rightarrow>
     's \<Rightarrow> (thrown + unit) \<times> 'c cache_manager \<times> 's" where
  "initialize_with_sentinel R master sentinels pool_size password sentinel_pw socket_timeout pool_wait_timeout m s =
     (if initialized m then (Inl already_initialized, m, s)
      else start_cache R
        (make_sentinel_client R master sentinels pool_size password sentinel_pw socket_timeout pool_wait_timeout)
        True ''Redis Sentinel initialization failed: '' m s)"

text \<open>\<open>check_initialized\<close>, and the shape of the wrappers: an \<open>Error\<close> of redis++ becomes a default, anything
  else passes.\<close>

definition check_initialized :: "'c cache_manager \<Rightarrow> thrown + unit" where
  "check_initialized m = (if \<not> initialized m then Inl (Thrown (std_error ''Cache not initialized'')) else Inr ())"

definition with_client ::
  "(std_exception \<Rightarrow> thrown + 'a) \<Rightarrow> 'c cache_manager \<Rightarrow> ('c \<Rightarrow> ('s, 'b) command) \<Rightarrow> ('b \<Rightarrow> 'a) \<Rightarrow> ('s, 'a) callable" where
  "with_client on_error m cmd f s =
     (case check_initialized m of
        Inl x \<Rightarrow> (Inl x, s)
      | Inr _ \<Rightarrow>
          (case cmd (the (redis_client m)) s of
             (Inl (RedisError e), s') \<Rightarrow> (on_error e, s')
           | (Inl (OtherFailure x), s') \<Rightarrow> (Inl x, s')
           | (Inr b, s') \<Rightarrow> (Inr (f b), s')))"

abbreviation fail_open ::
  "'a \<Rightarrow> 'c cache_manager \<Rightarrow> ('c \<Rightarrow> ('s, 'b) command) \<Rightarrow> ('b \<Rightarrow> 'a) \<Rightarrow> ('s, 'a) callable" where
  "fail_open d \<equiv> with_client (\<lambda>_. Inr d)"

abbreviation rethrow ::
  "'c cache_manager \<Rightarrow> ('c \<Rightarrow> ('s, 'b) command) \<Rightarrow> ('b \<Rightarrow> 'a) \<Rightarrow> ('s, 'a) callable" where
  "rethrow \<equiv> with_client (\<lambda>e. Inl (Thrown e))"

definition set_key :: "('c, 's) redis \<Rightarrow> 'c cache_manager \<Rightarrow> string \<Rightarrow> string \<Rightarrow> int \<Rightarrow> ('s, bool) callable" where
  "set_key R m key v ttl =
     fail_open False m (\<lambda>c. if ttl > 0 then redis_setex R c key ttl v else redis_set R c key v) (\<lambda>_. True)"

definition set_nx :: "('c, 's) redis \<Rightarrow> 'c cache_manager \<Rightarrow> string \<Rightarrow> string \<Rightarrow> int \<Rightarrow> ('s, bool) callable" where
  "set_nx R m key v ttl = fail_open False m (\<lambda>c. redis_set_nx R c key v ttl) id"

definition get_key :: "('c, 's) redis \<Rightarrow> 'c cache_manager \<Rightarrow> string \<Rightarrow> ('s, string option) callable" where
  "get_key R m key = fail_open None m (\<lambda>c. redis_get R c key) id"

definition del :: "('c, 's) redis \<Rightarrow> 'c cache_manager \<Rightarrow> string \<Rightarrow> ('s, int) callable" where
  "del R m key = fail_open 0 m (\<lambda>c. redis_del R c [key]) id"

definition del_many :: "('c, 's) redis \<Rightarrow> 'c cache_manager \<Rightarrow> string list \<Rightarrow> ('s, int) callable" where
  "del_many R m ks = fail_open 0 m (\<lambda>c. redis_del R c ks) id"

definition key_exists :: "('c, 's) redis \<Rightarrow> 'c cache_manager \<Rightarrow> string \<Rightarrow> ('s, bool) callable" where
  "key_exists R m key = fail_open False m (\<lambda>c. redis_exists R c key) (\<lambda>n. n > 0)"

definition expire :: "('c, 's) redis \<Rightarrow> 'c cache_manager \<Rightarrow> string \<Rightarrow> int \<Rightarrow> ('s, bool) callable" where
  "expire R m key seconds = fail_open False m (\<lambda>c. redis_expire R c key seconds) id"

definition ttl_of :: "('c, 's) redis \<Rightarrow> 'c cache_manager \<Rightarrow> string \<Rightarrow> ('s, int) callable" where
  "ttl_of R m key = fail_open (- 2) m (\<lambda>c. redis_ttl R c key) id"

definition incr :: "('c, 's) redis \<Rightarrow> 'c cache_manager \<Rightarrow> string \<Rightarrow> int \<Rightarrow> ('s, int) callable" where
  "incr R m key increment =
     rethrow m (\<lambda>c. if increment = 1 then redis_incr R c key else redis_incrby R c key increment) id"

definition decr :: "('c, 's) redis \<Rightarrow> 'c cache_manager \<Rightarrow> string \<Rightarrow> int \<Rightarrow> ('s, int) callable" where
  "decr R m key decrement =
     rethrow m (\<lambda>c. if decrement = 1 then redis_decr R c key else redis_decrby R c key decrement) id"

definition sadd :: "('c, 's) redis \<Rightarrow> 'c cache_manager \<Rightarrow> string \<Rightarrow> string \<Rightarrow> ('s, int) callable" where
  "sadd R m key member = fail_open 0 m (\<lambda>c. redis_sadd R c key member) id"

definition smembers :: "('c, 's) redis \<Rightarrow> 'c cache_manager \<Rightarrow> string \<Rightarrow> ('s, string list) callable" where
  "smembers R m key = fail_open [] m (\<lambda>c. redis_smembers R c key) id"

definition zadd :: "('c, 's) redis \<Rightarrow> 'c cache_manager \<Rightarrow> string \<Rightarrow> string \<Rightarrow> real \<Rightarrow> ('s, int) callable" where
  "zadd R m key member score = fail_open 0 m (\<lambda>c. redis_zadd R c key member score) id"

definition publish :: "('c, 's) redis \<Rightarrow> 'c cache_manager \<Rightarrow> string \<Rightarrow> string \<Rightarrow> ('s, int) callable" where
  "publish R m channel message = fail_open 0 m (\<lambda>c. redis_publish R c channel message) id"

definition health_check :: "('c, 's) redis \<Rightarrow> 'c cache_manager \<Rightarrow> ('s, bool) callable" where
  "health_check R m s =
     (if \<not> initialized m then (Inr False, s)
      else case redis_ping R (the (redis_client m)) s of
        (Inl (RedisError e), s') \<Rightarrow> (Inr False, s')
      | (Inl (OtherFailure x), s') \<Rightarrow> (Inl x, s')
      | (Inr _, s') \<Rightarrow> (Inr True, s'))"

definition shutdown :: "'c cache_manager \<Rightarrow> 'c cache_manager" where
  "shutdown m = (if initialized m then m\<lparr>redis_client := None, initialized := False, use_sentinel := False\<rparr> else m)"

definition get_client :: "'c cache_manager \<Rightarrow> thrown + 'c" where
  "get_client m = map_sum id (\<lambda>_. the (redis_client m)) (check_initialized m)"

section \<open>The global instance and the read-through helper\<close>

type_synonym 'c global_cache = "'c cache_manager option"

definition initialize_global ::
  "('c, 's) redis \<Rightarrow> string \<Rightarrow> nat \<Rightarrow> string \<Rightarrow> int \<Rightarrow> int \<Rightarrow> 'c global_cache \<Rightarrow> 's \<Rightarrow>
     (thrown + unit) \<times> 'c global_cache \<times> 's" where
  "initialize_global R connection_str pool_size password socket_timeout pool_wait_timeout g s =
     (if g \<noteq> None then (Inl already_initialized, g, s)
      else let (result, m, s') =
             initialize R connection_str pool_size password socket_timeout pool_wait_timeout new_cache s
           in (result, Some m, s'))"

definition initialize_global_sentinel ::
  "('c, 's) redis \<Rightarrow> string \<Rightarrow> (string \<times> int) list \<Rightarrow> nat \<Rightarrow> string \<Rightarrow> string \<Rightarrow> int \<Rightarrow> int \<Rightarrow> 'c global_cache \<Rightarrow>
     's \<Rightarrow> (thrown + unit) \<times> 'c global_cache \<times> 's" where
  "initialize_global_sentinel R master sentinels pool_size password sentinel_pw socket_timeout pool_wait_timeout g s =
     (if g \<noteq> None then (Inl already_initialized, g, s)
      else let (result, m, s') =
             initialize_with_sentinel R master sentinels pool_size password sentinel_pw socket_timeout
               pool_wait_timeout new_cache s
           in (result, Some m, s'))"

definition get_global :: "'c global_cache \<Rightarrow> thrown + 'c cache_manager" where
  "get_global g = (case g of None \<Rightarrow> Inl (Thrown (std_error ''Cache not initialized'')) | Some m \<Rightarrow> Inr m)"

definition is_initialized :: "'c global_cache \<Rightarrow> bool" where
  "is_initialized g \<longleftrightarrow> (case g of None \<Rightarrow> False | Some m \<Rightarrow> initialized m)"

definition shutdown_global :: "'c global_cache \<Rightarrow> 'c global_cache" where
  "shutdown_global g = None"

definition install_for_testing :: "'c cache_manager \<Rightarrow> 'c global_cache \<Rightarrow> 'c global_cache" where
  "install_for_testing fake g = Some fake"

definition reset_for_testing :: "'c global_cache \<Rightarrow> 'c global_cache" where
  "reset_for_testing g = None"

text \<open>The instance is set before the connection is tried, so that a failed start is left behind.\<close>

lemma start_cache_initialized:
  "start_cache R client sentinel message m s = (r, m', s') \<Longrightarrow> initialized m' \<longleftrightarrow> r = Inr () \<or> initialized m"
  by (auto simp: start_cache_def Let_def split: sum.split_asm prod.split_asm redis_failure.split_asm)

lemma new_cache_initialize:
  "initialize R con n pw a b new_cache s = (r, m, s') \<Longrightarrow> initialized m \<longleftrightarrow> r = Inr ()"
  "initialize_with_sentinel R master nodes n pw spw a b new_cache s = (r, m, s') \<Longrightarrow> initialized m \<longleftrightarrow> r = Inr ()"
  by (auto simp: initialize_def initialize_with_sentinel_def new_cache_def split: sum.split_asm dest: start_cache_initialized)

lemma first_start:
  "initialize_global R con n pw a b None s = (r, g, s') \<Longrightarrow> \<exists>m. g = Some m \<and> (initialized m \<longleftrightarrow> r = Inr ())"
  "initialize_global_sentinel R master nodes n pw spw a b None s = (r, g, s') \<Longrightarrow> \<exists>m. g = Some m \<and> (initialized m \<longleftrightarrow> r = Inr ())"
  using new_cache_initialize(1) [of R con n pw a b s] new_cache_initialize(2) [of R master nodes n pw spw a b s]
  by (auto simp: initialize_global_def initialize_global_sentinel_def split: prod.split_asm)

lemma second_start:
  "initialize_global R con n pw a b (Some m) s = (Inl already_initialized, Some m, s)"
  "initialize_global_sentinel R master nodes n pw spw a b (Some m) s = (Inl already_initialized, Some m, s)"
  by (simp_all add: initialize_global_def initialize_global_sentinel_def)

interpretation cache_instance:
  sticky_instance "\<lambda>g r g'. \<exists>s s'. initialize_global R con n pw a b g s = (r, g', s')" initialized for R con n pw a b
  by unfold_locales (auto simp: second_start dest: first_start(1))

interpretation sentinel_instance:
  sticky_instance "\<lambda>g r g'. \<exists>s s'. initialize_global_sentinel R master nodes n pw spw a b g s = (r, g', s')" initialized
    for R master nodes n pw spw a b
  by unfold_locales (auto simp: second_start dest: first_start(2))

text \<open>
  \<open>cached\<close>: \<open>decode\<close> is \<open>json::parse\<close> followed by \<open>get<T>\<close>, \<open>encode\<close> is \<open>json(value).dump()\<close>.  Both
  try blocks catch only \<open>std::exception\<close>.  The first part is the value found, if any.
\<close>

definition cached_lookup ::
  "('c, 's) redis \<Rightarrow> (string \<Rightarrow> thrown + 'v) \<Rightarrow> 'c global_cache \<Rightarrow> string \<Rightarrow> ('s, 'v option) callable" where
  "cached_lookup R decode g key s =
     (if is_initialized g then
        (case get_key R (the g) key s of
           (Inl (Thrown _), s') \<Rightarrow> (Inr None, s')
         | (Inl (Foreign x), s') \<Rightarrow> (Inl (Foreign x), s')
         | (Inr None, s') \<Rightarrow> (Inr None, s')
         | (Inr (Some hit), s') \<Rightarrow>
             (case decode hit of
                Inl (Thrown _) \<Rightarrow> (Inr None, s')
              | Inl (Foreign x) \<Rightarrow> (Inl (Foreign x), s')
              | Inr v \<Rightarrow> (Inr (Some v), s')))
      else (Inr None, s))"

definition cached_store ::
  "('c, 's) redis \<Rightarrow> ('v \<Rightarrow> thrown + string) \<Rightarrow> 'c global_cache \<Rightarrow> string \<Rightarrow> int \<Rightarrow> 'v \<Rightarrow> ('s, 'v) callable" where
  "cached_store R encode g key ttl_sec v s =
     (if is_initialized g then
        (case encode v of
           Inl (Thrown _) \<Rightarrow> (Inr v, s)
         | Inl (Foreign x) \<Rightarrow> (Inl (Foreign x), s)
         | Inr dumped \<Rightarrow>
             (case set_key R (the g) key dumped ttl_sec s of
                (Inl (Foreign x), s') \<Rightarrow> (Inl (Foreign x), s')
              | (_, s') \<Rightarrow> (Inr v, s')))
      else (Inr v, s))"

definition cached ::
  "('c, 's) redis \<Rightarrow> (string \<Rightarrow> thrown + 'v) \<Rightarrow> ('v \<Rightarrow> thrown + string) \<Rightarrow> 'c global_cache \<Rightarrow> string \<Rightarrow> int \<Rightarrow>
     ('s, 'v) callable \<Rightarrow> ('s, 'v) callable" where
  "cached R decode encode g key ttl_sec loader s =
     (case cached_lookup R decode g key s of
        (Inl x, s1) \<Rightarrow> (Inl x, s1)
      | (Inr (Some v), s1) \<Rightarrow> (Inr v, s1)
      | (Inr None, s1) \<Rightarrow>
          (case loader s1 of
             (Inl x, s2) \<Rightarrow> (Inl x, s2)
           | (Inr v, s2) \<Rightarrow> cached_store R encode g key ttl_sec v s2))"

section \<open>Properties\<close>

text \<open>Every wrapper ends in one of three ways: as the client's answer says, with its default, or with what
  the client threw.\<close>

lemma with_client_cases:
  "initialized m \<Longrightarrow> fst (with_client on_error m cmd f s) =
     (case fst (cmd (the (redis_client m)) s) of
        Inl (RedisError e) \<Rightarrow> on_error e | Inl (OtherFailure x) \<Rightarrow> Inl x | Inr b \<Rightarrow> Inr (f b))"
  by (auto simp: with_client_def check_initialized_def split: prod.splits sum.splits redis_failure.splits)

text \<open>A failure that \<open>catch (const std::exception&)\<close> does not see.\<close>

definition tame :: "thrown + 'a \<Rightarrow> bool" where
  "tame r \<longleftrightarrow> (\<forall>x. r \<noteq> Inl (Foreign x))"

definition tame_redis :: "('c, 's) redis \<Rightarrow> bool" where
  "tame_redis R \<longleftrightarrow> (\<forall>c k v t s x.
     fst (redis_get R c k s) \<noteq> Inl (OtherFailure (Foreign x)) \<and> fst (redis_set R c k v s) \<noteq> Inl (OtherFailure (Foreign x)) \<and>
     fst (redis_setex R c k t v s) \<noteq> Inl (OtherFailure (Foreign x)))"

lemma get_key_tame: "tame_redis R \<Longrightarrow> initialized m \<Longrightarrow> tame (fst (get_key R m key s))"
  by (auto simp: get_key_def with_client_cases tame_def tame_redis_def split: sum.splits redis_failure.splits)

lemma set_key_tame: "tame_redis R \<Longrightarrow> initialized m \<Longrightarrow> tame (fst (set_key R m key v ttl s))"
  by (auto simp: set_key_def with_client_cases tame_def tame_redis_def split: sum.splits redis_failure.splits)

lemma is_initialized_the: "is_initialized g \<Longrightarrow> initialized (the g)"
  by (auto simp: is_initialized_def split: option.splits)

text \<open>The value that a usable entry holds.\<close>

definition hit :: "('c, 's) redis \<Rightarrow> (string \<Rightarrow> thrown + 'v) \<Rightarrow> 'c global_cache \<Rightarrow> string \<Rightarrow> 's \<Rightarrow> 'v option" where
  "hit R decode g key s =
     (if is_initialized g then
        (case fst (get_key R (the g) key s) of
           Inr (Some raw) \<Rightarrow> (case decode raw of Inr v \<Rightarrow> Some v | Inl _ \<Rightarrow> None)
         | _ \<Rightarrow> None)
      else None)"

lemma cached_lookup_hit:
  assumes "tame_redis R" "\<And>raw. tame (decode raw)"
  shows "fst (cached_lookup R decode g key s) = Inr (hit R decode g key s)"
proof (cases "is_initialized g")
  case True
  obtain r s' where get: "get_key R (the g) key s = (r, s')" by fastforce
  have "tame r" using get_key_tame [OF assms(1) is_initialized_the [OF True], of key s] get by simp
  then have r: "r \<noteq> Inl (Foreign x)" for x by (simp add: tame_def)
  have d: "decode raw \<noteq> Inl (Foreign x)" for raw x using assms(2) by (simp add: tame_def)
  show ?thesis
  proof (cases r)
    case (Inl x)
    then show ?thesis using True get r by (cases x) (simp_all add: cached_lookup_def hit_def)
  next
    case (Inr found)
    show ?thesis
    proof (cases found)
      case (Some raw)
      have "\<exists>e. x = Thrown e" if "decode raw = Inl x" for x using that d by (cases x) auto
      then show ?thesis using True get Inr Some by (cases "decode raw") (auto simp: cached_lookup_def hit_def)
    qed (use True get Inr in \<open>simp add: cached_lookup_def hit_def\<close>)
  qed
qed (simp add: cached_lookup_def hit_def)

lemma cached_store_value:
  assumes "tame_redis R" "\<And>v. tame (encode v)"
  shows "fst (cached_store R encode g key ttl v s) = Inr v"
proof (cases "is_initialized g")
  case True
  have e: "encode v \<noteq> Inl (Foreign x)" for x using assms(2) by (simp add: tame_def)
  show ?thesis
  proof (cases "encode v")
    case (Inl x)
    then show ?thesis using True e by (cases x) (simp_all add: cached_store_def)
  next
    case (Inr d)
    obtain r s' where set: "set_key R (the g) key d ttl s = (r, s')" by fastforce
    have "tame r" using set_key_tame [OF assms(1) is_initialized_the [OF True], of key d ttl s] set by simp
    then have "\<exists>e. x = Thrown e" if "r = Inl x" for x using that by (cases x) (auto simp: tame_def)
    then show ?thesis using True Inr set by (cases r) (auto simp: cached_store_def)
  qed
qed (simp add: cached_store_def)

text \<open>C31. Reading through the cache never fails because of the cache: the result is the value of a usable
  entry if there is one and what the loader returns or throws otherwise, whether the cache is down, not
  initialized, or holds an entry that cannot be parsed, and whether or not the value can be stored.\<close>

theorem cached_fail_open:
  assumes "tame_redis R" "\<And>raw. tame (decode raw)" "\<And>v. tame (encode v)"
  shows "fst (cached R decode encode g key ttl loader s) =
    (case hit R decode g key s of
       Some v \<Rightarrow> Inr v
     | None \<Rightarrow> fst (loader (snd (cached_lookup R decode g key s))))"
proof -
  obtain s1 where s1: "cached_lookup R decode g key s = (Inr (hit R decode g key s), s1)"
    using cached_lookup_hit [of R decode g key s] assms(1,2) by (metis prod.collapse)
  show ?thesis
    using cached_store_value [of R encode] assms(1,3)
    by (auto simp: cached_def s1 split: option.splits prod.splits sum.splits)
qed

text \<open>A node of the list that \<open>REDIS_SENTINEL_NODES\<close> holds.\<close>

definition node_string :: "string \<times> int \<Rightarrow> string" where
  "node_string n = fst n @ CHR '':'' # int_to_string (snd n)"

definition node_ok :: "string \<times> int \<Rightarrow> bool" where
  "node_ok n \<longleftrightarrow> CHR '':'' \<notin> set (fst n) \<and> CHR '','' \<notin> set (fst n) \<and> (fst n \<noteq> [] \<longrightarrow> \<not> is_csv_blank (hd (fst n))) \<and>
     - (2 ^ 31) \<le> snd n \<and> snd n < 2 ^ 31"

lemma int_to_string_chars: "c \<in> set (int_to_string n) \<Longrightarrow> c = CHR ''-'' \<or> is_digit_char c"
  by (auto simp: int_to_string_def split: if_splits dest: nat_to_string_digits)

lemma int_to_string_not_Nil [simp]: "int_to_string n \<noteq> []"
  by (simp add: int_to_string_def)

lemma csv_field_node: "node_ok n \<Longrightarrow> csv_field (node_string n)"
proof -
  assume ok: "node_ok n"
  have dash: "\<not> is_csv_blank c \<and> c \<noteq> CHR '',''" if "c \<in> set (int_to_string k)" for c k
    using int_to_string_chars [OF that] by (auto simp: is_csv_blank_def byte_defs)
  have "\<not> is_csv_blank (last (int_to_string (snd n)))" using dash [OF last_in_set [OF int_to_string_not_Nil]] by simp
  moreover have "CHR '','' \<notin> set (int_to_string (snd n))" using dash by blast
  moreover have "\<not> is_csv_blank (hd (node_string n))"
    using ok by (cases "fst n") (auto simp: node_ok_def node_string_def is_csv_blank_def)
  ultimately show ?thesis using ok by (simp add: csv_field_def node_ok_def node_string_def)
qed

lemma sentinel_node_string: "node_ok n \<Longrightarrow> sentinel_node (node_string n) = [n]"
  by (simp add: sentinel_node_def node_string_def node_ok_def find_char_append stoi_int_to_string)

text \<open>Redis addresses are read back: a list of Sentinel nodes from its comma-separated form, and a host and
  port from their URL.\<close>

theorem redis_addresses_roundtrip:
  assumes "list_all node_ok ns" "node_ok (h, p)"
  shows "parse_sentinel_nodes_csv (join_char CHR '','' (map node_string ns)) = ns \<and>
    parse_redis_url (''tcp://'' @ node_string (h, p)) = Inr \<lparr>host = h, port = p\<rparr>"
proof
  have "list_all csv_field (map node_string ns)" using assms(1) csv_field_node by (auto simp: list_all_iff)
  then have "parse_sentinel_nodes_csv (join_char CHR '','' (map node_string ns)) = concat (map (sentinel_node \<circ> node_string) ns)"
    by (simp add: parse_sentinel_nodes_csv_def split_csv_join)
  also have "map (sentinel_node \<circ> node_string) ns = map (\<lambda>n. [n]) ns"
    using assms(1) by (simp add: list_all_iff sentinel_node_string)
  finally show "parse_sentinel_nodes_csv (join_char CHR '','' (map node_string ns)) = ns" by simp
  show "parse_redis_url (''tcp://'' @ node_string (h, p)) = Inr \<lparr>host = h, port = p\<rparr>"
    using assms(2) by (simp add: parse_redis_url_def node_string_def node_ok_def find_char_append stoi_int_to_string)
qed

section \<open>Witnesses\<close>

text \<open>A server that is a map, where the key \<open>bad\<close> makes every command fail.\<close>

type_synonym memory = "string \<Rightarrow> string option"

definition demo_redis :: "(unit, memory) redis" where
  "demo_redis =
     (let err = std_error ''down'';
          unit_cmd = (\<lambda>f s. (Inr (), f s) :: (redis_failure + unit) \<times> memory);
          int_cmd = (\<lambda>s. (Inl (RedisError err), s) :: (redis_failure + int) \<times> memory);
          put = (\<lambda>k v. if k = ''bad'' then (\<lambda>s. (Inl (RedisError err), s)) else unit_cmd (\<lambda>s. s(k := Some v)))
      in \<lparr>new_redis = (\<lambda>_ _. Inr ()), new_sentinel_redis = (\<lambda>_ _ _ _. Inr ()), redis_ping = (\<lambda>_ s. (Inr (), s)),
          redis_set = (\<lambda>_ k v. put k v), redis_setex = (\<lambda>_ k _ v. put k v), redis_set_nx = (\<lambda>_ _ _ _ s. (Inr False, s)),
          redis_get = (\<lambda>_ k s. if k = ''bad'' then (Inl (RedisError err), s) else (Inr (s k), s)),
          redis_del = (\<lambda>_ _. int_cmd), redis_exists = (\<lambda>_ _. int_cmd), redis_expire = (\<lambda>_ _ _ s. (Inr False, s)),
          redis_ttl = (\<lambda>_ _. int_cmd), redis_incr = (\<lambda>_ _. int_cmd), redis_incrby = (\<lambda>_ _ _. int_cmd),
          redis_decr = (\<lambda>_ _. int_cmd), redis_decrby = (\<lambda>_ _ _. int_cmd), redis_sadd = (\<lambda>_ _ _. int_cmd),
          redis_smembers = (\<lambda>_ _ s. (Inr [], s)), redis_zadd = (\<lambda>_ _ _ _. int_cmd), redis_publish = (\<lambda>_ _ _. int_cmd)\<rparr>)"

definition demo_cache :: "unit global_cache" where
  "demo_cache = Some \<lparr>redis_client = Some (), use_sentinel = False, initialized = True\<rparr>"

lemma demo_redis_commands:
  "redis_get demo_redis c k s = (if k = ''bad'' then (Inl (RedisError (std_error ''down'')), s) else (Inr (s k), s))"
  "redis_set demo_redis c k v s = (if k = ''bad'' then (Inl (RedisError (std_error ''down'')), s) else (Inr (), s(k := Some v)))"
  "redis_setex demo_redis c k t v s = redis_set demo_redis c k v s"
  by (simp_all add: demo_redis_def Let_def)

lemma demo_redis_tame: "tame_redis demo_redis"
  by (simp add: tame_redis_def demo_redis_commands)

lemma demo_hit: "hit demo_redis Inr demo_cache k s = (if k = ''bad'' then None else s k)"
  by (simp add: hit_def is_initialized_def demo_cache_def get_key_def with_client_def check_initialized_def
      demo_redis_commands split: option.split)

theorem cached_fail_open_witness:
  "fst (cached demo_redis Inr Inr demo_cache ''bad'' 60 (\<lambda>s. (Inr ''fresh'', s)) (\<lambda>_. None)) = Inr ''fresh'' \<and>
   fst (cached demo_redis Inr Inr demo_cache ''k'' 60 (\<lambda>s. (Inr ''fresh'', s)) (\<lambda>_. Some ''old'')) = Inr ''old''"
  using cached_fail_open [OF demo_redis_tame, of Inr Inr demo_cache "''bad''" 60 "\<lambda>s. (Inr ''fresh'', s)" "\<lambda>_. None"]
    cached_fail_open [OF demo_redis_tame, of Inr Inr demo_cache "''k''" 60 "\<lambda>s. (Inr ''fresh'', s)" "\<lambda>_. Some ''old''"]
  by (simp add: tame_def demo_hit)

theorem redis_addresses_roundtrip_witness:
  "parse_sentinel_nodes_csv ''a:7,b:1'' = [(''a'', 7), (''b'', 1)] \<and>
   parse_redis_url ''tcp://redis:8'' = Inr \<lparr>host = ''redis'', port = 8\<rparr>"
proof -
  have ok: "list_all node_ok [(''a'', 7), (''b'', 1)]" "node_ok (''redis'', 8)"
    by (simp_all add: node_ok_def is_csv_blank_def)
  have "join_char CHR '','' (map node_string [(''a'', 7), (''b'', 1)]) = ''a:7,b:1''"
    "''tcp://'' @ node_string (''redis'', 8) = ''tcp://redis:8''" by (simp_all add: node_string_def int_to_string_def nat_to_string.simps [of 7]
        nat_to_string.simps [of "Suc 0"] nat_to_string.simps [of 8] digit_char_def char_of_def bit_0)
  then show ?thesis using redis_addresses_roundtrip [OF ok] by (simp only:)
qed

end
