(* ===== verification/Pool.thy ===== *)
theory Pool
  imports Retry
begin

text \<open>
  The connection pool of \<open>src/src/database/Database.hpp\<close>: its atomic sections, the threads that borrow
  connections as a step relation over them, and the invariants that hold however the threads interleave.
\<close>

section \<open>The pool\<close>

text \<open>
  A connection is the identity of the \<open>pqxx::connection\<close> object with the \<open>statement_timeout\<close> of its
  session, 0 for none.  \<open>active_connections_\<close> is a \<open>std::size_t\<close>, whose increments and decrements wrap.
\<close>

record connection =
  conn_id :: nat
  session_timeout :: int

record pool =
  pool_size :: nat
  available :: "connection list"
  active :: nat
  acquire_timeout :: int
  statement_timeout :: int

definition size_inc :: "nat \<Rightarrow> nat" where
  "size_inc n = (n + 1) mod 2 ^ 64"

definition size_dec :: "nat \<Rightarrow> nat" where
  "size_dec n = (n + 2 ^ 64 - 1) mod 2 ^ 64"

text \<open>\<open>guard_ok\<close> tells whether the \<open>SET statement_timeout\<close> went through; a failure is only logged.\<close>

definition apply_session_guards :: "int \<Rightarrow> bool \<Rightarrow> connection \<Rightarrow> connection" where
  "apply_session_guards timeout guard_ok c =
     (if timeout \<le> 0 then c else if guard_ok then c\<lparr>session_timeout := timeout\<rparr> else c)"

text \<open>The constructor: \<open>connect i\<close> is the failure of opening the \<open>i\<close>-th connection, or whether its guard
  could be set.\<close>

fun fill_pool ::
  "(nat \<Rightarrow> std_exception + bool) \<Rightarrow> nat \<Rightarrow> nat \<Rightarrow> int \<Rightarrow> connection list \<Rightarrow> std_exception + connection list" where
  "fill_pool connect i 0 timeout conns = Inr conns"
| "fill_pool connect i (Suc n) timeout conns =
     (case connect i of
        Inl e \<Rightarrow> Inl e
      | Inr guard_ok \<Rightarrow>
          fill_pool connect (Suc i) n timeout
            (conns @ [apply_session_guards timeout guard_ok \<lparr>conn_id = i, session_timeout = 0\<rparr>]))"

definition new_pool :: "(nat \<Rightarrow> std_exception + bool) \<Rightarrow> nat \<Rightarrow> int \<Rightarrow> int \<Rightarrow> std_exception + pool" where
  "new_pool connect n timeout stmt_timeout =
     map_sum id (\<lambda>conns. \<lparr>pool_size = n, available = conns, active = 0, acquire_timeout = timeout,
       statement_timeout = stmt_timeout\<rparr>) (fill_pool connect 0 n stmt_timeout [])"

text \<open>\<open>acquire\<close>: the predicate of the wait, what follows it under the lock, and the two outcomes of
  connecting outside the lock.\<close>

definition can_proceed :: "pool \<Rightarrow> bool" where
  "can_proceed p \<longleftrightarrow> available p \<noteq> [] \<or> (length (available p) + active p) mod 2 ^ 64 < pool_size p"

definition timeout_error :: "pool \<Rightarrow> std_exception" where
  "timeout_error p =
     std_error (''Timed out waiting for database connection from pool (size='' @ nat_to_string (pool_size p) @
       '', active='' @ nat_to_string (active p) @ '')'')"

datatype grabbed = Took connection | Reserved

definition grab :: "pool \<Rightarrow> grabbed \<times> pool" where
  "grab p =
     (case available p of
        c # cs \<Rightarrow> (Took c, p\<lparr>available := cs, active := size_inc (active p)\<rparr>)
      | [] \<Rightarrow> (Reserved, p\<lparr>active := size_inc (active p)\<rparr>))"

definition connect_failed :: "pool \<Rightarrow> pool" where
  "connect_failed p = p\<lparr>active := size_dec (active p)\<rparr>"

definition release :: "connection option \<Rightarrow> bool \<Rightarrow> pool \<Rightarrow> pool" where
  "release conn is_open p =
     (let p' = (case conn of
                  Some c \<Rightarrow> if is_open then p\<lparr>available := available p @ [c]\<rparr> else p
                | None \<Rightarrow> p)
      in p'\<lparr>active := size_dec (active p')\<rparr>)"

definition shutdown_pool :: "pool \<Rightarrow> pool" where
  "shutdown_pool p = p\<lparr>available := []\<rparr>"

section \<open>Threads\<close>

text \<open>
  Where a borrowing thread is: outside \<open>acquire\<close>; blocked in \<open>cv_.wait_for\<close>; woken up and about to test
  the predicate again; connecting outside the lock with a slot reserved; or the owner of a connection.
  Every step below is one section under the mutex, or one event outside of it.
\<close>

datatype phase = Idle | Sleeping | Awake | Connecting | Holding connection

record pool_system =
  the_pool :: pool
  threads :: "phase list"
  next_conn :: nat

fun phase_after :: "grabbed \<Rightarrow> phase" where
  "phase_after (Took c) = Holding c"
| "phase_after Reserved = Connecting"

text \<open>\<open>cv_.notify_one()\<close> wakes one of the blocked threads, if there is any.\<close>

inductive notify_one :: "phase list \<Rightarrow> phase list \<Rightarrow> bool" where
  nobody: "Sleeping \<notin> set ts \<Longrightarrow> notify_one ts ts"
| wakes: "i < length ts \<Longrightarrow> ts ! i = Sleeping \<Longrightarrow> notify_one ts (ts[i := Awake])"

text \<open>
  A waiting thread tests the predicate when it has been woken, or when its deadline has passed.  If the
  predicate fails then, it blocks again, or, past the deadline, \<open>acquire\<close> throws.
\<close>

inductive pool_step :: "pool_system \<Rightarrow> pool_system \<Rightarrow> bool" where
  acquires: "i < length (threads s) \<Longrightarrow> threads s ! i \<in> {Idle, Awake, Sleeping} \<Longrightarrow> can_proceed (the_pool s) \<Longrightarrow>
     grab (the_pool s) = (g, p') \<Longrightarrow>
     pool_step s (s\<lparr>the_pool := p', threads := (threads s)[i := phase_after g]\<rparr>)"
| blocks: "i < length (threads s) \<Longrightarrow> threads s ! i \<in> {Idle, Awake} \<Longrightarrow> \<not> can_proceed (the_pool s) \<Longrightarrow>
     pool_step s (s\<lparr>threads := (threads s)[i := Sleeping]\<rparr>)"
| times_out: "i < length (threads s) \<Longrightarrow> threads s ! i \<in> {Awake, Sleeping} \<Longrightarrow> \<not> can_proceed (the_pool s) \<Longrightarrow>
     pool_step s (s\<lparr>threads := (threads s)[i := Idle]\<rparr>)"
| wakes_up: "i < length (threads s) \<Longrightarrow> threads s ! i = Sleeping \<Longrightarrow>
     pool_step s (s\<lparr>threads := (threads s)[i := Awake]\<rparr>)"
| connects: "i < length (threads s) \<Longrightarrow> threads s ! i = Connecting \<Longrightarrow>
     c = apply_session_guards (statement_timeout (the_pool s)) guard_ok
       \<lparr>conn_id = next_conn s, session_timeout = 0\<rparr> \<Longrightarrow>
     pool_step s (s\<lparr>threads := (threads s)[i := Holding c], next_conn := next_conn s + 1\<rparr>)"
| fails: "i < length (threads s) \<Longrightarrow> threads s ! i = Connecting \<Longrightarrow>
     notify_one ((threads s)[i := Idle]) ts \<Longrightarrow>
     pool_step s (s\<lparr>the_pool := connect_failed (the_pool s), threads := ts\<rparr>)"
| releases: "i < length (threads s) \<Longrightarrow> threads s ! i = Holding c \<Longrightarrow>
     notify_one ((threads s)[i := Idle]) ts \<Longrightarrow>
     pool_step s (s\<lparr>the_pool := release (Some c) is_open (the_pool s), threads := ts\<rparr>)"
| shuts_down: "pool_step s (s\<lparr>the_pool := shutdown_pool (the_pool s)\<rparr>)"

definition pool_init :: "pool_system \<Rightarrow> bool" where
  "pool_init s \<longleftrightarrow>
     (\<exists>connect timeout stmt_timeout. new_pool connect (pool_size (the_pool s)) timeout stmt_timeout = Inr (the_pool s)) \<and>
     pool_size (the_pool s) < 2 ^ 64 \<and> list_all (\<lambda>ph. ph = Idle) (threads s) \<and> next_conn s = pool_size (the_pool s)"

section \<open>Invariants of transition systems\<close>

locale transition_invariant =
  fixes init :: "'s \<Rightarrow> bool" and step :: "'s \<Rightarrow> 's \<Rightarrow> bool" and inv :: "'s \<Rightarrow> bool"
  assumes init_inv: "init s \<Longrightarrow> inv s"
    and step_inv: "inv s \<Longrightarrow> step s t \<Longrightarrow> inv t"
begin

lemma steps_inv: "step\<^sup>*\<^sup>* s t \<Longrightarrow> inv s \<Longrightarrow> inv t"
  by (induction rule: rtranclp_induct) (auto intro: step_inv)

lemma reachable_inv: "init s \<Longrightarrow> step\<^sup>*\<^sup>* s t \<Longrightarrow> inv t"
  using steps_inv init_inv by blast

end

section \<open>Counting threads\<close>

definition tally :: "(phase \<Rightarrow> bool) \<Rightarrow> phase list \<Rightarrow> nat" where
  "tally P ts = length (filter P ts)"

fun busy :: "phase \<Rightarrow> bool" where
  "busy Connecting = True"
| "busy (Holding c) = True"
| "busy _ = False"

abbreviation awake :: "phase \<Rightarrow> bool" where
  "awake ph \<equiv> ph = Awake"

lemma tally_update:
  "i < length ts \<Longrightarrow>
     tally P (ts[i := ph]) + (if P (ts ! i) then 1 else 0) = tally P ts + (if P ph then 1 else 0)"
proof (induction ts arbitrary: i)
  case (Cons t ts)
  then show ?case by (cases i) (auto simp: tally_def)
qed simp

lemma tally_le: "tally P ts \<le> length ts"
  by (simp add: tally_def)

lemma tally_pos: "i < length ts \<Longrightarrow> P (ts ! i) \<Longrightarrow> 0 < tally P ts"
  unfolding tally_def by (metis filter_empty_conv length_greater_0_conv nth_mem)

fun borrowed :: "phase list \<Rightarrow> connection list" where
  "borrowed [] = []"
| "borrowed (Holding c # ts) = c # borrowed ts"
| "borrowed (ph # ts) = borrowed ts"

fun held_by :: "phase \<Rightarrow> connection multiset" where
  "held_by (Holding c) = {#c#}"
| "held_by _ = {#}"

lemma mset_borrowed: "mset (borrowed ts) = sum_list (map held_by ts)"
  by (induction ts rule: borrowed.induct) simp_all

lemma borrowed_update:
  "i < length ts \<Longrightarrow> mset (borrowed (ts[i := ph])) + held_by (ts ! i) = mset (borrowed ts) + held_by ph"
  unfolding mset_borrowed
proof (induction ts arbitrary: i)
  case (Cons t ts)
  then show ?case by (cases i) (auto simp: ac_simps)
qed simp


section \<open>Slots and connections\<close>

text \<open>
  The counter is the number of threads that connect or own a connection; idle and busy slots stay within
  the pool's size; and no connection is queued twice, owned twice, or both.
\<close>

definition conns_of :: "pool_system \<Rightarrow> connection list" where
  "conns_of s = available (the_pool s) @ borrowed (threads s)"

definition pool_ok :: "pool_system \<Rightarrow> bool" where
  "pool_ok s \<longleftrightarrow>
     active (the_pool s) = tally busy (threads s) \<and>
     length (available (the_pool s)) + tally busy (threads s) \<le> pool_size (the_pool s) \<and>
     pool_size (the_pool s) < 2 ^ 64 \<and>
     distinct (map conn_id (conns_of s)) \<and> list_all (\<lambda>c. conn_id c < next_conn s) (conns_of s)"

lemma pool_okD:
  assumes "pool_ok s"
  shows "active (the_pool s) = tally busy (threads s)"
    "length (available (the_pool s)) + tally busy (threads s) \<le> pool_size (the_pool s)"
    "pool_size (the_pool s) < 2 ^ 64" "distinct (map conn_id (conns_of s))"
    "list_all (\<lambda>c. conn_id c < next_conn s) (conns_of s)"
  using assms by (simp_all add: pool_ok_def)

lemma size_inc_less: "n < m \<Longrightarrow> m < 2 ^ 64 \<Longrightarrow> size_inc n = n + 1"
  by (simp add: size_inc_def)

lemma size_dec_pos: "0 < n \<Longrightarrow> n < 2 ^ 64 \<Longrightarrow> size_dec n = n - 1"
proof -
  assume n: "0 < n" "n < 2 ^ 64"
  then obtain m where m: "n = Suc m" "m < 2 ^ 64" by (cases n) auto
  have "n + 2 ^ 64 - 1 = m + 2 ^ 64" using m(1) by simp
  then show ?thesis using m by (simp only: size_dec_def mod_add_self2 mod_less diff_Suc_1)
qed

text \<open>A slot is free exactly when fewer threads are busy than the pool is large.\<close>

lemma can_proceed_iff:
  assumes "pool_ok s"
  shows "can_proceed (the_pool s) \<longleftrightarrow> tally busy (threads s) < pool_size (the_pool s)"
proof -
  have "length (available (the_pool s)) + active (the_pool s) < 2 ^ 64"
    using pool_okD(1-3) [OF assms] by linarith
  then have "(length (available (the_pool s)) + active (the_pool s)) mod 2 ^ 64 =
      length (available (the_pool s)) + active (the_pool s)" by simp
  then show ?thesis
    using pool_okD(1,2) [OF assms] by (cases "available (the_pool s)") (auto simp: can_proceed_def)
qed

lemma distinct_ids_subset:
  assumes "mset cs \<subseteq># mset ds" "distinct (map conn_id ds)"
  shows "distinct (map conn_id cs)"
proof -
  obtain es where "mset ds = mset (cs @ es)"
    using assms(1) by (metis ex_mset mset_append mset_subset_eq_exists_conv)
  then have "mset (map conn_id ds) = mset (map conn_id (cs @ es))" by (metis mset_map)
  then have "distinct (map conn_id (cs @ es))" using assms(2) mset_eq_imp_distinct_iff by blast
  then show ?thesis by simp
qed

text \<open>How a step changes the connections that exist, and the number of busy threads.\<close>

lemma pool_ok_move:
  assumes ok: "pool_ok s"
    and "mset (conns_of t) \<subseteq># mset (conns_of s)" "next_conn t = next_conn s"
    and "pool_size (the_pool t) = pool_size (the_pool s)"
    and "active (the_pool t) = tally busy (threads t)"
    and "length (available (the_pool t)) + tally busy (threads t) \<le> pool_size (the_pool s)"
  shows "pool_ok t"
proof -
  have "set (conns_of t) \<subseteq> set (conns_of s)" using assms(2) set_mset_mono by fastforce
  then show ?thesis
    using assms distinct_ids_subset [OF assms(2)] by (auto simp: pool_ok_def list_all_iff)
qed

inductive_cases notify_oneE: "notify_one ts ts'"

lemma notify_one_counts:
  assumes "notify_one ts ts'"
  shows "length ts' = length ts" "tally busy ts' = tally busy ts" "mset (borrowed ts') = mset (borrowed ts)"
    "Sleeping \<in> set ts' \<Longrightarrow> tally awake ts' = tally awake ts + 1"
proof -
  have upd: "tally P (ts[i := Awake]) = tally P ts + (if P Awake then 1 else 0) - (if P Sleeping then 1 else 0)"
    if "i < length ts" "ts ! i = Sleeping" for P i
    using tally_update [OF that(1), of P Awake] that(2) by (simp split: if_splits)
  have bor: "mset (borrowed (ts[i := Awake])) = mset (borrowed ts)" if "i < length ts" "ts ! i = Sleeping" for i
    using borrowed_update [OF that(1), of Awake] that(2) by simp
  show "length ts' = length ts" "tally busy ts' = tally busy ts"
    using assms by (cases; simp add: upd)+
  show "mset (borrowed ts') = mset (borrowed ts)"
    using assms by (cases; simp add: bor)
  show "tally awake ts' = tally awake ts + 1" if "Sleeping \<in> set ts'"
    using assms that by (cases; simp add: upd)
qed

lemma pool_ok_acquires:
  assumes ok: "pool_ok s" and i: "i < length (threads s)" "threads s ! i \<in> {Idle, Awake, Sleeping}"
    and free: "can_proceed (the_pool s)" and g: "grab (the_pool s) = (g, p')"
  shows "pool_ok (s\<lparr>the_pool := p', threads := (threads s)[i := phase_after g]\<rparr>)"
proof -
  note lt = free [unfolded can_proceed_iff [OF ok]]
  have act: "size_inc (active (the_pool s)) = tally busy (threads s) + 1"
    using size_inc_less [OF lt pool_okD(3) [OF ok]] pool_okD(1) [OF ok] by simp
  have not_busy: "\<not> busy (threads s ! i)" "held_by (threads s ! i) = {#}" using i(2) by auto
  have b: "tally busy ((threads s)[i := phase_after g]) = tally busy (threads s) + 1"
    using tally_update [OF i(1), of busy "phase_after g"] not_busy by (cases g) auto
  have h: "mset (borrowed ((threads s)[i := phase_after g])) = mset (borrowed (threads s)) + held_by (phase_after g)"
    using borrowed_update [OF i(1), of "phase_after g"] not_busy by simp
  show ?thesis
  proof (cases "available (the_pool s)")
    case Nil
    then have "g = Reserved" "p' = (the_pool s)\<lparr>active := size_inc (active (the_pool s))\<rparr>"
      using g by (auto simp: grab_def)
    then show ?thesis using h b lt Nil
      by (intro pool_ok_move [OF ok]) (simp_all add: conns_of_def act)
  next
    case (Cons c cs)
    then have "g = Took c" "p' = (the_pool s)\<lparr>available := cs, active := size_inc (active (the_pool s))\<rparr>"
      using g by (auto simp: grab_def)
    then show ?thesis using h b Cons pool_okD(2) [OF ok]
      by (intro pool_ok_move [OF ok]) (simp_all add: conns_of_def act)
  qed
qed

lemma pool_ok_gives_up:
  assumes ok: "pool_ok s" and i: "i < length (threads s)" "busy (threads s ! i)"
    and n: "notify_one ((threads s)[i := Idle]) ts"
    and p: "pool_size p = pool_size (the_pool s)" "active p = size_dec (active (the_pool s))"
    and av: "mset (available p) \<subseteq># mset (available (the_pool s)) + held_by (threads s ! i)"
  shows "pool_ok (s\<lparr>the_pool := p, threads := ts\<rparr>)"
proof -
  have pos: "0 < tally busy (threads s)" using tally_pos [OF i(1), of busy] i(2) by simp
  have "active (the_pool s) < 2 ^ 64" using pool_okD(1-3) [OF ok] by linarith
  then have act: "active p = tally busy (threads s) - 1"
    using p(2) size_dec_pos pos pool_okD(1) [OF ok] by simp
  have b: "tally busy ts = tally busy (threads s) - 1"
    using tally_update [OF i(1), of busy Idle] i(2) notify_one_counts(2) [OF n] by simp
  have h: "mset (borrowed ts) + held_by (threads s ! i) = mset (borrowed (threads s))"
    using borrowed_update [OF i(1), of Idle] notify_one_counts(3) [OF n] by simp
  have "size (mset (available p)) \<le> size (mset (available (the_pool s)) + held_by (threads s ! i))"
    using av by (rule size_mset_mono)
  moreover have "size (held_by (threads s ! i)) \<le> 1" by (cases "threads s ! i") simp_all
  ultimately have len: "length (available p) \<le> length (available (the_pool s)) + 1"
    by (simp add: size_union)
  have sub: "mset (available p) + mset (borrowed ts) \<subseteq># mset (available (the_pool s)) + mset (borrowed (threads s))"
    using subset_mset.add_right_mono [OF av, of "mset (borrowed ts)"] unfolding h [symmetric] by (simp add: ac_simps)
  show ?thesis using sub act b len pos pool_okD(2) [OF ok]
    by (intro pool_ok_move [OF ok]) (simp_all add: conns_of_def p(1))
qed


lemma pool_ok_idle_change:
  assumes ok: "pool_ok s" and i: "i < length (threads s)" "\<not> busy (threads s ! i)" "\<not> busy ph"
  shows "pool_ok (s\<lparr>threads := (threads s)[i := ph]\<rparr>)"
proof -
  have "held_by (threads s ! i) = {#}" "held_by ph = {#}" using i(2,3) by (cases "threads s ! i"; cases ph; simp)+
  then show ?thesis
    using borrowed_update [OF i(1), of ph] tally_update [OF i(1), of busy ph] i pool_okD(1,2) [OF ok]
    by (intro pool_ok_move [OF ok]) (simp_all add: conns_of_def)
qed

lemma pool_ok_connects:
  assumes ok: "pool_ok s" and i: "i < length (threads s)" "threads s ! i = Connecting"
    and c: "conn_id c = next_conn s"
  shows "pool_ok (s\<lparr>threads := (threads s)[i := Holding c], next_conn := next_conn s + 1\<rparr>)"
proof -
  let ?t = "s\<lparr>threads := (threads s)[i := Holding c], next_conn := next_conn s + 1\<rparr>"
  have b: "tally busy ((threads s)[i := Holding c]) = tally busy (threads s)"
    using tally_update [OF i(1), of busy "Holding c"] i(2) by simp
  have h: "mset (conns_of ?t) = mset (c # conns_of s)"
    using borrowed_update [OF i(1), of "Holding c"] i(2) by (simp add: conns_of_def)
  have set: "set (conns_of ?t) = insert c (set (conns_of s))"
    using arg_cong [OF h, of set_mset] by simp
  have lt: "\<forall>d\<in>set (conns_of s). conn_id d < next_conn s"
    using pool_okD(5) [OF ok] by (simp add: list_all_iff)
  then have "distinct (map conn_id (c # conns_of s))"
    using pool_okD(4) [OF ok] c by (auto dest!: bspec)
  then have "distinct (map conn_id (conns_of ?t))"
    using distinct_ids_subset [of "conns_of ?t" "c # conns_of s"] h by simp
  moreover have "list_all (\<lambda>d. conn_id d < next_conn s + 1) (conns_of ?t)"
    using lt c unfolding list_all_iff set by auto
  ultimately show ?thesis using pool_okD(1-3) [OF ok] b by (simp add: pool_ok_def)
qed

lemma conn_id_guarded [simp]: "conn_id (apply_session_guards timeout ok' c) = conn_id c"
  by (simp add: apply_session_guards_def)

lemma pool_ok_step:
  assumes "pool_ok s" "pool_step s t"
  shows "pool_ok t"
  using assms(2)
proof cases
  case (acquires i g p')
  then show ?thesis using pool_ok_acquires assms(1) by blast
next
  case (fails i ts)
  then show ?thesis
    using pool_ok_gives_up [OF assms(1), of i ts "connect_failed (the_pool s)"] by (simp add: connect_failed_def)
next
  case (releases i c ts is_open)
  then show ?thesis
    using pool_ok_gives_up [OF assms(1), of i ts "release (Some c) is_open (the_pool s)"]
    by (cases is_open) (simp_all add: release_def Let_def)
next
  case (connects i c guard_ok)
  then show ?thesis using pool_ok_connects [OF assms(1)] by simp
next
  case shuts_down
  show ?thesis unfolding shuts_down
    by (rule pool_ok_move [OF assms(1)])
      (use pool_okD [OF assms(1)] in \<open>simp_all add: conns_of_def shutdown_pool_def\<close>)
next
  case (blocks i)
  show ?thesis unfolding blocks(1) by (rule pool_ok_idle_change [OF assms(1)]) (use blocks in auto)
next
  case (times_out i)
  show ?thesis unfolding times_out(1) by (rule pool_ok_idle_change [OF assms(1)]) (use times_out in auto)
next
  case (wakes_up i)
  show ?thesis unfolding wakes_up(1) by (rule pool_ok_idle_change [OF assms(1)]) (use wakes_up in auto)
qed

lemma fill_pool_ids:
  "fill_pool connect i n timeout conns = Inr conns' \<Longrightarrow>
     length conns' = length conns + n \<and> map conn_id conns' = map conn_id conns @ [i..<i + n]"
proof (induction connect i n timeout conns rule: fill_pool.induct)
  case (2 connect i n timeout conns)
  then obtain b where "connect i = Inr b" by (cases "connect i") auto
  then show ?case using 2 by (simp add: upt_conv_Cons del: upt_Suc)
qed simp

lemma borrowed_idle: "\<forall>ph\<in>set ts. \<not> busy ph \<Longrightarrow> borrowed ts = []"
  by (induction ts rule: borrowed.induct) simp_all

lemma pool_ok_init: "pool_init s \<Longrightarrow> pool_ok s"
proof -
  assume init: "pool_init s"
  then obtain connect timeout stmt
    where "new_pool connect (pool_size (the_pool s)) timeout stmt = Inr (the_pool s)" by (auto simp: pool_init_def)
  then obtain conns where f: "fill_pool connect 0 (pool_size (the_pool s)) stmt [] = Inr conns"
    and p: "the_pool s = \<lparr>pool_size = pool_size (the_pool s), available = conns, active = 0, acquire_timeout = timeout,
       statement_timeout = stmt\<rparr>"
    by (cases "fill_pool connect 0 (pool_size (the_pool s)) stmt []") (simp_all add: new_pool_def)
  have ids: "length conns = pool_size (the_pool s)" "map conn_id conns = [0..<pool_size (the_pool s)]"
    using fill_pool_ids [OF f] by simp_all
  have idle: "\<forall>ph\<in>set (threads s). ph = Idle" and next': "next_conn s = pool_size (the_pool s)"
    using init by (simp_all add: pool_init_def list_all_iff)
  have "tally busy (threads s) = 0" using idle by (auto simp: tally_def filter_empty_conv)
  moreover have "borrowed (threads s) = []" using idle by (intro borrowed_idle) auto
  moreover have "available (the_pool s) = conns" "active (the_pool s) = 0" by (subst p, simp)+
  moreover have "\<forall>c\<in>set conns. conn_id c < pool_size (the_pool s)"
    using arg_cong [OF ids(2), of set] by auto
  ultimately show ?thesis using init ids next' by (simp add: pool_ok_def pool_init_def conns_of_def list_all_iff)
qed

interpretation slots: transition_invariant pool_init pool_step pool_ok
  by unfold_locales (blast intro: pool_ok_init pool_ok_step)+


section \<open>Wake-ups\<close>

text \<open>
  No wake-up is lost: as long as some thread is blocked, every free slot is matched by a thread that has
  been woken and has not tested the predicate yet.
\<close>

definition wakeups_ok :: "pool_system \<Rightarrow> bool" where
  "wakeups_ok s \<longleftrightarrow> pool_ok s \<and>
     (Sleeping \<in> set (threads s) \<longrightarrow>
        pool_size (the_pool s) \<le> tally busy (threads s) + tally awake (threads s))"

lemma sleeping_update: "Sleeping \<in> set (ts[i := ph]) \<Longrightarrow> ph \<noteq> Sleeping \<Longrightarrow> Sleeping \<in> set ts"
  using set_update_subset_insert [of ts i ph] by auto

lemma wakeups_gives_up:
  assumes ok: "wakeups_ok s" and i: "i < length (threads s)" "busy (threads s ! i)"
    and n: "notify_one ((threads s)[i := Idle]) ts" and sl: "Sleeping \<in> set ts"
  shows "pool_size (the_pool s) \<le> tally busy ts + tally awake ts"
proof -
  have "Sleeping \<in> set ((threads s)[i := Idle])"
    using n sl by (cases) (auto dest: sleeping_update)
  then have "pool_size (the_pool s) \<le> tally busy (threads s) + tally awake (threads s)"
    using ok sleeping_update by (auto simp: wakeups_ok_def)
  moreover have "tally busy ((threads s)[i := Idle]) + 1 = tally busy (threads s)"
    using tally_update [OF i(1), of busy Idle] i(2) by simp
  moreover have "tally awake ((threads s)[i := Idle]) = tally awake (threads s)"
    using tally_update [OF i(1), of awake Idle] i(2) by (cases "threads s ! i") simp_all
  ultimately show ?thesis using notify_one_counts(2,4) [OF n] sl by simp
qed

lemma wakeups_ok_step:
  assumes w: "wakeups_ok s" and step: "pool_step s t"
  shows "wakeups_ok t"
proof -
  have ok: "pool_ok s" using w by (simp add: wakeups_ok_def)
  note full = can_proceed_iff [OF ok]
  have "pool_size (the_pool t) \<le> tally busy (threads t) + tally awake (threads t)" if sl: "Sleeping \<in> set (threads t)"
    using step
  proof cases
    case (acquires i g p')
    have "busy (phase_after g)" "\<not> awake (phase_after g)" "phase_after g \<noteq> Sleeping" by (cases g; simp)+
    then have "tally busy (threads t) = tally busy (threads s) + 1" "tally awake (threads s) \<le> tally awake (threads t) + 1"
      "Sleeping \<in> set (threads s)"
      using acquires(1,3) tally_update [OF acquires(2), of busy "phase_after g"] sl sleeping_update
        tally_update [OF acquires(2), of awake "phase_after g"] by (auto split: if_splits)
    moreover have "pool_size p' = pool_size (the_pool s)"
      using acquires(5) by (auto simp: grab_def split: list.splits)
    ultimately show ?thesis using w acquires(1) by (simp add: wakeups_ok_def)
  next
    case (blocks i)
    then show ?thesis using full tally_update [OF blocks(2), of busy Sleeping] by auto
  next
    case (times_out i)
    then show ?thesis using full tally_update [OF times_out(2), of busy Idle] by auto
  next
    case (wakes_up i)
    then have "Sleeping \<in> set (threads s)" by (metis nth_mem)
    then show ?thesis
      using w wakes_up tally_update [OF wakes_up(2), of busy Awake] tally_update [OF wakes_up(2), of awake Awake]
      by (simp add: wakeups_ok_def)
  next
    case (connects i c guard_ok)
    then have "Sleeping \<in> set (threads s)" using sl sleeping_update by auto
    then show ?thesis
      using w connects tally_update [OF connects(2), of busy "Holding c"] tally_update [OF connects(2), of awake "Holding c"]
      by (simp add: wakeups_ok_def)
  next
    case (fails i ts)
    then show ?thesis using wakeups_gives_up [OF w fails(2) _ fails(4)] sl by (simp add: connect_failed_def)
  next
    case (releases i c ts is_open)
    then show ?thesis using wakeups_gives_up [OF w releases(2) _ releases(4)] sl
      by (cases is_open) (simp_all add: release_def Let_def)
  next
    case shuts_down
    then show ?thesis using w sl by (simp add: wakeups_ok_def shutdown_pool_def)
  qed
  then show ?thesis using pool_ok_step [OF ok step] by (simp add: wakeups_ok_def)
qed

lemma wakeups_ok_init: "pool_init s \<Longrightarrow> wakeups_ok s"
  using pool_ok_init [of s] by (auto simp: wakeups_ok_def pool_init_def list_all_iff)

interpretation wakeups: transition_invariant pool_init pool_step wakeups_ok
  by unfold_locales (blast intro: wakeups_ok_init wakeups_ok_step)+


lemma notify_one_keeps: "notify_one ts ts' \<Longrightarrow> i < length ts \<Longrightarrow> ts ! i \<noteq> Sleeping \<Longrightarrow> ts' ! i = ts ! i"
  by (erule notify_oneE) (auto simp: nth_list_update)

lemma awake_gets_slot:
  assumes can: "can_proceed (the_pool s)" and i: "i < length (threads s)" "threads s ! i = Awake"
    and step: "pool_step s t"
  shows "threads t ! i = Awake \<or> busy (threads t ! i)"
  using step
proof cases
  case (acquires j g p')
  then show ?thesis using i by (cases "i = j"; cases g) auto
next
  case (fails j ts)
  then have "ts ! i = (threads s)[j := Idle] ! i" using i by (intro notify_one_keeps) (auto simp: nth_list_update)
  then show ?thesis using fails i by (auto simp: nth_list_update)
next
  case (releases j c ts is_open)
  then have "ts ! i = (threads s)[j := Idle] ! i" using i by (intro notify_one_keeps) (auto simp: nth_list_update)
  then show ?thesis using releases i by (auto simp: nth_list_update)
next
  case (wakes_up j)
  then show ?thesis using i by (auto simp: nth_list_update)
next
  case (connects j c guard_ok)
  then show ?thesis using i by (auto simp: nth_list_update)
qed (use can i in auto)

section \<open>Properties\<close>

text \<open>C23. However the borrowing threads interleave, with failing connects, timeouts and broken connections:
  the pool's counter is the number of threads that connect or own a connection, queued and busy slots
  never exceed the pool's size, no connection has two owners, and \<open>acquire\<close> finds a slot exactly when
  fewer threads are busy than the pool is large, so lost connections never shrink it.\<close>

theorem pool_slots:
  assumes "pool_init s0" and "pool_step\<^sup>*\<^sup>* s0 s"
  shows "active (the_pool s) = tally busy (threads s) \<and>
    length (available (the_pool s)) + tally busy (threads s) \<le> pool_size (the_pool s) \<and>
    distinct (map conn_id (available (the_pool s) @ borrowed (threads s))) \<and>
    (can_proceed (the_pool s) \<longleftrightarrow> tally busy (threads s) < pool_size (the_pool s))"
  using slots.reachable_inv [OF assms] can_proceed_iff [of s] pool_okD [of s] by (simp add: conns_of_def)


section \<open>Witnesses\<close>

text \<open>One connection and three borrowers: the first takes it, the others block, and its release wakes one.\<close>

definition demo_system :: "connection list \<Rightarrow> nat \<Rightarrow> phase list \<Rightarrow> pool_system" where
  "demo_system conns n ts =
     \<lparr>the_pool = \<lparr>pool_size = 1, available = conns, active = n, acquire_timeout = 5000, statement_timeout = 0\<rparr>,
      threads = ts, next_conn = 1\<rparr>"

abbreviation demo_conn :: connection where
  "demo_conn \<equiv> \<lparr>conn_id = 0, session_timeout = 0\<rparr>"

lemma demo_init: "pool_init (demo_system [demo_conn] 0 [Idle, Idle, Idle])"
proof -
  have "new_pool (\<lambda>_. Inr True) 1 5000 0 = Inr (the_pool (demo_system [demo_conn] 0 [Idle, Idle, Idle]))"
    by (simp add: new_pool_def demo_system_def apply_session_guards_def)
  then show ?thesis unfolding pool_init_def
    by (intro conjI exI [of _ "\<lambda>_. Inr True"] exI [of _ 5000] exI [of _ 0]) (simp_all add: demo_system_def)
qed

lemma demo_run: "pool_step\<^sup>*\<^sup>* (demo_system [demo_conn] 0 [Idle, Idle, Idle]) (demo_system [demo_conn] 0 [Idle, Awake, Sleeping])"
proof -
  have "pool_step (demo_system [demo_conn] 0 [Idle, Idle, Idle]) (demo_system [] 1 [Holding demo_conn, Idle, Idle])"
    using pool_step.acquires [of 0 "demo_system [demo_conn] 0 [Idle, Idle, Idle]" "Took demo_conn"
        "the_pool (demo_system [] 1 [])"]
    by (simp add: demo_system_def can_proceed_def grab_def size_inc_def)
  moreover have "pool_step (demo_system [] 1 [Holding demo_conn, Idle, Idle])
      (demo_system [] 1 [Holding demo_conn, Sleeping, Idle])"
    using pool_step.blocks [of 1 "demo_system [] 1 [Holding demo_conn, Idle, Idle]"]
    by (simp add: demo_system_def can_proceed_def)
  moreover have "pool_step (demo_system [] 1 [Holding demo_conn, Sleeping, Idle])
      (demo_system [] 1 [Holding demo_conn, Sleeping, Sleeping])"
    using pool_step.blocks [of 2 "demo_system [] 1 [Holding demo_conn, Sleeping, Idle]"]
    by (simp add: demo_system_def can_proceed_def)
  moreover have "pool_step (demo_system [] 1 [Holding demo_conn, Sleeping, Sleeping])
      (demo_system [demo_conn] 0 [Idle, Awake, Sleeping])"
    using pool_step.releases [of 0 "demo_system [] 1 [Holding demo_conn, Sleeping, Sleeping]" demo_conn
        "[Idle, Awake, Sleeping]" True] notify_one.wakes [of 1 "[Idle, Sleeping, Sleeping]"]
    by (simp add: demo_system_def release_def size_dec_def)
  ultimately show ?thesis by (meson converse_rtranclp_into_rtranclp rtranclp.rtrancl_refl)
qed

theorem pool_slots_witness:
  "active (the_pool (demo_system [demo_conn] 0 [Idle, Awake, Sleeping])) = 0 \<and>
   can_proceed (the_pool (demo_system [demo_conn] 0 [Idle, Awake, Sleeping]))"
  using pool_slots [OF demo_init demo_run] by (simp add: demo_system_def tally_def)


end
