(* ===== verification/Database.thy ===== *)
theory Database
  imports Pool
begin

text \<open>
  The database manager of \<open>src/src/database/Database.hpp\<close>: transactions on a primary pool and its replicas,
  with retries, isolation levels, statement tracing and the fall-back of reads to the primary.
\<close>

section \<open>Statements\<close>

text \<open>\<open>detail::TracingTxn\<close> records the statements of a transaction.\<close>

record traced =
  statements :: string
  statement_count :: nat

definition new_traced :: traced where
  "new_traced = \<lparr>statements = [], statement_count = 0\<rparr>"

definition record_statement :: "string \<Rightarrow> traced \<Rightarrow> traced" where
  "record_statement q t =
     \<lparr>statements = (if statements t \<noteq> [] then statements t @ ''; '' else []) @ q,
      statement_count = size_inc (statement_count t)\<rparr>"

definition kMaxAttrLen :: nat where "kMaxAttrLen = 2048"

text \<open>The ellipsis is the UTF-8 encoding of U+2026.\<close>

definition ellipsis :: string where
  "ellipsis = [CHR 0xE2, CHR 0x80, CHR 0xA6]"

definition truncated_statements :: "traced \<Rightarrow> string" where
  "truncated_statements t =
     (if length (statements t) \<le> kMaxAttrLen then statements t
      else take kMaxAttrLen (statements t) @ ellipsis)"

text \<open>The attributes that the destructor sets on the span, if there is one and anything was recorded.\<close>

definition span_attributes :: "bool \<Rightarrow> traced \<Rightarrow> (string \<times> nat) option" where
  "span_attributes has_span t =
     (if has_span \<and> 0 < statement_count t then Some (truncated_statements t, statement_count t) else None)"

datatype isolation_level = ReadCommitted | RepeatableRead | Serializable

definition isolation_sql :: "isolation_level \<Rightarrow> string" where
  "isolation_sql level =
     (case level of
        ReadCommitted \<Rightarrow> ''SET TRANSACTION ISOLATION LEVEL READ COMMITTED''
      | RepeatableRead \<Rightarrow> ''SET TRANSACTION ISOLATION LEVEL REPEATABLE READ''
      | Serializable \<Rightarrow> ''SET TRANSACTION ISOLATION LEVEL SERIALIZABLE'')"

section \<open>One transaction\<close>

text \<open>
  libpqxx and the pool, as a transaction uses them: \<open>borrow\<close> constructs a \<open>PooledConnection\<close>, \<open>begin_txn\<close>
  opens a transaction on it, \<open>exec_sql\<close> runs one statement, \<open>commit_txn\<close> commits, and \<open>give_back\<close> stands
  for the destructors at the end of the scope, which abort what is not committed and release the
  connection.  The state \<open>'s\<close> holds the pools and the server.
\<close>

record ('p, 'c, 's) driver =
  borrow :: "'p \<Rightarrow> ('s, 'c) callable"
  begin_txn :: "'c \<Rightarrow> ('s, unit) callable"
  exec_sql :: "'c \<Rightarrow> string \<Rightarrow> ('s, unit) callable"
  commit_txn :: "'c \<Rightarrow> ('s, unit) callable"
  give_back :: "'c \<Rightarrow> 's \<Rightarrow> 's"

definition and_then :: "('s, 'a) callable \<Rightarrow> ('a \<Rightarrow> ('s, 'b) callable) \<Rightarrow> ('s, 'b) callable" where
  "and_then m f s = (case m s of (Inl e, s') \<Rightarrow> (Inl e, s') | (Inr a, s') \<Rightarrow> f a s')"

definition yields :: "'a \<Rightarrow> ('s, 'a) callable" where
  "yields a s = (Inr a, s)"

datatype txn_kind = Work | ReadTransaction

text \<open>The lambda that \<open>execute_with_\<close> hands to \<open>Retry::run\<close>.\<close>

definition transact ::
  "('p, 'c, 's) driver \<Rightarrow> 'p \<Rightarrow> txn_kind \<Rightarrow> isolation_level \<Rightarrow> ('c \<Rightarrow> ('s, 'a) callable) \<Rightarrow> ('s, 'a) callable" where
  "transact drv pool kind level func =
     and_then (borrow drv pool) (\<lambda>c s.
       let (result, s') =
         and_then (begin_txn drv c) (\<lambda>_.
         and_then (if kind = Work \<and> level \<noteq> ReadCommitted then exec_sql drv c (isolation_sql level) else yields ()) (\<lambda>_.
         and_then (func c) (\<lambda>a.
         and_then (commit_txn drv c) (\<lambda>_. yields a)))) s
       in (result, give_back drv c s'))"

section \<open>The manager\<close>

record 'p manager =
  primary_pool :: "'p option"
  replica_pools :: "'p list"
  current_replica :: nat
  initialized :: bool
  retry_policy :: policy

definition new_manager :: "'p manager" where
  "new_manager = \<lparr>primary_pool = None, replica_pools = [], current_replica = 0, initialized = False,
     retry_policy = default_policy\<rparr>"

definition set_retry_policy :: "policy \<Rightarrow> 'p manager \<Rightarrow> 'p manager" where
  "set_retry_policy p m = m\<lparr>retry_policy := p\<rparr>"

text \<open>\<open>open_pool\<close> constructs a \<open>ConnectionPool\<close> from a connection string.  A replica that cannot be opened
  is skipped.  When the primary cannot be opened nothing has changed.\<close>

fun open_replicas :: "(string \<Rightarrow> std_exception + 'p) \<Rightarrow> string list \<Rightarrow> 'p list" where
  "open_replicas open_pool [] = []"
| "open_replicas open_pool (r # rs) =
     (case open_pool r of Inl e \<Rightarrow> open_replicas open_pool rs | Inr p \<Rightarrow> p # open_replicas open_pool rs)"

definition initialize_manager ::
  "(string \<Rightarrow> std_exception + 'p) \<Rightarrow> string \<Rightarrow> string list \<Rightarrow> 'p manager \<Rightarrow> std_exception + 'p manager" where
  "initialize_manager open_pool primary_conn replica_conns m =
     (if initialized m then Inl (std_error ''Database already initialized'')
      else case open_pool primary_conn of
        Inl e \<Rightarrow> Inl e
      | Inr p \<Rightarrow> Inr (m\<lparr>primary_pool := Some p,
                        replica_pools := replica_pools m @ open_replicas open_pool replica_conns,
                        initialized := True\<rparr>))"

definition not_initialized :: thrown where
  "not_initialized = Thrown (std_error ''Database not initialized'')"

definition primary_pool_or_throw :: "'p manager \<Rightarrow> thrown + 'p" where
  "primary_pool_or_throw m =
     (if \<not> initialized m then Inl not_initialized
      else case primary_pool m of None \<Rightarrow> Inl not_initialized | Some p \<Rightarrow> Inr p)"

text \<open>\<open>fetch_add\<close> returns the old value of the counter, which wraps.  The code dereferences the primary
  when there is no replica.\<close>

definition pick_replica_pool :: "'p manager \<Rightarrow> 'p \<times> 'p manager" where
  "pick_replica_pool m =
     (if replica_pools m = [] then (the (primary_pool m), m)
      else (replica_pools m ! (current_replica m mod length (replica_pools m)),
            m\<lparr>current_replica := size_inc (current_replica m)\<rparr>))"

definition replica_pool_or_throw :: "'p manager \<Rightarrow> (thrown + 'p) \<times> 'p manager" where
  "replica_pool_or_throw m =
     (if \<not> initialized m then (Inl not_initialized, m)
      else let (p, m') = pick_replica_pool m in (Inr p, m'))"

definition get_primary :: "('p, 'c, 's) driver \<Rightarrow> 'p manager \<Rightarrow> ('s, 'c) callable" where
  "get_primary drv m s =
     (case primary_pool_or_throw m of Inl e \<Rightarrow> (Inl e, s) | Inr p \<Rightarrow> borrow drv p s)"

definition get_replica :: "('p, 'c, 's) driver \<Rightarrow> 'p manager \<Rightarrow> 's \<Rightarrow> ((thrown + 'c) \<times> 's) \<times> 'p manager" where
  "get_replica drv m s =
     (case replica_pool_or_throw m of
        (Inl e, m') \<Rightarrow> ((Inl e, s), m')
      | (Inr p, m') \<Rightarrow> (borrow drv p s, m'))"

text \<open>
  What the operations need besides the manager: the driver, the two counter sinks and the random draws
  of the back-off.  \<open>Queried\<close> is a call of the query counter.
\<close>

datatype db_event = Queried string string | Retried retry_event

record ('p, 'c, 's) environment =
  env_driver :: "('p, 'c, 's) driver"
  env_draw :: "nat \<Rightarrow> int \<Rightarrow> int"
  env_query_sink :: bool
  env_retry_sink :: bool

definition bind_query_metrics :: "bool \<Rightarrow> ('p, 'c, 's) environment \<Rightarrow> ('p, 'c, 's) environment" where
  "bind_query_metrics fn env = env\<lparr>env_query_sink := fn\<rparr>"

definition reset_query_metrics :: "('p, 'c, 's) environment \<Rightarrow> ('p, 'c, 's) environment" where
  "reset_query_metrics env = env\<lparr>env_query_sink := False\<rparr>"

definition inc_query_metric :: "bool \<Rightarrow> string \<Rightarrow> string \<Rightarrow> db_event list" where
  "inc_query_metric sink op pool = (if sink then [Queried op pool] else [])"

definition op_label :: "string \<Rightarrow> string" where
  "op_label span_name = (if prefix ''db.'' span_name then drop 3 span_name else span_name)"

type_synonym ('s, 'a) db_result = "((thrown + 'a) \<times> 's) \<times> db_event list"

definition execute_with ::
  "('p, 'c, 's) environment \<Rightarrow> policy \<Rightarrow> 'p \<Rightarrow> txn_kind \<Rightarrow> (std_exception \<Rightarrow> bool) \<Rightarrow> string \<Rightarrow> string \<Rightarrow>
     isolation_level \<Rightarrow> ('c \<Rightarrow> ('s, 'a) callable) \<Rightarrow> 's \<Rightarrow> ('s, 'a) db_result" where
  "execute_with env p pool kind classifier span_name pool_label level func s =
     (let (result, events) =
        run (env_draw env) (transact (env_driver env) pool kind level func) classifier p (env_retry_sink env) span_name s
      in (result, inc_query_metric (env_query_sink env) (op_label span_name) pool_label @ map Retried events))"

definition on_primary ::
  "'p manager \<Rightarrow> ('p \<Rightarrow> 's \<Rightarrow> ('s, 'a) db_result) \<Rightarrow> 's \<Rightarrow> ('s, 'a) db_result" where
  "on_primary m f s = (case primary_pool_or_throw m of Inl e \<Rightarrow> ((Inl e, s), []) | Inr p \<Rightarrow> f p s)"

definition execute_transaction ::
  "('p, 'c, 's) environment \<Rightarrow> 'p manager \<Rightarrow> isolation_level \<Rightarrow> ('c \<Rightarrow> ('s, 'a) callable) \<Rightarrow> 's \<Rightarrow> ('s, 'a) db_result" where
  "execute_transaction env m level func =
     on_primary m (\<lambda>p. execute_with env (retry_policy m) p Work is_transient_pqxx_write ''db.transaction'' ''primary''
       level func)"

definition execute_write ::
  "('p, 'c, 's) environment \<Rightarrow> 'p manager \<Rightarrow> ('c \<Rightarrow> ('s, 'a) callable) \<Rightarrow> 's \<Rightarrow> ('s, 'a) db_result" where
  "execute_write env m func =
     on_primary m (\<lambda>p. execute_with env (retry_policy m) p Work is_transient_pqxx_write ''db.write'' ''primary''
       ReadCommitted func)"

definition execute_write_idempotent ::
  "('p, 'c, 's) environment \<Rightarrow> 'p manager \<Rightarrow> ('c \<Rightarrow> ('s, 'a) callable) \<Rightarrow> 's \<Rightarrow> ('s, 'a) db_result" where
  "execute_write_idempotent env m func =
     on_primary m (\<lambda>p. execute_with env (retry_policy m) p Work is_transient_pqxx_read ''db.write.idempotent''
       ''primary'' ReadCommitted func)"

definition execute_read_primary ::
  "('p, 'c, 's) environment \<Rightarrow> 'p manager \<Rightarrow> ('c \<Rightarrow> ('s, 'a) callable) \<Rightarrow> 's \<Rightarrow> ('s, 'a) db_result" where
  "execute_read_primary env m func =
     on_primary m (\<lambda>p. execute_with env (retry_policy m) p ReadTransaction is_transient_pqxx_read ''db.read''
       ''primary'' ReadCommitted func)"

text \<open>A read on a replica falls back to the primary after any \<open>std::exception\<close>.\<close>

definition execute_read ::
  "('p, 'c, 's) environment \<Rightarrow> 'p manager \<Rightarrow> ('c \<Rightarrow> ('s, 'a) callable) \<Rightarrow> 's \<Rightarrow> ('s, 'a) db_result \<times> 'p manager" where
  "execute_read env m func s =
     (if replica_pools m = [] then (execute_read_primary env m func s, m)
      else
        let (picked, m') = replica_pool_or_throw m;
            ((result, s'), events) =
              (case picked of
                 Inl e \<Rightarrow> ((Inl e, s), [])
               | Inr p \<Rightarrow> execute_with env (retry_policy m) p ReadTransaction is_transient_pqxx_read ''db.read''
                   ''replica'' ReadCommitted func s)
        in case result of
             Inl (Thrown e) \<Rightarrow>
               (let (final, more_events) = execute_read_primary env m' func s'
                in ((final, events @ more_events), m'))
           | _ \<Rightarrow> (((result, s'), events), m'))"

text \<open>\<open>with_primary_connection\<close>: \<open>reapply\<close> is \<open>reapply_session_guards\<close>, run when \<open>func\<close> has returned or
  thrown.\<close>

definition with_primary_connection ::
  "('p, 'c, 's) environment \<Rightarrow> ('c \<Rightarrow> 's \<Rightarrow> 's) \<Rightarrow> 'p manager \<Rightarrow> ('c \<Rightarrow> ('s, 'a) callable) \<Rightarrow> ('s, 'a) callable" where
  "with_primary_connection env reapply m func =
     and_then (get_primary (env_driver env) m) (\<lambda>c s.
       let (result, s') = func c s in (result, give_back (env_driver env) c (reapply c s')))"

definition health_check ::
  "('p, 'c, 's) environment \<Rightarrow> 'p manager \<Rightarrow> ('s, bool) callable" where
  "health_check env m s =
     (case and_then (get_primary (env_driver env) m) (\<lambda>c s'.
             let (result, s'') = exec_sql (env_driver env) c ''SELECT 1'' s' in
             (result, give_back (env_driver env) c s'')) s of
        (Inr _, s') \<Rightarrow> (Inr True, s')
      | (Inl (Thrown _), s') \<Rightarrow> (Inr False, s')
      | (Inl (Foreign x), s') \<Rightarrow> (Inl (Foreign x), s'))"

text \<open>\<open>close_pool\<close> is \<open>ConnectionPool::shutdown\<close> of one pool.\<close>

definition shutdown_manager :: "('p \<Rightarrow> 's \<Rightarrow> 's) \<Rightarrow> 'p manager \<Rightarrow> 's \<Rightarrow> 's \<times> 'p manager" where
  "shutdown_manager close_pool m s =
     (if initialized m then
        (let s1 = fold close_pool (replica_pools m) s;
             s2 = (case primary_pool m of Some p \<Rightarrow> close_pool p s1 | None \<Rightarrow> s1)
         in (s2, m\<lparr>replica_pools := [], primary_pool := None, initialized := False\<rparr>))
      else (s, m))"

definition primary_pool_active :: "('p \<Rightarrow> pool) \<Rightarrow> 'p manager \<Rightarrow> nat" where
  "primary_pool_active pools m = (case primary_pool m of Some p \<Rightarrow> active (pools p) | None \<Rightarrow> 0)"

definition primary_pool_size :: "('p \<Rightarrow> pool) \<Rightarrow> 'p manager \<Rightarrow> nat" where
  "primary_pool_size pools m = (case primary_pool m of Some p \<Rightarrow> pool_size (pools p) | None \<Rightarrow> 0)"

definition replica_count :: "'p manager \<Rightarrow> nat" where
  "replica_count m = length (replica_pools m)"

definition replica_pool_active :: "('p \<Rightarrow> pool) \<Rightarrow> 'p manager \<Rightarrow> nat" where
  "replica_pool_active pools m = foldl (\<lambda>n r. (n + active (pools r)) mod 2 ^ 64) 0 (replica_pools m)"

definition replica_pool_size :: "('p \<Rightarrow> pool) \<Rightarrow> 'p manager \<Rightarrow> nat" where
  "replica_pool_size pools m = foldl (\<lambda>n r. (n + pool_size (pools r)) mod 2 ^ 64) 0 (replica_pools m)"

section \<open>The global instance\<close>

type_synonym 'p global_db = "'p manager option"

definition initialize_global ::
  "(string \<Rightarrow> std_exception + 'p) \<Rightarrow> string \<Rightarrow> string list \<Rightarrow> 'p global_db \<Rightarrow> (std_exception + unit) \<times> 'p global_db" where
  "initialize_global open_pool primary_conn replica_conns g =
     (if g \<noteq> None then (Inl (std_error ''Database already initialized''), g)
      else case initialize_manager open_pool primary_conn replica_conns new_manager of
        Inl e \<Rightarrow> (Inl e, Some new_manager)
      | Inr m \<Rightarrow> (Inr (), Some m))"

definition get_global :: "'p global_db \<Rightarrow> std_exception + 'p manager" where
  "get_global g = (case g of None \<Rightarrow> Inl (std_error ''Database not initialized'') | Some m \<Rightarrow> Inr m)"

definition global_is_initialized :: "'p global_db \<Rightarrow> bool" where
  "global_is_initialized g \<longleftrightarrow> (case g of None \<Rightarrow> False | Some m \<Rightarrow> initialized m)"

definition shutdown_global :: "('p \<Rightarrow> 's \<Rightarrow> 's) \<Rightarrow> 'p global_db \<Rightarrow> 's \<Rightarrow> 's \<times> 'p global_db" where
  "shutdown_global close_pool g s =
     (case g of Some m \<Rightarrow> (fst (shutdown_manager close_pool m s), None) | None \<Rightarrow> (s, None))"


section \<open>Properties\<close>

lemma state_after_same:
  assumes same: "\<And>s' e. fst (fn s') = Inl (Thrown e) \<Longrightarrow> is_transient e \<Longrightarrow> view (snd (fn s')) = view s'"
    and tr: "list_all (\<lambda>j. transient_failure is_transient (outcome fn s j)) [0..<k]"
  shows "view (state_after fn s k) = view s"
  using tr
proof (induction k)
  case (Suc k)
  then have "transient_failure is_transient (fst (fn (state_after fn s k)))" by (simp add: outcome_def)
  then obtain e where "fst (fn (state_after fn s k)) = Inl (Thrown e)" "is_transient e" by (auto elim: transient_failureE)
  then show ?case using Suc same by simp
qed simp

text \<open>A run whose transient failures leave a view of the state alone ends with one call from a state of the
  same view.\<close>

lemma run_last_call:
  assumes "\<And>s' e. fst (fn s') = Inl (Thrown e) \<Longrightarrow> is_transient e \<Longrightarrow> view (snd (fn s')) = view s'"
  shows "\<exists>s1. view s1 = view s \<and> fst (run draw fn is_transient p sink component s) = fn s1"
proof -
  obtain k where k: "stops_at fn is_transient p 0 s k"
    "fst (run draw fn is_transient p sink component s) = (outcome fn s k, state_after fn s (Suc k))"
    using run_loop_spec [of fn is_transient p 0 s] unfolding run_def by blast
  then have "list_all (\<lambda>j. transient_failure is_transient (outcome fn s j)) [0..<k]"
    by (simp add: stops_at_def list_all_iff)
  then have "view (state_after fn s k) = view s"
    by (intro state_after_same [where is_transient = is_transient]) (use assms in blast)
  moreover have "fst (run draw fn is_transient p sink component s) = fn (state_after fn s k)"
    using k(2) by (simp add: outcome_def)
  ultimately show ?thesis by blast
qed

lemma fst_execute_with:
  "fst (execute_with env p pool kind classifier span_name pool_label level func s) =
     fst (run (env_draw env) (transact (env_driver env) pool kind level func) classifier p (env_retry_sink env) span_name s)"
  by (simp add: execute_with_def case_prod_beta)

text \<open>C22. A write takes effect at most once: if the server rolls a transaction back whenever it reports a
  serialization failure or a deadlock, then whatever the number of retries, the result of a write and
  the state it leaves are those of a single transaction that started from the data as they were before
  the call.\<close>

theorem execute_write_at_most_once:
  assumes "primary_pool_or_throw m = Inr p"
    and "\<forall>s e. fst (transact (env_driver env) p Work ReadCommitted func s) = Inl (Thrown e) \<and>
      ex_sqlstate e \<in> {Some ''40001'', Some ''40P01''} \<longrightarrow>
      view (snd (transact (env_driver env) p Work ReadCommitted func s)) = view s"
  shows "\<exists>s1. view s1 = view s \<and>
    fst (execute_write env m func s) = transact (env_driver env) p Work ReadCommitted func s1"
proof -
  let ?fn = "transact (env_driver env) p Work ReadCommitted func"
  have "view (snd (?fn s')) = view s'" if "fst (?fn s') = Inl (Thrown e)" "is_transient_pqxx_write e" for s' e
    using assms(2) that by (auto simp: is_transient_pqxx_write_def split: option.splits)
  from run_last_call [of ?fn is_transient_pqxx_write view, OF this]
  show ?thesis by (simp add: execute_write_def on_primary_def assms(1) fst_execute_with)
qed

lemma run_ok:
  assumes "\<And>s'. \<exists>a. fst (fn s') = Inr a"
  shows "\<exists>a. fst (fst (run draw fn is_transient p sink component s)) = Inr a"
  using run_last_call [of fn is_transient "\<lambda>_. ()" s draw p sink component] assms by (metis (no_types, lifting))

lemma run_not_foreign:
  assumes "\<And>s' x. fst (fn s') \<noteq> Inl (Foreign x)"
  shows "fst (fst (run draw fn is_transient p sink component s)) \<noteq> Inl (Foreign x)"
  using run_last_call [of fn is_transient "\<lambda>_. ()" s draw p sink component] assms by (metis (no_types, lifting))

text \<open>Replicas never take reads down: when read transactions on the primary succeed, a read succeeds too,
  however the replica it is tried on fails first and whichever replica that is, as long as the failure
  is a \<open>std::exception\<close>.\<close>

theorem execute_read_available:
  assumes "primary_pool_or_throw m = Inr p"
    and "\<forall>s. \<exists>a. fst (transact (env_driver env) p ReadTransaction ReadCommitted func s) = Inr a"
    and "\<forall>r\<in>set (replica_pools m). \<forall>s x.
      fst (transact (env_driver env) r ReadTransaction ReadCommitted func s) \<noteq> Inl (Foreign x)"
  shows "\<exists>a. fst (fst (fst (execute_read env m func s))) = Inr a"
proof -
  have prim: "\<exists>a. fst (fst (execute_read_primary env m' func s')) = Inr a"
    if "primary_pool_or_throw m' = Inr p" for m' s'
    unfolding execute_read_primary_def on_primary_def that sum.case fst_execute_with
    using assms(2) by (intro run_ok) simp
  show ?thesis
  proof (cases "replica_pools m = []")
    case True
    then show ?thesis using prim [OF assms(1)] by (simp add: execute_read_def)
  next
    case False
    let ?r = "replica_pools m ! (current_replica m mod length (replica_pools m))"
    let ?m = "m\<lparr>current_replica := size_inc (current_replica m)\<rparr>"
    have init: "initialized m"
      by (rule ccontr) (use assms(1) in \<open>simp add: primary_pool_or_throw_def\<close>)
    have r: "replica_pool_or_throw m = (Inr ?r, ?m)"
      using False init by (simp add: replica_pool_or_throw_def pick_replica_pool_def)
    have m': "primary_pool_or_throw ?m = Inr p" using assms(1) init by (simp add: primary_pool_or_throw_def)
    let ?run = "execute_with env (retry_policy m) ?r ReadTransaction is_transient_pqxx_read ''db.read'' ''replica''
      ReadCommitted func s"
    obtain result s' events where run: "?run = ((result, s'), events)" by (metis prod.exhaust)
    have "?r \<in> set (replica_pools m)" using False by simp
    then have "fst (fst ?run) \<noteq> Inl (Foreign x)" for x
      using assms(3) unfolding fst_execute_with by (intro run_not_foreign) blast
    then have "result \<noteq> Inl (Foreign x)" for x using run by simp
    then consider a where "result = Inr a" | e where "result = Inl (Thrown e)"
      by (metis sum.exhaust thrown.exhaust)
    then show ?thesis
    proof cases
      case 1
      then show ?thesis using False by (simp add: execute_read_def r run)
    next
      case 2
      then show ?thesis using False prim [OF m', of s']
        by (simp add: execute_read_def r run case_prod_beta)
    qed
  qed
qed

text \<open>Picking a replica again and again.\<close>

primrec pick_many :: "nat \<Rightarrow> 'p manager \<Rightarrow> 'p list" where
  "pick_many 0 m = []"
| "pick_many (Suc n) m = (let (p, m') = pick_replica_pool m in p # pick_many n m')"

lemma pick_many_map:
  "replica_pools m \<noteq> [] \<Longrightarrow> current_replica m + n \<le> 2 ^ 64 \<Longrightarrow>
     pick_many n m = map (\<lambda>i. replica_pools m ! ((current_replica m + i) mod length (replica_pools m))) [0..<n]"
proof (induction n arbitrary: m)
  case (Suc n)
  let ?m = "m\<lparr>current_replica := size_inc (current_replica m)\<rparr>"
  have first: "pick_many (Suc n) m =
      replica_pools m ! (current_replica m mod length (replica_pools m)) # pick_many n ?m"
    using Suc.prems(1) by (simp add: pick_replica_pool_def)
  show ?case
  proof (cases n)
    case 0
    then show ?thesis unfolding first by simp
  next
    case (Suc k)
    then have "size_inc (current_replica m) = Suc (current_replica m)"
      using Suc.prems(2) by (simp add: size_inc_def)
    then have "pick_many n ?m =
        map (\<lambda>i. replica_pools m ! ((current_replica m + Suc i) mod length (replica_pools m))) [0..<n]"
      using Suc.IH [of ?m] Suc.prems by simp
    moreover have "[0..<Suc n] = 0 # map Suc [0..<n]" by (simp add: map_Suc_upt upt_conv_Cons del: upt_Suc)
    ultimately show ?thesis unfolding first by (simp add: comp_def del: upt_Suc)
  qed
qed simp

text \<open>Reads are spread evenly: as long as the counter does not wrap, as many consecutive picks as there are
  replicas go once to each, starting from the replica the counter points to.\<close>

theorem replicas_round_robin:
  assumes "replica_pools m \<noteq> []" and "current_replica m + length (replica_pools m) \<le> 2 ^ 64"
  shows "pick_many (length (replica_pools m)) m = rotate (current_replica m) (replica_pools m) \<and>
    mset (pick_many (length (replica_pools m)) m) = mset (replica_pools m)"
proof -
  have eq: "pick_many (length (replica_pools m)) m = rotate (current_replica m) (replica_pools m)"
    unfolding pick_many_map [OF assms] by (rule nth_equalityI) (simp_all add: nth_rotate)
  have one: "mset (rotate1 xs) = mset xs" for xs :: "'a list" by (cases xs) simp_all
  have "mset (rotate n xs) = mset xs" for n and xs :: "'a list"
    by (induction n) (simp_all add: one)
  then show ?thesis using eq by simp
qed

text \<open>The instance is set before its pools are opened.\<close>

lemma initialize_manager_up: "initialize_manager open_pool primary replicas m = Inr m' \<Longrightarrow> initialized m'"
  by (auto simp: initialize_manager_def split: if_splits sum.splits)

interpretation database_instance:
  sticky_instance "\<lambda>g r g'. initialize_global open_pool primary replicas g = (r, g')" initialized
    for open_pool primary replicas
  by unfold_locales
    (auto simp: initialize_global_def new_manager_def split: sum.splits dest: initialize_manager_up)

text \<open>A failed start cannot be repeated: when the primary cannot be opened, the global instance stays
  behind uninitialized, so the next attempt is refused as already initialized, even though
  \<open>is_initialized\<close> says no.\<close>

theorem failed_start_blocks_retry:
  assumes "open_pool primary_conn = Inl e"
  shows "let (r, g) = initialize_global open_pool primary_conn replica_conns None in
    r = Inl e \<and> \<not> global_is_initialized g \<and>
    fst (initialize_global open_pool' primary_conn' replica_conns' g) = Inl (std_error ''Database already initialized'')"
  using assms by (simp add: initialize_global_def initialize_manager_def new_manager_def global_is_initialized_def)


section \<open>Witnesses\<close>

text \<open>A server whose state is the number of serialization failures still to come and the number of committed
  transactions, and a replica (pool 1) whose connections are broken.\<close>

definition demo_driver :: "(nat, unit, nat \<times> nat) driver" where
  "demo_driver =
     \<lparr>borrow = (\<lambda>pool s. if pool = 1
        then (Inl (Thrown ((std_error ''down'')\<lparr>ex_broken_connection := True\<rparr>)), s) else (Inr (), s)),
      begin_txn = (\<lambda>_ s. (Inr (), s)), exec_sql = (\<lambda>_ _ s. (Inr (), s)),
      commit_txn = (\<lambda>_ (n, done). (Inr (), (n, Suc done))), give_back = (\<lambda>_ s. s)\<rparr>"

definition demo_body :: "unit \<Rightarrow> (nat \<times> nat, nat) callable" where
  "demo_body c s =
     (if fst s > 0 then (Inl (Thrown ((std_error ''serialization'')\<lparr>ex_sqlstate := Some ''40001''\<rparr>)), (fst s - 1, snd s))
      else (Inr 7, s))"

definition demo_env :: "(nat, unit, nat \<times> nat) environment" where
  "demo_env = \<lparr>env_driver = demo_driver, env_draw = (\<lambda>_ hi. hi), env_query_sink = False, env_retry_sink = False\<rparr>"

definition demo_manager :: "nat list \<Rightarrow> nat manager" where
  "demo_manager replicas = \<lparr>primary_pool = Some 0, replica_pools = replicas, current_replica = 0, initialized = True,
     retry_policy = default_policy\<rparr>"

lemmas demo_defs = demo_env_def demo_driver_def demo_manager_def transact_def and_then_def yields_def

lemma demo_primary: "primary_pool_or_throw (demo_manager rs) = Inr 0"
  by (simp add: primary_pool_or_throw_def demo_manager_def)

theorem execute_write_at_most_once_witness:
  "\<exists>s1. snd s1 = 0 \<and>
     fst (execute_write demo_env (demo_manager []) demo_body (1, 0)) =
       transact demo_driver 0 Work ReadCommitted demo_body s1"
proof -
  have "\<forall>s e. fst (transact (env_driver demo_env) 0 Work ReadCommitted demo_body s) = Inl (Thrown e) \<and>
      ex_sqlstate e \<in> {Some ''40001'', Some ''40P01''} \<longrightarrow>
      snd (snd (transact (env_driver demo_env) 0 Work ReadCommitted demo_body s)) = snd s"
    by (auto simp: demo_defs demo_body_def split: if_splits)
  from execute_write_at_most_once [where view = snd, OF demo_primary this, of "(1, 0)"]
  show ?thesis by (simp add: demo_env_def)
qed

theorem execute_read_available_witness:
  "\<exists>a. fst (fst (fst (execute_read demo_env (demo_manager [1]) (\<lambda>_ s. (Inr 7, s)) (0, 0)))) = Inr a"
  by (rule execute_read_available [OF demo_primary]) (auto simp: demo_defs)

theorem replicas_round_robin_witness:
  "pick_many 3 ((demo_manager [5, 6, 7])\<lparr>current_replica := 1\<rparr>) = [6, 7, 5]"
  using replicas_round_robin [of "(demo_manager [5, 6, 7])\<lparr>current_replica := 1\<rparr>"]
  by (simp add: demo_manager_def numeral_3_eq_3 del: pick_many.simps)

theorem failed_start_blocks_retry_witness:
  "fst (initialize_global (\<lambda>_. Inr (0 :: nat)) ''primary'' []
     (snd (initialize_global (\<lambda>_. Inl (std_error ''refused'')) ''primary'' [] None))) =
   Inl (std_error ''Database already initialized'')"
  using failed_start_blocks_retry [of "\<lambda>_. Inl (std_error ''refused'')" "''primary''" "std_error ''refused''" "[]"
      "\<lambda>_. Inr (0 :: nat)" "''primary''" "[]"]
  by (simp add: Let_def case_prod_beta)

end
