(* ===== verification/Boot.thy ===== *)
theory Boot
  imports Config Cache Database
begin

text \<open>
  The start of the service in \<open>src/src/core/Core.hpp\<close> and \<open>src/src/tasks/Tasks.hpp\<close>: the checks of the
  configuration and the initializers of the modules, over the global instances of all of them.
\<close>

section \<open>Database credentials\<close>

definition kWeak :: "string list" where
  "kWeak = [[], ''postgres'', ''password'', ''changeme'', ''admin'', ''root'', ''123456'']"

definition insecure_password :: std_exception where
  "insecure_password = std_error ''insecure database password rejected by DATABASE_REQUIRE_SECURE_PASSWORD''"

text \<open>The result tells whether a warning was logged.\<close>

definition check_password_value :: "environ \<Rightarrow> string \<Rightarrow> std_exception + bool" where
  "check_password_value getenv password =
     (if password \<notin> set kWeak then Inr False
      else
        let require_secure = (case getenv ''DATABASE_REQUIRE_SECURE_PASSWORD'' of
              None \<Rightarrow> False | Some v \<Rightarrow> v = ''true'' \<or> v = ''1'' \<or> v = ''yes'')
        in if require_secure then Inl insecure_password else Inr True)"

definition check_password_safety :: "environ \<Rightarrow> string \<Rightarrow> std_exception + bool" where
  "check_password_safety getenv url =
     (if \<not> (prefix ''postgresql://'' url \<or> prefix ''postgres://'' url) then Inr False
      else
        let scheme_end = the (find_sub ''://'' url) in
        case find_char CHR ''@'' (drop scheme_end url) of
          None \<Rightarrow> Inr False
        | Some k \<Rightarrow>
            let userinfo = substr url (scheme_end + 3) (scheme_end + k - scheme_end - 3);
                password = (case find_char CHR '':'' userinfo of None \<Rightarrow> [] | Some c \<Rightarrow> drop (c + 1) userinfo)
            in check_password_value getenv password)"

section \<open>Configuration of the modules\<close>

text \<open>A warning of \<open>validate_config_\<close>; its throw path is reserved for later.\<close>

definition is_production :: "string \<Rightarrow> bool" where
  "is_production env \<longleftrightarrow> env = ''production'' \<or> env = ''prod''"

definition validate_config :: "environ \<Rightarrow> app_config \<Rightarrow> std_exception + string list" where
  "validate_config getenv cfg =
     (case get_string getenv cfg ''app.env'' ''APP_ENV'' ''development'' of
        Inl e \<Rightarrow> Inl e
      | Inr env \<Rightarrow>
          if is_production env then
            map_sum id (\<lambda>docs. if docs then [''Config validation: docs.enabled=true in production''] else [])
              (get_bool getenv cfg ''docs.enabled'' ''DOCS_ENABLED'' False)
          else Inr [])"

text \<open>The elements that a range \<open>for\<close> visits, and the strings among them up to the first other value.\<close>

fun json_elements :: "json_value \<Rightarrow> json_value list" where
  "json_elements (JArray vs) = vs"
| "json_elements (JObject ms) = map snd ms"
| "json_elements JNull = []"
| "json_elements v = [v]"

fun leading_strings :: "json_value list \<Rightarrow> string list" where
  "leading_strings [] = []"
| "leading_strings (v # vs) = (case as_string v of Some s \<Rightarrow> s # leading_strings vs | None \<Rightarrow> [])"

definition env_not_empty :: "environ \<Rightarrow> string \<Rightarrow> string option" where
  "env_not_empty getenv v = (case getenv v of Some s \<Rightarrow> if s \<noteq> [] then Some s else None | None \<Rightarrow> None)"

record dsn_parts =
  dsn_port :: int
  dsn_user :: string
  dsn_name :: string
  dsn_password :: string

definition read_dsn_parts :: "environ \<Rightarrow> app_config \<Rightarrow> std_exception + dsn_parts" where
  "read_dsn_parts getenv cfg =
     (case (get_int getenv cfg ''database.port'' ''DATABASE_PORT'' 5432,
            get_string getenv cfg ''database.user'' ''DATABASE_USER'' ''app'',
            get_string getenv cfg ''database.name'' ''DATABASE_NAME'' ''app'',
            get_string getenv cfg ''database.password'' ''DATABASE_PASSWORD'' []) of
        (Inr p, Inr u, Inr n, Inr pw) \<Rightarrow> Inr \<lparr>dsn_port = p, dsn_user = u, dsn_name = n, dsn_password = pw\<rparr>
      | (Inl e, _, _, _) \<Rightarrow> Inl e
      | (_, Inl e, _, _) \<Rightarrow> Inl e
      | (_, _, Inl e, _) \<Rightarrow> Inl e
      | (_, _, _, Inl e) \<Rightarrow> Inl e)"

definition conninfo_of :: "dsn_parts \<Rightarrow> string \<Rightarrow> string" where
  "conninfo_of d h = make_conninfo h (dsn_port d) (dsn_user d) (dsn_name d) (dsn_password d)"

definition read_replicas :: "environ \<Rightarrow> app_config \<Rightarrow> std_exception + string list" where
  "read_replicas getenv cfg =
     (case env_not_empty getenv ''DATABASE_REPLICA_URLS'' of
        Some urls \<Rightarrow> Inr (split_csv_vec urls)
      | None \<Rightarrow>
          (case env_not_empty getenv ''DATABASE_REPLICA_HOSTS'' of
             Some hosts \<Rightarrow>
               map_sum id (\<lambda>d. map (conninfo_of d) (split_csv_vec hosts)) (read_dsn_parts getenv cfg)
           | None \<Rightarrow>
               (case Option.bind (json_at (config_data cfg) ''database'') (\<lambda>d. json_at d ''replicas'') of
                  None \<Rightarrow> Inr []
                | Some rs \<Rightarrow> Inr (leading_strings (json_elements rs)))))"

definition read_primary :: "environ \<Rightarrow> app_config \<Rightarrow> std_exception + string" where
  "read_primary getenv cfg =
     (case get_string getenv cfg ''database.primary'' ''DATABASE_PRIMARY_URL'' [] of
        Inl e \<Rightarrow> Inl e
      | Inr primary \<Rightarrow>
          if primary = [] then
            (case get_string getenv cfg ''database.host'' ''DATABASE_HOST'' ''localhost'' of
               Inl e \<Rightarrow> Inl e
             | Inr h \<Rightarrow>
                 (case read_dsn_parts getenv cfg of
                    Inl e \<Rightarrow> Inl e
                  | Inr d \<Rightarrow> map_sum id (\<lambda>_. conninfo_of d h) (check_password_value getenv (dsn_password d))))
          else map_sum id (\<lambda>_. primary) (check_password_safety getenv primary))"

text \<open>The nodes of the configuration up to the first that is malformed, which leaves the default.\<close>

fun leading_nodes :: "json_value list \<Rightarrow> (string \<times> int) list" where
  "leading_nodes [] = []"
| "leading_nodes (n # ns) =
     (case (Option.bind (json_at n ''host'') as_string, Option.bind (json_at n ''port'') as_int) of
        (Some h, Some p) \<Rightarrow> (h, p) # leading_nodes ns
      | _ \<Rightarrow> [(''localhost'', 26379)])"

definition read_sentinels :: "environ \<Rightarrow> app_config \<Rightarrow> (string \<times> int) list" where
  "read_sentinels getenv cfg =
     (case env_not_empty getenv ''REDIS_SENTINEL_NODES'' of
        Some csv \<Rightarrow> parse_sentinel_nodes_csv csv
      | None \<Rightarrow>
          (case Option.bind (Option.bind (json_at (config_data cfg) ''cache'') (\<lambda>c. json_at c ''sentinel''))
                  (\<lambda>s. json_at s ''nodes'') of
             None \<Rightarrow> [(''localhost'', 26379)]
           | Some nodes \<Rightarrow> leading_nodes (json_elements nodes)))"

section \<open>The modules\<close>

text \<open>
  The global instances: a pointer that may be null, with the flag \<open>initialized\<close> of what it points to for
  Observability and Migrations.  \<open>outside\<close> is everything beyond the process.
\<close>

record ('p, 'c, 's) world =
  config :: global_config
  observability :: "bool option"
  database :: "'p global_db"
  migrations :: "bool option"
  cache :: "'c global_cache"
  tasks :: bool
  timers :: "string list"
  retry_sink :: bool
  query_sink :: bool
  outside :: 's

definition null_world :: "'s \<Rightarrow> ('p, 'c, 's) world" where
  "null_world s =
     \<lparr>config = None, observability = None, database = None, migrations = None, cache = None, tasks = False,
      timers = [], retry_sink = False, query_sink = False, outside = s\<rparr>"

text \<open>What the modules need from outside: \<open>start_observability\<close> is \<open>ObservabilitySystem::initialize\<close>,
  \<open>open_pool\<close> constructs a connection pool, \<open>run_migrations\<close> is \<open>MigrationRunner::initialize\<close>.\<close>

record ('p, 'c, 'd, 's) host_system =
  io :: config_io
  getenv :: environ
  start_observability :: "string list \<Rightarrow> ('s, unit) callable"
  open_pool :: "nat \<Rightarrow> int \<Rightarrow> int \<Rightarrow> string \<Rightarrow> std_exception + 'p"
  close_pool :: "'p \<Rightarrow> 's \<Rightarrow> 's"
  run_migrations :: "string \<Rightarrow> ('s, unit) callable"
  redis_lib :: "('c, 's) redis"
  db_environment :: "('p, 'd, 's) environment"

type_synonym ('p, 'c, 's, 'a) init = "(('p, 'c, 's) world, 'a) callable"

definition of_result :: "std_exception + 'a \<Rightarrow> ('w, 'a) callable" where
  "of_result r w = (case r of Inl e \<Rightarrow> (Inl (Thrown e), w) | Inr a \<Rightarrow> (Inr a, w))"

definition throws :: "string \<Rightarrow> ('w, 'a) callable" where
  "throws what w = (Inl (Thrown (std_error what)), w)"

definition modify :: "('w \<Rightarrow> 'w) \<Rightarrow> ('w, unit) callable" where
  "modify f w = (Inr (), f w)"

text \<open>\<open>Observability::initialize\<close> and the retry counter.  The pointer is set before the start, which may
  throw; the log level and the metric families have no effect here.\<close>

definition observability_args :: "environ \<Rightarrow> app_config \<Rightarrow> std_exception + string list" where
  "observability_args env cfg =
     (let reads = map (\<lambda>(key, var, d). get_string env cfg key var d)
            [(''logging.name'', ''LOG_NAME'', ''llm_guard''), (''logging.file'', ''LOG_FILE'', ''logs/app.log''),
             (''logging.level'', ''LOG_LEVEL'', ''info''), (''logging.format'', ''LOG_FORMAT'', ''text''),
             (''observability.metrics_address'', ''METRICS_ADDRESS'', ''0.0.0.0:9090''),
             (''observability.service_name'', ''SERVICE_NAME'', ''llm_guard_service''),
             (''observability.otlp_endpoint'', ''OTLP_ENDPOINT'', [])]
      in fold (\<lambda>r acc. case acc of Inl e \<Rightarrow> Inl e | Inr vs \<Rightarrow> map_sum id (\<lambda>v. vs @ [v]) r) reads (Inr []))"

definition initialize_observability :: "('p, 'c, 'd, 's) host_system \<Rightarrow> string list \<Rightarrow> ('p, 'c, 's, unit) init" where
  "initialize_observability h args w =
     (if observability w \<noteq> None then throws ''Observability already initialized'' w
      else case start_observability h args (outside w) of
        (Inl x, s) \<Rightarrow> (Inl x, w\<lparr>observability := Some False, outside := s\<rparr>)
      | (Inr _, s) \<Rightarrow> (Inr (), w\<lparr>observability := Some True, outside := s\<rparr>))"

definition init_observability :: "('p, 'c, 'd, 's) host_system \<Rightarrow> app_config \<Rightarrow> ('p, 'c, 's, unit) init" where
  "init_observability h cfg =
     and_then (of_result (observability_args (getenv h) cfg)) (\<lambda>args.
     and_then (initialize_observability h args) (\<lambda>_.
     modify (\<lambda>w. w\<lparr>retry_sink := True\<rparr>)))"

text \<open>The conversion of an \<open>int\<close> to \<open>size_t\<close> wraps.\<close>

definition to_size_t :: "int \<Rightarrow> nat" where
  "to_size_t n = nat (n mod 2 ^ 64)"

definition initialize_database ::
  "('p, 'c, 'd, 's) host_system \<Rightarrow> string \<Rightarrow> string list \<Rightarrow> int \<Rightarrow> int \<Rightarrow> int \<Rightarrow> ('p, 'c, 's, unit) init" where
  "initialize_database h primary replicas n acquire_ms stmt_timeout_ms w =
     (let (result, g) = Database.initialize_global (open_pool h (to_size_t n) acquire_ms stmt_timeout_ms) primary replicas (database w)
      in of_result result (w\<lparr>database := g\<rparr>))"

definition read_retry_policy :: "environ \<Rightarrow> app_config \<Rightarrow> std_exception + policy" where
  "read_retry_policy env cfg =
     (case (get_int env cfg ''database.retry.max_attempts'' ''DB_RETRY_MAX_ATTEMPTS'' 2,
            get_int env cfg ''database.retry.base_delay_ms'' ''DB_RETRY_BASE_DELAY_MS'' 20,
            get_int env cfg ''database.retry.max_delay_ms'' ''DB_RETRY_MAX_DELAY_MS'' 200,
            get_bool env cfg ''database.retry.jitter'' ''DB_RETRY_JITTER'' True) of
        (Inr a, Inr b, Inr m, Inr j) \<Rightarrow> Inr \<lparr>max_attempts = a, base_delay_ms = b, max_delay_ms = m, jitter = j\<rparr>
      | (Inl e, _, _, _) \<Rightarrow> Inl e
      | (_, Inl e, _, _) \<Rightarrow> Inl e
      | (_, _, Inl e, _) \<Rightarrow> Inl e
      | (_, _, _, Inl e) \<Rightarrow> Inl e)"

definition init_database :: "('p, 'c, 'd, 's) host_system \<Rightarrow> app_config \<Rightarrow> ('p, 'c, 's, unit) init" where
  "init_database h cfg =
     (let env = getenv h in
      and_then (of_result (read_primary env cfg)) (\<lambda>primary.
      and_then (of_result (get_int env cfg ''database.pool_size'' ''DB_POOL_SIZE'' 10)) (\<lambda>n.
      and_then (of_result (get_int env cfg ''database.acquire_timeout_ms'' ''DB_ACQUIRE_TIMEOUT_MS'' 5000)) (\<lambda>acquire_ms.
      and_then (of_result (get_int env cfg ''database.statement_timeout_ms'' ''DB_STATEMENT_TIMEOUT_MS'' 30000)) (\<lambda>stmt_ms.
      and_then (of_result (read_replicas env cfg)) (\<lambda>replicas.
      and_then (initialize_database h primary replicas n acquire_ms stmt_ms) (\<lambda>_.
      and_then (modify (\<lambda>w. w\<lparr>query_sink := True\<rparr>)) (\<lambda>_.
      and_then (of_result (read_retry_policy env cfg)) (\<lambda>p.
      modify (\<lambda>w. w\<lparr>database := map_option (set_retry_policy p) (database w)\<rparr>))))))))))"

datatype init_mode = Full | MigrateOnly

definition initialize_migrations :: "('p, 'c, 'd, 's) host_system \<Rightarrow> string \<Rightarrow> ('p, 'c, 's, unit) init" where
  "initialize_migrations h dir w =
     (if migrations w \<noteq> None then throws ''Migration runner already initialized'' w
      else case run_migrations h dir (outside w) of
        (Inl x, s) \<Rightarrow> (Inl x, w\<lparr>migrations := Some False, outside := s\<rparr>)
      | (Inr _, s) \<Rightarrow> (Inr (), w\<lparr>migrations := Some True, outside := s\<rparr>))"

definition init_migrations :: "('p, 'c, 'd, 's) host_system \<Rightarrow> app_config \<Rightarrow> init_mode \<Rightarrow> ('p, 'c, 's, unit) init" where
  "init_migrations h cfg mode =
     and_then
       (if mode = MigrateOnly then yields True
        else of_result (get_bool (getenv h) cfg ''database.migrations_enabled'' ''DB_MIGRATIONS_ENABLED'' True))
       (\<lambda>enabled. if \<not> enabled then yields () else
          and_then (of_result (get_string (getenv h) cfg ''database.migrations_dir'' ''DB_MIGRATIONS_DIR'' ''migrations''))
            (initialize_migrations h))"

definition with_cache ::
  "('c global_cache \<Rightarrow> 's \<Rightarrow> (thrown + unit) \<times> 'c global_cache \<times> 's) \<Rightarrow> ('p, 'c, 's, unit) init" where
  "with_cache f w = (let (result, g, s) = f (cache w) (outside w) in (result, w\<lparr>cache := g, outside := s\<rparr>))"

definition init_cache :: "('p, 'c, 'd, 's) host_system \<Rightarrow> app_config \<Rightarrow> ('p, 'c, 's, unit) init" where
  "init_cache h cfg =
     (let env = getenv h in
      and_then (of_result (get_bool env cfg ''cache.use_sentinel'' ''REDIS_USE_SENTINEL'' False)) (\<lambda>sentinel.
      and_then (of_result (get_int env cfg ''cache.pool_size'' ''CACHE_POOL_SIZE'' 10)) (\<lambda>n.
      and_then (of_result (get_string env cfg ''cache.password'' ''REDIS_PASSWORD'' [])) (\<lambda>password.
      and_then (of_result (get_string env cfg ''cache.sentinel.password'' ''REDIS_SENTINEL_PASSWORD'' password)) (\<lambda>sentinel_pw.
      and_then (of_result (get_int env cfg ''cache.socket_timeout_ms'' ''REDIS_SOCKET_TIMEOUT_MS'' 500)) (\<lambda>socket_ms.
      and_then (of_result (get_int env cfg ''cache.pool_wait_timeout_ms'' ''REDIS_POOL_WAIT_TIMEOUT_MS'' 500)) (\<lambda>wait_ms.
      let sock_to = max 1 socket_ms; pool_to = max 1 wait_ms in
      if sentinel then
        and_then (of_result (get_string env cfg ''cache.sentinel.master_name'' ''REDIS_MASTER_NAME'' ''mymaster'')) (\<lambda>master.
        with_cache (initialize_global_sentinel (redis_lib h) master (read_sentinels env cfg) (to_size_t n) password
          sentinel_pw sock_to pool_to))
      else
        and_then (of_result (get_string env cfg ''cache.url'' ''REDIS_URL'' ''tcp://127.0.0.1:6379'')) (\<lambda>url.
        with_cache (Cache.initialize_global (redis_lib h) url (to_size_t n) password sock_to pool_to)))))))))"

section \<open>Tasks\<close>

definition initialize_tasks :: "('p, 'c, 's, unit) init" where
  "initialize_tasks w = (if tasks w then throws ''Tasks already initialized'' w else (Inr (), w\<lparr>tasks := True\<rparr>))"

definition schedule_recurring :: "string \<Rightarrow> ('p, 'c, 's, bool) init" where
  "schedule_recurring task_id w =
     (if \<not> tasks w then throws ''Tasks not initialized'' w
      else if task_id \<in> set (timers w) then (Inr False, w)
      else (Inr True, w\<lparr>timers := timers w @ [task_id]\<rparr>))"

definition cancel :: "string \<Rightarrow> ('p, 'c, 's, bool) init" where
  "cancel task_id w =
     (if task_id \<notin> set (timers w) then (Inr False, w) else (Inr True, w\<lparr>timers := removeAll task_id (timers w)\<rparr>))"

definition shutdown_tasks :: "('p, 'c, 's) world \<Rightarrow> ('p, 'c, 's) world" where
  "shutdown_tasks w = (if \<not> tasks w then w else w\<lparr>timers := [], tasks := False\<rparr>)"

definition modules_up :: "('p, 'c, 's) world \<Rightarrow> bool" where
  "modules_up w \<longleftrightarrow> observability w = Some True \<and> tasks w \<and> global_is_initialized (database w)"

definition register_db_pool_metric :: "('p, 'c, 'd, 's) host_system \<Rightarrow> app_config \<Rightarrow> ('p, 'c, 's, unit) init" where
  "register_db_pool_metric h cfg w =
     (if \<not> modules_up w then (Inr (), w)
      else
        and_then (of_result (get_int (getenv h) cfg ''database.pool_metric_refresh_sec'' ''DB_POOL_METRIC_REFRESH_SEC'' 10))
          (\<lambda>_. and_then (schedule_recurring ''db_pool_metric_refresh'') (\<lambda>_. yields ())) w)"

definition register_replication_lag_metric :: "('p, 'c, 'd, 's) host_system \<Rightarrow> app_config \<Rightarrow> ('p, 'c, 's, unit) init" where
  "register_replication_lag_metric h cfg w =
     (if \<not> modules_up w then (Inr (), w)
      else if replica_count (the (database w)) = 0 then (Inr (), w)
      else
        and_then (of_result (get_int (getenv h) cfg ''database.replica_lag_metric_refresh_sec''
            ''DB_REPLICA_LAG_METRIC_REFRESH_SEC'' 15))
          (\<lambda>_. and_then (schedule_recurring ''db_replica_lag_refresh'') (\<lambda>_. yields ())) w)"

section \<open>The instances of a start\<close>

text \<open>Observability and the migrations set their pointer before they start.\<close>

interpretation observability_instance:
  sticky_instance "\<lambda>g r g'. \<exists>w w'. observability w = g \<and> initialize_observability h args w = (r, w') \<and> observability w' = g'"
    "\<lambda>b. b" for h args
  by unfold_locales (auto simp: initialize_observability_def throws_def split: if_split_asm prod.split_asm sum.split_asm)

interpretation migrations_instance:
  sticky_instance "\<lambda>g r g'. \<exists>w w'. migrations w = g \<and> initialize_migrations h dir w = (r, w') \<and> migrations w' = g'"
    "\<lambda>b. b" for h dir
  by unfold_locales (auto simp: initialize_migrations_def throws_def split: if_split_asm prod.split_asm sum.split_asm)

end
