(* ===== verification/Lifecycle.thy ===== *)
theory Lifecycle
  imports Boot
begin

text \<open>
  \<open>src/src/core/Core.hpp\<close>: the application over all modules, its start, its shutdown, also of a start that
  failed half-way, and its health checks; and the health endpoints of \<open>src/src/api/HealthController.hpp\<close>.
\<close>

section \<open>Start and shutdown\<close>

record ('p, 'c, 's) health_entry =
  check_name :: string
  probe :: "('p, 'c, 's, bool) init"
  critical :: bool

record ('p, 'c, 's) application =
  app_initialized :: bool
  config_file :: string
  mode_of :: init_mode
  health_checks :: "('p, 'c, 's) health_entry list"

definition new_application :: "('p, 'c, 's) application" where
  "new_application = \<lparr>app_initialized = False, config_file = [], mode_of = Full, health_checks = []\<rparr>"

text \<open>The body of the try block of \<open>Application::initialize\<close>.\<close>

definition init_config :: "('p, 'c, 'd, 's) host_system \<Rightarrow> string \<Rightarrow> ('p, 'c, 's, unit) init" where
  "init_config h path w =
     (let (result, g) = initialize_config (io h) (getenv h) path (config w) in of_result result (w\<lparr>config := g\<rparr>))"

definition start_modules ::
  "('p, 'c, 'd, 's) host_system \<Rightarrow> string \<Rightarrow> init_mode \<Rightarrow> ('p, 'c, 's, unit) init" where
  "start_modules h path mode =
     and_then (init_config h path) (\<lambda>_.
     and_then (\<lambda>w. of_result (get_config (config w)) w) (\<lambda>cfg.
     and_then (init_observability h cfg) (\<lambda>_.
     and_then (of_result (validate_config (getenv h) cfg)) (\<lambda>_.
     and_then (init_database h cfg) (\<lambda>_.
     and_then (init_migrations h cfg mode) (\<lambda>_.
     if mode = MigrateOnly then yields ()
     else
       and_then (init_cache h cfg) (\<lambda>_.
       and_then initialize_tasks (\<lambda>_.
       and_then (register_db_pool_metric h cfg) (\<lambda>_.
       register_replication_lag_metric h cfg)))))))))"

text \<open>\<open>register_default_health_checks_\<close>: the probes go through the global instances.\<close>

definition database_probe :: "('p, 'c, 'd, 's) host_system \<Rightarrow> ('p, 'c, 's, bool) init" where
  "database_probe h w =
     (case Database.get_global (database w) of
        Inl e \<Rightarrow> (Inl (Thrown e), w)
      | Inr m \<Rightarrow> (let (r, s) = Database.health_check (db_environment h) m (outside w) in (r, w\<lparr>outside := s\<rparr>)))"

definition cache_probe :: "('p, 'c, 'd, 's) host_system \<Rightarrow> ('p, 'c, 's, bool) init" where
  "cache_probe h w =
     (case Cache.get_global (cache w) of
        Inl x \<Rightarrow> (Inl x, w)
      | Inr m \<Rightarrow> (let (r, s) = Cache.health_check (redis_lib h) m (outside w) in (r, w\<lparr>outside := s\<rparr>)))"

definition default_health_checks ::
  "('p, 'c, 'd, 's) host_system \<Rightarrow> ('p, 'c, 's) world \<Rightarrow> ('p, 'c, 's) health_entry list" where
  "default_health_checks h w =
     (if global_is_initialized (database w)
      then [\<lparr>check_name = ''database'', probe = database_probe h, critical = True\<rparr>] else []) @
     (if Cache.is_initialized (cache w)
      then [\<lparr>check_name = ''cache'', probe = cache_probe h, critical = True\<rparr>] else [])"

definition register_health_check ::
  "string \<Rightarrow> ('p, 'c, 's, bool) init \<Rightarrow> bool \<Rightarrow> ('p, 'c, 's) application \<Rightarrow> ('p, 'c, 's) application" where
  "register_health_check name p is_critical app =
     app\<lparr>health_checks := health_checks app @ [\<lparr>check_name = name, probe = p, critical = is_critical\<rparr>]\<rparr>"

text \<open>\<open>Application::shutdown\<close>: each module is shut down only when it reports that it is initialized.\<close>

definition shutdown_modules :: "('p, 'c, 'd, 's) host_system \<Rightarrow> ('p, 'c, 's) world \<Rightarrow> ('p, 'c, 's) world" where
  "shutdown_modules h w =
     (let w1 = (if tasks w then shutdown_tasks w else w);
          w2 = (if Cache.is_initialized (cache w1) then w1\<lparr>cache := Cache.shutdown_global (cache w1)\<rparr> else w1);
          w3 = (if migrations w2 = Some True then w2\<lparr>migrations := None\<rparr> else w2);
          w4 = (if global_is_initialized (database w3)
                then let (s, g) = Database.shutdown_global (close_pool h) (database w3) (outside w3)
                     in w3\<lparr>database := g, outside := s\<rparr>
                else w3);
          w5 = (if observability w4 = Some True
                then w4\<lparr>retry_sink := reset_metrics, query_sink := False, observability := None\<rparr> else w4)
      in if config_is_initialized (config w5) then w5\<lparr>config := shutdown_config (config w5)\<rparr> else w5)"

definition app_initialize ::
  "('p, 'c, 'd, 's) host_system \<Rightarrow> string \<Rightarrow> init_mode \<Rightarrow> ('p, 'c, 's) application \<Rightarrow> ('p, 'c, 's) world \<Rightarrow>
     (thrown + unit) \<times> ('p, 'c, 's) application \<times> ('p, 'c, 's) world" where
  "app_initialize h path mode app w =
     (if app_initialized app then (Inl (Thrown (std_error ''Application already initialized'')), app, w)
      else
        let app1 = app\<lparr>config_file := path, mode_of := mode\<rparr> in
        case start_modules h path mode w of
          (Inr _, w') \<Rightarrow>
            (Inr (), app1\<lparr>app_initialized := True, health_checks :=
               (if mode = MigrateOnly then health_checks app1 else health_checks app1 @ default_health_checks h w')\<rparr>, w')
        | (Inl (Thrown e), w') \<Rightarrow> (Inl (Thrown e), app1\<lparr>app_initialized := False\<rparr>, shutdown_modules h w')
        | (Inl (Foreign x), w') \<Rightarrow> (Inl (Foreign x), app1, w'))"

definition app_reload_config ::
  "('p, 'c, 'd, 's) host_system \<Rightarrow> ('p, 'c, 's) application \<Rightarrow> ('p, 'c, 's, unit) init" where
  "app_reload_config h app w =
     (if \<not> app_initialized app then throws ''Cannot reload config: application not initialized'' w
      else case get_config (config w) of
        Inl e \<Rightarrow> (Inl (Thrown e), w)
      | Inr cfg \<Rightarrow> (let (result, cfg') = reload (io h) (getenv h) cfg in of_result result (w\<lparr>config := Some cfg'\<rparr>)))"

text \<open>The global application, with the world it runs in.\<close>

type_synonym ('p, 'c, 's) core_state = "('p, 'c, 's) application option \<times> ('p, 'c, 's) world"

definition core_initialize ::
  "('p, 'c, 'd, 's) host_system \<Rightarrow> string \<Rightarrow> init_mode \<Rightarrow> ('p, 'c, 's) core_state \<Rightarrow>
     (thrown + unit) \<times> ('p, 'c, 's) core_state" where
  "core_initialize h path mode st =
     (case st of (g, w) \<Rightarrow>
        if g \<noteq> None then (Inl (Thrown (std_error ''Application already initialized'')), st)
        else case app_initialize h path mode new_application w of
          (Inr _, app, w') \<Rightarrow> (Inr (), Some app, w')
        | (Inl x, app, w') \<Rightarrow> (Inl x, None, w'))"

definition core_is_initialized :: "('p, 'c, 's) core_state \<Rightarrow> bool" where
  "core_is_initialized st \<longleftrightarrow> (case fst st of None \<Rightarrow> False | Some app \<Rightarrow> app_initialized app)"

definition core_shutdown :: "('p, 'c, 'd, 's) host_system \<Rightarrow> ('p, 'c, 's) core_state \<Rightarrow> ('p, 'c, 's) core_state" where
  "core_shutdown h st =
     (case st of (None, w) \<Rightarrow> (None, w) | (Some app, w) \<Rightarrow> (None, shutdown_modules h w))"

section \<open>Health\<close>

record component_health =
  component :: string
  component_initialized :: bool
  healthy :: bool
  component_critical :: bool

fun health_report :: "('p, 'c, 's) health_entry list \<Rightarrow> ('p, 'c, 's) world \<Rightarrow> component_health list \<times> ('p, 'c, 's) world" where
  "health_report [] w = ([], w)"
| "health_report (e # es) w =
     (let (r, w1) = probe e w;
          ok = (case r of Inr b \<Rightarrow> b | Inl _ \<Rightarrow> False);
          (rest, w2) = health_report es w1
      in (\<lparr>component = check_name e, component_initialized = True, healthy = ok, component_critical = critical e\<rparr> # rest, w2))"

fun all_critical_healthy :: "('p, 'c, 's) health_entry list \<Rightarrow> ('p, 'c, 's, bool) init" where
  "all_critical_healthy [] w = (Inr True, w)"
| "all_critical_healthy (e # es) w =
     (if \<not> critical e then all_critical_healthy es w
      else case probe e w of
        (Inr True, w1) \<Rightarrow> all_critical_healthy es w1
      | (Inr False, w1) \<Rightarrow> (Inr False, w1)
      | (Inl (Thrown _), w1) \<Rightarrow> (Inr False, w1)
      | (Inl (Foreign x), w1) \<Rightarrow> (Inl (Foreign x), w1))"

definition core_health_check :: "('p, 'c, 's) application option \<Rightarrow> ('p, 'c, 's, bool) init" where
  "core_health_check g w =
     (case g of
        None \<Rightarrow> (Inr False, w)
      | Some app \<Rightarrow> if app_initialized app then all_critical_healthy (health_checks app) w else (Inr False, w))"

text \<open>The endpoints: the HTTP status and the field \<open>status\<close> of the body.\<close>

definition liveness :: "nat \<times> string" where
  "liveness = (200, ''alive'')"

definition readiness :: "bool \<Rightarrow> ('p, 'c, 's) application option \<Rightarrow> ('p, 'c, 's, nat \<times> string) init" where
  "readiness shutting_down g w =
     (if shutting_down then (Inr (503, ''draining''), w)
      else case core_health_check g w of
        (Inl x, w') \<Rightarrow> (Inl x, w')
      | (Inr ready, w') \<Rightarrow> (Inr (if ready then (200, ''ready'') else (503, ''not_ready'')), w'))"

definition health :: "('p, 'c, 's) application option \<Rightarrow> ('p, 'c, 's) world \<Rightarrow> (nat \<times> string \<times> component_health list) \<times> ('p, 'c, 's) world" where
  "health g w =
     (let (components, up, w') =
            (case g of
               Some app \<Rightarrow>
                 if app_initialized app
                 then (let (r, w1) = health_report (health_checks app) w in (r, True, w1)) else ([], False, w)
             | None \<Rightarrow> ([], False, w));
          critical_ok = (up \<and> list_all (\<lambda>c. healthy c \<or> \<not> component_critical c) components);
          any_degraded_down = list_ex (\<lambda>c. \<not> healthy c \<and> \<not> component_critical c) components;
          status = (if \<not> critical_ok then ''unhealthy'' else if any_degraded_down then ''degraded'' else ''healthy'')
      in ((if critical_ok then 200 else 503, status, components), w'))"

section \<open>How a start ends\<close>

lemma and_then_Inr:
  "and_then m f w = (Inr b, w') \<longleftrightarrow> (\<exists>a w1. m w = (Inr a, w1) \<and> f a w1 = (Inr b, w'))"
  by (auto simp: and_then_def split: prod.splits sum.splits)

lemma of_result_Inr [simp]: "of_result r w = (Inr a, w') \<longleftrightarrow> r = Inr a \<and> w' = w"
  by (auto simp: of_result_def split: sum.splits)

lemma snd_of_result [simp]: "snd (of_result r w) = w"
  by (simp add: of_result_def split: sum.splits)

lemma snd_and_then:
  "snd (and_then m f w) = (case fst (m w) of Inl _ \<Rightarrow> snd (m w) | Inr a \<Rightarrow> snd (f a (snd (m w))))"
  by (auto simp: and_then_def split: prod.splits sum.splits)

lemmas init_simps = and_then_Inr modify_def yields_def throws_def

text \<open>A property of the world that every step of an initializer keeps, whether it throws or not.\<close>

definition keeps :: "('w \<Rightarrow> bool) \<Rightarrow> ('w, 'a) callable \<Rightarrow> bool" where
  "keeps P m \<longleftrightarrow> (\<forall>w. P w \<longrightarrow> P (snd (m w)))"

lemma keepsD: "keeps P m \<Longrightarrow> P w \<Longrightarrow> P (snd (m w))"
  by (simp add: keeps_def)

lemma keeps_and_then [intro]: "keeps P m \<Longrightarrow> (\<And>a. keeps P (f a)) \<Longrightarrow> keeps P (and_then m f)"
  by (auto simp: keeps_def snd_and_then split: sum.splits)

lemma keeps_simple [intro, simp]:
  "keeps P (of_result r)" "keeps P (yields a)" "keeps P (throws what)" "keeps P (\<lambda>w. of_result (f w) w)"
  by (simp_all add: keeps_def yields_def throws_def)

lemma keeps_modify: "(\<And>w. P w \<Longrightarrow> P (f w)) \<Longrightarrow> keeps P (modify f)"
  by (simp add: keeps_def modify_def)

text \<open>
  Nothing is up that the flags do not tell: timers only run while the tasks are initialized, and the
  counters are only bound while Observability is.
\<close>

definition tidy :: "('p, 'c, 's) world \<Rightarrow> bool" where
  "tidy w \<longleftrightarrow> (tasks w \<or> timers w = []) \<and> (observability w = Some True \<or> \<not> retry_sink w \<and> \<not> query_sink w)"

definition residue :: "('p, 'c, 's) world \<Rightarrow> bool" where
  "residue w \<longleftrightarrow> config w = None \<and> \<not> tasks w \<and> timers w = [] \<and> \<not> retry_sink w \<and> \<not> query_sink w \<and>
     observability w \<noteq> Some True \<and> migrations w \<noteq> Some True \<and> \<not> global_is_initialized (database w) \<and>
     \<not> Cache.is_initialized (cache w)"

lemma shutdown_residue: "tidy w \<Longrightarrow> residue (shutdown_modules h w)"
  by (auto simp: residue_def tidy_def shutdown_modules_def Let_def shutdown_tasks_def Cache.shutdown_global_def
      Database.shutdown_global_def global_is_initialized_def Cache.is_initialized_def config_is_initialized_def
      shutdown_config_def reset_metrics_def split: option.splits prod.splits)

text \<open>No module is left behind half-initialized.\<close>

definition unbroken :: "('p, 'c, 's) world \<Rightarrow> bool" where
  "unbroken w \<longleftrightarrow> observability w \<noteq> Some False \<and> migrations w \<noteq> Some False \<and>
     (database w = None \<or> global_is_initialized (database w)) \<and> (cache w = None \<or> Cache.is_initialized (cache w))"

lemma shutdown_unbroken: "unbroken w \<Longrightarrow> unbroken (shutdown_modules h w)"
  by (auto simp: unbroken_def shutdown_modules_def Let_def shutdown_tasks_def Cache.shutdown_global_def
      Database.shutdown_global_def split: option.splits prod.splits)

lemma residue_unbroken:
  assumes "residue w" "unbroken w"
  shows "w = null_world (outside w)"
proof -
  have "observability w = None" "migrations w = None"
    using assms by (cases "observability w"; cases "migrations w"; auto simp: residue_def unbroken_def)+
  then show ?thesis using assms
    by (simp add: residue_def unbroken_def null_world_def)
qed

section \<open>The steps of a start\<close>

definition slots :: "('p, 'c, 's) world \<Rightarrow> bool option \<times> bool option \<times> 'p global_db \<times> 'c global_cache" where
  "slots w = (observability w, migrations w, database w, cache w)"

lemma init_config_done: "init_config h path w = (Inr u, w') \<Longrightarrow> slots w' = slots w"
  by (auto simp: init_config_def slots_def split: prod.split_asm)

lemma initialize_observability_done:
  "initialize_observability h args w = (Inr u, w') \<Longrightarrow>
     observability w = None \<and> slots w' = (Some True, migrations w, database w, cache w)"
  by (auto simp: initialize_observability_def slots_def throws_def split: prod.split_asm sum.split_asm if_split_asm)

lemma init_observability_done:
  "init_observability h cfg w = (Inr u, w') \<Longrightarrow>
     observability w = None \<and> slots w' = (Some True, migrations w, database w, cache w)"
  by (auto simp: init_observability_def and_then_Inr modify_def slots_def dest!: initialize_observability_done)

lemma initialize_database_done:
  assumes "initialize_database h primary replicas n a t w = (Inr u, w')"
  shows "database w = None \<and> (\<exists>m. Database.initialized m \<and> slots w' = (observability w, migrations w, Some m, cache w))"
  using assms database_instance.success [of "open_pool h (to_size_t n) a t" primary replicas "database w" u "database w'"]
  by (auto simp: initialize_database_def slots_def split: prod.split_asm)

lemma init_database_done:
  assumes "init_database h cfg w = (Inr u, w')"
  shows "database w = None \<and> (\<exists>m. Database.initialized m \<and> slots w' = (observability w, migrations w, Some m, cache w))"
  using assms unfolding init_database_def Let_def and_then_Inr of_result_Inr modify_def
  by (auto dest!: initialize_database_done simp: set_retry_policy_def slots_def)

lemma initialize_migrations_done:
  "initialize_migrations h dir w = (Inr u, w') \<Longrightarrow> slots w' = (observability w, Some True, database w, cache w)"
  by (auto simp: initialize_migrations_def slots_def throws_def split: prod.split_asm sum.split_asm if_split_asm)

lemma init_migrations_done:
  assumes "init_migrations h cfg mode w = (Inr u, w')"
  shows "slots w' = slots w \<or> slots w' = (observability w, Some True, database w, cache w)"
  using assms
  by (auto simp: init_migrations_def and_then_Inr yields_def dest!: initialize_migrations_done split: if_split_asm)

lemma with_cache_done:
  assumes "with_cache f w = (Inr u, w')"
    "\<And>s g s'. f (cache w) s = (Inr (), g, s') \<Longrightarrow> cache w = None \<and> (\<exists>m. Cache.initialized m \<and> g = Some m)"
  shows "cache w = None \<and> (\<exists>m. Cache.initialized m \<and> slots w' = (observability w, migrations w, database w, Some m))"
  using assms by (auto simp: with_cache_def slots_def split: prod.split_asm)

lemma cache_global_done:
  "Cache.initialize_global R url n pw a b g s = (Inr (), g', s') \<Longrightarrow> g = None \<and> (\<exists>m. Cache.initialized m \<and> g' = Some m)"
  "initialize_global_sentinel R master nodes n pw spw a b g s = (Inr (), g', s') \<Longrightarrow>
     g = None \<and> (\<exists>m. Cache.initialized m \<and> g' = Some m)"
  by (meson cache_instance.success) (meson sentinel_instance.success)

lemma if_Inr: "(if b then m else m') w = (Inr u, w') \<longleftrightarrow> (if b then m w = (Inr u, w') else m' w = (Inr u, w'))"
  by simp

lemma init_cache_done:
  assumes "init_cache h cfg w = (Inr u, w')"
  shows "cache w = None \<and> (\<exists>m. Cache.initialized m \<and> slots w' = (observability w, migrations w, database w, Some m))"
proof -
  have "(\<exists>master n pw spw a b. with_cache (initialize_global_sentinel (redis_lib h) master
            (read_sentinels (getenv h) cfg) n pw spw a b) w = (Inr u, w')) \<or>
      (\<exists>url n pw a b. with_cache (Cache.initialize_global (redis_lib h) url n pw a b) w = (Inr u, w'))"
    using assms unfolding init_cache_def Let_def and_then_Inr of_result_Inr if_Inr
    by (elim exE conjE) (simp split: if_split_asm; blast)
  then show ?thesis
    by (elim disjE exE) (erule with_cache_done, erule cache_global_done)+
qed

lemma initialize_tasks_done: "initialize_tasks w = (Inr u, w') \<Longrightarrow> slots w' = slots w"
  by (auto simp: initialize_tasks_def slots_def throws_def split: if_split_asm)

lemma schedule_recurring_done: "schedule_recurring i w = (Inr u, w') \<Longrightarrow> slots w' = slots w"
  by (auto simp: schedule_recurring_def slots_def throws_def split: if_split_asm)

lemma register_done:
  "register_db_pool_metric h cfg w = (Inr u, w') \<Longrightarrow> slots w' = slots w"
  "register_replication_lag_metric h cfg w = (Inr u, w') \<Longrightarrow> slots w' = slots w"
  by (auto simp: register_db_pool_metric_def register_replication_lag_metric_def and_then_Inr yields_def
      dest!: schedule_recurring_done split: if_split_asm)

text \<open>A start that succeeds found no instance in its way and leaves none half-initialized.\<close>

lemma start_modules_done:
  assumes "start_modules h path mode w = (Inr u, w')"
  shows "observability w = None" "database w = None" "mode = Full \<Longrightarrow> cache w = None"
    "unbroken w \<Longrightarrow> unbroken w'"
proof -
  obtain cfg w1 w2 w3 w4 where early: "slots w1 = slots w" "init_observability h cfg w1 = (Inr (), w2)"
      "init_database h cfg w2 = (Inr (), w3)" "init_migrations h cfg mode w3 = (Inr (), w4)"
    and late: "mode = MigrateOnly \<and> w' = w4 \<or> (\<exists>w5. init_cache h cfg w4 = (Inr (), w5) \<and>
      (\<exists>w6. initialize_tasks w5 = (Inr (), w6) \<and> (\<exists>w7. register_db_pool_metric h cfg w6 = (Inr (), w7) \<and>
        register_replication_lag_metric h cfg w7 = (Inr (), w'))))"
    using assms unfolding start_modules_def
    by (auto simp: init_simps get_config_def dest!: init_config_done split: if_splits)
  note steps = init_observability_done [OF early(2)] init_database_done [OF early(3)] init_migrations_done [OF early(4)]
  show "observability w = None" "database w = None" using steps early(1) by (auto simp: slots_def)
  show "cache w = None" if "mode = Full"
    using that late steps early(1) by (auto simp: slots_def dest!: init_cache_done)
  assume "unbroken w"
  then have w4: "unbroken w4" using steps early(1) by (auto simp: unbroken_def global_is_initialized_def slots_def)
  show "unbroken w'"
    using late
  proof (elim disjE exE conjE)
    fix w5 w6 w7
    assume "init_cache h cfg w4 = (Inr (), w5)" "initialize_tasks w5 = (Inr (), w6)"
      "register_db_pool_metric h cfg w6 = (Inr (), w7)" "register_replication_lag_metric h cfg w7 = (Inr (), w')"
    then show ?thesis
      using w4 by (auto dest!: init_cache_done register_done initialize_tasks_done
          simp: unbroken_def Cache.is_initialized_def slots_def)
  qed (use w4 in simp)
qed

text \<open>Whatever happens, the world stays tidy.\<close>

definition up :: "('p, 'c, 's) world \<Rightarrow> bool" where
  "up w \<longleftrightarrow> tidy w \<and> observability w = Some True"

lemma up_tidy: "up w \<Longrightarrow> tidy w"
  by (simp add: up_def)

lemma tidy_and_thenI:
  "tidy (snd (m w)) \<Longrightarrow> (\<And>a w1. m w = (Inr a, w1) \<Longrightarrow> tidy (snd (f a w1))) \<Longrightarrow> tidy (snd (and_then m f w))"
  by (cases "m w") (auto simp: snd_and_then split: sum.splits)

lemma init_config_tidy: "keeps tidy (init_config h path)"
  by (auto simp: keeps_def init_config_def tidy_def split: prod.splits)

lemma initialize_observability_tidy: "keeps tidy (initialize_observability h args)"
  by (auto simp: keeps_def initialize_observability_def tidy_def throws_def split: prod.splits sum.splits)

lemma init_observability_tidy: "tidy w \<Longrightarrow> tidy (snd (init_observability h cfg w))"
  unfolding init_observability_def
proof (intro tidy_and_thenI)
  fix args w1 u w2
  assume "tidy w" "of_result (observability_args (getenv h) cfg) w = (Inr args, w1)"
  then show "tidy (snd (initialize_observability h args w1))"
    using keepsD [OF initialize_observability_tidy, of w h args] by simp
  assume "initialize_observability h args w1 = (Inr u, w2)"
  then show "tidy (snd (modify (\<lambda>w. w\<lparr>retry_sink := True\<rparr>) w2))"
    using \<open>tidy (snd (initialize_observability h args w1))\<close> initialize_observability_done [of h args w1 u w2]
    by (simp add: modify_def tidy_def slots_def)
qed simp

lemma init_observability_up:
  "tidy w \<Longrightarrow> init_observability h cfg w = (Inr u, w') \<Longrightarrow> up w'"
  using init_observability_tidy [of w h cfg] init_observability_done [of h cfg w u w'] by (simp add: up_def slots_def)

lemma initialize_database_up: "keeps up (initialize_database h primary replicas n a t)"
  by (auto simp: keeps_def initialize_database_def up_def tidy_def split: prod.splits)

lemma init_database_up: "keeps up (init_database h cfg)"
  unfolding init_database_def Let_def
  by (intro keeps_and_then keeps_simple initialize_database_up keeps_modify) (auto simp: up_def tidy_def)

lemma initialize_migrations_up: "keeps up (initialize_migrations h dir)"
  by (auto simp: keeps_def initialize_migrations_def up_def tidy_def throws_def split: prod.splits sum.splits)

lemma init_migrations_up: "keeps up (init_migrations h cfg mode)"
  unfolding init_migrations_def
  by (auto intro!: keeps_and_then initialize_migrations_up)

lemma with_cache_up: "keeps up (with_cache f)"
  by (auto simp: keeps_def with_cache_def up_def tidy_def split: prod.splits)

lemma init_cache_up: "keeps up (init_cache h cfg)"
  unfolding init_cache_def Let_def
  by (intro keeps_and_then keeps_simple with_cache_up) (auto intro!: keeps_and_then with_cache_up)

lemma tasks_up: "keeps up initialize_tasks" "keeps up (schedule_recurring i)"
  by (auto simp: keeps_def initialize_tasks_def schedule_recurring_def up_def tidy_def throws_def)

lemma register_up: "keeps up (register_db_pool_metric h cfg)" "keeps up (register_replication_lag_metric h cfg)"
proof -
  have "keeps up (and_then (of_result r) (\<lambda>_. and_then (schedule_recurring i) (\<lambda>_. yields ())))" for r :: "std_exception + int" and i
    by (intro keeps_and_then keeps_simple tasks_up)
  then show "keeps up (register_db_pool_metric h cfg)" "keeps up (register_replication_lag_metric h cfg)"
    by (auto simp: keeps_def register_db_pool_metric_def register_replication_lag_metric_def)
qed

lemma start_modules_tidy:
  assumes "tidy w"
  shows "tidy (snd (start_modules h path mode w))"
proof -
  let ?rest = "\<lambda>cfg. and_then (of_result (validate_config (getenv h) cfg)) (\<lambda>_.
     and_then (init_database h cfg) (\<lambda>_.
     and_then (init_migrations h cfg mode) (\<lambda>_.
     if mode = MigrateOnly then yields ()
     else and_then (init_cache h cfg) (\<lambda>_. and_then initialize_tasks (\<lambda>_.
       and_then (register_db_pool_metric h cfg) (\<lambda>_. register_replication_lag_metric h cfg))))))"
  have rest: "keeps up (?rest cfg)" for cfg
    by (cases mode)
      (auto intro!: keeps_and_then init_database_up init_migrations_up init_cache_up tasks_up register_up)
  have w1: "tidy (snd (init_config h path w))" using keepsD [OF init_config_tidy assms] .
  show ?thesis
    unfolding start_modules_def
  proof (rule tidy_and_thenI)
    show "tidy (snd (init_config h path w))" by (fact w1)
    fix u w1
    assume "init_config h path w = (Inr u, w1)"
    then have tidy1: "tidy w1" using w1 by simp
    show "tidy (snd (and_then (\<lambda>w. of_result (get_config (config w)) w)
        (\<lambda>cfg. and_then (init_observability h cfg) (\<lambda>_. ?rest cfg)) w1))"
    proof (rule tidy_and_thenI)
      fix cfg w2
      assume "of_result (get_config (config w1)) w1 = (Inr cfg, w2)"
      then have tidy2: "tidy w2" using tidy1 by simp
      show "tidy (snd (and_then (init_observability h cfg) (\<lambda>_. ?rest cfg) w2))"
      proof (rule tidy_and_thenI)
        show "tidy (snd (init_observability h cfg w2))" using init_observability_tidy [OF tidy2] .
        show "tidy (snd (?rest cfg w3))" if "init_observability h cfg w2 = (Inr v, w3)" for v w3
          using init_observability_up [OF tidy2 that] keepsD [OF rest] up_tidy by blast
      qed
    qed (use tidy1 in simp)
  qed
qed

section \<open>Properties\<close>

lemma core_initialize_from_null:
  "core_initialize h path mode (None, w) =
     (case start_modules h path mode w of
        (Inr _, w') \<Rightarrow>
          (Inr (), Some \<lparr>app_initialized = True, config_file = path, mode_of = mode,
             health_checks = (if mode = MigrateOnly then [] else default_health_checks h w')\<rparr>, w')
      | (Inl (Thrown e), w') \<Rightarrow> (Inl (Thrown e), None, shutdown_modules h w')
      | (Inl (Foreign x), w') \<Rightarrow> (Inl (Foreign x), None, w'))"
  by (simp add: core_initialize_def app_initialize_def new_application_def Let_def
      split: prod.split sum.split thrown.split)

lemma started_clean:
  assumes "core_initialize h path mode (None, null_world s) = (Inr (), st)"
  obtains app w where "st = (Some app, w)" "app_initialized app" "unbroken w" "tidy w"
proof -
  obtain r w where start: "start_modules h path mode (null_world s) = (r, w)" by fastforce
  then have "\<exists>app. r = Inr () \<and> st = (Some app, w) \<and> app_initialized app"
    using assms by (simp add: core_initialize_from_null split: sum.split_asm thrown.split_asm) auto
  then obtain app where st: "st = (Some app, w)" "app_initialized app" "start_modules h path mode (null_world s) = (Inr (), w)"
    using start by blast
  have "unbroken (null_world s)" "tidy (null_world s)" by (simp_all add: unbroken_def tidy_def null_world_def)
  then have "unbroken w" "tidy w"
    using start_modules_done(4) [OF st(3)] start_modules_tidy [of "null_world s" h path mode] st(3) by simp_all
  then show ?thesis using that st(1,2) by blast
qed

lemma shutdown_clean: "unbroken w \<Longrightarrow> tidy w \<Longrightarrow> shutdown_modules h w = null_world (outside (shutdown_modules h w))"
  using shutdown_unbroken shutdown_residue residue_unbroken by blast

text \<open>C29. A service that has started can be stopped and started again: after a start from nothing that
  succeeds, shutting down leaves every global instance null, every timer cancelled and both counters
  unbound, as before the start.\<close>

theorem shutdown_undoes_start:
  assumes "core_initialize h path mode (None, null_world s) = (Inr (), st)"
  shows "core_is_initialized st \<and> (\<exists>s'. core_shutdown h st = (None, null_world s'))"
proof -
  obtain app w where st: "st = (Some app, w)" "app_initialized app" "unbroken w" "tidy w" using started_clean [OF assms] .
  then have "shutdown_modules h w = null_world (outside (shutdown_modules h w))" using shutdown_clean by blast
  then show ?thesis using st(1,2) by (auto simp: core_shutdown_def core_is_initialized_def)
qed


section \<open>Readiness and health\<close>

definition stable :: "('p, 'c, 's) health_entry \<Rightarrow> bool" where
  "stable e \<longleftrightarrow> (\<forall>w w'. fst (probe e w) = fst (probe e w')) \<and> (\<forall>w x. fst (probe e w) \<noteq> Inl (Foreign x))"

definition passes :: "('p, 'c, 's) health_entry \<Rightarrow> ('p, 'c, 's) world \<Rightarrow> bool" where
  "passes e w \<longleftrightarrow> fst (probe e w) = Inr True"

lemma all_critical_healthy_passes:
  "list_all stable es \<Longrightarrow> fst (all_critical_healthy es w) = Inr (list_all (\<lambda>e. critical e \<longrightarrow> passes e w0) es)"
proof (induction es arbitrary: w)
  case (Cons e es)
  obtain r w1 where p: "probe e w = (r, w1)" by fastforce
  have st: "stable e" using Cons.prems by simp
  then have "fst (probe e w) = fst (probe e w0)" unfolding stable_def by blast
  then have "passes e w0 \<longleftrightarrow> r = Inr True" using p by (simp add: passes_def)
  moreover have "r \<noteq> Inl (Foreign x)" for x using st p unfolding stable_def by (metis fst_conv)
  ultimately show ?case
    using Cons p by (cases "critical e"; cases r) (auto split: thrown.split bool.split)
qed simp

lemma health_report_passes:
  "list_all stable es \<Longrightarrow> map (\<lambda>c. (healthy c, component_critical c)) (fst (health_report es w)) =
     map (\<lambda>e. (passes e w0, critical e)) es"
proof (induction es arbitrary: w)
  case (Cons e es)
  obtain r w1 where p: "probe e w = (r, w1)" by fastforce
  have "fst (probe e w) = fst (probe e w0)" using Cons.prems by (simp add: stable_def)
  then have "r = fst (probe e w0)" using p by simp
  then have "(case r of Inr b \<Rightarrow> b | Inl _ \<Rightarrow> False) = passes e w0" by (auto simp: passes_def split: sum.splits)
  then show ?case using Cons p by (simp add: case_prod_beta)
qed simp

text \<open>Readiness and health agree: on a running service whose probes do not depend on when they are
  called and throw nothing but standard exceptions, one endpoint answers 200 exactly when the other one
  does, and a failing optional component changes neither.\<close>

theorem readiness_iff_health:
  assumes "app_initialized app" "list_all stable (health_checks app)"
  shows "fst (readiness False (Some app) w) =
    Inr (if fst (fst (health (Some app) w')) = 200 then (200, ''ready'') else (503, ''not_ready''))"
proof -
  let ?es = "health_checks app"
  let ?r = "fst (health_report ?es w')"
  have "list_all (\<lambda>c. healthy c \<or> \<not> component_critical c) ?r \<longleftrightarrow>
      list_all (\<lambda>p. fst p \<or> \<not> snd p) (map (\<lambda>c. (healthy c, component_critical c)) ?r)"
    by (simp add: list.pred_map comp_def)
  also have "\<dots> \<longleftrightarrow> list_all (\<lambda>e. critical e \<longrightarrow> passes e w) ?es"
    unfolding health_report_passes [OF assms(2), of w' w] by (auto simp: list.pred_map comp_def list_all_iff)
  finally have "fst (fst (health (Some app) w')) = (if list_all (\<lambda>e. critical e \<longrightarrow> passes e w) ?es then 200 else 503)"
    using assms(1) by (simp add: health_def case_prod_beta Let_def)
  moreover obtain w1 where "all_critical_healthy ?es w = (Inr (list_all (\<lambda>e. critical e \<longrightarrow> passes e w) ?es), w1)"
    using all_critical_healthy_passes [OF assms(2), of w w] by (cases "all_critical_healthy ?es w") simp
  ultimately show ?thesis using assms(1) by (simp add: readiness_def core_health_check_def)
qed

section \<open>Witnesses\<close>

definition demo_host :: "(string \<Rightarrow> std_exception + nat) \<Rightarrow> (nat, unit, unit, memory) host_system" where
  "demo_host pools =
     \<lparr>io = \<lparr>open_file = Some, parse = (\<lambda>_. Inr (JObject []))\<rparr>,
      getenv = (\<lambda>v. if v = ''DATABASE_PRIMARY_URL'' then Some ''service=app'' else None),
      start_observability = (\<lambda>_ s. (Inr (), s)), open_pool = (\<lambda>_ _ _. pools), close_pool = (\<lambda>_ s. s),
      run_migrations = (\<lambda>_ s. (Inr (), s)), redis_lib = demo_redis,
      db_environment = \<lparr>env_driver = \<lparr>borrow = (\<lambda>_ s. (Inr (), s)), begin_txn = (\<lambda>_ s. (Inr (), s)),
          exec_sql = (\<lambda>_ _ s. (Inr (), s)), commit_txn = (\<lambda>_ s. (Inr (), s)), give_back = (\<lambda>_ s. s)\<rparr>,
        env_draw = (\<lambda>_ n. n), env_query_sink = False, env_retry_sink = False\<rparr>\<rparr>"

abbreviation "demo_up \<equiv> demo_host (\<lambda>_. Inr 0)"
abbreviation "demo_down \<equiv> demo_host (\<lambda>_. Inl (std_error ''refused''))"

lemma demo_start: "fst (core_initialize demo_up ''c'' MigrateOnly (None, null_world (\<lambda>_. None))) = Inr ()"
  by code_simp

lemma demo_failure:
  "(case core_initialize demo_down ''c'' MigrateOnly (None, null_world (\<lambda>_. None)) of
      (r, g, w) \<Rightarrow> r = Inl (Thrown (std_error ''refused'')) \<and> database w \<noteq> None)"
  by code_simp

theorem shutdown_undoes_start_witness:
  "\<exists>s'. core_shutdown demo_up (snd (core_initialize demo_up ''c'' MigrateOnly (None, null_world (\<lambda>_. None)))) =
     (None, null_world s')"
  using shutdown_undoes_start [of demo_up "''c''" MigrateOnly "\<lambda>_. None"] demo_start by (metis prod.collapse)


definition demo_entry :: "bool \<Rightarrow> bool \<Rightarrow> (nat, unit, memory) health_entry" where
  "demo_entry ok is_critical = \<lparr>check_name = ''x'', probe = (\<lambda>w. (Inr ok, w)), critical = is_critical\<rparr>"

theorem readiness_iff_health_witness:
  "\<forall>w. fst (readiness False (Some (new_application\<lparr>app_initialized := True,
       health_checks := [demo_entry True True, demo_entry False False]\<rparr>)) w) = Inr (200, ''ready'')"
  by (subst readiness_iff_health)
    (simp_all add: demo_entry_def stable_def health_def case_prod_beta Let_def)

end
