(* ===== verification/Migrations.thy ===== *)
theory Migrations
  imports Database Utils
begin

text \<open>
  \<open>src/src/database/Migrations.hpp\<close>: the migration runner, one SQL statement at a time, and any number
  of instances that boot against the same server, crash, and boot again.  The directory and the files are
  parameters, and so is the answer of the server to each statement.
\<close>

section \<open>Files\<close>

record migration_file =
  version :: int
  file_name :: string
  file_path :: string

definition no_transaction_marker :: string where
  "no_transaction_marker = ''-- migrate:no-transaction''"

definition has_no_transaction_marker :: "string \<Rightarrow> bool" where
  "has_no_transaction_marker sql \<longleftrightarrow> find_sub no_transaction_marker sql \<noteq> None"

text \<open>A directory: its entries with the flag \<open>is_regular_file\<close>, \<^const>\<open>None\<close> when it is missing or not a
  directory; and the contents of the files that can be opened.\<close>

record file_system =
  listing :: "string \<Rightarrow> (string \<times> bool) list option"
  contents :: "string \<Rightarrow> string option"

text \<open>The group of \<open>^(\d+)[_-].*\.sql$\<close> in a name that matches; the dot does not match a line end.\<close>

definition match_migration :: "string \<Rightarrow> string option" where
  "match_migration name =
     (let digits = takeWhile is_digit_char name; rest = dropWhile is_digit_char name in
      if digits \<noteq> [] \<and> rest \<noteq> [] \<and> hd rest \<in> {CHR ''_'', CHR ''-''} \<and> suffix ''.sql'' (tl rest) \<and>
         list_all (\<lambda>c. c \<noteq> CHR 0x0A \<and> c \<noteq> CHR 0x0D) (tl rest)
      then Some digits else None)"

definition path_in :: "string \<Rightarrow> string \<Rightarrow> string" where
  "path_in dir name = (if dir \<noteq> [] \<and> last dir = CHR ''/'' then dir @ name else dir @ ''/'' @ name)"

fun scan_entries :: "string \<Rightarrow> (string \<times> bool) list \<Rightarrow> std_exception + migration_file list" where
  "scan_entries dir [] = Inr []"
| "scan_entries dir ((name, regular) # es) =
     (if \<not> regular then scan_entries dir es
      else case match_migration name of
        None \<Rightarrow> scan_entries dir es
      | Some digits \<Rightarrow>
          (case stoi digits of
             Inl e \<Rightarrow> Inl e
           | Inr v \<Rightarrow> map_sum id (\<lambda>ms. \<lparr>version = v, file_name = name, file_path = path_in dir name\<rparr> # ms)
               (scan_entries dir es)))"

definition scan_migrations :: "file_system \<Rightarrow> string \<Rightarrow> std_exception + migration_file list" where
  "scan_migrations fs dir =
     (case listing fs dir of
        None \<Rightarrow> Inr []
      | Some es \<Rightarrow> map_sum id (sort_by (\<lambda>a b. version a < version b)) (scan_entries dir es))"

text \<open>\<open>list_pending\<close>: the versions read from the primary, \<^const>\<open>None\<close> when that throws.\<close>

definition list_pending :: "file_system \<Rightarrow> string \<Rightarrow> int list option \<Rightarrow> std_exception + migration_file list" where
  "list_pending fs dir read_versions =
     map_sum id (filter (\<lambda>m. version m \<notin> set (case read_versions of Some vs \<Rightarrow> vs | None \<Rightarrow> []))) (scan_migrations fs dir)"

section \<open>The server and one runner\<close>

text \<open>
  The server: who holds the advisory lock, the committed rows of \<open>schema_migrations\<close>, and, for the
  statements, the journal of the migrations whose SQL took effect.  \<open>unrecorded\<close> lists the migrations
  without a transaction whose SQL took effect and whose row could not be inserted.
\<close>

record server =
  lock_holder :: "nat option"
  rows :: "(int \<times> string) list"
  journal :: "(int \<times> string) list"
  unrecorded :: "int list"

text \<open>
  Where a runner is: the statement it sends next.  \<open>Txn\<close> marks the steps of the lambda that
  \<open>execute_write\<close> runs, \<open>Session\<close> those of \<open>apply_no_transaction_\<close>.
\<close>

datatype stage =
    Ensure
  | ReadApplied
  | NextFile
  | TxnLock string | TxnSeen string | TxnExec string | TxnInsert string | TxnCommit string bool
  | SessionLock string | SessionSeen string | SessionExec string | SessionInsert | SessionUnlock bool
  | Finished
  | Stopped thrown

record runner =
  run_fs :: file_system
  run_dir :: string
  run_policy :: policy
  run_initialized :: bool
  scanned :: "migration_file list"
  todo :: "migration_file list"
  applied_versions :: "int list"
  attempts :: nat
  applied_count :: nat
  skipped_count :: nat
  stage :: stage

definition new_runner :: "file_system \<Rightarrow> string \<Rightarrow> policy \<Rightarrow> runner" where
  "new_runner fs dir p =
     \<lparr>run_fs = fs, run_dir = dir, run_policy = p, run_initialized = False, scanned = [], todo = [], applied_versions = [],
      attempts = 0, applied_count = 0, skipped_count = 0, stage = Ensure\<rparr>"

text \<open>The answer to a statement: it went through, it failed without effect, or it took effect and the
  connection was lost before the answer arrived.\<close>

datatype reply = Answered | Refused thrown | Lost thrown

text \<open>\<open>Retry::run\<close> on a failure: the same step again, from the start of its transaction, or the end.\<close>

definition retry_or_stop :: "(std_exception \<Rightarrow> bool) \<Rightarrow> thrown \<Rightarrow> stage \<Rightarrow> runner \<Rightarrow> runner" where
  "retry_or_stop classifier x again r =
     (case x of
        Thrown e \<Rightarrow>
          if int (attempts r + 1) < max_attempts (run_policy r) \<and> classifier e
          then r\<lparr>attempts := attempts r + 1, stage := again\<rparr>
          else r\<lparr>stage := Stopped x\<rparr>
      | Foreign _ \<Rightarrow> r\<lparr>stage := Stopped x\<rparr>)"

definition next_stage :: "stage \<Rightarrow> runner \<Rightarrow> runner" where
  "next_stage st r = r\<lparr>attempts := 0, stage := st\<rparr>"

text \<open>The end of one round of the loop.\<close>

definition finish_file :: "bool \<Rightarrow> runner \<Rightarrow> runner" where
  "finish_file did_apply r =
     next_stage NextFile
       (if did_apply then r\<lparr>todo := tl (todo r), applied_count := applied_count r + 1\<rparr>
        else r\<lparr>todo := tl (todo r), skipped_count := skipped_count r + 1\<rparr>)"

definition recorded :: "runner \<Rightarrow> server \<Rightarrow> bool" where
  "recorded r s \<longleftrightarrow> version (hd (todo r)) \<in> fst ` set (rows s)"

definition entry :: "runner \<Rightarrow> int \<times> string" where
  "entry r = (version (hd (todo r)), file_name (hd (todo r)))"

definition unlock :: "server \<Rightarrow> server" where
  "unlock s = s\<lparr>lock_holder := None\<rparr>"

definition insert_row :: "runner \<Rightarrow> server \<Rightarrow> server" where
  "insert_row r s = s\<lparr>rows := rows s @ [entry r]\<rparr>"

definition run_sql :: "runner \<Rightarrow> server \<Rightarrow> server" where
  "run_sql r s = s\<lparr>journal := journal s @ [entry r]\<rparr>"

definition leave_unrecorded :: "runner \<Rightarrow> server \<Rightarrow> server" where
  "leave_unrecorded r s = s\<lparr>unrecorded := version (hd (todo r)) # unrecorded s\<rparr>"

definition pk_conflict :: thrown where
  "pk_conflict = Thrown ((std_error ''duplicate key value violates unique constraint'')\<lparr>ex_sqlstate := Some ''23505''\<rparr>)"

text \<open>What \<open>initialize\<close> does between two statements: the scan, and the head of the loop.\<close>

definition after_ensure :: "runner \<Rightarrow> runner" where
  "after_ensure r =
     (case scan_migrations (run_fs r) (run_dir r) of
        Inl e \<Rightarrow> r\<lparr>stage := Stopped (Thrown e)\<rparr>
      | Inr ms \<Rightarrow>
          if ms = [] then r\<lparr>run_initialized := True, stage := Finished\<rparr>
          else next_stage ReadApplied (r\<lparr>scanned := ms, todo := ms\<rparr>))"

definition next_file :: "runner \<Rightarrow> runner" where
  "next_file r =
     (case todo r of
        [] \<Rightarrow> r\<lparr>run_initialized := True, stage := Finished\<rparr>
      | mf # _ \<Rightarrow>
          if version mf \<in> set (applied_versions r)
          then r\<lparr>todo := tl (todo r), skipped_count := skipped_count r + 1\<rparr>
          else (case contents (run_fs r) (file_path mf) of
             None \<Rightarrow> r\<lparr>stage := Stopped (Thrown (std_error (''Cannot open migration file: '' @ file_path mf)))\<rparr>
           | Some sql \<Rightarrow>
               if has_no_transaction_marker sql then next_stage (SessionLock sql) r
               else next_stage (TxnLock sql) r))"

text \<open>
  One statement of runner \<open>i\<close> and the server's answer to it; \<^const>\<open>None\<close> when the runner has ended, or
  when it waits for the lock.  A transaction takes effect when it commits and releases the lock when it
  ends, an autocommit statement takes effect at once, and the lock of a session whose connection is gone
  is released.  A runner that is killed sees the failure \<open>Foreign\<close>.
\<close>

definition advance :: "nat \<Rightarrow> reply \<Rightarrow> runner \<Rightarrow> server \<Rightarrow> (runner \<times> server) option" where
  "advance i answer r s =
     (let write = is_transient_pqxx_write;
          locked = (case lock_holder s of None \<Rightarrow> Some (s\<lparr>lock_holder := Some i\<rparr>) | Some _ \<Rightarrow> None);
          go = (\<lambda>st s'. Some (r\<lparr>stage := st\<rparr>, s'));
          again = (\<lambda>x sql s'. Some (retry_or_stop write x (TxnLock sql) r, s'));
          stop = (\<lambda>x s'. Some (r\<lparr>stage := Stopped x\<rparr>, s'))
      in case stage r of
        Ensure \<Rightarrow>
          (case answer of
             Answered \<Rightarrow> Some (after_ensure r, s)
           | Refused x \<Rightarrow> Some (retry_or_stop write x Ensure r, s)
           | Lost x \<Rightarrow> Some (retry_or_stop write x Ensure r, s))
      | ReadApplied \<Rightarrow>
          (case answer of
             Answered \<Rightarrow> Some (next_stage NextFile (r\<lparr>applied_versions := map fst (rows s)\<rparr>), s)
           | Refused x \<Rightarrow> Some (retry_or_stop is_transient_pqxx_read x ReadApplied r, s)
           | Lost x \<Rightarrow> Some (retry_or_stop is_transient_pqxx_read x ReadApplied r, s))
      | NextFile \<Rightarrow>
          (case answer of Answered \<Rightarrow> Some (next_file r, s) | Refused x \<Rightarrow> stop x s | Lost x \<Rightarrow> stop x s)
      | TxnLock sql \<Rightarrow>
          (case answer of
             Answered \<Rightarrow> (case locked of None \<Rightarrow> None | Some s' \<Rightarrow> go (TxnSeen sql) s')
           | Refused x \<Rightarrow> again x sql s
           | Lost x \<Rightarrow> again x sql s)
      | TxnSeen sql \<Rightarrow>
          (case answer of
             Answered \<Rightarrow> go (if recorded r s then TxnCommit sql False else TxnExec sql) s
           | Refused x \<Rightarrow> again x sql (unlock s)
           | Lost x \<Rightarrow> again x sql (unlock s))
      | TxnExec sql \<Rightarrow>
          (case answer of
             Answered \<Rightarrow> go (TxnInsert sql) s
           | Refused x \<Rightarrow> again x sql (unlock s)
           | Lost x \<Rightarrow> again x sql (unlock s))
      | TxnInsert sql \<Rightarrow>
          (case answer of
             Answered \<Rightarrow> if recorded r s then again pk_conflict sql (unlock s) else go (TxnCommit sql True) s
           | Refused x \<Rightarrow> again x sql (unlock s)
           | Lost x \<Rightarrow> again x sql (unlock s))
      | TxnCommit sql did \<Rightarrow>
          (let committed = (if did then insert_row r (run_sql r s) else s) in
           case answer of
             Answered \<Rightarrow> Some (finish_file did r, unlock committed)
           | Refused x \<Rightarrow> again x sql (unlock s)
           | Lost x \<Rightarrow> again x sql (unlock committed))
      | SessionLock sql \<Rightarrow>
          (case answer of
             Answered \<Rightarrow> (case locked of None \<Rightarrow> None | Some s' \<Rightarrow> go (SessionSeen sql) s')
           | Refused x \<Rightarrow> stop x s
           | Lost x \<Rightarrow> stop x s)
      | SessionSeen sql \<Rightarrow>
          (case answer of
             Answered \<Rightarrow> go (if recorded r s then SessionUnlock False else SessionExec sql) s
           | Refused x \<Rightarrow> stop x (unlock s)
           | Lost x \<Rightarrow> stop x (unlock s))
      | SessionExec sql \<Rightarrow>
          (case answer of
             Answered \<Rightarrow> go SessionInsert (run_sql r s)
           | Refused x \<Rightarrow> stop x (unlock s)
           | Lost x \<Rightarrow> stop x (unlock (leave_unrecorded r (run_sql r s))))
      | SessionInsert \<Rightarrow>
          (case answer of
             Answered \<Rightarrow>
               if recorded r s then stop pk_conflict (unlock (leave_unrecorded r s))
               else go (SessionUnlock True) (insert_row r s)
           | Refused x \<Rightarrow> stop x (unlock (leave_unrecorded r s))
           | Lost x \<Rightarrow> if recorded r s then None else stop x (unlock (insert_row r s)))
      | SessionUnlock did \<Rightarrow>
          (case answer of
             Answered \<Rightarrow> Some (finish_file did r, unlock s)
           | Refused x \<Rightarrow> stop x (unlock s)
           | Lost x \<Rightarrow> stop x (unlock s))
      | Finished \<Rightarrow> None
      | Stopped x \<Rightarrow> None)"

section \<open>Instances\<close>

record cluster =
  the_server :: server
  runners :: "runner list"

inductive boot_step :: "cluster \<Rightarrow> cluster \<Rightarrow> bool" where
  boots: "boot_step c (c\<lparr>runners := runners c @ [new_runner fs dir p]\<rparr>)"
| moves: "i < length (runners c) \<Longrightarrow> advance i answer (runners c ! i) (the_server c) = Some (r', s') \<Longrightarrow>
     boot_step c \<lparr>the_server = s', runners = (runners c)[i := r']\<rparr>"

inductive_cases boot_stepE: "boot_step c c'"

definition fresh_server :: server where
  "fresh_server = \<lparr>lock_holder = None, rows = [], journal = [], unrecorded = []\<rparr>"

definition cluster_init :: "cluster \<Rightarrow> bool" where
  "cluster_init c \<longleftrightarrow> c = \<lparr>the_server = fresh_server, runners = []\<rparr>"

section \<open>The invariant of one runner\<close>

abbreviation versions_of :: "(int \<times> string) list \<Rightarrow> int set" where
  "versions_of rs \<equiv> fst ` set rs"

fun holds_lock :: "stage \<Rightarrow> bool" where
  "holds_lock (TxnSeen _) = True" | "holds_lock (TxnExec _) = True" | "holds_lock (TxnInsert _) = True"
| "holds_lock (TxnCommit _ _) = True" | "holds_lock (SessionSeen _) = True" | "holds_lock (SessionExec _) = True"
| "holds_lock SessionInsert = True" | "holds_lock (SessionUnlock _) = True" | "holds_lock _ = False"

text \<open>The stages whose runner knows that the version is not recorded, or that it is.\<close>

fun knows_absent :: "stage \<Rightarrow> bool" where
  "knows_absent (TxnExec _) = True" | "knows_absent (TxnInsert _) = True" | "knows_absent (TxnCommit _ did) = did"
| "knows_absent (SessionExec _) = True" | "knows_absent SessionInsert = True" | "knows_absent _ = False"

fun knows_recorded :: "stage \<Rightarrow> bool" where
  "knows_recorded (TxnCommit _ did) = (\<not> did)" | "knows_recorded (SessionUnlock _) = True" | "knows_recorded _ = False"

fun in_file :: "stage \<Rightarrow> bool" where
  "in_file (TxnLock _) = True" | "in_file (SessionLock _) = True" | "in_file st = holds_lock st"

fun scan_done :: "stage \<Rightarrow> bool" where
  "scan_done Ensure = False" | "scan_done (Stopped _) = False" | "scan_done _ = True"

text \<open>What a runner has behind it is recorded; and what its stage tells.\<close>

definition progress_ok :: "runner \<Rightarrow> server \<Rightarrow> bool" where
  "progress_ok r s \<longleftrightarrow>
     (\<exists>over. scanned r = over @ todo r \<and> version ` set over \<subseteq> versions_of (rows s)) \<and>
     set (applied_versions r) \<subseteq> versions_of (rows s)"

definition stage_ok :: "runner \<Rightarrow> server \<Rightarrow> bool" where
  "stage_ok r s \<longleftrightarrow>
     (scan_done (stage r) \<longrightarrow> scan_migrations (run_fs r) (run_dir r) = Inr (scanned r)) \<and>
     (stage r = Ensure \<longrightarrow> scanned r = []) \<and>
     (in_file (stage r) \<longrightarrow> todo r \<noteq> []) \<and> (stage r = Finished \<longrightarrow> todo r = []) \<and>
     (knows_recorded (stage r) \<longrightarrow> recorded r s) \<and> (stage r = SessionInsert \<longrightarrow> entry r \<in> set (journal s))"

definition local_ok :: "nat \<Rightarrow> runner \<Rightarrow> server \<Rightarrow> bool" where
  "local_ok i r s \<longleftrightarrow>
     (holds_lock (stage r) \<longleftrightarrow> lock_holder s = Some i) \<and> (knows_absent (stage r) \<longrightarrow> \<not> recorded r s) \<and>
     progress_ok r s \<and> stage_ok r s"


lemmas server_defs = unlock_def insert_row_def run_sql_def leave_unrecorded_def

lemmas advance_cases = advance_def Let_def server_defs

lemma advance_holder:
  assumes "advance i answer r s = Some (r', s')" "holds_lock (stage r) \<longleftrightarrow> lock_holder s = Some i"
  shows "lock_holder s' = lock_holder s \<or> lock_holder s = None \<and> lock_holder s' = Some i \<or>
    lock_holder s = Some i \<and> lock_holder s' = None"
  using assms by (cases "stage r"; cases answer) (auto simp: advance_cases split: if_splits option.splits)

lemma advance_rows:
  assumes "advance i answer r s = Some (r', s')" "local_ok i r s"
  shows "rows s' = rows s \<or> lock_holder s = Some i \<and> rows s' = rows s @ [entry r] \<and> \<not> recorded r s"
  using assms by (cases "stage r"; cases answer)
    (auto simp: advance_cases local_ok_def split: if_splits option.splits)

lemma advance_journal: "advance i answer r s = Some (r', s') \<Longrightarrow> set (journal s) \<subseteq> set (journal s')"
  by (cases "stage r"; cases answer) (auto simp: advance_cases split: if_splits option.splits)

lemma advance_rows_journal:
  assumes "advance i answer r s = Some (r', s')" "stage r = SessionInsert \<longrightarrow> entry r \<in> set (journal s)"
    "set (rows s) \<subseteq> set (journal s)"
  shows "set (rows s') \<subseteq> set (journal s')"
  using assms by (cases "stage r"; cases answer) (auto simp: advance_cases split: if_splits option.splits)

text \<open>The executions of a version, the rows that record them, and the ones a session has yet to record.\<close>

definition occurrences :: "int \<Rightarrow> (int \<times> string) list \<Rightarrow> nat" where
  "occurrences v es = length (filter (\<lambda>e. fst e = v) es)"

definition to_record :: "int \<Rightarrow> runner \<Rightarrow> nat" where
  "to_record v r = (if stage r = SessionInsert \<and> version (hd (todo r)) = v then 1 else 0)"

lemma occurrences_simps [simp]: "occurrences v [] = 0" "occurrences v (es @ [e]) = occurrences v es + (if fst e = v then 1 else 0)"
  by (simp_all add: occurrences_def)

lemma stage_retry: "stage (retry_or_stop cl x again r) = again \<or> (\<exists>y. stage (retry_or_stop cl x again r) = Stopped y)"
  by (cases x) (auto simp: retry_or_stop_def)

lemma retry_not_insert [simp]: "again \<noteq> SessionInsert \<Longrightarrow> stage (retry_or_stop cl x again r) \<noteq> SessionInsert"
  using stage_retry [of cl x again r] by auto

lemma stage_finish_file [simp]: "stage (finish_file did r) = NextFile" "todo (finish_file did r) = tl (todo r)"
  by (simp_all add: finish_file_def next_stage_def)

lemma stage_next_stage [simp]: "stage (next_stage st r) = st"
  by (simp add: next_stage_def)

lemma stage_after_ensure: "stage (after_ensure r) \<in> {ReadApplied, Finished} \<or> (\<exists>x. stage (after_ensure r) = Stopped x)"
  by (auto simp: after_ensure_def split: sum.splits)

lemma stage_next_file:
  "stage r = NextFile \<Longrightarrow> stage (next_file r) \<in> {NextFile, Finished} \<or> (\<exists>x. stage (next_file r) = Stopped x) \<or>
     (\<exists>sql. stage (next_file r) \<in> {TxnLock sql, SessionLock sql})"
  by (auto simp: next_file_def split: list.splits option.splits)

lemma advance_balance:
  assumes "advance i answer r s = Some (r', s')"
  shows "occurrences v (journal s') + occurrences v (rows s) + count_list (unrecorded s) v + to_record v r =
    occurrences v (journal s) + occurrences v (rows s') + count_list (unrecorded s') v + to_record v r'"
proof (cases "stage r")
  case Ensure
  then show ?thesis using assms stage_after_ensure [of r] by (cases answer) (auto simp: advance_cases to_record_def)
next
  case NextFile
  then show ?thesis using assms stage_next_file [of r] by (cases answer) (auto simp: advance_cases to_record_def)
qed (use assms in \<open>(cases answer; auto simp: advance_cases to_record_def entry_def split: if_splits option.splits)+\<close>)


lemma retry_fields [simp]:
  "scanned (retry_or_stop cl x again r) = scanned r" "todo (retry_or_stop cl x again r) = todo r"
  "applied_versions (retry_or_stop cl x again r) = applied_versions r"
  "run_fs (retry_or_stop cl x again r) = run_fs r" "run_dir (retry_or_stop cl x again r) = run_dir r"
  by (cases x; simp add: retry_or_stop_def)+

lemma retry_stage_cong:
  "P again \<Longrightarrow> (\<And>y. P (Stopped y)) \<Longrightarrow> P (stage (retry_or_stop cl x again r))"
  using stage_retry [of cl x again r] by auto

lemma recorded_cong [simp]: "recorded (r\<lparr>stage := st\<rparr>) s = recorded r s" "entry (r\<lparr>stage := st\<rparr>) = entry r"
  by (simp_all add: recorded_def entry_def)

lemma recorded_server [simp]:
  "recorded r (s\<lparr>journal := j\<rparr>) = recorded r s" "recorded r (s\<lparr>lock_holder := h\<rparr>) = recorded r s"
  "recorded r (s\<lparr>unrecorded := u\<rparr>) = recorded r s" "recorded r (s\<lparr>rows := rs @ [entry r]\<rparr>)"
  by (simp_all add: recorded_def entry_def)

lemma recorded_retry [simp]: "recorded (retry_or_stop cl x again r) s = recorded r s" "entry (retry_or_stop cl x again r) = entry r"
  by (simp_all add: recorded_def entry_def)

lemma finish_file_fields [simp]:
  "scanned (finish_file did r) = scanned r" "applied_versions (finish_file did r) = applied_versions r"
  "run_fs (finish_file did r) = run_fs r" "run_dir (finish_file did r) = run_dir r"
  by (simp_all add: finish_file_def next_stage_def)

lemma progress_mono:
  assumes "progress_ok r s" "set (rows s) \<subseteq> set (rows s')" "scanned r' = scanned r" "todo r' = todo r"
    "applied_versions r' = applied_versions r"
  shows "progress_ok r' s'"
proof -
  have "versions_of (rows s) \<subseteq> versions_of (rows s')" using assms(2) by auto
  then show ?thesis using assms unfolding progress_ok_def by (metis subset_trans)
qed

lemma progress_tl:
  assumes "progress_ok r s" "todo r \<noteq> []" "set (rows s) \<subseteq> set (rows s')" "recorded r s'" "scanned r' = scanned r"
    "todo r' = tl (todo r)" "applied_versions r' = applied_versions r"
  shows "progress_ok r' s'"
proof -
  obtain over where over: "scanned r = over @ todo r" "version ` set over \<subseteq> versions_of (rows s)"
    using assms(1) by (auto simp: progress_ok_def)
  have "todo r = hd (todo r) # tl (todo r)" using assms(2) by simp
  then have "scanned r' = (over @ [hd (todo r)]) @ todo r'" using over(1) assms(5,6) by (metis append.assoc append_Cons append_Nil)
  moreover have sub: "versions_of (rows s) \<subseteq> versions_of (rows s')" using assms(3) by auto
  then have "version ` set (over @ [hd (todo r)]) \<subseteq> versions_of (rows s')"
    using over(2) assms(4) by (auto simp: recorded_def)
  moreover have "set (applied_versions r') \<subseteq> versions_of (rows s')"
    using assms(1,7) sub by (auto simp: progress_ok_def)
  ultimately show ?thesis unfolding progress_ok_def by blast
qed

lemma scan_done_in_file: "in_file st \<Longrightarrow> scan_done st"
  by (cases st) simp_all

lemma stage_retry_ok:
  assumes "stage_ok r s" "again = stage r \<and> again \<in> {Ensure, ReadApplied} \<or> (\<exists>sql. again = TxnLock sql) \<and> in_file (stage r)"
  shows "stage_ok (retry_or_stop cl x again r) s'"
proof (cases "stage (retry_or_stop cl x again r) = again")
  case True
  then show ?thesis using assms scan_done_in_file [of "stage r"] by (auto simp: stage_ok_def)
next
  case False
  then obtain y where "stage (retry_or_stop cl x again r) = Stopped y" using stage_retry by blast
  then show ?thesis by (simp add: stage_ok_def)
qed

lemma stage_stop_ok [simp]: "stage_ok (r\<lparr>stage := Stopped x\<rparr>) s"
  by (simp add: stage_ok_def)

lemma stage_finish_ok: "stage_ok r s \<Longrightarrow> in_file (stage r) \<Longrightarrow> stage_ok (finish_file did r) s'"
  using scan_done_in_file [of "stage r"] by (simp add: stage_ok_def)

lemma after_ensure_ok:
  assumes "stage r = Ensure" "progress_ok r s" "stage_ok r s"
  shows "progress_ok (after_ensure r) s" "stage_ok (after_ensure r) s"
  using assms by (auto simp: progress_ok_def stage_ok_def after_ensure_def next_stage_def split: sum.splits)

lemma next_file_stage_ok: "stage r = NextFile \<Longrightarrow> stage_ok r s \<Longrightarrow> stage_ok (next_file r) s"
  by (auto simp: stage_ok_def next_file_def next_stage_def split: list.splits option.splits)

lemma next_file_progress:
  assumes "progress_ok r s"
  shows "progress_ok (next_file r) s"
proof (cases "todo r")
  case Nil
  then show ?thesis using assms by (simp add: progress_ok_def next_file_def)
next
  case (Cons mf rest)
  show ?thesis
  proof (cases "version mf \<in> set (applied_versions r)")
    case True
    then have "recorded r s" using assms Cons by (auto simp: progress_ok_def recorded_def)
    then show ?thesis
      using True Cons by (intro progress_tl [OF assms]) (simp_all add: next_file_def)
  next
    case False
    then show ?thesis
      using Cons by (intro progress_mono [OF assms]) (simp_all add: next_file_def next_stage_def split: option.splits)
  qed
qed

text \<open>One answer keeps the invariant of the runner it goes to.\<close>

lemma advance_lock:
  assumes "advance i answer r s = Some (r', s')" "local_ok i r s"
  shows "holds_lock (stage r') \<longleftrightarrow> lock_holder s' = Some i"
proof -
  have free: "\<not> holds_lock (stage (retry_or_stop cl x again r))" if "\<not> holds_lock again" for cl x again
    using that stage_retry [of cl x again r] by auto
  have "\<not> holds_lock (stage (after_ensure r))" using stage_after_ensure [of r] by auto
  moreover have "\<not> holds_lock (stage (next_file r))" if "stage r = NextFile" using stage_next_file [OF that] by auto
  ultimately show ?thesis
    using assms free
    by (cases "stage r"; cases answer) (auto simp: advance_cases local_ok_def split: if_splits option.splits)
qed

lemma advance_absent:
  assumes "advance i answer r s = Some (r', s')" "local_ok i r s"
  shows "knows_absent (stage r') \<longrightarrow> \<not> recorded r' s'"
proof -
  have free: "\<not> knows_absent (stage (retry_or_stop cl x again r))" if "\<not> knows_absent again" for cl x again
    using that stage_retry [of cl x again r] by auto
  have "\<not> knows_absent (stage (after_ensure r))" using stage_after_ensure [of r] by auto
  moreover have "\<not> knows_absent (stage (next_file r))" if "stage r = NextFile" using stage_next_file [OF that] by auto
  ultimately show ?thesis
    using assms free
    by (cases "stage r"; cases answer)
      (auto simp: advance_cases local_ok_def split: if_splits option.splits)
qed


lemma advance_fields:
  assumes "advance i answer r s = Some (r', s')"
  shows "todo r' = todo r \<and> scanned r' = scanned r \<and> applied_versions r' = applied_versions r \<or>
    stage r = Ensure \<and> r' = after_ensure r \<and> s' = s \<or>
    stage r = ReadApplied \<and> r' = next_stage NextFile (r\<lparr>applied_versions := map fst (rows s)\<rparr>) \<and> s' = s \<or>
    r' = next_file r \<and> s' = s \<or>
    (\<exists>did sql. stage r = TxnCommit sql did \<and> r' = finish_file did r \<and>
      s' = unlock (if did then insert_row r (run_sql r s) else s)) \<or>
    (\<exists>did. stage r = SessionUnlock did \<and> r' = finish_file did r \<and> s' = unlock s)"
  using assms by (cases "stage r"; cases answer) (auto simp: advance_def Let_def split: if_splits option.splits)

lemma advance_progress:
  assumes "advance i answer r s = Some (r', s')" "local_ok i r s"
  shows "progress_ok r' s'"
proof (cases "todo r' = todo r \<and> scanned r' = scanned r \<and> applied_versions r' = applied_versions r")
  case True
  moreover have "set (rows s) \<subseteq> set (rows s')" using advance_rows [OF assms] by auto
  ultimately show ?thesis using assms(2) progress_mono [of r s s' r'] by (simp add: local_ok_def)
next
  case False
  have ok: "progress_ok r s" "stage_ok r s" using assms(2) by (simp_all add: local_ok_def)
  have todo: "todo r \<noteq> []" if "in_file (stage r)" using ok(2) that by (simp add: stage_ok_def)
  consider "stage r = Ensure" "r' = after_ensure r" "s' = s"
    | "stage r = ReadApplied" "r' = next_stage NextFile (r\<lparr>applied_versions := map fst (rows s)\<rparr>)" "s' = s"
    | "r' = next_file r" "s' = s"
    | did sql where "stage r = TxnCommit sql did" "r' = finish_file did r" "s' = unlock (if did then insert_row r (run_sql r s) else s)"
    | did where "stage r = SessionUnlock did" "r' = finish_file did r" "s' = unlock s"
    using advance_fields [OF assms(1)] False by blast
  then show ?thesis
  proof cases
    case 1
    then show ?thesis using after_ensure_ok ok by simp
  next
    case 2
    then show ?thesis using ok by (auto simp: progress_ok_def next_stage_def)
  next
    case 3
    then show ?thesis using next_file_progress ok by simp
  next
    case 4
    have "recorded r s'" using ok(2) 4 by (cases did) (simp_all add: stage_ok_def server_defs)
    then show ?thesis using 4 todo by (intro progress_tl [OF ok(1)]) (auto simp: server_defs)
  next
    case 5
    then have "recorded r s'" using ok(2) by (simp add: stage_ok_def server_defs)
    then show ?thesis using 5 todo by (intro progress_tl [OF ok(1)]) (auto simp: server_defs)
  qed
qed

lemma advance_stage:
  assumes "advance i answer r s = Some (r', s')" "local_ok i r s"
  shows "stage_ok r' s'"
proof -
  have ok: "progress_ok r s" "stage_ok r s" using assms(2) by (simp_all add: local_ok_def)
  have again: "stage_ok (retry_or_stop cl x (TxnLock sql) r) t" if "in_file (stage r)" for cl x sql t
    using stage_retry_ok [OF ok(2)] that by auto
  have same: "stage_ok (retry_or_stop cl x (stage r) r) t" if "stage r \<in> {Ensure, ReadApplied}" for cl x t
    using stage_retry_ok [OF ok(2)] that by auto
  have finish: "stage_ok (finish_file did r) t" if "in_file (stage r)" for did t
    using stage_finish_ok [OF ok(2) that] .
  show ?thesis
  proof (cases "stage r")
    case Ensure
    then show ?thesis
      using assms(1) same after_ensure_ok [OF Ensure ok] by (cases answer) (auto simp: advance_cases)
  next
    case ReadApplied
    then show ?thesis
      using assms(1) same ok(2) by (cases answer) (auto simp: advance_cases stage_ok_def next_stage_def)
  next
    case NextFile
    then show ?thesis
      using assms(1) next_file_stage_ok [OF NextFile ok(2)] by (cases answer) (auto simp: advance_cases)
  qed (use assms(1) again finish ok(2) in
      \<open>(cases answer; force simp: advance_cases stage_ok_def split: if_splits option.splits)+\<close>)
qed

lemma advance_local: "advance i answer r s = Some (r', s') \<Longrightarrow> local_ok i r s \<Longrightarrow> local_ok i r' s'"
  using advance_lock advance_absent advance_progress advance_stage by (simp add: local_ok_def)

text \<open>And the invariant of every other runner.\<close>

lemma advance_frame:
  assumes "advance i answer r s = Some (r', s')" "local_ok i r s" "local_ok j q s" "i \<noteq> j"
  shows "local_ok j q s'"
proof -
  have holder: "lock_holder s' = Some j \<longleftrightarrow> lock_holder s = Some j"
    using advance_holder [OF assms(1)] assms(2,4) by (auto simp: local_ok_def)
  have rows: "set (rows s) \<subseteq> set (rows s')" "lock_holder s = Some j \<Longrightarrow> rows s' = rows s"
    using advance_rows [OF assms(1,2)] assms(4) by auto
  have locked: "holds_lock st" if "knows_absent st" for st using that by (cases st) auto
  have "\<not> recorded q s'" if "knows_absent (stage q)"
    using assms(3) locked [OF that] that rows(2) by (auto simp: local_ok_def recorded_def)
  moreover have "progress_ok q s'" using assms(3) rows(1) progress_mono [of q s s' q] by (auto simp: local_ok_def)
  moreover have "recorded q s'" if "recorded q s" using that rows(1) by (auto simp: recorded_def)
  then have "stage_ok q s'"
    using assms(3) advance_journal [OF assms(1)] by (auto simp: local_ok_def stage_ok_def)
  ultimately show ?thesis using assms(3) holder by (simp add: local_ok_def)
qed


section \<open>The invariant of the cluster\<close>

definition books_ok :: "cluster \<Rightarrow> bool" where
  "books_ok c \<longleftrightarrow>
     (\<forall>v. occurrences v (journal (the_server c)) =
        occurrences v (rows (the_server c)) + count_list (unrecorded (the_server c)) v + sum_list (map (to_record v) (runners c))) \<and>
     distinct (map fst (rows (the_server c))) \<and> set (rows (the_server c)) \<subseteq> set (journal (the_server c))"

definition cluster_ok :: "cluster \<Rightarrow> bool" where
  "cluster_ok c \<longleftrightarrow>
     (\<forall>i. lock_holder (the_server c) = Some i \<longrightarrow> i < length (runners c)) \<and>
     (\<forall>i<length (runners c). local_ok i (runners c ! i) (the_server c)) \<and> books_ok c"

lemma sum_list_map_update:
  "i < length xs \<Longrightarrow> sum_list (map f (xs[i := x])) + f (xs ! i) = sum_list (map f xs) + (f x :: nat)"
proof (induction xs arbitrary: i)
  case (Cons y ys)
  then show ?case by (cases i) auto
qed simp

lemma new_runner_ok:
  "lock_holder s \<noteq> Some i \<Longrightarrow> local_ok i (new_runner fs dir p) s" "to_record v (new_runner fs dir p) = 0"
  by (simp_all add: local_ok_def progress_ok_def stage_ok_def new_runner_def to_record_def)

lemma cluster_boots:
  assumes "cluster_ok c"
  shows "cluster_ok (c\<lparr>runners := runners c @ [new_runner fs dir p]\<rparr>)"
proof -
  have "lock_holder (the_server c) \<noteq> Some (length (runners c))" using assms by (auto simp: cluster_ok_def)
  then show ?thesis using assms by (auto simp: cluster_ok_def books_ok_def nth_append less_Suc_eq new_runner_ok)
qed

lemma cluster_moves:
  assumes "cluster_ok c" "i < length (runners c)" "advance i answer (runners c ! i) (the_server c) = Some (r', s')"
  shows "cluster_ok \<lparr>the_server = s', runners = (runners c)[i := r']\<rparr>"
proof -
  let ?s = "the_server c" and ?r = "runners c ! i"
  have ok: "local_ok i ?r ?s" and others: "\<And>j. j < length (runners c) \<Longrightarrow> local_ok j (runners c ! j) ?s"
    using assms(1,2) by (simp_all add: cluster_ok_def)
  have "local_ok j ((runners c)[i := r'] ! j) s'" if "j < length (runners c)" for j
    using advance_local [OF assms(3) ok] advance_frame [OF assms(3) ok others [OF that]] that by (cases "j = i") auto
  moreover have "j < length (runners c)" if "lock_holder s' = Some j" for j
    using advance_holder [OF assms(3)] ok assms(1,2) that by (auto simp: cluster_ok_def local_ok_def)
  moreover have "distinct (map fst (rows s'))"
    using advance_rows [OF assms(3) ok] assms(1)
    by (auto simp: cluster_ok_def books_ok_def recorded_def entry_def)
  moreover have "set (rows s') \<subseteq> set (journal s')"
    using advance_rows_journal [OF assms(3)] ok assms(1) by (auto simp: cluster_ok_def books_ok_def local_ok_def stage_ok_def)
  moreover have "occurrences v (journal s') =
      occurrences v (rows s') + count_list (unrecorded s') v + sum_list (map (to_record v) ((runners c)[i := r']))" for v
    using advance_balance [OF assms(3), of v] sum_list_map_update [OF assms(2), of "to_record v" r'] assms(1)
    by (auto simp: cluster_ok_def books_ok_def)
  ultimately show ?thesis by (simp add: cluster_ok_def books_ok_def)
qed

lemma cluster_init_ok: "cluster_init c \<Longrightarrow> cluster_ok c"
  by (simp add: cluster_init_def cluster_ok_def books_ok_def fresh_server_def)

interpretation booting: transition_invariant cluster_init boot_step cluster_ok
proof unfold_locales
  show "cluster_ok c" if "cluster_init c" for c using cluster_init_ok that .
  show "cluster_ok c'" if "cluster_ok c" "boot_step c c'" for c c'
    using that(2,1) by (cases rule: boot_step.cases) (auto intro: cluster_boots cluster_moves)
qed

lemma occurrences_distinct: "distinct (map fst es) \<Longrightarrow> occurrences v es \<le> 1"
proof (induction es)
  case (Cons e es)
  have "occurrences v es = 0" if "fst e = v"
    using Cons.prems that by (auto simp: occurrences_def filter_empty_conv image_iff)
  then show ?case using Cons by (cases "fst e = v") (auto simp: occurrences_def)
qed simp

lemma occurrences_zero: "v \<notin> versions_of es \<Longrightarrow> occurrences v es = 0"
  by (force simp: occurrences_def filter_empty_conv)

text \<open>At most one runner is about to record a version, and then it is not recorded yet.\<close>

lemma to_record_total:
  assumes "cluster_ok c"
  shows "occurrences v (rows (the_server c)) + sum_list (map (to_record v) (runners c)) \<le> 1"
proof (cases "\<exists>i<length (runners c). to_record v (runners c ! i) \<noteq> 0")
  case False
  then have "sum_list (map (to_record v) (runners c)) = 0" by (auto simp: in_set_conv_nth)
  moreover have "occurrences v (rows (the_server c)) \<le> 1"
    using assms by (intro occurrences_distinct) (simp add: cluster_ok_def books_ok_def)
  ultimately show ?thesis by linarith
next
  case True
  then obtain i where i: "i < length (runners c)" "to_record v (runners c ! i) \<noteq> 0" by blast
  have holder: "lock_holder (the_server c) = Some j" if "j < length (runners c)" "to_record v (runners c ! j) \<noteq> 0" for j
    using assms that by (auto simp: cluster_ok_def local_ok_def to_record_def split: if_splits)
  have "to_record v (runners c ! j) = 0" if "j < length (runners c)" "j \<noteq> i" for j
    using holder [OF that(1)] holder [OF i] that(2) by (cases "to_record v (runners c ! j) = 0") auto
  moreover have idle: "to_record v ((runners c ! i)\<lparr>stage := ReadApplied\<rparr>) = 0" by (simp add: to_record_def)
  ultimately have "to_record v ((runners c)[i := (runners c ! i)\<lparr>stage := ReadApplied\<rparr>] ! j) = 0"
    if "j < length (runners c)" for j using that by (cases "j = i") simp_all
  then have "\<forall>r\<in>set ((runners c)[i := (runners c ! i)\<lparr>stage := ReadApplied\<rparr>]). to_record v r = 0"
    by (auto simp: in_set_conv_nth)
  then have "sum_list (map (to_record v) ((runners c)[i := (runners c ! i)\<lparr>stage := ReadApplied\<rparr>])) = 0"
    by simp
  then have "sum_list (map (to_record v) (runners c)) = to_record v (runners c ! i)"
    using sum_list_map_update [OF i(1), of "to_record v" "(runners c ! i)\<lparr>stage := ReadApplied\<rparr>"] idle by linarith
  moreover have "v \<notin> versions_of (rows (the_server c))"
    using assms i by (auto simp: cluster_ok_def local_ok_def to_record_def recorded_def split: if_splits)
  ultimately show ?thesis using i(2) by (simp add: occurrences_zero to_record_def split: if_splits)
qed

section \<open>Properties\<close>


text \<open>C28. When an instance reports that its migrations are complete, every version that it found on disk is
  recorded as applied, so the list of pending migrations is empty.\<close>

theorem migrations_complete:
  assumes "cluster_init c0" "boot_step\<^sup>*\<^sup>* c0 c" "i < length (runners c)" "stage (runners c ! i) = Finished"
  shows "list_pending (run_fs (runners c ! i)) (run_dir (runners c ! i)) (Some (map fst (rows (the_server c)))) = Inr []"
proof -
  let ?r = "runners c ! i"
  have "local_ok i ?r (the_server c)" using booting.reachable_inv [OF assms(1,2)] assms(3) by (simp add: cluster_ok_def)
  then have "scan_migrations (run_fs ?r) (run_dir ?r) = Inr (scanned ?r)" "version ` set (scanned ?r) \<subseteq> versions_of (rows (the_server c))"
    using assms(4) by (auto simp: local_ok_def progress_ok_def stage_ok_def)
  then show ?thesis by (auto simp: list_pending_def filter_empty_conv)
qed

section \<open>Witnesses\<close>

text \<open>Two instances boot against an empty database with two migrations, the second one without a
  transaction.  The first loses its connection in the first commit; the second one does the rest.\<close>

fun replay :: "(nat \<times> reply) list \<Rightarrow> cluster \<Rightarrow> cluster option" where
  "replay [] c = Some c"
| "replay ((i, answer) # ms) c =
     (if i < length (runners c) then
        (case advance i answer (runners c ! i) (the_server c) of
           None \<Rightarrow> None
         | Some (r', s') \<Rightarrow> replay ms \<lparr>the_server = s', runners = (runners c)[i := r']\<rparr>)
      else None)"

lemma replay_steps: "replay ms c = Some c' \<Longrightarrow> boot_step\<^sup>*\<^sup>* c c'"
proof (induction ms c rule: replay.induct)
  case (2 i answer ms c)
  then show ?case by (auto split: if_splits option.splits intro: boot_step.moves converse_rtranclp_into_rtranclp)
qed simp

lemma advance_run_fs: "advance i answer r s = Some (r', s') \<Longrightarrow> run_fs r' = run_fs r"
proof -
  have "run_fs (after_ensure r) = run_fs r" "run_fs (next_file r) = run_fs r"
    by (auto simp: after_ensure_def next_file_def next_stage_def split: sum.splits list.splits option.splits)
  then show "advance i answer r s = Some (r', s') \<Longrightarrow> run_fs r' = run_fs r"
    by (cases "stage r"; cases answer) (auto simp: advance_def Let_def next_stage_def split: if_splits option.splits)
qed

lemma replay_run_fs:
  "replay ms c = Some c' \<Longrightarrow> j < length (runners c) \<Longrightarrow> run_fs (runners c' ! j) = run_fs (runners c ! j)"
proof (induction ms c rule: replay.induct)
  case (2 i answer ms c)
  then show ?case
    by (cases "j = i") (auto split: if_splits option.splits dest: advance_run_fs)
qed simp

definition demo_fs :: file_system where
  "demo_fs =
     \<lparr>listing = (\<lambda>_. Some [(''2_b.sql'', True), (''1_a.sql'', True), (''notes.txt'', True), (''3_c.sql'', False)]),
      contents = (\<lambda>path. Some (if path = ''m/2_b.sql'' then no_transaction_marker else ''SELECT 1''))\<rparr>"

definition demo_runner :: runner where
  "demo_runner = new_runner demo_fs ''m'' default_policy"

definition demo_moves :: "(nat \<times> reply) list" where
  "demo_moves =
     replicate 7 (0, Answered) @ replicate 3 (1, Answered) @ [(0, Lost (Thrown (std_error ''broken'')))] @
     replicate 10 (1, Answered)"

definition demo_cluster :: cluster where
  "demo_cluster = the (replay demo_moves \<lparr>the_server = fresh_server, runners = [demo_runner, demo_runner]\<rparr>)"

lemma demo_cluster_replay:
  "replay demo_moves \<lparr>the_server = fresh_server, runners = [demo_runner, demo_runner]\<rparr> = Some demo_cluster"
proof -
  have "replay demo_moves \<lparr>the_server = fresh_server, runners = [demo_runner, demo_runner]\<rparr> \<noteq> None" by code_simp
  then show ?thesis by (auto simp: demo_cluster_def)
qed

lemma demo_cluster_reachable: "boot_step\<^sup>*\<^sup>* \<lparr>the_server = fresh_server, runners = []\<rparr> demo_cluster"
proof -
  let ?c = "\<lambda>rs. \<lparr>the_server = fresh_server, runners = rs\<rparr>"
  have "boot_step (?c []) (?c [demo_runner])" "boot_step (?c [demo_runner]) (?c [demo_runner, demo_runner])"
    using boot_step.boots [of "?c []"] boot_step.boots [of "?c [demo_runner]"] by (simp_all add: demo_runner_def)
  moreover have "boot_step\<^sup>*\<^sup>* (?c [demo_runner, demo_runner]) demo_cluster"
    using replay_steps [OF demo_cluster_replay] .
  ultimately show ?thesis by (meson converse_rtranclp_into_rtranclp)
qed


theorem migrations_complete_witness:
  "list_pending demo_fs ''m'' (Some (map fst (rows (the_server demo_cluster)))) = Inr []"
proof -
  have r: "1 < length (runners demo_cluster)" "stage (runners demo_cluster ! 1) = Finished"
    "run_dir (runners demo_cluster ! 1) = ''m''" by code_simp+
  have "run_fs (runners demo_cluster ! 1) = demo_fs"
    using replay_run_fs [OF demo_cluster_replay, of 1] by (simp add: demo_runner_def new_runner_def)
  then show ?thesis
    using migrations_complete [OF _ demo_cluster_reachable r(1,2)] r(3) by (simp add: cluster_init_def)
qed

end
