(* ===== verification/Requests.thy ===== *)
theory Requests
  imports Config
begin

text \<open>
  What handlers build on: reading query parameters and normalizing paths in \<open>src/src/api/RequestUtils.hpp\<close>,
  the body validators of \<open>src/src/api/Validation.hpp\<close>, and the response builders of
  \<open>src/src/utils/ErrorResponse.hpp\<close>.
\<close>

section \<open>Parameters and paths\<close>

definition is_xdigit :: "char \<Rightarrow> bool" where
  [byte_defs]: "is_xdigit c \<longleftrightarrow> 48 \<le> byte c \<and> byte c \<le> 57 \<or> 65 \<le> byte c \<and> byte c \<le> 70 \<or> 97 \<le> byte c \<and> byte c \<le> 102"

definition is_uuid_segment :: "string \<Rightarrow> bool" where
  "is_uuid_segment s \<longleftrightarrow> length s = 36 \<and>
     list_all (\<lambda>i. if i = 8 \<or> i = 13 \<or> i = 18 \<or> i = 23 then s ! i = CHR ''-'' else is_xdigit (s ! i)) [0..<36]"

definition parse_int :: "string \<Rightarrow> int \<Rightarrow> int" where
  "parse_int s def = (if s = [] then def else case stoi s of Inl _ \<Rightarrow> def | Inr v \<Rightarrow> v)"

definition clamp_int :: "string \<Rightarrow> int \<Rightarrow> int \<Rightarrow> int \<Rightarrow> int" where
  "clamp_int s def lo hi = (let v = parse_int s def in if v < lo then lo else if v > hi then hi else v)"

record page_params =
  page_limit :: int
  page_offset :: int

text \<open>\<open>getParameter\<close> gives the empty string for a parameter that is absent.\<close>

definition parse_page_params :: "(string \<Rightarrow> string) \<Rightarrow> int \<Rightarrow> int \<Rightarrow> page_params" where
  "parse_page_params get_parameter default_limit max_limit =
     \<lparr>page_limit = clamp_int (get_parameter ''limit'') default_limit 1 max_limit,
      page_offset = clamp_int (get_parameter ''offset'') 0 0 1000000\<rparr>"

function segments :: "string \<Rightarrow> string list" where
  "segments path =
     (let s = dropWhile (\<lambda>c. c = CHR ''/'') path in
      if s = [] then [] else takeWhile (\<lambda>c. c \<noteq> CHR ''/'') s # segments (dropWhile (\<lambda>c. c \<noteq> CHR ''/'') s))"
  by pat_completeness auto
termination
proof (relation "measure length")
  fix path s :: string
  assume s: "s = dropWhile (\<lambda>c. c = CHR ''/'') path" "s \<noteq> []"
  have "hd s \<noteq> CHR ''/''" using s hd_dropWhile by blast
  then have "dropWhile (\<lambda>c. c \<noteq> CHR ''/'') s = dropWhile (\<lambda>c. c \<noteq> CHR ''/'') (tl s)" using s(2) by (cases s) auto
  then have "length (dropWhile (\<lambda>c. c \<noteq> CHR ''/'') s) \<le> length (tl s)" using length_dropWhile_le by metis
  also have "\<dots> < length s" using s(2) by simp
  also have "\<dots> \<le> length path" unfolding s(1) by (rule length_dropWhile_le)
  finally show "(dropWhile (\<lambda>c. c \<noteq> CHR ''/'') s, path) \<in> measure length" by simp
qed simp

declare segments.simps [simp del]

definition is_version_seg :: "string \<Rightarrow> bool" where
  "is_version_seg s \<longleftrightarrow> \<not> (length s < 2 \<or> s ! 0 \<noteq> CHR ''v'') \<and> list_all is_digit_char (drop 1 s)"

definition base_index :: "string list \<Rightarrow> nat" where
  "base_index segs = (if length segs \<ge> 2 \<and> is_version_seg (segs ! 1) then 2 else 1)"

definition account_token_route :: "string list \<Rightarrow> bool" where
  "account_token_route segs \<longleftrightarrow>
     (let base = base_index segs in
      length segs = base + 3 \<and> segs ! 0 = ''api'' \<and> segs ! base = ''account'' \<and>
      segs ! (base + 1) \<in> {''confirm'', ''reset-password'', ''change-email'', ''join-from-invite''})"

definition id_shaped :: "string \<Rightarrow> bool" where
  "id_shaped s \<longleftrightarrow> s \<noteq> [] \<and> list_all is_digit_char s \<or> is_uuid_segment s"

definition rewritten :: "string list \<Rightarrow> nat \<Rightarrow> string" where
  "rewritten segs k =
     (if account_token_route segs \<and> k = base_index segs + 2 then '':token''
      else if id_shaped (segs ! k) then '':id'' else segs ! k)"

definition normalize_path_for_metrics :: "string \<Rightarrow> string" where
  "normalize_path_for_metrics path =
     (let segs = segments path;
          out = concat (map (\<lambda>k. CHR ''/'' # rewritten segs k) [0..<length segs])
      in if out = [] then ''/'' else out)"

section \<open>Responses\<close>

text \<open>Assignment to a key of an object, whose members are in the order of their keys.\<close>

fun json_put :: "string \<Rightarrow> json_value \<Rightarrow> (string \<times> json_value) list \<Rightarrow> (string \<times> json_value) list" where
  "json_put k v [] = [(k, v)]"
| "json_put k v ((k', v') # ms) =
     (if k = k' then (k, v) # ms else if string_less k k' then (k, v) # (k', v') # ms else (k', v') # json_put k v ms)"

definition json_object :: "(string \<times> json_value) list \<Rightarrow> json_value" where
  "json_object ms = JObject (fold (\<lambda>(k, v). json_put k v) ms [])"

text \<open>A response: the status, the headers by lower-cased name, and the body, as a document before
  \<open>dump()\<close> or as text.\<close>

datatype content = NoContent | Document json_value | Raw string

record response =
  status :: nat
  headers :: "string \<Rightarrow> string option"
  content_type :: string
  body :: content

definition new_response :: response where
  "new_response = \<lparr>status = 200, headers = Map.empty, content_type = ''text/html; charset=utf-8'', body = NoContent\<rparr>"

definition json_type :: string where
  "json_type = ''application/json; charset=utf-8''"

record error_info =
  err_status :: nat
  err_code :: string
  err_message :: string
  err_extra :: json_value

definition make :: "error_info \<Rightarrow> response" where
  "make e =
     (let b = json_put ''status'' (JInt (int (err_status e))) (json_put ''error'' (JString (err_code e)) []);
          b1 = (if err_message e \<noteq> [] then json_put ''message'' (JString (err_message e)) b else b);
          b2 = (case err_extra e of JObject ms \<Rightarrow> fold (\<lambda>(k, v). json_put k v) ms b1 | _ \<Rightarrow> b1)
      in new_response\<lparr>status := err_status e, content_type := json_type, body := Document (JObject b2)\<rparr>)"

definition simple_error :: "nat \<Rightarrow> string \<Rightarrow> string \<Rightarrow> response" where
  "simple_error st code message = make \<lparr>err_status = st, err_code = code, err_message = message, err_extra = JObject []\<rparr>"

definition bad_request :: "string \<Rightarrow> string \<Rightarrow> json_value \<Rightarrow> response" where
  "bad_request code message extra = make \<lparr>err_status = 400, err_code = code, err_message = message, err_extra = extra\<rparr>"

definition unauthorized :: "string \<Rightarrow> string \<Rightarrow> response" where
  "unauthorized = simple_error 401"

definition forbidden :: "string \<Rightarrow> string \<Rightarrow> response" where
  "forbidden = simple_error 403"

definition not_found :: "string \<Rightarrow> response" where
  "not_found what = simple_error 404 ''not_found'' (what @ '' not found'')"

definition conflict :: "string \<Rightarrow> string \<Rightarrow> response" where
  "conflict = simple_error 409"

definition payload_too_large :: "string \<Rightarrow> response" where
  "payload_too_large code = simple_error 413 code []"

definition unsupported_media_type :: "string \<Rightarrow> string \<Rightarrow> response" where
  "unsupported_media_type = simple_error 415"

definition unprocessable :: "string \<Rightarrow> string \<Rightarrow> response" where
  "unprocessable = simple_error 422"

definition too_many_requests :: "int \<Rightarrow> response" where
  "too_many_requests retry_after_sec =
     make \<lparr>err_status = 429, err_code = ''rate_limited'', err_message = [],
           err_extra = JObject [(''retry_after_sec'', JInt retry_after_sec)]\<rparr>"

definition internal_error :: "string \<Rightarrow> string \<Rightarrow> response" where
  "internal_error = simple_error 500"

definition service_unavailable :: "string \<Rightarrow> string \<Rightarrow> response" where
  "service_unavailable = simple_error 503"

definition ok :: "json_value \<Rightarrow> response" where
  "ok b = new_response\<lparr>body := Document b, content_type := json_type, status := 200\<rparr>"

definition created :: "json_value \<Rightarrow> response" where
  "created b = (ok b)\<lparr>status := 201\<rparr>"

definition paginated :: "json_value \<Rightarrow> int \<Rightarrow> int \<Rightarrow> int \<Rightarrow> response" where
  "paginated data n max_items off =
     ok (json_object [(''data'', data), (''total'', JInt n), (''limit'', JInt max_items), (''offset'', JInt off)])"

definition list_response :: "json_value \<Rightarrow> response" where
  "list_response data = ok (json_object [(''data'', data)])"

section \<open>Validation\<close>

record field_error =
  fe_field :: string
  fe_code :: string
  fe_message :: string

type_synonym errors = "field_error list"

definition add_error :: "errors \<Rightarrow> string \<Rightarrow> string \<Rightarrow> string \<Rightarrow> errors" where
  "add_error errs f code message = errs @ [\<lparr>fe_field = f, fe_code = code, fe_message = message\<rparr>]"

definition any_error :: "errors \<Rightarrow> bool" where
  "any_error errs \<longleftrightarrow> errs \<noteq> []"

definition errors_json :: "errors \<Rightarrow> json_value" where
  "errors_json errs = JArray (map (\<lambda>e. json_object
     [(''field'', JString (fe_field e)), (''code'', JString (fe_code e)), (''message'', JString (fe_message e))]) errs)"

text \<open>A field that is present and not null.\<close>

definition field_value :: "json_value \<Rightarrow> string \<Rightarrow> json_value option" where
  "field_value b f = (case json_at b f of None \<Rightarrow> None | Some v \<Rightarrow> if v = JNull then None else Some v)"

definition require_field :: "errors \<Rightarrow> json_value \<Rightarrow> string \<Rightarrow> bool \<times> errors" where
  "require_field errs b f =
     (if field_value b f = None then (False, add_error errs f ''missing'' ''required'') else (True, errs))"

definition string_length :: "errors \<Rightarrow> json_value \<Rightarrow> string \<Rightarrow> nat \<Rightarrow> nat \<Rightarrow> errors" where
  "string_length errs b f min_len max_len =
     (case field_value b f of
        None \<Rightarrow> errs
      | Some v \<Rightarrow>
          (case as_string v of
             None \<Rightarrow> add_error errs f ''not_string'' ''must be a string''
           | Some s \<Rightarrow>
               if length s < min_len then add_error errs f ''too_short'' (''min length '' @ nat_to_string min_len)
               else if length s > max_len then add_error errs f ''too_long'' (''max length '' @ nat_to_string max_len)
               else errs))"

text \<open>\<open>std::regex_match\<close> is the predicate of the strings that match as a whole.\<close>

definition regex_match :: "errors \<Rightarrow> json_value \<Rightarrow> string \<Rightarrow> (string \<Rightarrow> bool) \<Rightarrow> string \<Rightarrow> errors" where
  "regex_match errs b f re format_hint =
     (case field_value b f of
        None \<Rightarrow> errs
      | Some v \<Rightarrow>
          (case as_string v of
             None \<Rightarrow> add_error errs f ''not_string'' ''must be a string''
           | Some s \<Rightarrow> if \<not> re s then add_error errs f ''bad_format'' (''expected format: '' @ format_hint) else errs))"

text \<open>\<open>get<long long>\<close>: an unsigned number of 64 bits wraps.\<close>

definition to_int64 :: "int \<Rightarrow> int" where
  "to_int64 n = (n + 2 ^ 63) mod 2 ^ 64 - 2 ^ 63"

fun integer_value :: "json_value \<Rightarrow> int option" where
  "integer_value (JInt n) = Some (to_int64 n)"
| "integer_value _ = None"

definition int_range :: "errors \<Rightarrow> json_value \<Rightarrow> string \<Rightarrow> int \<Rightarrow> int \<Rightarrow> errors" where
  "int_range errs b f min_val max_val =
     (case field_value b f of
        None \<Rightarrow> errs
      | Some x \<Rightarrow>
          (case integer_value x of
             None \<Rightarrow> add_error errs f ''not_integer'' ''must be an integer''
           | Some v \<Rightarrow>
               if v < min_val then add_error errs f ''below_min'' (''min '' @ int_to_string min_val)
               else if v > max_val then add_error errs f ''above_max'' (''max '' @ int_to_string max_val)
               else errs))"

definition one_of :: "errors \<Rightarrow> json_value \<Rightarrow> string \<Rightarrow> string list \<Rightarrow> errors" where
  "one_of errs b f allowed =
     (case field_value b f of
        None \<Rightarrow> errs
      | Some v \<Rightarrow>
          (case as_string v of
             None \<Rightarrow> add_error errs f ''not_string'' ''must be a string''
           | Some s \<Rightarrow>
               if s \<in> set allowed then errs
               else add_error errs f ''not_allowed''
                 (''must be one of:'' @ concat (map (\<lambda>a. '' '' @ [CHR 0x27] @ a @ [CHR 0x27]) allowed))))"

definition opt_string :: "json_value \<Rightarrow> string \<Rightarrow> string option" where
  "opt_string b f = Option.bind (json_at b f) as_string"

text \<open>The two fixed patterns.  A dot, an at sign or a hyphen that ends a part is not in the class of the
  part that follows, so the positions where a match can split are determined.\<close>

definition is_alpha :: "char \<Rightarrow> bool" where
  "is_alpha c \<longleftrightarrow> is_lower_char c \<or> is_upper_char c"

definition local_char :: "char \<Rightarrow> bool" where
  "local_char c \<longleftrightarrow> is_alpha c \<or> is_digit_char c \<or> c \<in> {CHR ''.'', CHR ''_'', CHR ''%'', CHR ''+'', CHR ''-''}"

definition domain_char :: "char \<Rightarrow> bool" where
  "domain_char c \<longleftrightarrow> is_alpha c \<or> is_digit_char c \<or> c \<in> {CHR ''.'', CHR ''-''}"

definition email_pattern :: "string \<Rightarrow> bool" where
  "email_pattern s \<longleftrightarrow>
     (let user = takeWhile (\<lambda>c. c \<noteq> CHR ''@'') s; rest = dropWhile (\<lambda>c. c \<noteq> CHR ''@'') s;
          rdomain = rev (drop 1 rest);
          tld = takeWhile (\<lambda>c. c \<noteq> CHR ''.'') rdomain; rhost = dropWhile (\<lambda>c. c \<noteq> CHR ''.'') rdomain
      in user \<noteq> [] \<and> list_all local_char user \<and> rest \<noteq> [] \<and> rhost \<noteq> [] \<and> drop 1 rhost \<noteq> [] \<and>
         list_all domain_char (drop 1 rhost) \<and> 2 \<le> length tld \<and> list_all is_alpha tld)"

fun hex_groups :: "nat list \<Rightarrow> string \<Rightarrow> bool" where
  "hex_groups [] s = False"
| "hex_groups [n] s = (length s = n \<and> list_all is_xdigit s)"
| "hex_groups (n # ns) s =
     (n < length s \<and> list_all is_xdigit (take n s) \<and> s ! n = CHR ''-'' \<and> hex_groups ns (drop (n + 1) s))"

definition email :: "errors \<Rightarrow> json_value \<Rightarrow> string \<Rightarrow> errors" where
  "email errs b f = regex_match errs b f email_pattern ''email''"

definition uuid :: "errors \<Rightarrow> json_value \<Rightarrow> string \<Rightarrow> errors" where
  "uuid errs b f = regex_match errs b f (hex_groups [8, 4, 4, 4, 12]) ''uuid''"

definition response_400 :: "errors \<Rightarrow> response" where
  "response_400 errs = bad_request ''validation_failed'' [] (JObject [(''errors'', errors_json errs)])"

text \<open>\<open>parse_body\<close> with the parser as a parameter: the document, or the response sent in its place.\<close>

definition parse_body :: "(string \<Rightarrow> json_value option) \<Rightarrow> string \<Rightarrow> response + json_value" where
  "parse_body json_parse raw =
     (case json_parse raw of
        Some v \<Rightarrow> Inr v
      | None \<Rightarrow> Inl (bad_request ''invalid_json'' ''Invalid JSON body'' (JObject [])))"

section \<open>Normalized paths\<close>

definition segs_ok :: "string list \<Rightarrow> bool" where
  "segs_ok ss \<longleftrightarrow> list_all (\<lambda>s. s \<noteq> [] \<and> CHR ''/'' \<notin> set s) ss"

lemma segs_ok_simps [simp]: "segs_ok []" "segs_ok (s # ss) \<longleftrightarrow> s \<noteq> [] \<and> CHR ''/'' \<notin> set s \<and> segs_ok ss"
  by (auto simp: segs_ok_def)

lemma segments_ok: "segs_ok (segments p)"
proof (induction p rule: segments.induct)
  case (1 p)
  let ?s = "dropWhile (\<lambda>c. c = CHR ''/'') p"
  show ?case
  proof (cases "?s = []")
    case False
    have "hd ?s \<noteq> CHR ''/''" using False hd_dropWhile by blast
    then have "takeWhile (\<lambda>c. c \<noteq> CHR ''/'') ?s \<noteq> []" using False by (cases ?s) auto
    moreover have "CHR ''/'' \<notin> set (takeWhile (\<lambda>c. c \<noteq> CHR ''/'') ?s)" by (auto dest: set_takeWhileD)
    ultimately show ?thesis
      using "1.IH" [OF refl False] False by (simp add: segments.simps [of p] Let_def)
  qed (simp add: segments.simps [of p])
qed

definition join_segments :: "string list \<Rightarrow> string" where
  "join_segments ss = concat (map ((#) CHR ''/'') ss)"

lemma segments_join: "segs_ok ss \<Longrightarrow> segments (join_segments ss) = ss"
proof (induction ss)
  case (Cons s ss)
  let ?rest = "join_segments ss"
  have rest: "?rest = [] \<or> hd ?rest = CHR ''/''" by (cases ss) (simp_all add: join_segments_def)
  have join: "join_segments (s # ss) = CHR ''/'' # s @ ?rest" by (simp add: join_segments_def)
  have "dropWhile (\<lambda>c. c = CHR ''/'') (CHR ''/'' # s @ ?rest) = s @ ?rest"
    using Cons.prems by (cases s) auto
  moreover have "takeWhile (\<lambda>c. c \<noteq> CHR ''/'') (s @ ?rest) = s"
    using Cons.prems rest by (subst takeWhile_append2) (auto, cases ?rest, auto)
  moreover have "dropWhile (\<lambda>c. c \<noteq> CHR ''/'') (s @ ?rest) = ?rest"
    using Cons.prems rest by (subst dropWhile_append2) (auto, cases ?rest, auto)
  ultimately show ?case
    using Cons unfolding join by (simp add: segments.simps [of "CHR ''/'' # s @ ?rest"] Let_def)
qed (simp add: segments.simps join_segments_def)

definition rewrite_all :: "string list \<Rightarrow> string list" where
  "rewrite_all segs = map (rewritten segs) [0..<length segs]"

lemma length_rewrite_all [simp]: "length (rewrite_all segs) = length segs"
  by (simp add: rewrite_all_def)

lemma rewrite_all_Nil_iff [simp]: "rewrite_all segs = [] \<longleftrightarrow> segs = []"
  by (simp add: rewrite_all_def)

lemma nth_rewrite_all [simp]: "k < length segs \<Longrightarrow> rewrite_all segs ! k = rewritten segs k"
  by (simp add: rewrite_all_def)

lemma uuid_head: "is_uuid_segment s \<Longrightarrow> is_xdigit (s ! 0)"
  by (auto simp: is_uuid_segment_def list_all_iff)

lemma not_id_shaped [simp]: "\<not> id_shaped '':token''" "\<not> id_shaped '':id''"
  by (simp_all add: id_shaped_def is_uuid_segment_def is_digit_char_def)

lemma version_not_id_shaped:
  assumes "is_version_seg s"
  shows "\<not> id_shaped s"
proof -
  have "s ! 0 = CHR ''v''" "s \<noteq> []" using assms by (auto simp: is_version_seg_def)
  then have "\<not> list_all is_digit_char s" by (cases s) (auto simp: is_digit_char_def)
  moreover have "\<not> is_uuid_segment s" using uuid_head [of s] \<open>s ! 0 = CHR ''v''\<close> by (auto simp: is_xdigit_def)
  ultimately show ?thesis by (simp add: id_shaped_def)
qed

lemma base_index_bounds: "base_index segs = 1 \<or> base_index segs = 2"
  by (simp add: base_index_def)

lemma rewritten_keeps: "k \<noteq> base_index segs + 2 \<Longrightarrow> \<not> id_shaped (segs ! k) \<Longrightarrow> rewritten segs k = segs ! k"
  by (simp add: rewritten_def)

lemma rewritten_eq_word:
  assumes "k \<noteq> base_index segs + 2" "\<not> id_shaped w" "w \<noteq> '':id''"
  shows "rewritten segs k = w \<longleftrightarrow> segs ! k = w"
  using assms by (auto simp: rewritten_def)

lemma base_index_rewrite: "base_index (rewrite_all segs) = base_index segs"
proof (cases "length segs \<ge> 2")
  case True
  have "is_version_seg (rewritten segs 1) \<longleftrightarrow> is_version_seg (segs ! 1)"
    using base_index_bounds [of segs] version_not_id_shaped [of "segs ! 1"]
    by (auto simp: rewritten_def is_version_seg_def [of "'':id''"])
  then show ?thesis using True by (simp add: base_index_def)
qed (simp add: base_index_def)

lemma route_words [simp]:
  "\<not> id_shaped ''api''" "\<not> id_shaped ''account''" "\<not> id_shaped ''confirm''" "\<not> id_shaped ''reset-password''"
  "\<not> id_shaped ''change-email''" "\<not> id_shaped ''join-from-invite''"
  by (simp_all add: id_shaped_def is_uuid_segment_def is_digit_char_def)

lemma account_token_route_rewrite: "account_token_route (rewrite_all segs) = account_token_route segs"
proof (cases "length segs = base_index segs + 3")
  case True
  then show ?thesis
    by (simp add: account_token_route_def base_index_rewrite Let_def rewritten_eq_word)
qed (simp add: account_token_route_def base_index_rewrite Let_def)

lemma not_id_shaped_rewritten: "\<not> id_shaped (rewritten segs k)"
  by (simp add: rewritten_def)

lemma rewrite_all_idem: "rewrite_all (rewrite_all segs) = rewrite_all segs"
proof (rule nth_equalityI)
  fix k assume "k < length (rewrite_all (rewrite_all segs))"
  then have k: "k < length segs" by simp
  then show "rewrite_all (rewrite_all segs) ! k = rewrite_all segs ! k"
    by (simp add: rewritten_def [of "rewrite_all segs"] account_token_route_rewrite base_index_rewrite
        not_id_shaped_rewritten)
      (simp add: rewritten_def)
qed simp

lemma segs_ok_rewrite: "segs_ok segs \<Longrightarrow> segs_ok (rewrite_all segs)"
  by (auto simp: segs_ok_def list_all_length rewritten_def)

lemma normalize_alt:
  "normalize_path_for_metrics p =
     (if segments p = [] then ''/'' else join_segments (rewrite_all (segments p)))"
  by (auto simp: normalize_path_for_metrics_def join_segments_def rewrite_all_def Let_def comp_def)

lemma segments_normalize: "segments (normalize_path_for_metrics p) = rewrite_all (segments p)"
proof (cases "segments p = []")
  case True
  then show ?thesis by (simp add: normalize_alt segments.simps [of "''/''"] rewrite_all_def)
next
  case False
  then show ?thesis using segs_ok_rewrite [OF segments_ok] by (simp add: normalize_alt segments_join)
qed

text \<open>C38. A normalized path names a route and nothing else: normalizing it again changes nothing, no segment
  that looks like an id is left in it, and on the account routes it does not depend on the token.\<close>

theorem normalized_path_redacted:
  "normalize_path_for_metrics (normalize_path_for_metrics p) = normalize_path_for_metrics p \<and>
   \<not> list_ex id_shaped (segments (normalize_path_for_metrics p)) \<and>
   (account_token_route (segments p) \<and> segments q = butlast (segments p) @ [token] \<longrightarrow>
     normalize_path_for_metrics q = normalize_path_for_metrics p)"
proof (intro conjI impI)
  let ?n = normalize_path_for_metrics and ?s = "segments p"
  have "?n (?n p) = (if rewrite_all ?s = [] then ''/'' else join_segments (rewrite_all (rewrite_all ?s)))"
    by (simp only: normalize_alt [of "?n p"] segments_normalize)
  also have "\<dots> = ?n p" by (simp add: rewrite_all_idem normalize_alt [of p])
  finally show "?n (?n p) = ?n p" .
  show "\<not> list_ex id_shaped (segments (?n p))"
    by (auto simp: segments_normalize list_ex_iff in_set_conv_nth not_id_shaped_rewritten)
  assume q: "account_token_route ?s \<and> segments q = butlast ?s @ [token]"
  let ?t = "segments q"
  have len: "length ?s = base_index ?s + 3" using q by (simp add: account_token_route_def Let_def)
  have same: "length ?t = length ?s" "\<And>k. k < base_index ?s + 2 \<Longrightarrow> ?t ! k = ?s ! k"
    using q len by (simp_all add: nth_append nth_butlast)
  have base: "base_index ?t = base_index ?s"
    using same(2) [of 1] same(1) by (simp add: base_index_def)
  have route: "account_token_route ?t"
    using conjunct1 [OF q] same(1) same(2) [of 0] same(2) [of "base_index ?s"] same(2) [of "base_index ?s + 1"]
    unfolding account_token_route_def Let_def base by simp
  have "rewritten ?t k = rewritten ?s k" if "k < length ?s" for k
    using that len same(2) [of k] route q base by (cases "k = base_index ?s + 2") (simp_all add: rewritten_def)
  then have "rewrite_all ?t = rewrite_all ?s" by (intro nth_equalityI) (simp_all add: same(1))
  then show "?n q = ?n p" using len same(1) by (auto simp: normalize_alt)
qed

lemma clamp_int_bounds: "lo \<le> hi \<Longrightarrow> lo \<le> clamp_int s def lo hi \<and> clamp_int s def lo hi \<le> hi"
  by (simp add: clamp_int_def Let_def)

section \<open>Patterns\<close>

lemma hex_groups_uuid: "hex_groups [8, 4, 4, 4, 12] s \<longleftrightarrow> is_uuid_segment s"
proof (cases "length s = 36")
  case True
  have "[0..<36] = [0..<8] @ 8 # [9..<13] @ 13 # [14..<18] @ 18 # [19..<23] @ 23 # [24..<36]"
    by (simp add: upt_rec)
  moreover have "list_all is_xdigit (take n (drop k s)) \<longleftrightarrow> list_all (\<lambda>i. is_xdigit (s ! i)) [k..<k + n]"
    if "k + n \<le> 36" for k n
    using that True by (auto simp: list_all_length)
  from this [of 0 8] this [of 9 4] this [of 14 4] this [of 19 4] this [of 24 12] calculation
  show ?thesis using True by (auto simp: is_uuid_segment_def list_all_iff)
qed (auto simp: is_uuid_segment_def)

lemma validated_uuid: "uuid errs b f = regex_match errs b f is_uuid_segment ''uuid''"
  by (simp add: uuid_def hex_groups_uuid [abs_def])

text \<open>The e-mail pattern, read off the regular expression.\<close>

lemma email_pattern_iff:
  "email_pattern s \<longleftrightarrow> (\<exists>user host tld. s = user @ CHR ''@'' # host @ CHR ''.'' # tld \<and> user \<noteq> [] \<and> list_all local_char user \<and>
     host \<noteq> [] \<and> list_all domain_char host \<and> 2 \<le> length tld \<and> list_all is_alpha tld)"
proof
  assume m: "email_pattern s"
  define user where "user = takeWhile (\<lambda>c. c \<noteq> CHR ''@'') s"
  define rest where "rest = dropWhile (\<lambda>c. c \<noteq> CHR ''@'') s"
  define tld where "tld = takeWhile (\<lambda>c. c \<noteq> CHR ''.'') (rev (drop 1 rest))"
  define rhost where "rhost = dropWhile (\<lambda>c. c \<noteq> CHR ''.'') (rev (drop 1 rest))"
  have parts: "user \<noteq> []" "list_all local_char user" "rest \<noteq> []" "rhost \<noteq> []" "drop 1 rhost \<noteq> []"
      "list_all domain_char (drop 1 rhost)" "2 \<le> length tld" "list_all is_alpha tld"
    using m by (simp_all add: email_pattern_def Let_def user_def rest_def tld_def rhost_def)
  have "hd rest = CHR ''@''" "hd rhost = CHR ''.''" using parts(3,4) hd_dropWhile unfolding rest_def rhost_def by blast+
  then have "rest = CHR ''@'' # drop 1 rest" "rhost = CHR ''.'' # drop 1 rhost" using parts(3,4) by (cases rest, auto, cases rhost, auto)
  moreover have "s = user @ rest" "rev (drop 1 rest) = tld @ rhost"
    by (simp_all add: user_def rest_def tld_def rhost_def)
  moreover from calculation(4) have "drop 1 rest = rev rhost @ rev tld" by (metis rev_append rev_rev_ident)
  ultimately have "s = user @ CHR ''@'' # rev (drop 1 rhost) @ CHR ''.'' # rev tld"
    by (metis append.assoc append_Cons append_Nil rev.simps(2))
  then show "\<exists>user host tld. s = user @ CHR ''@'' # host @ CHR ''.'' # tld \<and> user \<noteq> [] \<and> list_all local_char user \<and>
     host \<noteq> [] \<and> list_all domain_char host \<and> 2 \<le> length tld \<and> list_all is_alpha tld"
    using parts by (intro exI [of _ user] exI [of _ "rev (drop 1 rhost)"] exI [of _ "rev tld"]) (simp add: list.pred_set)
next
  assume "\<exists>user host tld. s = user @ CHR ''@'' # host @ CHR ''.'' # tld \<and> user \<noteq> [] \<and> list_all local_char user \<and>
     host \<noteq> [] \<and> list_all domain_char host \<and> 2 \<le> length tld \<and> list_all is_alpha tld"
  then obtain user host tld where s: "s = user @ CHR ''@'' # host @ CHR ''.'' # tld" "user \<noteq> []" "list_all local_char user"
     "host \<noteq> []" "list_all domain_char host" "2 \<le> length tld" "list_all is_alpha tld" by blast
  have no: "CHR ''@'' \<notin> set user" "CHR ''.'' \<notin> set tld"
    using s(3,7) by (auto simp: list_all_iff local_char_def is_alpha_def byte_defs)
  have "takeWhile (\<lambda>c. c \<noteq> CHR ''@'') s = user" "dropWhile (\<lambda>c. c \<noteq> CHR ''@'') s = CHR ''@'' # host @ CHR ''.'' # tld"
    using no(1) unfolding s(1) by (subst takeWhile_append2; auto; fail | subst dropWhile_append2; auto; fail)+
  moreover have "takeWhile (\<lambda>c. c \<noteq> CHR ''.'') (rev tld @ CHR ''.'' # rev host) = rev tld"
      "dropWhile (\<lambda>c. c \<noteq> CHR ''.'') (rev tld @ CHR ''.'' # rev host) = CHR ''.'' # rev host"
    using no(2) by (subst takeWhile_append2; auto; fail | subst dropWhile_append2; auto; fail)+
  ultimately show "email_pattern s" using s(2-) by (simp add: email_pattern_def Let_def list.pred_set)
qed

section \<open>Validated bodies\<close>

text \<open>A schema: what handlers demand of one field, as the validators they call on it.\<close>

datatype demand =
    Required
  | Length nat nat
  | Pattern "string \<Rightarrow> bool" string
  | Range int int
  | OneOf "string list"

fun apply_demand :: "json_value \<Rightarrow> string \<times> demand \<Rightarrow> errors \<Rightarrow> errors" where
  "apply_demand b (f, Required) errs = snd (require_field errs b f)"
| "apply_demand b (f, Length lo hi) errs = string_length errs b f lo hi"
| "apply_demand b (f, Pattern re hint) errs = regex_match errs b f re hint"
| "apply_demand b (f, Range lo hi) errs = int_range errs b f lo hi"
| "apply_demand b (f, OneOf allowed) errs = one_of errs b f allowed"

definition validate :: "(string \<times> demand) list \<Rightarrow> json_value \<Rightarrow> errors" where
  "validate schema b = fold (apply_demand b) schema []"

text \<open>The type that a demand gives to a field that is present.\<close>

fun has_type :: "demand \<Rightarrow> json_value \<Rightarrow> bool" where
  "has_type Required v = True"
| "has_type (Length lo hi) v = (case v of JString s \<Rightarrow> lo \<le> length s \<and> length s \<le> hi | _ \<Rightarrow> False)"
| "has_type (Pattern re hint) v = (case v of JString s \<Rightarrow> re s | _ \<Rightarrow> False)"
| "has_type (Range lo hi) v = (case v of JInt n \<Rightarrow> lo \<le> to_int64 n \<and> to_int64 n \<le> hi | _ \<Rightarrow> False)"
| "has_type (OneOf allowed) v = (case v of JString s \<Rightarrow> s \<in> set allowed | _ \<Rightarrow> False)"

definition well_typed :: "(string \<times> demand) list \<Rightarrow> json_value \<Rightarrow> bool" where
  "well_typed schema b \<longleftrightarrow> list_all (\<lambda>(f, d). case field_value b f of None \<Rightarrow> d \<noteq> Required | Some v \<Rightarrow> has_type d v) schema"

lemma apply_demand_cases:
  "apply_demand b (f, d) errs =
     (if (case field_value b f of None \<Rightarrow> d \<noteq> Required | Some v \<Rightarrow> has_type d v) then errs
      else errs @ apply_demand b (f, d) [])"
  by (cases d)
    (auto simp: require_field_def string_length_def regex_match_def int_range_def one_of_def add_error_def
      split: option.split json_value.split)

lemma apply_demand_complains:
  "\<not> (case field_value b f of None \<Rightarrow> d \<noteq> Required | Some v \<Rightarrow> has_type d v) \<Longrightarrow> apply_demand b (f, d) [] \<noteq> []"
proof (cases "field_value b f")
  case (Some v)
  then show "\<not> (case field_value b f of None \<Rightarrow> d \<noteq> Required | Some v \<Rightarrow> has_type d v) \<Longrightarrow> ?thesis"
    by (cases d; cases v)
      (auto simp: require_field_def string_length_def regex_match_def int_range_def one_of_def add_error_def)
qed (auto simp: require_field_def add_error_def)

lemma fold_demands: "fold (apply_demand b) schema errs = [] \<longleftrightarrow> errs = [] \<and> well_typed schema b"
proof (induction schema arbitrary: errs)
  case (Cons fd schema)
  obtain f d where d: "fd = (f, d)" by fastforce
  show ?case
    using apply_demand_cases [where b = b and f = f and d = d and errs = errs]
      apply_demand_complains [where b = b and f = f and d = d] Cons.IH
    by (auto simp: d well_typed_def simp del: apply_demand.simps)
qed (simp add: well_typed_def)


text \<open>A number above the range of \<open>long long\<close> is checked after it has wrapped.\<close>

lemma int_range_wraps: "int_range [] (JObject [(''n'', JInt (2 ^ 64 - 1))]) ''n'' (- 10) 10 = []"
  by (simp add: int_range_def field_value_def to_int64_def)

section \<open>Witness\<close>

theorem normalized_path_redacted_witness:
  "normalize_path_for_metrics ''/api/v1/account/confirm/xyz'' = normalize_path_for_metrics ''/api/v1/account/confirm/abc''"
proof -
  have "account_token_route (segments ''/api/v1/account/confirm/abc'') \<and>
      segments ''/api/v1/account/confirm/xyz'' = butlast (segments ''/api/v1/account/confirm/abc'') @ [''xyz'']"
    by code_simp
  then show ?thesis using normalized_path_redacted by blast
qed

end
