(* ===== verification/Tracing.thy ===== *)
theory Tracing
  imports Utils Json
begin

text \<open>
  \<open>src/src/observability/Trace.hpp\<close>, W3C trace contexts; the conversions of \<open>src/src/api/Middleware.hpp\<close>
  that hand them to OpenTelemetry; and the two log flags of \<open>src/src/observability/Observability.hpp\<close>, the
  trace id of a log line and the message as the contents of a JSON string.
\<close>

section \<open>Trace contexts\<close>

record trace_context =
  trace_id :: string
  parent_id :: string
  trace_flags :: string

definition is_hex_lower :: "char \<Rightarrow> bool" where
  [byte_defs]: "is_hex_lower c \<longleftrightarrow> (48 \<le> byte c \<and> byte c \<le> 57) \<or> (97 \<le> byte c \<and> byte c \<le> 102)"

definition is_hex_string :: "string \<Rightarrow> nat \<Rightarrow> bool" where
  "is_hex_string s expected_len \<longleftrightarrow> (if length s \<noteq> expected_len then False else list_all is_hex_lower s)"

definition is_all_zero_hex :: "string \<Rightarrow> bool" where
  "is_all_zero_hex s \<longleftrightarrow> (if list_ex (\<lambda>c. c \<noteq> CHR ''0'') s then False else s \<noteq> [])"

definition to_hex :: "string \<Rightarrow> string" where
  "to_hex bytes = concat (map (\<lambda>b. [hex_digits ! (byte b div 16), hex_digits ! (byte b mod 16)]) bytes)"

text \<open>\<open>random_hex\<close> takes the bytes of 64-bit draws, least significant first; \<open>rng k\<close> is the \<open>k\<close>-th draw.
  The second component counts the draws.\<close>

definition low_bytes :: "nat \<Rightarrow> string" where
  "low_bytes v = map (\<lambda>j. char_of (v div 256 ^ j mod 256)) [0..<8]"

fun random_bytes :: "(nat \<Rightarrow> nat) \<Rightarrow> nat \<Rightarrow> nat \<Rightarrow> string \<times> nat" where
  "random_bytes rng k byte_count =
     (if byte_count = 0 then ([], k)
      else if byte_count \<le> 8 then (take byte_count (low_bytes (rng k)), k + 1)
      else let (bs, k') = random_bytes rng (k + 1) (byte_count - 8) in (low_bytes (rng k) @ bs, k'))"

declare random_bytes.simps [simp del]

definition random_id :: "(nat \<Rightarrow> nat) \<Rightarrow> nat \<Rightarrow> nat \<Rightarrow> string \<times> nat" where
  "random_id rng k byte_count = map_prod to_hex id (random_bytes rng k byte_count)"

text \<open>The loop of \<open>parse_traceparent\<close> over the parts between dashes, which gives up at a fifth one.\<close>

function traceparent_parts :: "string list \<Rightarrow> string \<Rightarrow> string list option" where
  "traceparent_parts parts s =
     (let part = takeWhile (\<lambda>c. c \<noteq> CHR ''-'') s; rest = dropWhile (\<lambda>c. c \<noteq> CHR ''-'') s in
      if length parts \<ge> 4 then None
      else if rest = [] then Some (parts @ [part])
      else traceparent_parts (parts @ [part]) (tl rest))"
  by pat_completeness auto
termination
proof (relation "measure (\<lambda>(parts, s). length s)")
  fix parts :: "string list" and s part rest :: string
  assume "rest = dropWhile (\<lambda>c. c \<noteq> CHR ''-'') s" "rest \<noteq> []"
  then have "length rest \<le> length s" "length (tl rest) < length rest" by (simp_all add: length_dropWhile_le)
  then show "((parts @ [part], tl rest), (parts, s)) \<in> measure (\<lambda>(parts, s). length s)" by simp
qed simp

declare traceparent_parts.simps [simp del]

definition parse_traceparent :: "string \<Rightarrow> trace_context option" where
  "parse_traceparent header =
     (case traceparent_parts [] (map ascii_lower_byte header) of
        None \<Rightarrow> None
      | Some parts \<Rightarrow>
          if length parts \<noteq> 4 then None
          else if parts ! 0 \<noteq> ''00'' then None
          else if \<not> is_hex_string (parts ! 1) 32 then None
          else if \<not> is_hex_string (parts ! 2) 16 then None
          else if \<not> is_hex_string (parts ! 3) 2 then None
          else if is_all_zero_hex (parts ! 1) \<or> is_all_zero_hex (parts ! 2) then None
          else Some \<lparr>trace_id = parts ! 1, parent_id = parts ! 2, trace_flags = parts ! 3\<rparr>)"

definition format_traceparent :: "trace_context \<Rightarrow> string" where
  "format_traceparent ctx = ''00-'' @ trace_id ctx @ ''-'' @ parent_id ctx @ ''-'' @ trace_flags ctx"

definition generate_context :: "(nat \<Rightarrow> nat) \<Rightarrow> nat \<Rightarrow> trace_context \<times> nat" where
  "generate_context rng k =
     (let (tid, k1) = random_id rng k 16; (pid, k2) = random_id rng k1 8
      in (\<lparr>trace_id = tid, parent_id = pid, trace_flags = ''01''\<rparr>, k2))"

definition extract_or_generate :: "(nat \<Rightarrow> nat) \<Rightarrow> nat \<Rightarrow> string \<Rightarrow> trace_context \<times> nat" where
  "extract_or_generate rng k header =
     (case (if header \<noteq> [] then parse_traceparent header else None) of
        Some ctx \<Rightarrow> (ctx, k)
      | None \<Rightarrow> generate_context rng k)"

text \<open>The ambient context of a thread.\<close>

definition set_current_traceparent :: "trace_context \<Rightarrow> string \<Rightarrow> string" where
  "set_current_traceparent ctx current = format_traceparent ctx"

definition clear_current_traceparent :: "string \<Rightarrow> string" where
  "clear_current_traceparent current = []"

section \<open>Identifiers for OpenTelemetry\<close>

definition nibble :: "char \<Rightarrow> int" where
  "nibble c =
     (if 48 \<le> byte c \<and> byte c \<le> 57 then int (byte c) - 48
      else if 97 \<le> byte c \<and> byte c \<le> 102 then int (byte c) - 97 + 10
      else if 65 \<le> byte c \<and> byte c \<le> 70 then int (byte c) - 65 + 10
      else - 1)"

fun hex_loop :: "string \<Rightarrow> string \<Rightarrow> string option" where
  "hex_loop out (h # l # rest) =
     (if nibble h < 0 \<or> nibble l < 0 then None
      else hex_loop (out @ [char_of (nat (nibble h * 16 + nibble l))]) rest)"
| "hex_loop out _ = Some out"

definition hex_to_bytes :: "string \<Rightarrow> nat \<Rightarrow> string option" where
  "hex_to_bytes hex n = (if length hex \<noteq> n * 2 then None else hex_loop [] hex)"

text \<open>The remote span context: the bytes of the two ids and the flags.\<close>

definition to_remote_span_context :: "trace_context \<Rightarrow> (string \<times> string \<times> string) option" where
  "to_remote_span_context t =
     (case (hex_to_bytes (trace_id t) 16, hex_to_bytes (parent_id t) 8, hex_to_bytes (trace_flags t) 1) of
        (Some tid, Some sid, Some fl) \<Rightarrow> Some (tid, sid, fl)
      | _ \<Rightarrow> None)"

section \<open>Log flags\<close>

text \<open>The second field of the ambient traceparent.\<close>

definition trace_id_flag :: "string \<Rightarrow> string" where
  "trace_id_flag tp =
     (case find_char CHR ''-'' tp of
        None \<Rightarrow> []
      | Some i \<Rightarrow>
          (case find_char CHR ''-'' (drop (i + 1) tp) of
             None \<Rightarrow> []
           | Some n \<Rightarrow> substr tp (i + 1) n))"

definition log_escape_char :: "char \<Rightarrow> string" where
  "log_escape_char c =
     (if c = CHR 0x22 then [CHR 0x5C, CHR 0x22]
      else if c = CHR 0x5C then [CHR 0x5C, CHR 0x5C]
      else if c = CHR 0x0A then [CHR 0x5C, CHR ''n'']
      else if c = CHR 0x0D then [CHR 0x5C, CHR ''r'']
      else if c = CHR 0x09 then [CHR 0x5C, CHR ''t'']
      else if c = CHR 0x08 then [CHR 0x5C, CHR ''b'']
      else if c = CHR 0x0C then [CHR 0x5C, CHR ''f'']
      else if byte c < 0x20 then [CHR 0x5C] @ ''u00'' @ [hex_digits ! (byte c div 16), hex_digits ! (byte c mod 16)]
      else [c])"

definition json_escaped_message :: "string \<Rightarrow> string" where
  "json_escaped_message payload = concat (map log_escape_char payload)"

section \<open>Trace contexts are read back\<close>

definition context_ok :: "trace_context \<Rightarrow> bool" where
  "context_ok ctx \<longleftrightarrow> is_hex_string (trace_id ctx) 32 \<and> is_hex_string (parent_id ctx) 16 \<and>
     is_hex_string (trace_flags ctx) 2 \<and> \<not> is_all_zero_hex (trace_id ctx) \<and> \<not> is_all_zero_hex (parent_id ctx)"

lemma is_hex_string_no_dash: "is_hex_string s n \<Longrightarrow> CHR ''-'' \<notin> set s"
  by (auto simp: is_hex_string_def list_all_iff byte_defs split: if_splits)

lemma parts_step:
  assumes "CHR ''-'' \<notin> set p" "length parts < 4"
  shows "traceparent_parts parts (p @ CHR ''-'' # s) = traceparent_parts (parts @ [p]) s"
    "traceparent_parts parts p = Some (parts @ [p])"
proof -
  have p: "c \<noteq> CHR ''-''" if "c \<in> set p" for c using assms(1) that by auto
  then have "takeWhile (\<lambda>c. c \<noteq> CHR ''-'') (p @ CHR ''-'' # s) = p"
    "dropWhile (\<lambda>c. c \<noteq> CHR ''-'') (p @ CHR ''-'' # s) = CHR ''-'' # s"
    "takeWhile (\<lambda>c. c \<noteq> CHR ''-'') p = p" "dropWhile (\<lambda>c. c \<noteq> CHR ''-'') p = []"
    by (simp_all add: takeWhile_append dropWhile_append cong: if_cong)
  then show "traceparent_parts parts (p @ CHR ''-'' # s) = traceparent_parts (parts @ [p]) s"
    "traceparent_parts parts p = Some (parts @ [p])"
    using assms(2) by (simp_all add: traceparent_parts.simps [of parts "p @ CHR ''-'' # s"] traceparent_parts.simps [of parts p])
qed

lemma traceparent_parts_join: "traceparent_parts parts s = Some ps \<Longrightarrow> \<exists>qs. ps = parts @ qs \<and> qs \<noteq> [] \<and> join_char CHR ''-'' qs = s"
proof (induction parts s rule: traceparent_parts.induct)
  case (1 parts s)
  let ?p = "takeWhile (\<lambda>c. c \<noteq> CHR ''-'') s" and ?r = "dropWhile (\<lambda>c. c \<noteq> CHR ''-'') s"
  have s: "s = ?p @ ?r" by simp
  have len: "\<not> 4 \<le> length parts" using "1.prems" by (auto simp: traceparent_parts.simps [of parts s] Let_def)
  show ?case
  proof (cases "?r = []")
    case True
    then show ?thesis using "1.prems" s len by (intro exI [of _ "[?p]"]) (simp add: traceparent_parts.simps [of parts s] Let_def)
  next
    case False
    then have "traceparent_parts (parts @ [?p]) (tl ?r) = Some ps"
      using "1.prems" len by (simp add: traceparent_parts.simps [of parts s] Let_def del: dropWhile_eq_Nil_conv)
    then obtain qs where qs: "ps = (parts @ [?p]) @ qs" "qs \<noteq> []" "join_char CHR ''-'' qs = tl ?r"
      using "1.IH" [OF refl refl len False] by blast
    have "?r = CHR ''-'' # tl ?r" using False hd_dropWhile [of "\<lambda>c. c \<noteq> CHR ''-''" s] by (cases ?r) auto
    then show ?thesis using qs s by (intro exI [of _ "?p # qs"]) (simp add: join_char_Cons)
  qed
qed

lemma format_join: "format_traceparent ctx = join_char CHR ''-'' [''00'', trace_id ctx, parent_id ctx, trace_flags ctx]"
  by (simp add: format_traceparent_def)

lemma lower_hex [simp]: "is_hex_lower c \<Longrightarrow> ascii_lower_byte c = c"
  by (auto simp: is_hex_lower_def ascii_lower_byte_def byte_defs)

lemma lower_hex_string: "is_hex_string s n \<Longrightarrow> map ascii_lower_byte s = s"
  by (auto simp: is_hex_string_def list_all_iff map_idI split: if_splits)

lemma parse_traceparent_SomeD:
  assumes parsed: "parse_traceparent header = Some ctx"
  shows "context_ok ctx \<and> map ascii_lower_byte header = format_traceparent ctx"
proof -
  obtain parts where parts: "traceparent_parts [] (map ascii_lower_byte header) = Some parts" "length parts = 4"
      "parts ! 0 = ''00''" "ctx = \<lparr>trace_id = parts ! 1, parent_id = parts ! 2, trace_flags = parts ! 3\<rparr>"
    using parsed by (auto simp: parse_traceparent_def split: option.splits if_splits)
  have "parts = [parts ! 0, parts ! 1, parts ! 2, parts ! 3]"
    using parts(2) by (auto intro!: nth_equalityI simp: less_Suc_eq numeral_eq_Suc)
  then have "map ascii_lower_byte header = format_traceparent ctx"
    using traceparent_parts_join [OF parts(1)] parts(3,4) by (auto simp: format_join)
  then show ?thesis
    using parsed parts(1,4) by (simp add: parse_traceparent_def context_ok_def split: if_splits)
qed

text \<open>A well-formed context is read back from its own format.\<close>

lemma format_lower: "context_ok ctx \<Longrightarrow> map ascii_lower_byte (format_traceparent ctx) = format_traceparent ctx"
  by (auto simp: format_traceparent_def context_ok_def lower_hex_string ascii_lower_byte_def byte_defs)

lemma parse_format:
  assumes ok: "context_ok ctx"
  shows "parse_traceparent (format_traceparent ctx) = Some ctx"
proof -
  have dash: "CHR ''-'' \<notin> set (trace_id ctx)" "CHR ''-'' \<notin> set (parent_id ctx)" "CHR ''-'' \<notin> set (trace_flags ctx)"
    using ok is_hex_string_no_dash by (auto simp: context_ok_def)
  have "traceparent_parts [] (format_traceparent ctx) = Some [''00'', trace_id ctx, parent_id ctx, trace_flags ctx]"
    using parts_step(1) [of "''00''" "[]"] parts_step(1) [OF dash(1), of "[''00'']"] parts_step(1) [OF dash(2), of "[''00'', trace_id ctx]"]
      parts_step(2) [OF dash(3), of "[''00'', trace_id ctx, parent_id ctx]"]
    by (simp add: format_traceparent_def)
  then show ?thesis
    using ok by (simp add: parse_traceparent_def format_lower context_ok_def)
qed

lemma parse_lower: "parse_traceparent (map ascii_lower_byte header) = parse_traceparent header"
proof -
  have "ascii_lower_byte \<circ> ascii_lower_byte = ascii_lower_byte"
    by (rule ext) (simp add: ascii_lower_byte_def byte_defs)
  then show ?thesis by (simp add: parse_traceparent_def)
qed

interpretation traceparent: strict_codec format_traceparent parse_traceparent context_ok "map ascii_lower_byte"
  by unfold_locales (simp_all add: parse_format parse_traceparent_SomeD parse_lower)

lemmas parse_traceparent_accepts = traceparent.dec_iff

text \<open>C34. The header parser accepts exactly the formatted contexts, in any case: it returns a context if and
  only if the lower-cased header is the format of that context and the context is well-formed.\<close>

theorem parse_traceparent_iff:
  "parse_traceparent header = Some ctx \<longleftrightarrow> map ascii_lower_byte header = format_traceparent ctx \<and> context_ok ctx"
  using traceparent.dec_iff by blast

text \<open>Hexadecimal is read back, so every accepted context becomes a remote span context.\<close>

lemma hex_digit_nibble: "n < 16 \<Longrightarrow> nibble (hex_digits ! n) = int n"
  by (auto simp: hex_digits_def nibble_def less_Suc_eq numeral_eq_Suc)

lemma byte_hex_digit: "n < 16 \<Longrightarrow> byte (hex_digits ! n) = (if n < 10 then 48 + n else 87 + n)"
  by (auto simp: hex_digits_def less_Suc_eq numeral_eq_Suc)

lemma nibble_hex_digit:
  assumes "is_hex_lower c"
  shows "0 \<le> nibble c" "nat (nibble c) < 16" "hex_digits ! nat (nibble c) = c"
proof -
  show "0 \<le> nibble c" and less: "nat (nibble c) < 16" using assms by (auto simp: nibble_def is_hex_lower_def)
  have "byte (hex_digits ! nat (nibble c)) = byte c"
    using byte_hex_digit [OF less] assms by (auto simp: nibble_def is_hex_lower_def nat_diff_distrib)
  then show "hex_digits ! nat (nibble c) = c" using byte_eq_iff by blast
qed

lemma hex_loop_to_hex: "hex_loop out (to_hex bs) = Some (out @ bs)"
proof (induction bs arbitrary: out)
  case (Cons b bs)
  have "byte b div 16 < 16" "byte b mod 16 < 16" using byte_less_256 [of b] by (simp_all add: less_mult_imp_div_less)
  then have "nibble (hex_digits ! (byte b div 16)) = int (byte b div 16)" "nibble (hex_digits ! (byte b mod 16)) = int (byte b mod 16)"
    using hex_digit_nibble by blast+
  moreover have "int (byte b div 16) * 16 + int (byte b mod 16) = int (byte b)"
    by (metis div_mult_mod_eq of_nat_add of_nat_mult of_nat_numeral)
  ultimately show ?case using Cons by (simp add: to_hex_def)
qed (simp add: to_hex_def)


lemma hex_string_to_hex:
  assumes "list_all is_hex_lower s" "length s = n * 2"
  shows "\<exists>bs. s = to_hex bs \<and> length bs = n"
  using assms
proof (induction n arbitrary: s)
  case 0
  then show ?case by (simp add: to_hex_def)
next
  case (Suc n)
  then obtain h l t where s: "s = h # l # t" by (cases s; cases "tl s") auto
  then obtain bs where bs: "t = to_hex bs" "length bs = n" using Suc by auto
  have hl: "is_hex_lower h" "is_hex_lower l" using Suc.prems(1) s by auto
  let ?b = "char_of (nat (nibble h) * 16 + nat (nibble l))"
  have "nat (nibble h) * 16 + nat (nibble l) < 256" using nibble_hex_digit(2) [OF hl(1)] nibble_hex_digit(2) [OF hl(2)] by simp
  then have "byte ?b = nat (nibble h) * 16 + nat (nibble l)" by simp
  then have "to_hex (?b # bs) = h # l # t"
    using nibble_hex_digit [OF hl(1)] nibble_hex_digit [OF hl(2)] bs(1) by (simp add: to_hex_def)
  then show ?case using bs(2) s by (intro exI [of _ "?b # bs"]) simp
qed

lemma hex_to_bytes_string:
  assumes "is_hex_string s (n * 2)"
  shows "\<exists>bs. hex_to_bytes s n = Some bs \<and> to_hex bs = s"
proof -
  have s: "list_all is_hex_lower s" "length s = n * 2" using assms by (auto simp: is_hex_string_def split: if_splits)
  then obtain bs where "s = to_hex bs" using hex_string_to_hex by blast
  then show ?thesis using hex_loop_to_hex [of "[]" bs] s(2) by (auto simp: hex_to_bytes_def)
qed

text \<open>A request joins its caller's trace: every header that the parser accepts becomes a remote span
  context whose bytes, in hexadecimal, are the ids and flags of the header; and the trace id that the log
  prints for the context is the one in the header.\<close>

theorem accepted_traceparent_joins:
  assumes "parse_traceparent header = Some ctx"
  shows "(case to_remote_span_context ctx of
      None \<Rightarrow> False
    | Some (tid, sid, fl) \<Rightarrow> format_traceparent \<lparr>trace_id = to_hex tid, parent_id = to_hex sid, trace_flags = to_hex fl\<rparr> =
        map ascii_lower_byte header) \<and>
    trace_id_flag (format_traceparent ctx) = substr (map ascii_lower_byte header) 3 32"
proof -
  have ok: "context_ok ctx" and header: "map ascii_lower_byte header = format_traceparent ctx"
    using assms by (simp_all add: parse_traceparent_accepts)
  have lens: "length (trace_id ctx) = 32" and dash: "CHR ''-'' \<notin> set (trace_id ctx)"
    using ok is_hex_string_no_dash by (auto simp: context_ok_def is_hex_string_def split: if_splits)
  obtain tid sid fl where ids: "hex_to_bytes (trace_id ctx) 16 = Some tid" "to_hex tid = trace_id ctx"
    "hex_to_bytes (parent_id ctx) 8 = Some sid" "to_hex sid = parent_id ctx"
    "hex_to_bytes (trace_flags ctx) 1 = Some fl" "to_hex fl = trace_flags ctx"
    using ok hex_to_bytes_string [of "trace_id ctx" 16] hex_to_bytes_string [of "parent_id ctx" 8]
      hex_to_bytes_string [of "trace_flags ctx" 1]
    by (auto simp: context_ok_def)
  have format: "format_traceparent ctx = CHR ''0'' # CHR ''0'' # CHR ''-'' # trace_id ctx @ CHR ''-'' #
      parent_id ctx @ CHR ''-'' # trace_flags ctx" by (simp add: format_traceparent_def)
  have "find_char CHR ''-'' (format_traceparent ctx) = Some 2"
    using find_char_append [of "CHR ''-''" "''00''" "trace_id ctx @ CHR ''-'' # parent_id ctx @ CHR ''-'' # trace_flags ctx"]
    by (simp add: format)
  then have "trace_id_flag (format_traceparent ctx) = trace_id ctx"
    using find_char_append [OF dash] lens by (simp add: trace_id_flag_def format substr_def numeral_3_eq_3)
  moreover have "substr (format_traceparent ctx) 3 32 = trace_id ctx"
    using lens by (simp add: format substr_def numeral_3_eq_3)
  moreover have "\<lparr>trace_id = to_hex tid, parent_id = to_hex sid, trace_flags = to_hex fl\<rparr> = ctx"
    using ids by simp
  ultimately show ?thesis using ids header by (simp add: to_remote_span_context_def format_traceparent_def)
qed

lemma trace_id_flag_format:
  assumes "context_ok ctx"
  shows "trace_id_flag (format_traceparent ctx) = trace_id ctx"
proof -
  have lens: "length (trace_id ctx) = 32" and dash: "CHR ''-'' \<notin> set (trace_id ctx)"
    using assms is_hex_string_no_dash by (auto simp: context_ok_def is_hex_string_def split: if_splits)
  have "substr (map ascii_lower_byte (format_traceparent ctx)) 3 32 = trace_id ctx"
    using assms lens parse_format [OF assms]
    by (simp add: parse_traceparent_accepts) (simp add: format_traceparent_def substr_def numeral_3_eq_3)
  then show ?thesis using accepted_traceparent_joins [OF parse_format [OF assms]] by simp
qed

text \<open>Generated contexts are well-formed unless the draws happen to be zero.\<close>

lemma is_hex_lower_digit: "n < 16 \<Longrightarrow> is_hex_lower (hex_digits ! n)"
  using byte_hex_digit [of n] by (simp add: is_hex_lower_def)

lemma is_hex_string_to_hex: "length bs * 2 = n \<Longrightarrow> is_hex_string (to_hex bs) n"
proof (induction bs arbitrary: n)
  case (Cons b bs)
  have "byte b div 16 < 16" "byte b mod 16 < 16" using byte_less_256 [of b] by (simp_all add: less_mult_imp_div_less)
  then show ?case using Cons.IH [OF refl] Cons.prems is_hex_lower_digit
    by (auto simp: to_hex_def is_hex_string_def split: if_splits)
qed (simp add: to_hex_def is_hex_string_def)

lemma random_bytes_nonempty: "0 < n \<Longrightarrow> \<exists>bs. fst (random_bytes rng k n) = char_of (rng k mod 256) # bs \<and> length bs + 1 = n"
proof (induction rng k n rule: random_bytes.induct)
  case (1 rng k n)
  have low: "low_bytes (rng k) = char_of (rng k mod 256) # map (\<lambda>j. char_of (rng k div 256 ^ j mod 256)) [1..<8]"
    by (simp add: low_bytes_def upt_conv_Cons)
  show ?case
  proof (cases "n \<le> 8")
    case True
    then have "fst (random_bytes rng k n) = take n (low_bytes (rng k))"
      using "1.prems" by (simp add: random_bytes.simps [of rng k n])
    then show ?thesis using True "1.prems" by (cases n) (simp_all add: low)
  next
    case False
    then show ?thesis
      using "1.IH" by (auto simp: random_bytes.simps [of rng k n] low split: prod.split)
  qed
qed

lemma not_zero_hex: "byte c \<noteq> 0 \<Longrightarrow> \<not> is_all_zero_hex (to_hex (c # bs))"
proof -
  assume c: "byte c \<noteq> 0"
  have digits: "byte c div 16 < 16" "byte c mod 16 < 16" using byte_less_256 [of c] by (simp_all add: less_mult_imp_div_less)
  have "byte c div 16 \<noteq> 0 \<or> byte c mod 16 \<noteq> 0" using c by presburger
  then have "byte (hex_digits ! (byte c div 16)) \<noteq> 48 \<or> byte (hex_digits ! (byte c mod 16)) \<noteq> 48"
    using byte_hex_digit [OF digits(1)] byte_hex_digit [OF digits(2)] by (auto split: if_splits)
  then have "hex_digits ! (byte c div 16) \<noteq> CHR ''0'' \<or> hex_digits ! (byte c mod 16) \<noteq> CHR ''0''" by auto
  then show ?thesis by (auto simp: is_all_zero_hex_def to_hex_def)
qed

lemma generated_context_ok:
  assumes "\<And>i. rng i mod 256 \<noteq> 0"
  shows "context_ok (fst (generate_context rng k))"
proof -
  have flags: "is_hex_string ''01'' 2" by (simp add: is_hex_string_def is_hex_lower_def)
  have "is_hex_string (fst (random_id rng j n)) (n * 2) \<and> \<not> is_all_zero_hex (fst (random_id rng j n))" if pos: "0 < n" for j n
  proof -
    obtain bs where bs: "fst (random_bytes rng j n) = char_of (rng j mod 256) # bs" "length bs + 1 = n"
      using random_bytes_nonempty [OF pos] by blast
    have "byte (char_of (rng j mod 256)) \<noteq> 0" using assms by simp
    then show ?thesis
      using bs not_zero_hex is_hex_string_to_hex [of "char_of (rng j mod 256) # bs" "n * 2"] by (simp add: random_id_def)
  qed
  from this [of 16] this [of 8] flags show ?thesis
    by (simp add: generate_context_def context_ok_def case_prod_beta)
qed

text \<open>The log message is the body of a JSON string.\<close>

lemma log_escape_char: "log_escape_char c = (case escape_byte c of Some e \<Rightarrow> e | None \<Rightarrow> [c])"
proof -
  have "hex_digits ! n = hex_char n" if "n < 16" for n
    using byte_hex_digit [OF that] hex_char_byte [OF that] byte_eq_iff by metis
  then show ?thesis
    by (simp add: log_escape_char_def escape_byte_def short_escape_def less_mult_imp_div_less)
qed

lemma decode_json_escaped: "decode_body (json_escaped_message m) = m"
proof (induction m)
  case (Cons c m)
  show ?case
  proof (cases "escape_byte c")
    case None
    then have "c \<noteq> CHR 0x5C" using escape_byte_NoneD by blast
    then show ?thesis using None Cons by (simp add: json_escaped_message_def log_escape_char)
  next
    case (Some e)
    then show ?thesis using Cons decode_escape [OF Some, of "json_escaped_message m"]
      by (simp add: json_escaped_message_def log_escape_char)
  qed
qed (simp add: json_escaped_message_def)

lemma skip_json_escaped:
  "skip_string_loop (pre @ json_escaped_message m @ CHR 0x22 # post) (length pre) =
     Some (length pre + length (json_escaped_message m) + 1)"
proof (induction m arbitrary: pre)
  case Nil
  then show ?case by (subst skip_string_loop.simps) (simp add: json_escaped_message_def Let_def nth_append)
next
  case (Cons c m)
  let ?r = "json_escaped_message m @ CHR 0x22 # post"
  have m: "json_escaped_message (c # m) = log_escape_char c @ json_escaped_message m" by (simp add: json_escaped_message_def)
  have "skip_string_loop (pre @ log_escape_char c @ ?r) (length pre) =
      skip_string_loop ((pre @ log_escape_char c) @ ?r) (length (pre @ log_escape_char c))"
  proof (cases "escape_byte c")
    case None
    then have "c \<noteq> CHR 0x22" "c \<noteq> CHR 0x5C" "0x20 \<le> byte c" using escape_byte_NoneD by blast+
    then show ?thesis using skip_string_plain [of c pre ?r] None by (simp add: log_escape_char)
  next
    case (Some e)
    then show ?thesis using skip_escape [OF Some, of pre ?r] by (simp add: log_escape_char)
  qed
  then show ?case using Cons.IH [of "pre @ log_escape_char c"] m by simp
qed

text \<open>C35. A log message cannot break out of its field: whatever bytes the payload holds, the JSON string of
  a log line ends at the quote that the pattern writes after the message, and its value is the payload.\<close>

theorem log_message_contained:
  "skip_string (line @ CHR 0x22 # json_escaped_message m @ CHR 0x22 # rest) (length line) =
     Some (length line + length (json_escaped_message m) + 2) \<and>
   decode_string (CHR 0x22 # json_escaped_message m @ [CHR 0x22]) = m"
  using skip_json_escaped [of "line @ [CHR 0x22]" m rest]
  by (simp add: skip_string_def decode_string_def substr_def decode_json_escaped)

section \<open>Witnesses\<close>

definition demo_context :: trace_context where
  "demo_context = \<lparr>trace_id = replicate 31 CHR ''0'' @ ''a'', parent_id = replicate 16 CHR ''b'', trace_flags = ''01''\<rparr>"

theorem accepted_traceparent_joins_witness:
  "trace_id_flag (format_traceparent demo_context) = trace_id demo_context \<and> to_remote_span_context demo_context \<noteq> None"
proof -
  have parsed: "parse_traceparent (format_traceparent demo_context) = Some demo_context" by code_simp
  have "substr (map ascii_lower_byte (format_traceparent demo_context)) 3 32 = trace_id demo_context" by code_simp
  then show ?thesis using accepted_traceparent_joins [OF parsed] by (auto split: option.splits)
qed

end
