(* ===== verification/Advice.thy ===== *)
theory Advice
  imports Requests Tracing
begin

text \<open>
  \<open>src/src/api/Middleware.hpp\<close>: the advices around every handler, one definition each: the content type
  check, CORS, the security headers, tracing before the handler and the access log after it.  Drogon, the
  OpenTelemetry tracer, the clock and the random engine are parameters.
\<close>

section \<open>Requests and headers\<close>

datatype http_method = Get | Post | Put | Patch | Delete | Head | Options

fun method_string :: "http_method \<Rightarrow> string" where
  "method_string Get = ''GET''"
| "method_string Post = ''POST''"
| "method_string Put = ''PUT''"
| "method_string Patch = ''PATCH''"
| "method_string Delete = ''DELETE''"
| "method_string Head = ''HEAD''"
| "method_string Options = ''OPTIONS''"

text \<open>Header names are compared in lower case, and an absent header reads as the empty string.\<close>

record request =
  method_of :: http_method
  raw_path :: string
  req_headers :: "string \<Rightarrow> string option"
  payload :: string

definition header_value :: "(string \<Rightarrow> string option) \<Rightarrow> string \<Rightarrow> string" where
  "header_value hs k = (case hs (map ascii_lower_byte k) of Some v \<Rightarrow> v | None \<Rightarrow> [])"

definition add_header :: "string \<Rightarrow> string \<Rightarrow> response \<Rightarrow> response" where
  "add_header k v r = r\<lparr>headers := (headers r)(map ascii_lower_byte k \<mapsto> v)\<rparr>"

lemma header_value_add [simp]:
  "header_value (headers (add_header k v r)) j =
     (if map ascii_lower_byte j = map ascii_lower_byte k then v else header_value (headers r) j)"
  by (simp add: header_value_def add_header_def)

section \<open>Content type\<close>

definition is_ct_blank :: "char \<Rightarrow> bool" where
  "is_ct_blank c \<longleftrightarrow> c = CHR '' '' \<or> c = CHR 0x09"

definition media_type :: "string \<Rightarrow> string" where
  "media_type ct =
     (let c = (case find_char CHR '';'' ct of None \<Rightarrow> ct | Some semi \<Rightarrow> take semi ct);
          t = rev (dropWhile is_ct_blank (rev c))
      in dropWhile is_ct_blank t)"

definition content_type_check :: "request \<Rightarrow> response option" where
  "content_type_check req =
     (if method_of req \<noteq> Post \<and> method_of req \<noteq> Put \<and> method_of req \<noteq> Patch then None
      else if payload req = [] then None
      else
        let ct = media_type (header_value (req_headers req) ''Content-Type'');
            is_json = (ct = ''application/json'' \<or> prefix ''application/'' ct \<and> suffix ''+json'' ct);
            is_multipart = prefix ''multipart/form-data'' ct
        in if is_json \<or> is_multipart then None
           else Some (unsupported_media_type ''unsupported_media_type''
                  ''Content-Type must be application/json or multipart/form-data''))"

section \<open>CORS\<close>

definition load_cors_origins :: "environ \<Rightarrow> global_config \<Rightarrow> std_exception + string list" where
  "load_cors_origins getenv g =
     (case g of
        None \<Rightarrow> Inr []
      | Some cfg \<Rightarrow>
          map_sum id (\<lambda>csv. if csv = [] then [] else split_csv_vec csv)
            (get_string getenv cfg ''cors.allowed_origins'' ''CORS_ALLOWED_ORIGINS'' []))"

definition allow_origin :: "string list \<Rightarrow> request \<Rightarrow> response \<Rightarrow> response" where
  "allow_origin cors_origins req resp =
     (let origin = header_value (req_headers req) ''Origin'' in
      if origin \<noteq> [] \<and> origin \<in> set cors_origins
      then add_header ''Vary'' ''Origin'' (add_header ''Access-Control-Allow-Origin'' origin resp)
      else resp)"

definition cors_preflight :: "string list \<Rightarrow> request \<Rightarrow> response option" where
  "cors_preflight cors_origins req =
     (if method_of req \<noteq> Options then None
      else Some
        (add_header ''Access-Control-Max-Age'' ''600''
        (add_header ''Access-Control-Allow-Headers'' ''Content-Type, Authorization''
        (add_header ''Access-Control-Allow-Methods'' ''GET, POST, PUT, DELETE, OPTIONS''
        (allow_origin cors_origins req (new_response\<lparr>status := 204\<rparr>))))))"

text \<open>\<open>register_cors\<close>: the two advices, none when no origin is configured.\<close>

definition register_cors ::
  "string list \<Rightarrow> (request \<Rightarrow> response option) list \<times> (request \<Rightarrow> response \<Rightarrow> response) list" where
  "register_cors cors_origins =
     (if cors_origins = [] then ([], []) else ([cors_preflight cors_origins], [allow_origin cors_origins]))"

section \<open>Security headers\<close>

definition read_hsts :: "environ \<Rightarrow> global_config \<Rightarrow> std_exception + bool \<times> int" where
  "read_hsts getenv g =
     (case g of
        None \<Rightarrow> Inr (False, 31536000)
      | Some cfg \<Rightarrow>
          (case (get_bool getenv cfg ''security.hsts'' ''SECURITY_HSTS'' False,
                 get_int getenv cfg ''security.hsts_max_age'' ''SECURITY_HSTS_MAX_AGE'' 31536000) of
             (Inl e, _) \<Rightarrow> Inl e
           | (Inr _, Inl e) \<Rightarrow> Inl e
           | (Inr b, Inr n) \<Rightarrow> Inr (b, n)))"

definition set_if_absent :: "string \<Rightarrow> string \<Rightarrow> response \<Rightarrow> response" where
  "set_if_absent k v resp = (if header_value (headers resp) k = [] then add_header k v resp else resp)"

definition security_headers :: "bool \<Rightarrow> int \<Rightarrow> request \<Rightarrow> response \<Rightarrow> response" where
  "security_headers hsts hsts_max_age req resp =
     (let r1 = set_if_absent ''X-Content-Type-Options'' ''nosniff'' resp;
          r2 = set_if_absent ''X-Frame-Options'' ''DENY'' r1;
          r3 = set_if_absent ''Referrer-Policy'' ''no-referrer'' r2;
          r4 = set_if_absent ''Content-Security-Policy''
                 (''default-src '' @ [CHR 0x27] @ ''none'' @ [CHR 0x27] @ ''; frame-ancestors '' @ [CHR 0x27] @ ''none'' @ [CHR 0x27]) r3
      in if hsts
         then set_if_absent ''Strict-Transport-Security''
                (''max-age='' @ int_to_string hsts_max_age @ ''; includeSubDomains'') r4
         else r4)"

section \<open>Tracing and the access log\<close>

text \<open>
  The attributes of a request, and what an I/O thread keeps: the ambient traceparent and the number of
  span contexts attached to it.  The tracer starts a server span under a name and an optional remote
  parent, and gives its ids in hexadecimal when the context of the span is valid.
\<close>

record attributes =
  req_start :: "nat option"
  norm_path :: "string option"
  trace_id_attr :: "string option"
  span_id_attr :: "string option"
  trace_flags_attr :: "string option"
  trace_span :: bool
  otel_token :: bool

definition no_attributes :: attributes where
  "no_attributes =
     \<lparr>req_start = None, norm_path = None, trace_id_attr = None, span_id_attr = None, trace_flags_attr = None,
      trace_span = False, otel_token = False\<rparr>"

record io_thread =
  ambient :: string
  attached :: nat

type_synonym tracer = "string \<Rightarrow> (string \<times> string \<times> string) option \<Rightarrow> (string \<times> string) option"

definition tracing_pre ::
  "(nat \<Rightarrow> nat) \<Rightarrow> nat \<Rightarrow> nat \<Rightarrow> tracer option \<Rightarrow> request \<Rightarrow> io_thread \<Rightarrow> attributes \<times> io_thread" where
  "tracing_pre rng k now otel req th =
     (let th0 = th\<lparr>ambient := clear_current_traceparent (ambient th)\<rparr>;
          parsed = parse_traceparent (header_value (req_headers req) ''traceparent'');
          tctx = (case parsed of Some c \<Rightarrow> c | None \<Rightarrow> fst (generate_context rng k));
          route = normalize_path_for_metrics (raw_path req);
          (tid, sid) =
            (case otel of
               None \<Rightarrow> (trace_id tctx, parent_id tctx)
             | Some start_span \<Rightarrow>
                 (case start_span (method_string (method_of req) @ '' '' @ route)
                         (Option.bind parsed to_remote_span_context) of
                    Some ids \<Rightarrow> ids
                  | None \<Rightarrow> (trace_id tctx, parent_id tctx)));
          th1 = (if otel \<noteq> None then th0\<lparr>attached := attached th0 + 1\<rparr> else th0)
      in (\<lparr>req_start = Some now, norm_path = Some route, trace_id_attr = Some tid, span_id_attr = Some sid,
           trace_flags_attr = Some (trace_flags tctx), trace_span = (otel \<noteq> None), otel_token = (otel \<noteq> None)\<rparr>,
          th1\<lparr>ambient := set_current_traceparent \<lparr>trace_id = tid, parent_id = sid, trace_flags = trace_flags tctx\<rparr>
                           (ambient th1)\<rparr>))"

text \<open>Milliseconds since the start of the request, zero when tracing never saw it.\<close>

definition measure_time :: "nat \<Rightarrow> attributes \<Rightarrow> nat" where
  "measure_time now attrs = (case req_start attrs of None \<Rightarrow> 0 | Some start \<Rightarrow> now - start)"

definition attribute :: "string option \<Rightarrow> string" where
  "attribute a = (case a of Some v \<Rightarrow> v | None \<Rightarrow> [])"

definition emit_trace_headers :: "attributes \<Rightarrow> response \<Rightarrow> string \<times> response" where
  "emit_trace_headers attrs resp =
     (let tid = attribute (trace_id_attr attrs) in
      if tid = [] then ([], resp)
      else (tid, add_header ''traceparent''
             (format_traceparent \<lparr>trace_id = tid, parent_id = attribute (span_id_attr attrs),
                trace_flags = attribute (trace_flags_attr attrs)\<rparr>)
             (add_header ''X-Request-Id'' tid resp)))"

definition kUnmatchedMetricPath :: string where
  "kUnmatchedMetricPath = ''<unmatched>''"

text \<open>What is added to the two metric families, when they exist.\<close>

datatype metric =
    RequestCount string string nat
  | RequestDuration string string nat

definition record_metrics :: "bool \<Rightarrow> bool \<Rightarrow> string \<Rightarrow> string \<Rightarrow> nat \<Rightarrow> nat \<Rightarrow> metric list" where
  "record_metrics requests_family duration_family m np st duration =
     (let p = (if st = 404 then kUnmatchedMetricPath else np) in
      (if requests_family then [RequestCount m p st] else []) @
      (if duration_family \<and> duration > 0 then [RequestDuration m p duration] else []))"

definition finish_span :: "attributes \<Rightarrow> io_thread \<Rightarrow> io_thread" where
  "finish_span attrs th =
     (let th0 = th\<lparr>ambient := clear_current_traceparent (ambient th)\<rparr>
      in if otel_token attrs then th0\<lparr>attached := attached th0 - 1\<rparr> else th0)"

text \<open>The status that the span ends with, if there is one.\<close>

definition span_status :: "attributes \<Rightarrow> nat \<Rightarrow> bool option" where
  "span_status attrs st = (if trace_span attrs then Some (st < 500) else None)"

record log_line =
  log_method :: string
  log_path :: string
  log_status :: nat
  log_trace_id :: string

definition access_log_post ::
  "bool \<Rightarrow> bool \<Rightarrow> nat \<Rightarrow> attributes \<Rightarrow> request \<Rightarrow> response \<Rightarrow> io_thread \<Rightarrow>
     response \<times> log_line \<times> metric list \<times> io_thread" where
  "access_log_post requests_family duration_family now attrs req resp th =
     (let duration = measure_time now attrs;
          m = method_string (method_of req);
          np = (case norm_path attrs of Some p \<Rightarrow> p | None \<Rightarrow> normalize_path_for_metrics (raw_path req));
          st = status resp;
          (tid, resp') = emit_trace_headers attrs resp
      in (resp', \<lparr>log_method = m, log_path = np, log_status = st, log_trace_id = tid\<rparr>,
          record_metrics requests_family duration_family m np st duration, finish_span attrs th))"

section \<open>API documentation\<close>

definition docs_path :: "environ \<Rightarrow> global_config \<Rightarrow> std_exception + string option" where
  "docs_path getenv g =
     (case g of
        None \<Rightarrow> Inr None
      | Some cfg \<Rightarrow>
          (case get_bool getenv cfg ''docs.enabled'' ''DOCS_ENABLED'' False of
             Inl e \<Rightarrow> Inl e
           | Inr enabled \<Rightarrow>
               if \<not> enabled then Inr None
               else map_sum id Some (get_string getenv cfg ''docs.openapi_path'' ''DOCS_OPENAPI_PATH'' ''docs/openapi.yaml'')))"

definition openapi_handler :: "(string \<Rightarrow> string option) \<Rightarrow> string \<Rightarrow> response" where
  "openapi_handler read_file yaml_path =
     (case read_file yaml_path of
        None \<Rightarrow> not_found ''openapi_spec''
      | Some s \<Rightarrow> new_response\<lparr>content_type := ''application/yaml; charset=utf-8'', body := Raw s\<rparr>)"

section \<open>What the advices guarantee\<close>

text \<open>Only an origin of the list is ever allowed, and always the one that asks.\<close>

lemma allow_origin_listed:
  "header_value (headers (allow_origin origins req resp)) ''Access-Control-Allow-Origin'' =
     (let origin = header_value (req_headers req) ''Origin'' in
      if origin \<noteq> [] \<and> origin \<in> set origins then origin
      else header_value (headers resp) ''Access-Control-Allow-Origin'')"
  by (simp add: allow_origin_def Let_def ascii_lower_byte_def byte_defs)

lemma set_if_absent_keeps:
  "header_value (headers resp) j \<noteq> [] \<Longrightarrow> header_value (headers (set_if_absent k v resp)) j = header_value (headers resp) j"
  by (auto simp: set_if_absent_def) (auto simp: header_value_def)

lemma security_headers_keep:
  "header_value (headers resp) j \<noteq> [] \<Longrightarrow>
     header_value (headers (security_headers hsts age req resp)) j = header_value (headers resp) j"
  by (simp add: security_headers_def Let_def set_if_absent_keeps)

lemma set_if_absent_sets: "v \<noteq> [] \<Longrightarrow> header_value (headers (set_if_absent k v resp)) k \<noteq> []"
  by (simp add: set_if_absent_def)

text \<open>The ids that a request is traced under.\<close>

definition tracer_ok :: "tracer \<Rightarrow> bool" where
  "tracer_ok start_span \<longleftrightarrow> (\<forall>name p t s. start_span name p = Some (t, s) \<longrightarrow>
     is_hex_string t 32 \<and> is_hex_string s 16 \<and> \<not> is_all_zero_hex t \<and> \<not> is_all_zero_hex s)"

definition traced_context :: "attributes \<Rightarrow> trace_context" where
  "traced_context attrs =
     \<lparr>trace_id = attribute (trace_id_attr attrs), parent_id = attribute (span_id_attr attrs),
      trace_flags = attribute (trace_flags_attr attrs)\<rparr>"

lemma tracing_pre_context:
  assumes "tracing_pre rng k now otel req th = (attrs, th')" "context_ok (fst (generate_context rng k))"
    "pred_option tracer_ok otel"
  shows "context_ok (traced_context attrs)" "ambient th' = format_traceparent (traced_context attrs)"
    "norm_path attrs = Some (normalize_path_for_metrics (raw_path req))"
    "attached th' = attached th + (if otel_token attrs then 1 else 0)"
    "otel = None \<Longrightarrow> parse_traceparent (header_value (req_headers req) ''traceparent'') = Some c \<Longrightarrow> traced_context attrs = c"
proof -
  let ?parsed = "parse_traceparent (header_value (req_headers req) ''traceparent'')"
  have "context_ok c" if "?parsed = Some c" for c using that by (simp add: parse_traceparent_accepts)
  then have "context_ok (case ?parsed of Some c \<Rightarrow> c | None \<Rightarrow> fst (generate_context rng k))"
    using assms(2) by (simp split: option.split)
  then show "context_ok (traced_context attrs)"
    using assms(1,3)
    by (auto simp: tracing_pre_def Let_def traced_context_def attribute_def context_ok_def tracer_ok_def
        split: option.splits prod.splits)
  show "ambient th' = format_traceparent (traced_context attrs)"
    "norm_path attrs = Some (normalize_path_for_metrics (raw_path req))"
    "attached th' = attached th + (if otel_token attrs then 1 else 0)"
    using assms(1)
    by (auto simp: tracing_pre_def Let_def traced_context_def attribute_def set_current_traceparent_def
        split: prod.splits)
  show "traced_context attrs = c" if "otel = None" "?parsed = Some c"
    using that assms(1) by (auto simp: tracing_pre_def Let_def traced_context_def attribute_def)
qed

lemma trace_headers_emitted:
  assumes "context_ok (traced_context attrs)" "emit_trace_headers attrs resp = (tid, resp')"
  shows "tid = trace_id (traced_context attrs)" "header_value (headers resp') ''X-Request-Id'' = tid"
    "header_value (headers resp') ''traceparent'' = format_traceparent (traced_context attrs)"
proof -
  have "attribute (trace_id_attr attrs) \<noteq> []"
    using assms(1) by (auto simp: context_ok_def traced_context_def is_hex_string_def split: if_splits)
  then show "tid = trace_id (traced_context attrs)" "header_value (headers resp') ''X-Request-Id'' = tid"
    "header_value (headers resp') ''traceparent'' = format_traceparent (traced_context attrs)"
    using assms(2) by (auto simp: emit_trace_headers_def Let_def traced_context_def ascii_lower_byte_def byte_defs)
qed

text \<open>C39. One trace id per request: the response carries a traceparent that can be parsed, with the id that is
  in X-Request-Id, in the access log line, and in every line that the handler logs; without a tracer it is
  the caller's id whenever the caller sent a valid one.  The path is logged in its normalized form only,
  and nothing of the request stays behind on the thread.\<close>

theorem request_traced:
  assumes "context_ok (fst (generate_context rng k))" "pred_option tracer_ok otel"
    and "tracing_pre rng k now otel req th = (attrs, th1)"
    and "access_log_post rf df later attrs req resp th1 = (resp', line, metrics, th2)"
  shows "\<exists>ctx. parse_traceparent (header_value (headers resp') ''traceparent'') = Some ctx \<and>
      header_value (headers resp') ''X-Request-Id'' = trace_id ctx \<and> log_trace_id line = trace_id ctx \<and>
      trace_id_flag (ambient th1) = trace_id ctx \<and>
      (otel = None \<and> parse_traceparent (header_value (req_headers req) ''traceparent'') = Some c \<longrightarrow> ctx = c) \<and>
      log_path line = normalize_path_for_metrics (raw_path req) \<and> ambient th2 = [] \<and> attached th2 = attached th"
proof -
  note pre = tracing_pre_context [OF assms(3,1,2)]
  obtain tid r where emitted: "emit_trace_headers attrs resp = (tid, r)" by fastforce
  note post = trace_headers_emitted [OF pre(1) emitted]
  have "resp' = r" "log_trace_id line = tid" "log_path line = normalize_path_for_metrics (raw_path req)"
      "th2 = finish_span attrs th1"
    using assms(4) pre(3) by (auto simp: access_log_post_def emitted Let_def)
  moreover have "ambient (finish_span attrs th1) = []" "attached (finish_span attrs th1) = attached th"
    using pre(4) by (auto simp: finish_span_def clear_current_traceparent_def Let_def)
  ultimately show ?thesis
    using post parse_format [OF pre(1)] trace_id_flag_format [OF pre(1)] pre(2,5)
    by (intro exI [of _ "traced_context attrs"]) auto
qed

section \<open>Witness\<close>

definition demo_request :: request where
  "demo_request =
     \<lparr>method_of = Post, raw_path = ''/api/v1/orders/17'',
      req_headers = [''traceparent'' \<mapsto> format_traceparent demo_context], payload = ''{}''\<rparr>"

lemma demo_generates: "context_ok (fst (generate_context (\<lambda>_. 255) 0))"
  by (rule generated_context_ok) simp

lemma demo_header: "parse_traceparent (header_value (req_headers demo_request) ''traceparent'') = Some demo_context"
proof -
  have "context_ok demo_context"
    by (simp add: context_ok_def demo_context_def is_hex_string_def is_hex_lower_def is_all_zero_hex_def numeral_eq_Suc)
  moreover have "header_value (req_headers demo_request) ''traceparent'' = format_traceparent demo_context"
    by (simp add: header_value_def demo_request_def ascii_lower_byte_def byte_defs)
  ultimately show ?thesis using parse_format by simp
qed

theorem request_traced_witness:
  "(case tracing_pre (\<lambda>_. 255) 0 7 None demo_request \<lparr>ambient = ''stale'', attached = 0\<rparr> of
      (attrs, th1) \<Rightarrow>
        (case access_log_post True True 9 attrs demo_request (ok JNull) th1 of
           (resp', line, metrics, th2) \<Rightarrow>
             log_trace_id line = trace_id demo_context \<and> log_path line = ''/api/v1/orders/:id'' \<and> ambient th2 = []))"
proof -
  let ?th = "\<lparr>ambient = ''stale'', attached = 0\<rparr>"
  obtain attrs th1 where pre: "tracing_pre (\<lambda>_. 255) 0 7 None demo_request ?th = (attrs, th1)" by fastforce
  obtain resp' line metrics th2 where
    post: "access_log_post True True 9 attrs demo_request (ok JNull) th1 = (resp', line, metrics, th2)"
    by (metis prod_cases4)
  have path: "normalize_path_for_metrics (raw_path demo_request) = ''/api/v1/orders/:id''" by code_simp
  show ?thesis
    using request_traced [OF demo_generates _ pre post, of demo_context] demo_header path by (auto simp: pre post)
qed

end
