(* ===== verification/Program.thy ===== *)
theory Program
  imports Lifecycle Migrations Advice
begin

text \<open>
  \<open>src/src/main.cpp\<close> with the registration of the controllers in \<open>src/src/api/Api.hpp\<close> and the endpoint
  registry of \<open>Endpoints.hpp\<close>: the command line, the one-shot modes, and the server.  What Drogon does
  between \<open>run()\<close> and \<open>quit()\<close> is a parameter.
\<close>

section \<open>Endpoints\<close>

record endpoint_info =
  ep_method :: string
  ep_path :: string
  ep_description :: string

definition get_endpoints :: "endpoint_info list" where
  "get_endpoints =
     [\<lparr>ep_method = ''GET'', ep_path = ''/'', ep_description = ''Endpoint discovery''\<rparr>,
      \<lparr>ep_method = ''GET'', ep_path = ''/healthz'', ep_description = ''Liveness probe''\<rparr>,
      \<lparr>ep_method = ''GET'', ep_path = ''/ready'', ep_description = ''Readiness probe''\<rparr>,
      \<lparr>ep_method = ''GET'', ep_path = ''/health'', ep_description = ''Detailed health check''\<rparr>]"

text \<open>\<open>std::left << std::setw(n)\<close>.\<close>

definition padded :: "nat \<Rightarrow> string \<Rightarrow> string" where
  "padded n s = s @ replicate (n - length s) CHR '' ''"

definition print_routes :: "string list" where
  "print_routes = map (\<lambda>ep. padded 7 (ep_method ep) @ padded 32 (ep_path ep) @ ep_description ep) get_endpoints"

section \<open>The command line\<close>

record cli_args =
  cli_mode :: string
  cli_config :: string

fun parse_args :: "cli_args \<Rightarrow> string list \<Rightarrow> cli_args" where
  "parse_args args [] = args"
| "parse_args args (a # as) =
     (if a = ''--help'' \<or> a = ''-h'' then args\<lparr>cli_mode := ''--help''\<rparr>
      else if a = ''--print-routes'' \<or> a = ''--dump-config'' \<or> a = ''--verify-migrations'' \<or> a = ''--run-migrations''
      then parse_args (args\<lparr>cli_mode := a\<rparr>) as
      else parse_args (args\<lparr>cli_config := a\<rparr>) as)"

definition parse_cli :: "environ \<Rightarrow> string list \<Rightarrow> cli_args" where
  "parse_cli env argv =
     (let args = parse_args \<lparr>cli_mode = [], cli_config = ''config/config.json''\<rparr> argv
      in case env ''CONFIG_FILE'' of None \<Rightarrow> args | Some f \<Rightarrow> args\<lparr>cli_config := f\<rparr>)"

section \<open>Settings of the server\<close>

text \<open>\<open>std::stol\<close> and the readings of \<open>AppConfig::get<long>\<close>.\<close>

definition stol :: "string \<Rightarrow> std_exception + int" where
  "stol s =
     (let t = dropWhile is_c_space s;
          negative = (t \<noteq> [] \<and> hd t = CHR ''-'');
          u = (if t \<noteq> [] \<and> (hd t = CHR ''-'' \<or> hd t = CHR ''+'') then tl t else t);
          digits = takeWhile is_digit_char u;
          v = (if negative then - int (digits_value digits) else int (digits_value digits))
      in if digits = [] then Inl (std_error ''stol'')
         else if v < - (2 ^ 63) \<or> 2 ^ 63 \<le> v then Inl (std_error ''stol'')
         else Inr v)"

fun as_long :: "json_value \<Rightarrow> int option" where
  "as_long (JInt n) = Some (to_int64 n)"
| "as_long (JReal x) = Some (to_int64 (if x < 0 then - \<lfloor>- x\<rfloor> else \<lfloor>x\<rfloor>))"
| "as_long (JBool b) = Some (if b then 1 else 0)"
| "as_long _ = None"

abbreviation "get_long \<equiv> get stol as_long"

record server_settings =
  srv_host :: string
  srv_port :: int
  srv_threads :: int
  srv_contention :: bool
  srv_max_body :: nat
  srv_pre_stop :: int
  srv_ssl :: "(string \<times> string) option"

text \<open>\<open>hc\<close> is \<open>std::thread::hardware_concurrency()\<close>.\<close>

definition thread_count :: "nat \<Rightarrow> int \<Rightarrow> int" where
  "thread_count hc n = (if n \<le> 0 then to_int32 (int (if hc > 0 then hc else 4)) else n)"

definition read_ssl :: "environ \<Rightarrow> app_config \<Rightarrow> bool \<Rightarrow> std_exception + (string \<times> string) option" where
  "read_ssl env cfg enable_ssl =
     (if \<not> enable_ssl then Inr None
      else
        ebind (get_string env cfg ''server.ssl.cert'' ''SSL_CERT_FILE'' []) (\<lambda>cert.
        ebind (get_string env cfg ''server.ssl.key'' ''SSL_KEY_FILE'' []) (\<lambda>key.
        Inr (if cert \<noteq> [] \<and> key \<noteq> [] then Some (cert, key) else None))))"

definition read_server_settings :: "nat \<Rightarrow> environ \<Rightarrow> app_config \<Rightarrow> std_exception + server_settings" where
  "read_server_settings hc env cfg =
     ebind (get_string env cfg ''server.host'' ''SERVER_HOST'' ''0.0.0.0'') (\<lambda>h.
     ebind (get_int env cfg ''server.port'' ''SERVER_PORT'' 8080) (\<lambda>port.
     ebind (get_int env cfg ''server.threads'' ''SERVER_THREADS'' 0) (\<lambda>configured.
     let io_threads = thread_count hc configured in
     ebind (get_int env cfg ''database.pool_size'' ''DB_POOL_SIZE'' 10) (\<lambda>db_pool.
     ebind (get_bool env cfg ''server.ssl.enabled'' ''SERVER_SSL_ENABLED'' False) (\<lambda>enable_ssl.
     ebind (get_long env cfg ''server.max_body_bytes'' ''SERVER_MAX_BODY_BYTES'' (10 * 1024 * 1024)) (\<lambda>max_body.
     ebind (get_int env cfg ''shutdown.pre_stop_delay_sec'' ''SHUTDOWN_PRE_STOP_DELAY_SEC'' 5) (\<lambda>pre_stop.
     ebind (read_ssl env cfg enable_ssl) (\<lambda>ssl.
     Inr \<lparr>srv_host = h, srv_port = port, srv_threads = io_threads, srv_contention = (db_pool < io_threads),
          srv_max_body = to_size_t max_body, srv_pre_stop = pre_stop, srv_ssl = ssl\<rparr>))))))))"

text \<open>\<open>Api::register_controllers\<close>: what the advices and the documentation handlers are registered with.\<close>

record controllers =
  ctl_cors :: "string list"
  ctl_hsts :: "bool \<times> int"
  ctl_docs :: "string option"

definition register_controllers :: "environ \<Rightarrow> global_config \<Rightarrow> std_exception + controllers" where
  "register_controllers env g =
     ebind (load_cors_origins env g) (\<lambda>origins.
     ebind (read_hsts env g) (\<lambda>hsts.
     ebind (docs_path env g) (\<lambda>docs.
     Inr \<lparr>ctl_cors = origins, ctl_hsts = hsts, ctl_docs = docs\<rparr>)))"

section \<open>The modes\<close>

record ('p, 'c, 'd, 's) cli_env =
  host :: "('p, 'c, 'd, 's) host_system"
  files :: file_system
  read_applied :: "('p, 'c, 's) world \<Rightarrow> int list option"
  create_logs :: "('s, unit) callable"
  serve :: "server_settings \<Rightarrow> controllers \<Rightarrow> ('s, unit) callable"
  cores :: nat

text \<open>What a mode reports, next to its exit code.\<close>

datatype report =
    Usage
  | Routes "string list"
  | Migrated
  | Dumped json_value
  | Pending "migration_file list"
  | Served
  | Fatal std_exception

type_synonym ('p, 'c, 's, 'a) program = "('p, 'c, 's) core_state \<Rightarrow> (thrown + 'a) \<times> ('p, 'c, 's) core_state"

text \<open>A step that only works on the modules, and one on the outside.\<close>

definition on_world :: "('p, 'c, 's, 'a) init \<Rightarrow> ('p, 'c, 's, 'a) program" where
  "on_world m st = (let (r, w) = m (snd st) in (r, (fst st, w)))"

definition on_outside :: "('s, 'a) callable \<Rightarrow> ('p, 'c, 's, 'a) init" where
  "on_outside m w = (let (r, s) = m (outside w) in (r, w\<lparr>outside := s\<rparr>))"

definition run_migrate_only :: "('p, 'c, 'd, 's) cli_env \<Rightarrow> string \<Rightarrow> ('p, 'c, 's, int \<times> report) program" where
  "run_migrate_only E cfg_file =
     and_then (core_initialize (host E) cfg_file MigrateOnly) (\<lambda>_ st.
     (Inr (0, Migrated), core_shutdown (host E) st))"

definition run_dump_config :: "('p, 'c, 'd, 's) cli_env \<Rightarrow> string \<Rightarrow> ('p, 'c, 's, int \<times> report) program" where
  "run_dump_config E cfg_file =
     on_world
       (and_then (init_config (host E) cfg_file) (\<lambda>_.
        and_then (\<lambda>w. of_result (get_config (config w)) w) (\<lambda>cfg.
        and_then (modify (\<lambda>w. w\<lparr>config := shutdown_config (config w)\<rparr>)) (\<lambda>_.
        yields (0, Dumped (config_data cfg))))))"

definition run_verify_migrations :: "('p, 'c, 'd, 's) cli_env \<Rightarrow> string \<Rightarrow> ('p, 'c, 's, int \<times> report) program" where
  "run_verify_migrations E cfg_file =
     (let h = host E; env = getenv h in
      on_world
       (and_then (init_config h cfg_file) (\<lambda>_.
        and_then (\<lambda>w. of_result (get_config (config w)) w) (\<lambda>cfg.
        and_then (of_result (get_string env cfg ''database.primary'' ''DATABASE_PRIMARY_URL'' ''postgresql://localhost:5432/app'')) (\<lambda>primary.
        and_then (of_result (get_int env cfg ''database.pool_size'' ''DB_POOL_SIZE'' 10)) (\<lambda>n.
        and_then (of_result (get_int env cfg ''database.acquire_timeout_ms'' ''DB_ACQUIRE_TIMEOUT_MS'' 5000)) (\<lambda>acquire_ms.
        and_then (initialize_database h primary [] n acquire_ms 0) (\<lambda>_.
        and_then (of_result (get_string env cfg ''database.migrations_dir'' ''DB_MIGRATIONS_DIR'' ''migrations'')) (\<lambda>dir.
        and_then (\<lambda>w. of_result (list_pending (files E) dir (read_applied E w)) w) (\<lambda>ms.
        and_then (modify (\<lambda>w. let (s, g) = Database.shutdown_global (close_pool h) (database w) (outside w)
                                in w\<lparr>database := g, outside := s\<rparr>)) (\<lambda>_.
        and_then (modify (\<lambda>w. w\<lparr>config := shutdown_config (config w)\<rparr>)) (\<lambda>_.
        yields (if ms = [] then 0 else 1, Pending ms)))))))))))))"

definition run_server :: "('p, 'c, 'd, 's) cli_env \<Rightarrow> string \<Rightarrow> ('p, 'c, 's, int \<times> report) program" where
  "run_server E cfg_file =
     (let h = host E; env = getenv h in
      and_then (core_initialize h cfg_file Full) (\<lambda>_.
      and_then (on_world
        (and_then (\<lambda>w. of_result (get_config (config w)) w) (\<lambda>cfg.
         and_then (of_result (read_server_settings (cores E) env cfg)) (\<lambda>settings.
         and_then (\<lambda>w. of_result (register_controllers env (config w)) w) (\<lambda>ctl.
         on_outside (serve E settings ctl)))))) (\<lambda>_ st.
      (Inr (0, Served), core_shutdown h st))))"

definition migrate_only :: "environ \<Rightarrow> cli_args \<Rightarrow> bool" where
  "migrate_only env args \<longleftrightarrow>
     cli_mode args = ''--run-migrations'' \<or>
     (case env ''RUN_MIGRATIONS_ONLY'' of None \<Rightarrow> False | Some v \<Rightarrow> v = ''true'' \<or> v = ''1'')"

text \<open>\<open>main\<close>: a standard exception ends in \<open>Core::shutdown\<close> and the exit code 1, anything else escapes.\<close>

definition main_run :: "('p, 'c, 'd, 's) cli_env \<Rightarrow> string list \<Rightarrow> ('p, 'c, 's, int \<times> report) program" where
  "main_run E argv st =
     (let h = host E; args = parse_cli (getenv h) argv in
      if cli_mode args = ''--help'' then (Inr (0, Usage), st)
      else if cli_mode args = ''--print-routes'' then (Inr (0, Routes print_routes), st)
      else
        case and_then (on_world (on_outside (create_logs E))) (\<lambda>_.
               if migrate_only (getenv h) args then run_migrate_only E (cli_config args)
               else if cli_mode args = ''--dump-config'' then run_dump_config E (cli_config args)
               else if cli_mode args = ''--verify-migrations'' then run_verify_migrations E (cli_config args)
               else run_server E (cli_config args)) st of
          (Inr r, st') \<Rightarrow> (Inr r, st')
        | (Inl (Thrown e), st') \<Rightarrow> (Inr (1, Fatal e), core_shutdown h st')
        | (Inl (Foreign x), st') \<Rightarrow> (Inl (Foreign x), st'))"

section \<open>How a run ends\<close>

lemma on_world_Inr: "on_world m st = (Inr a, st') \<longleftrightarrow> (\<exists>w. m (snd st) = (Inr a, w) \<and> st' = (fst st, w))"
  by (auto simp: on_world_def split: prod.split)

lemma on_outside_Inr: "on_outside m w = (Inr a, w') \<longleftrightarrow> (\<exists>s. m (outside w) = (Inr a, s) \<and> w' = w\<lparr>outside := s\<rparr>)"
  by (auto simp: on_outside_def split: prod.split)

lemma null_world_outside [simp]: "(null_world s)\<lparr>outside := s'\<rparr> = null_world s'" "outside (null_world s) = s"
  by (simp_all add: null_world_def)

lemma init_config_null:
  "init_config h path (null_world s) = (Inr u, w) \<Longrightarrow> \<exists>cfg. w = (null_world s)\<lparr>config := Some cfg\<rparr>"
  by (auto simp: init_config_def initialize_config_def null_world_def split: prod.split_asm sum.split_asm if_split_asm)

lemma initialize_database_null:
  assumes "initialize_database h primary rs n a t ((null_world s)\<lparr>config := c\<rparr>) = (Inr u, w)"
  shows "\<exists>m. w = (null_world s)\<lparr>config := c, database := Some m\<rparr>"
  using assms
  by (auto simp: initialize_database_def Database.initialize_global_def null_world_def split: prod.split_asm sum.split_asm)

lemma config_gone [simp]:
  "(null_world s)\<lparr>config := shutdown_config g\<rparr> = null_world s"
  by (simp add: null_world_def shutdown_config_def)

lemma dump_config_clean:
  assumes "run_dump_config E p (None, null_world s) = (Inr (code, rep), st)"
  shows "code = 0 \<and> (\<exists>j. rep = Dumped j) \<and> st = (None, null_world s)"
  using assms
  by (auto simp: run_dump_config_def on_world_Inr init_simps dest!: init_config_null)

lemma verify_migrations_clean:
  assumes "run_verify_migrations E p (None, null_world s) = (Inr (code, rep), st)"
  shows "\<exists>ms s'. rep = Pending ms \<and> code = (if ms = [] then 0 else 1) \<and> st = (None, null_world s')"
proof -
  obtain w1 w2 cfg primary n a dir ms u v where
    w1: "init_config (host E) p (null_world s) = (Inr u, w1)"
    and w2: "initialize_database (host E) primary [] n a 0 w1 = (Inr v, w2)"
    and ms: "rep = Pending ms" "code = (if ms = [] then 0 else 1)"
    and st: "st = (None, (let (s', g) = Database.shutdown_global (close_pool (host E)) (database w2) (outside w2)
        in w2\<lparr>database := g, outside := s'\<rparr>)\<lparr>config := shutdown_config cfg\<rparr>)"
    using assms by (auto simp: run_verify_migrations_def Let_def on_world_Inr init_simps)
  obtain c where c: "w1 = (null_world s)\<lparr>config := Some c\<rparr>" using init_config_null [OF w1] by blast
  obtain m where "w2 = (null_world s)\<lparr>config := Some c, database := Some m\<rparr>"
    using initialize_database_null [OF w2 [unfolded c]] by blast
  then have "\<exists>s'. st = (None, null_world s')"
    using st by (simp add: Database.shutdown_global_def null_world_def shutdown_config_def)
  then show ?thesis using ms by blast
qed

lemma migrate_only_clean:
  assumes "run_migrate_only E p (None, null_world s) = (Inr (code, rep), st)"
  shows "code = 0 \<and> rep = Migrated \<and> (\<exists>s'. st = (None, null_world s'))"
proof -
  obtain u st1 where init: "core_initialize (host E) p MigrateOnly (None, null_world s) = (Inr u, st1)"
    and fin: "code = 0" "rep = Migrated" "st = core_shutdown (host E) st1"
    using assms by (auto simp: run_migrate_only_def and_then_Inr)
  obtain app w where "st1 = (Some app, w)" "unbroken w" "tidy w" using started_clean init by (metis old.unit.exhaust)
  then have "st = (None, null_world (outside (shutdown_modules (host E) w)))"
    using shutdown_clean fin(3) by (auto simp: core_shutdown_def)
  then show ?thesis using fin by blast
qed

lemma outside_irrelevant:
  "unbroken (w\<lparr>outside := s\<rparr>) = unbroken w" "tidy (w\<lparr>outside := s\<rparr>) = tidy w"
  by (simp_all add: unbroken_def tidy_def)

lemma server_clean:
  assumes "run_server E p (None, null_world s) = (Inr (code, rep), st)"
  shows "code = 0 \<and> rep = Served \<and> (\<exists>s'. st = (None, null_world s'))"
proof -
  obtain u st1 s1 where init: "core_initialize (host E) p Full (None, null_world s) = (Inr u, st1)"
    and fin: "code = 0" "rep = Served" "st = core_shutdown (host E) (fst st1, (snd st1)\<lparr>outside := s1\<rparr>)"
    using assms by (auto simp: run_server_def Let_def init_simps on_world_Inr on_outside_Inr)
  obtain app w where "st1 = (Some app, w)" "unbroken w" "tidy w" using started_clean init by (metis old.unit.exhaust)
  then have "unbroken (w\<lparr>outside := s1\<rparr>)" "tidy (w\<lparr>outside := s1\<rparr>)" "st = (None, shutdown_modules (host E) (w\<lparr>outside := s1\<rparr>))"
    using fin(3) by (simp_all add: outside_irrelevant core_shutdown_def)
  then have "\<exists>s'. st = (None, null_world s')" using shutdown_clean by metis
  then show ?thesis using fin by blast
qed

definition succeeded :: "report \<Rightarrow> bool" where
  "succeeded rep \<longleftrightarrow> (case rep of Fatal _ \<Rightarrow> False | Pending ms \<Rightarrow> ms = [] | _ \<Rightarrow> True)"

text \<open>C40. The exit code of the program: it is zero exactly when the mode did what it was asked for, that is,
  nothing was thrown and, for the check of the migrations, nothing is pending; and a run that throws
  nothing ends with every module shut down, in every mode.\<close>

theorem main_exit:
  assumes "main_run E argv (None, null_world s) = (Inr (code, rep), g, w)"
  shows "(code = 0 \<longleftrightarrow> succeeded rep) \<and> (\<not> (\<exists>e. rep = Fatal e) \<longrightarrow> g = None \<and> (\<exists>s'. w = null_world s'))"
proof -
  let ?args = "parse_cli (getenv (host E)) argv"
  let ?mode = "if migrate_only (getenv (host E)) ?args then run_migrate_only E (cli_config ?args)
      else if cli_mode ?args = ''--dump-config'' then run_dump_config E (cli_config ?args)
      else if cli_mode ?args = ''--verify-migrations'' then run_verify_migrations E (cli_config ?args)
      else run_server E (cli_config ?args)"
  consider (quiet) "code = 0 \<and> (rep = Usage \<or> (\<exists>rs. rep = Routes rs)) \<and> g = None \<and> w = null_world s"
    | (fatal) e where "code = 1" "rep = Fatal e"
    | (runs) u st where "on_world (on_outside (create_logs E)) (None, null_world s) = (Inr u, st)"
        "?mode st = (Inr (code, rep), g, w)"
    using assms
    by (auto simp: main_run_def Let_def and_then_def split: if_split_asm prod.split_asm sum.split_asm thrown.split_asm)
  then show ?thesis
  proof cases
    case runs
    then obtain s1 where "st = (None, null_world s1)" by (auto simp: on_world_Inr on_outside_Inr)
    then have mode: "?mode (None, null_world s1) = (Inr (code, rep), g, w)" using runs(2) by simp
    consider "run_migrate_only E (cli_config ?args) (None, null_world s1) = (Inr (code, rep), g, w)"
      | "run_dump_config E (cli_config ?args) (None, null_world s1) = (Inr (code, rep), g, w)"
      | "run_verify_migrations E (cli_config ?args) (None, null_world s1) = (Inr (code, rep), g, w)"
      | "run_server E (cli_config ?args) (None, null_world s1) = (Inr (code, rep), g, w)"
      using mode by (auto split: if_split_asm)
    then show ?thesis
      by cases (auto simp: succeeded_def split: if_splits
        dest!: migrate_only_clean dump_config_clean verify_migrations_clean server_clean)
  qed (auto simp: succeeded_def)
qed

section \<open>Witness\<close>

definition demo_env :: "(nat, unit, unit, memory) cli_env" where
  "demo_env =
     \<lparr>host = demo_up, files = \<lparr>listing = (\<lambda>_. Some []), contents = (\<lambda>_. None)\<rparr>,
      read_applied = (\<lambda>_. None), create_logs = (\<lambda>s. (Inr (), s)), serve = (\<lambda>_ _ s. (Inr (), s)), cores = 2\<rparr>"

lemma demo_dump:
  "main_run demo_env [''--dump-config''] (None, null_world (\<lambda>_. None)) = (Inr (0, Dumped (JObject [])), None, null_world (\<lambda>_. None))"
  by (simp add: main_run_def parse_cli_def migrate_only_def demo_env_def demo_host_def run_dump_config_def and_then_def
      on_world_def on_outside_def init_config_def initialize_config_def new_config_def load_from_file_def
      of_result_def get_config_def modify_def yields_def null_world_def shutdown_config_def)

theorem main_exit_witness:
  "succeeded (Dumped (JObject [])) \<and>
   (\<exists>s'. snd (main_run demo_env [''--dump-config''] (None, null_world (\<lambda>_. None))) = (None, null_world s'))"
  using main_exit [OF demo_dump] by (auto simp: demo_dump)

end
