(* ===== verification/Upkeep.thy ===== *)
theory Upkeep
  imports Program
begin

text \<open>
  What happens between the start and the shutdown of a server: the timers of \<open>src/src/tasks/Tasks.hpp\<close> with
  the callbacks that \<open>src/src/core/Core.hpp\<close> schedules, the global accessors, and the root endpoint of
  \<open>src/src/api/HealthController.hpp\<close>.
\<close>

section \<open>Timers\<close>

text \<open>The function given to \<open>runEvery\<close>: an exception derived from \<open>std::exception\<close> is logged, anything else
  reaches the event loop.\<close>

definition on_tick :: "('w, unit) callable \<Rightarrow> ('w, unit) callable" where
  "on_tick callback w =
     (case callback w of
        (Inl (Thrown e), w') \<Rightarrow> (Inr (), w')
      | r \<Rightarrow> r)"

fun run_ticks :: "('w, unit) callable list \<Rightarrow> ('w, unit) callable" where
  "run_ticks [] = yields ()"
| "run_ticks (callback # rest) = and_then (on_tick callback) (\<lambda>_. run_ticks rest)"

text \<open>The refresh of the pool gauges: what is set, by gauge and \<open>pool\<close> label.\<close>

definition pool_samples :: "('p \<Rightarrow> pool) \<Rightarrow> ('p, 'c, 's) world \<Rightarrow> (string \<times> string \<times> nat) list" where
  "pool_samples pools w =
     (if observability w \<noteq> Some True \<or> \<not> global_is_initialized (database w) then []
      else
        let m = the (database w) in
        [(''db_pool_active_connections'', ''primary'', primary_pool_active pools m),
         (''db_pool_size'', ''primary'', primary_pool_size pools m)] @
        (if replica_count m > 0
         then [(''db_pool_active_connections'', ''replica'', replica_pool_active pools m),
               (''db_pool_size'', ''replica'', replica_pool_size pools m)]
         else []))"

text \<open>The refresh of the lag gauge; \<open>lag_rows\<close> runs the query on a connection and returns the column \<open>lag\<close>
  of its rows.  The result is what the gauge is set to, if it is set.\<close>

definition replica_lag :: "('d \<Rightarrow> ('s, real option list) callable) \<Rightarrow> 'd \<Rightarrow> ('s, real option) callable" where
  "replica_lag lag_rows c =
     and_then (lag_rows c) (\<lambda>rows. yields (case rows of [] \<Rightarrow> None | v # _ \<Rightarrow> v))"

definition refresh_replica_lag ::
  "('p, 'c, 'd, 's) host_system \<Rightarrow> ('d \<Rightarrow> ('s, real option list) callable) \<Rightarrow> ('p, 'c, 's, real option) init" where
  "refresh_replica_lag h lag_rows w =
     (if observability w \<noteq> Some True \<or> \<not> global_is_initialized (database w) then (Inr None, w)
      else
        let (((result, s), events), m) =
              execute_read (db_environment h) (the (database w)) (replica_lag lag_rows) (outside w);
            w' = w\<lparr>database := Some m, outside := s\<rparr>
        in case result of
             Inr lag \<Rightarrow> (Inr (map_option (max 0) lag), w')
           | Inl (Thrown e) \<Rightarrow> (Inr None, w')
           | Inl (Foreign x) \<Rightarrow> (Inl (Foreign x), w'))"

section \<open>The global accessors and the root endpoint\<close>

definition core_get :: "('p, 'c, 's) core_state \<Rightarrow> std_exception + ('p, 'c, 's) application" where
  "core_get st = (case fst st of None \<Rightarrow> Inl (std_error ''Application not initialized'') | Some app \<Rightarrow> Inr app)"

text \<open>The runner of the migrations, of which only the flag \<open>initialized\<close> outlives its start.\<close>

definition runner_get :: "bool option \<Rightarrow> std_exception + bool" where
  "runner_get g = (case g of None \<Rightarrow> Inl (std_error ''Migration runner not initialized'') | Some r \<Rightarrow> Inr r)"

definition runner_is_initialized :: "bool option \<Rightarrow> bool" where
  "runner_is_initialized g \<longleftrightarrow> (case g of None \<Rightarrow> False | Some r \<Rightarrow> r)"

definition runner_shutdown :: "bool option \<Rightarrow> bool option" where
  "runner_shutdown g = None"

definition endpoint_json :: "endpoint_info \<Rightarrow> json_value" where
  "endpoint_json ep =
     json_object [(''method'', JString (ep_method ep)), (''path'', JString (ep_path ep)),
       (''description'', JString (ep_description ep))]"

text \<open>\<open>ver\<close> is the version string that the build generates.\<close>

definition get_root :: "string \<Rightarrow> ('p, 'c, 's) core_state \<Rightarrow> response" where
  "get_root ver st =
     Requests.ok (json_object
       [(''message'', JString ''llm-guard''),
        (''version'', JString (if core_is_initialized st then ver else ''unknown'')),
        (''endpoints'', JArray (map endpoint_json get_endpoints))])"

section \<open>What a tick leaves\<close>

lemma on_tick_Inl: "on_tick callback w = (Inl x, w') \<Longrightarrow> \<exists>y. x = Foreign y"
  by (auto simp: on_tick_def split: prod.split_asm sum.split_asm thrown.split_asm)

text \<open>Callbacks that throw nothing but a \<open>std::exception\<close> never stop the timers.\<close>

lemma run_ticks_survive:
  assumes "\<And>callback w w' x. callback \<in> set callbacks \<Longrightarrow> callback w \<noteq> (Inl (Foreign x), w')"
  shows "fst (run_ticks callbacks w) = Inr ()"
  using assms
proof (induction callbacks arbitrary: w)
  case (Cons callback rest)
  obtain r w' where tick: "on_tick callback w = (r, w')" by fastforce
  have "r = Inr ()"
    using Cons.prems [of callback] tick
    by (auto simp: on_tick_def split: prod.split_asm sum.split_asm thrown.split_asm)
  moreover have "fst (run_ticks rest w') = Inr ()" using Cons by simp
  ultimately show ?case using tick by (simp add: and_then_def)
qed (simp add: yields_def)

lemma replica_pool_keeps: "initialized (snd (replica_pool_or_throw m)) = initialized m"
  by (simp add: replica_pool_or_throw_def pick_replica_pool_def)

lemma execute_read_keeps: "initialized (snd (execute_read env m func s)) = initialized m"
proof -
  have "snd (execute_read env m func s) = m \<or> snd (execute_read env m func s) = snd (replica_pool_or_throw m)"
    by (auto simp: execute_read_def Let_def split: prod.split sum.split thrown.split)
  then show ?thesis using replica_pool_keeps by metis
qed

definition serving :: "('p, 'c, 's) world \<Rightarrow> bool" where
  "serving w \<longleftrightarrow> tidy w \<and> unbroken w"

lemma serving_database:
  "serving w \<Longrightarrow> initialized m \<Longrightarrow> serving (w\<lparr>database := Some m, outside := s\<rparr>)"
  by (simp add: serving_def tidy_def unbroken_def global_is_initialized_def)

lemma refresh_serving:
  fixes h :: "('p, 'c, 'd, 's) host_system"
  shows "keeps serving (refresh_replica_lag h lag_rows)"
  unfolding keeps_def
proof (intro allI impI)
  fix w :: "('p, 'c, 's) world"
  assume w: "serving w"
  let ?read = "execute_read (db_environment h) (the (database w)) (replica_lag lag_rows) (outside w)"
  have "snd (refresh_replica_lag h lag_rows w) = w \<or>
      (global_is_initialized (database w) \<and>
       snd (refresh_replica_lag h lag_rows w) = w\<lparr>database := Some (snd ?read), outside := snd (fst (fst ?read))\<rparr>)"
    by (simp add: refresh_replica_lag_def Let_def split: prod.split sum.split thrown.split)
  moreover have "initialized (snd ?read)" if "global_is_initialized (database w)"
    using that by (simp add: execute_read_keeps global_is_initialized_def split: option.split_asm)
  ultimately show "serving (snd (refresh_replica_lag h lag_rows w))" using w serving_database by metis
qed

text \<open>Whatever the timers and a reload do, a server that has started is shut down to nothing.\<close>

lemma ticks_serving:
  assumes "list_all (keeps serving) callbacks"
  shows "keeps serving (run_ticks callbacks)"
  using assms
proof (induction callbacks)
  case (Cons callback rest)
  have "keeps serving (on_tick callback)"
    using Cons.prems by (fastforce simp: keeps_def on_tick_def split: prod.split sum.split thrown.split)
  then show ?case using Cons by (auto intro: keeps_and_then)
qed simp

lemma shutdown_after_ticks:
  assumes "core_initialize h path mode (None, null_world s) = (Inr (), (g, w))"
    and "list_all (keeps serving) callbacks" "run_ticks callbacks w = (r, w')"
  shows "\<exists>s'. core_shutdown h (g, w') = (None, null_world s')"
proof -
  obtain app where g: "g = Some app" and "serving w"
    using started_clean [OF assms(1)] by (auto simp: serving_def)
  then have "serving w'" using keepsD [OF ticks_serving [OF assms(2)]] assms(3) by (metis snd_conv)
  then show ?thesis using shutdown_clean [of w' h] g by (auto simp: serving_def core_shutdown_def)
qed

text \<open>The gauges of a pool that only the steps of its threads change tell a saturation of at most one.\<close>

lemma primary_saturation:
  assumes "\<And>p. pool_init (initial p) \<and> pool_step\<^sup>*\<^sup>* (initial p) (current p)"
    and "(''db_pool_active_connections'', ''primary'', a) \<in> set (pool_samples (\<lambda>p. the_pool (current p)) w)"
    and "(''db_pool_size'', ''primary'', n) \<in> set (pool_samples (\<lambda>p. the_pool (current p)) w)"
  shows "a \<le> n"
proof -
  have "active (the_pool (current p)) \<le> pool_size (the_pool (current p))" for p
    using pool_okD(1,2) [OF slots.reachable_inv, of "initial p" "current p"] assms(1) [of p] by simp
  then show ?thesis
    using assms(2,3) by (auto simp: pool_samples_def primary_pool_active_def primary_pool_size_def Let_def
        split: if_split_asm option.split_asm)
qed

lemma runner_flag: "runner_is_initialized g \<longleftrightarrow> g = Some True"
  by (auto simp: runner_is_initialized_def split: option.split)

end
