(* ===== verification/Calendar.thy ===== *)
theory Calendar
  imports Utils
begin

text \<open>
  The rendering of epoch seconds in \<open>src/src/utils/Time.hpp\<close>, with what it uses of the C library: \<open>gmtime_r\<close>
  on the proleptic Gregorian calendar and \<open>strftime\<close> with the format of the code.
\<close>

section \<open>The calendar\<close>

definition leap_year :: "int \<Rightarrow> bool" where
  "leap_year y \<longleftrightarrow> y mod 4 = 0 \<and> (y mod 100 \<noteq> 0 \<or> y mod 400 = 0)"

definition year_days :: "int \<Rightarrow> nat" where
  "year_days y = (if leap_year y then 366 else 365)"

definition month_lengths :: "int \<Rightarrow> nat list" where
  "month_lengths y = [31, if leap_year y then 29 else 28, 31, 30, 31, 30, 31, 31, 30, 31, 30, 31]"

text \<open>The year that holds the day \<open>d\<close> after the first of January of \<open>y\<close>, and the month that holds the
  day \<open>d\<close> of a year, each with the days that are left.\<close>

function find_year :: "int \<Rightarrow> nat \<Rightarrow> int \<times> nat" where
  "find_year y d = (if d < year_days y then (y, d) else find_year (y + 1) (d - year_days y))"
  by pat_completeness auto
termination
  by (relation "measure snd") (auto simp: year_days_def)

declare find_year.simps [simp del]

fun find_month :: "nat list \<Rightarrow> nat \<Rightarrow> nat \<times> nat" where
  "find_month [] d = (0, d)"
| "find_month (n # ns) d = (if d < n then (0, d) else let (k, r) = find_month ns (d - n) in (Suc k, r))"

text \<open>\<open>struct tm\<close>, as far as the format reads it.  \<open>gmtime_r\<close> fails, and leaves the zeros, when the year does
  not fit into an \<open>int\<close>.  It looks at one cycle of 400 years.\<close>

record tm =
  tm_year :: int
  tm_mon :: nat
  tm_mday :: nat
  tm_hour :: nat
  tm_min :: nat
  tm_sec :: nat

definition zero_tm :: tm where
  "zero_tm = \<lparr>tm_year = 0, tm_mon = 0, tm_mday = 0, tm_hour = 0, tm_min = 0, tm_sec = 0\<rparr>"

definition civil_time :: "int \<Rightarrow> tm" where
  "civil_time t =
     (let days = t div 86400; rest = nat (t mod 86400); cycle = days div 146097;
          (year, yday) = find_year 1970 (nat (days mod 146097));
          (mon, mday) = find_month (month_lengths year) yday
      in \<lparr>tm_year = year + 400 * cycle - 1900, tm_mon = mon, tm_mday = mday + 1, tm_hour = rest div 3600,
          tm_min = rest mod 3600 div 60, tm_sec = rest mod 60\<rparr>)"

definition gmtime_r :: "int \<Rightarrow> tm" where
  "gmtime_r t =
     (let c = civil_time t in if - (2 ^ 31) \<le> tm_year c \<and> tm_year c < 2 ^ 31 then c else zero_tm)"

text \<open>\<open>strftime\<close> with \<open>%Y-%m-%dT%H:%M:%SZ\<close>; a year below 1000 is not padded.\<close>

definition two_digits :: "nat \<Rightarrow> string" where
  "two_digits n = [digit_char (n div 10), digit_char (n mod 10)]"

definition iso8601 :: "tm \<Rightarrow> string" where
  "iso8601 c =
     int_to_string (tm_year c + 1900) @ ''-'' @ two_digits (tm_mon c + 1) @ ''-'' @ two_digits (tm_mday c) @ ''T'' @
     two_digits (tm_hour c) @ '':'' @ two_digits (tm_min c) @ '':'' @ two_digits (tm_sec c) @ ''Z''"

text \<open>The buffer has 24 bytes; when the text and its zero do not fit, its contents are undefined, and so is
  the result: \<^const>\<open>None\<close>.\<close>

definition epoch_to_iso8601 :: "int \<Rightarrow> string option" where
  "epoch_to_iso8601 secs = (let text = iso8601 (gmtime_r secs) in if length text < 24 then Some text else None)"

section \<open>Days are counted back\<close>

text \<open>The first of January of a year in days after the epoch, and the second that a broken-down time names.\<close>

definition year_start :: "int \<Rightarrow> int" where
  "year_start y = 365 * (y - 1970) + (y - 1) div 4 - (y - 1) div 100 + (y - 1) div 400 - 477"

definition seconds_of :: "int \<Rightarrow> nat \<Rightarrow> nat \<Rightarrow> nat \<Rightarrow> nat \<Rightarrow> nat \<Rightarrow> int" where
  "seconds_of y mon mday h m s =
     86400 * (year_start y + int (sum_list (take mon (month_lengths y))) + int mday - 1) + int (3600 * h + 60 * m + s)"

definition seconds_tm :: "tm \<Rightarrow> int" where
  "seconds_tm c = seconds_of (tm_year c + 1900) (tm_mon c) (tm_mday c) (tm_hour c) (tm_min c) (tm_sec c)"

lemma div_step: "0 < k \<Longrightarrow> (y :: int) div k = (y - 1) div k + (if y mod k = 0 then 1 else 0)"
proof -
  assume k: "0 < k"
  show ?thesis
  proof (cases "y mod k = 0")
    case True
    then obtain q where q: "y = k * q" by auto
    have "(y - 1) div k = q - 1"
      by (rule int_div_pos_eq [of _ _ _ "k - 1"]) (use q k in \<open>simp_all add: algebra_simps\<close>)
    then show ?thesis using q k by simp
  next
    case False
    have "0 \<le> y mod k" "y mod k < k" using k by simp_all
    then have "0 < y mod k" "y mod k < k" using False by linarith+
    then have "(y - 1) div k = y div k"
      by (intro int_div_pos_eq [of _ _ _ "y mod k - 1"]) (simp_all add: algebra_simps)
    then show ?thesis using False by simp
  qed
qed

lemma multiples: "(y :: int) mod 100 = 0 \<Longrightarrow> y mod 4 = 0" "(y :: int) mod 400 = 0 \<Longrightarrow> y mod 100 = 0"
  unfolding dvd_eq_mod_eq_0 [symmetric] by (erule dvd_trans [rotated], simp)+

definition leaps :: "int \<Rightarrow> int" where
  "leaps x = x div 4 - x div 100 + x div 400"

lemma year_start_leaps: "year_start y = 365 * y + leaps (y - 1) - 719527"
  by (simp add: year_start_def leaps_def)

lemma leaps_step: "leaps y = leaps (y - 1) + (if leap_year y then 1 else 0)"
proof -
  have sum: "(a + d) - (b + e) + (c + f) = a - b + c + (d - e + f)" for a b c d e f :: int by simp
  have "(if y mod 4 = 0 then 1 else 0) - (if y mod 100 = 0 then 1 else 0) + (if y mod 400 = 0 then 1 else 0 :: int) =
      (if leap_year y then 1 else 0)"
    using multiples [of y] unfolding leap_year_def
    by (cases "y mod 4 = 0"; cases "y mod 100 = 0"; cases "y mod 400 = 0") simp_all
  then show ?thesis
    unfolding leaps_def by (subst (1 2 3) div_step [of _ y]; simp only: sum zero_less_numeral)
qed

lemma year_start_Suc: "year_start (y + 1) = year_start y + int (year_days y)"
  using leaps_step [of y] by (simp add: year_start_leaps year_days_def)

lemma year_start_cycle: "year_start (y + 400 * c) = year_start y + 146097 * c"
proof -
  have "leaps (x + 400 * c) = leaps x + 97 * c" for x
  proof -
    have "(x + 4 * (100 * c)) div 4 = x div 4 + 100 * c" "(x + 100 * (4 * c)) div 100 = x div 100 + 4 * c" by simp_all
    then have "(x + 400 * c) div 4 = x div 4 + 100 * c" "(x + 400 * c) div 100 = x div 100 + 4 * c"
      by (simp_all only: mult.assoc [symmetric] mult_numeral_left_semiring_numeral numeral_times_numeral semiring_norm)
    then show ?thesis by (simp add: leaps_def)
  qed
  from this [of "y - 1"] have "leaps (y + 400 * c - 1) = leaps (y - 1) + 97 * c" by (simp add: algebra_simps)
  then show ?thesis unfolding year_start_leaps by simp
qed

lemma find_year_start:
  "find_year y d = (z, r) \<Longrightarrow> year_start z + int r = year_start y + int d \<and> r < year_days z \<and> y \<le> z"
proof (induction y d rule: find_year.induct)
  case (1 y d)
  show ?case
  proof (cases "d < year_days y")
    case True
    then show ?thesis using "1.prems" by (simp add: find_year.simps [of y d])
  next
    case False
    then have "find_year (y + 1) (d - year_days y) = (z, r)" using "1.prems" by (simp add: find_year.simps [of y d])
    from "1.IH" [OF False this] show ?thesis using False by (simp add: year_start_Suc)
  qed
qed

lemma sum_month_lengths: "sum_list (month_lengths y) = year_days y"
  by (simp add: month_lengths_def year_days_def)

lemma find_month_start:
  "find_month ns d = (k, r) \<Longrightarrow> d < sum_list ns \<Longrightarrow> sum_list (take k ns) + r = d \<and> k < length ns \<and> r < ns ! k"
proof (induction ns d arbitrary: k rule: find_month.induct)
  case (2 n ns d)
  show ?case
  proof (cases "d < n")
    case False
    then obtain j where "find_month ns (d - n) = (j, r)" "k = Suc j" using "2.prems"(1) by (auto split: prod.split_asm)
    then show ?thesis using "2.IH" [OF False] "2.prems"(2) False by fastforce
  qed (use "2.prems" in auto)
qed simp

lemma month_lengths_cycle: "month_lengths (y + 400 * c) = month_lengths y"
proof -
  have "(y + 4 * (100 * c)) mod 4 = y mod 4" "(y + 100 * (4 * c)) mod 100 = y mod 100" "(y + 400 * c) mod 400 = y mod 400"
    by (simp_all only: mod_mult_self2)
  then show ?thesis by (simp add: month_lengths_def leap_year_def)
qed

lemma clock_parts: "3600 * (n div 3600) + 60 * (n mod 3600 div 60) + n mod 60 = (n :: nat)"
proof -
  have "60 * (n mod 3600 div 60) + n mod 3600 mod 60 = n mod 3600" by simp
  moreover have "n mod 3600 mod 60 = n mod 60" by (simp add: mod_mod_cancel)
  ultimately show ?thesis by (metis add.assoc mult_div_mod_eq)
qed

text \<open>The broken-down time names the second it was made from, and its parts are a date and a time of day.\<close>

lemma civil_time_parts:
  obtains y yday mon mday where "find_year 1970 (nat (t div 86400 mod 146097)) = (y, yday)"
    "find_month (month_lengths y) yday = (mon, mday)"
    "civil_time t = \<lparr>tm_year = y + 400 * (t div 86400 div 146097) - 1900, tm_mon = mon, tm_mday = mday + 1,
       tm_hour = nat (t mod 86400) div 3600, tm_min = nat (t mod 86400) mod 3600 div 60, tm_sec = nat (t mod 86400) mod 60\<rparr>"
  by (cases "find_year 1970 (nat (t div 86400 mod 146097))"; cases "find_month (month_lengths (fst (find_year 1970 (nat (t div 86400 mod 146097)))))
      (snd (find_year 1970 (nat (t div 86400 mod 146097))))") (simp add: civil_time_def Let_def)

lemma civil_time_seconds: "seconds_tm (civil_time t) = t"
proof -
  obtain y yday mon mday where c: "find_year 1970 (nat (t div 86400 mod 146097)) = (y, yday)"
    "find_month (month_lengths y) yday = (mon, mday)"
    "civil_time t = \<lparr>tm_year = y + 400 * (t div 86400 div 146097) - 1900, tm_mon = mon, tm_mday = mday + 1,
       tm_hour = nat (t mod 86400) div 3600, tm_min = nat (t mod 86400) mod 3600 div 60, tm_sec = nat (t mod 86400) mod 60\<rparr>"
    using civil_time_parts .
  have y: "year_start y + int yday = t div 86400 mod 146097" "yday < year_days y"
    using find_year_start [OF c(1)] by (simp_all add: year_start_def)
  have m: "sum_list (take mon (month_lengths y)) + mday = yday"
    using find_month_start [OF c(2)] y(2) by (simp add: sum_month_lengths)
  have days: "year_start (y + 400 * (t div 86400 div 146097)) + int (sum_list (take mon (month_lengths y))) + int mday = t div 86400"
    using y(1) m year_start_cycle [of y "t div 86400 div 146097"] mult_div_mod_eq [of 146097 "t div 86400"] by linarith
  then have "year_start (y + 400 * (t div 86400 div 146097)) + int (sum_list (take mon (month_lengths y))) + int (mday + 1) - 1 =
      t div 86400" by simp
  moreover have "int (3600 * (nat (t mod 86400) div 3600) + 60 * (nat (t mod 86400) mod 3600 div 60) + nat (t mod 86400) mod 60) =
      t mod 86400" unfolding clock_parts by simp
  ultimately show ?thesis
    unfolding c(3) seconds_tm_def seconds_of_def tm.simps diff_add_cancel month_lengths_cycle
    by (simp only: mult_div_mod_eq)
qed

lemma civil_time_ok:
  "tm_mon (civil_time t) < 12" "1 \<le> tm_mday (civil_time t)"
  "tm_mday (civil_time t) \<le> month_lengths (tm_year (civil_time t) + 1900) ! tm_mon (civil_time t)"
  "tm_hour (civil_time t) < 24" "tm_min (civil_time t) < 60" "tm_sec (civil_time t) < 60"
proof -
  obtain y yday mon mday where c: "find_year 1970 (nat (t div 86400 mod 146097)) = (y, yday)"
    "find_month (month_lengths y) yday = (mon, mday)"
    "civil_time t = \<lparr>tm_year = y + 400 * (t div 86400 div 146097) - 1900, tm_mon = mon, tm_mday = mday + 1,
       tm_hour = nat (t mod 86400) div 3600, tm_min = nat (t mod 86400) mod 3600 div 60, tm_sec = nat (t mod 86400) mod 60\<rparr>"
    using civil_time_parts .
  have "yday < sum_list (month_lengths y)" using find_year_start [OF c(1)] by (simp add: sum_month_lengths)
  moreover have "length (month_lengths y) = 12" by (simp add: month_lengths_def)
  ultimately have "mon < 12" "mday < month_lengths y ! mon" using find_month_start [OF c(2)] by simp_all
  then show "tm_mon (civil_time t) < 12" "1 \<le> tm_mday (civil_time t)"
    "tm_mday (civil_time t) \<le> month_lengths (tm_year (civil_time t) + 1900) ! tm_mon (civil_time t)"
    by (simp_all add: c(3) month_lengths_cycle)
  have "nat (t mod 86400) < 86400" by simp
  then show "tm_hour (civil_time t) < 24" "tm_min (civil_time t) < 60" "tm_sec (civil_time t) < 60"
    by (simp_all add: c(3) less_mult_imp_div_less)
qed

section \<open>The text is read back\<close>

text \<open>The second that a text of the format names, for years of four digits.\<close>

definition iso_seconds :: "string \<Rightarrow> int" where
  "iso_seconds s =
     seconds_of (int (digits_value (take 4 s))) (digits_value (substr s 5 2) - 1) (digits_value (substr s 8 2))
       (digits_value (substr s 11 2)) (digits_value (substr s 14 2)) (digits_value (substr s 17 2))"

lemma year_start_mono: "y \<le> z \<Longrightarrow> year_start y \<le> year_start z"
  by (induction z rule: int_ge_induct) (simp_all add: year_start_Suc)

lemma civil_year:
  assumes "0 \<le> t" "t < 253402300800"
  shows "1970 \<le> tm_year (civil_time t) + 1900" "tm_year (civil_time t) + 1900 < 10000"
proof -
  obtain y yday mon mday where c: "find_year 1970 (nat (t div 86400 mod 146097)) = (y, yday)"
    "find_month (month_lengths y) yday = (mon, mday)"
    "civil_time t = \<lparr>tm_year = y + 400 * (t div 86400 div 146097) - 1900, tm_mon = mon, tm_mday = mday + 1,
       tm_hour = nat (t mod 86400) div 3600, tm_min = nat (t mod 86400) mod 3600 div 60, tm_sec = nat (t mod 86400) mod 60\<rparr>"
    using civil_time_parts .
  have "1970 \<le> y" "0 \<le> t div 86400 div 146097" using find_year_start [OF c(1)] assms(1) by (simp_all add: pos_imp_zdiv_nonneg_iff)
  then show "1970 \<le> tm_year (civil_time t) + 1900" by (simp add: c(3))
  show "tm_year (civil_time t) + 1900 < 10000"
  proof (rule ccontr)
    assume "\<not> tm_year (civil_time t) + 1900 < 10000"
    then have "year_start 10000 \<le> year_start (tm_year (civil_time t) + 1900)" by (intro year_start_mono) simp
    moreover have "year_start 10000 = 2932897" by (simp add: year_start_def)
    moreover have "86400 * year_start (tm_year (civil_time t) + 1900) \<le> t"
      using civil_time_ok(2) [of t] by (subst (2) civil_time_seconds [symmetric]) (simp add: seconds_tm_def seconds_of_def)
    ultimately show False using assms(2) by linarith
  qed
qed

lemma digits_value_two [simp]: "n < 100 \<Longrightarrow> digits_value (two_digits n) = n"
  by (simp add: two_digits_def digits_value_def)

lemma length_two [simp]: "length (two_digits n) = 2"
  by (simp add: two_digits_def)

lemma length_four_digits:
  assumes "1000 \<le> n" "n < 10000"
  shows "length (nat_to_string n) = 4"
proof -
  have "\<not> n < 10" "\<not> n div 10 < 10" "\<not> n div 10 div 10 < 10" "n div 10 div 10 div 10 < 10" using assms by linarith+
  then show ?thesis
    by (simp add: nat_to_string.simps [of n] nat_to_string.simps [of "n div 10"] nat_to_string.simps [of "n div 10 div 10"]
        nat_to_string.simps [of "n div 10 div 10 div 10"])
qed

lemma epoch_roundtrip:
  assumes "0 \<le> t" "t < 253402300800"
  shows "\<exists>s. epoch_to_iso8601 t = Some s \<and> length s = 20 \<and> iso_seconds s = t"
proof -
  let ?c = "civil_time t"
  note y = civil_year [OF assms]
  have gm: "gmtime_r t = ?c" using y by (simp add: gmtime_r_def Let_def)
  define ys where "ys = nat_to_string (nat (tm_year ?c + 1900))"
  have ys: "length ys = 4" "int (digits_value ys) = tm_year ?c + 1900"
    using y length_four_digits [of "nat (tm_year ?c + 1900)"] by (simp_all add: ys_def)
  have printed: "iso8601 ?c = ys @ ''-'' @ two_digits (tm_mon ?c + 1) @ ''-'' @ two_digits (tm_mday ?c) @ ''T'' @
     two_digits (tm_hour ?c) @ '':'' @ two_digits (tm_min ?c) @ '':'' @ two_digits (tm_sec ?c) @ ''Z''"
    using y by (simp add: iso8601_def int_to_string_def ys_def)
  have months: "month_lengths z ! k \<le> 31" if "k < 12" for z k
    using that by (auto simp: month_lengths_def less_Suc_eq numeral_eq_Suc)
  have "tm_mday ?c < 100" using le_trans [OF civil_time_ok(3) months [OF civil_time_ok(1)], of t] by simp
  then have "iso_seconds (iso8601 ?c) = seconds_tm ?c"
    using ys civil_time_ok [of t] by (simp add: iso_seconds_def printed substr_def seconds_tm_def)
  then show ?thesis by (simp add: epoch_to_iso8601_def gm civil_time_seconds printed ys(1))
qed

end
