(* ===== verification/Telemetry.thy ===== *)
theory Telemetry
  imports Config
begin

text \<open>
  The subsystems of \<open>src/src/observability/Observability.hpp\<close>: which sink of the logger takes a message, the
  layout of a line, and the life of logger, metrics and tracer.  spdlog, prometheus-cpp and opentelemetry-cpp
  are not modelled beyond what is created, set and released.
\<close>

section \<open>Log levels\<close>

text \<open>The levels of spdlog in the order of their severity.\<close>

datatype log_level = Trace | Debug | Info | Warn | Err | Critical

instantiation log_level :: linorder
begin

fun severity :: "log_level \<Rightarrow> nat" where
  "severity Trace = 0" | "severity Debug = 1" | "severity Info = 2"
| "severity Warn = 3" | "severity Err = 4" | "severity Critical = 5"

definition less_eq_log_level :: "log_level \<Rightarrow> log_level \<Rightarrow> bool" where
  "l \<le> m \<longleftrightarrow> severity l \<le> severity m"

definition less_log_level :: "log_level \<Rightarrow> log_level \<Rightarrow> bool" where
  "l < m \<longleftrightarrow> severity l < severity m"

instance
proof
  fix l m n :: log_level
  show "(l < m) = (l \<le> m \<and> \<not> m \<le> l)" by (auto simp: less_eq_log_level_def less_log_level_def)
  show "l \<le> l" by (simp add: less_eq_log_level_def)
  show "l \<le> m \<Longrightarrow> m \<le> n \<Longrightarrow> l \<le> n" by (simp add: less_eq_log_level_def)
  show "l \<le> m \<Longrightarrow> m \<le> l \<Longrightarrow> l = m" by (cases l; cases m) (simp_all add: less_eq_log_level_def)
  show "l \<le> m \<or> m \<le> l" by (auto simp: less_eq_log_level_def)
qed

end

lemmas level_defs = less_eq_log_level_def less_log_level_def

section \<open>The logger\<close>

record sink =
  sink_file :: "string option"
  sink_level :: log_level

record logger =
  logger_name :: string
  sinks :: "sink list"
  level :: log_level
  flush_level :: log_level
  layout :: string

definition dquote :: char where
  "dquote = CHR 0x22"

definition json_field :: "string \<Rightarrow> string \<Rightarrow> string" where
  "json_field k v = [dquote] @ k @ [dquote, CHR '':''] @ [dquote] @ v @ [dquote]"

definition log_pattern :: "string \<Rightarrow> string \<Rightarrow> string" where
  "log_pattern log_format service_name =
     (if log_format = ''json'' then
        ''{'' @ json_field ''ts'' ''%Y-%m-%dT%H:%M:%S.%e%z'' @ '','' @ json_field ''level'' ''%l'' @ '','' @
        json_field ''logger'' ''%n'' @
        (if service_name \<noteq> [] then '','' @ json_field ''service'' service_name else []) @
        '','' @ [dquote] @ ''thread'' @ [dquote] @ '':%t,'' @ json_field ''trace_id'' ''%@'' @ '','' @
        json_field ''msg'' ''%*'' @ ''}''
      else ''[%Y-%m-%d %H:%M:%S.%e] [%n] [%l] [trace=%@] %v'')"

definition initialize_logger :: "string \<Rightarrow> string \<Rightarrow> string \<Rightarrow> string \<Rightarrow> logger" where
  "initialize_logger name log_file log_format service_name =
     \<lparr>logger_name = name,
      sinks = \<lparr>sink_file = None, sink_level = Debug\<rparr> #
        (if log_file \<noteq> [] then [\<lparr>sink_file = Some log_file, sink_level = Info\<rparr>] else []),
      level = Debug, flush_level = Info, layout = log_pattern log_format service_name\<rparr>"

definition parse_level :: "string \<Rightarrow> log_level option" where
  "parse_level s =
     (if s = ''trace'' then Some Trace
      else if s = ''debug'' then Some Debug
      else if s = ''info'' then Some Info
      else if s = ''warn'' then Some Warn
      else if s = ''error'' then Some Err
      else if s = ''critical'' then Some Critical
      else None)"

definition set_level :: "string \<Rightarrow> logger \<Rightarrow> logger" where
  "set_level s l = (case parse_level s of None \<Rightarrow> l | Some v \<Rightarrow> l\<lparr>level := v\<rparr>)"

text \<open>The sinks that take a message of a level, and whether the logger flushes after it.\<close>

definition takes :: "logger \<Rightarrow> log_level \<Rightarrow> string option list" where
  "takes l m = (if level l \<le> m then map sink_file (filter (\<lambda>s. sink_level s \<le> m) (sinks l)) else [])"

section \<open>Metrics and tracer\<close>

record metrics_state =
  registry_made :: bool
  exposer_at :: "string option"

definition initialize_metrics :: "string \<Rightarrow> metrics_state" where
  "initialize_metrics bind_address =
     \<lparr>registry_made = True, exposer_at = (if bind_address = [] then None else Some bind_address)\<rparr>"

definition shutdown_metrics :: "metrics_state \<Rightarrow> metrics_state" where
  "shutdown_metrics m = m\<lparr>exposer_at := None, registry_made := False\<rparr>"

text \<open>The provider that spans go to: none (the no-op provider), an OTLP endpoint, or standard output.\<close>

datatype provider = Noop | Otlp string string | Stdout string

definition initialize_tracer :: "environ \<Rightarrow> global_config \<Rightarrow> string \<Rightarrow> string \<Rightarrow> std_exception + provider" where
  "initialize_tracer env g service_name otlp_endpoint =
     ebind (case g of
              Some cfg \<Rightarrow>
                if otlp_endpoint = [] then get_bool env cfg ''observability.trace_stdout'' ''TRACE_STDOUT'' False
                else Inr False
            | None \<Rightarrow> Inr False)
       (\<lambda>stdout_trace.
        Inr (if otlp_endpoint = [] \<and> \<not> stdout_trace then Noop
             else if otlp_endpoint \<noteq> [] then Otlp service_name otlp_endpoint
             else Stdout service_name))"

text \<open>The shutdown: the provider that is left, and whether buffered spans were flushed.\<close>

definition shutdown_tracer :: "provider \<Rightarrow> provider \<times> bool" where
  "shutdown_tracer p = (Noop, p \<noteq> Noop)"

section \<open>The system\<close>

record observability_system =
  sys_logger :: "logger option"
  sys_metrics :: "metrics_state option"
  sys_tracer :: provider
  sys_initialized :: bool

definition new_system :: observability_system where
  "new_system = \<lparr>sys_logger = None, sys_metrics = None, sys_tracer = Noop, sys_initialized = False\<rparr>"

text \<open>\<open>listen\<close> is the start of the exposer on an address, which may throw; the state is the one that is
  left behind then.\<close>

definition initialize_system ::
  "environ \<Rightarrow> global_config \<Rightarrow> (string \<Rightarrow> std_exception + unit) \<Rightarrow> string \<Rightarrow> string \<Rightarrow> string \<Rightarrow> string \<Rightarrow> string \<Rightarrow> string \<Rightarrow>
     observability_system \<Rightarrow> (std_exception + unit) \<times> observability_system" where
  "initialize_system env g listen log_name log_file metrics_addr service_name otlp_endpoint log_format sys =
     (if sys_initialized sys then (Inl (std_error ''Observability system already initialized''), sys)
      else
        let sys1 = sys\<lparr>sys_logger := Some (initialize_logger log_name log_file log_format service_name)\<rparr> in
        case (if metrics_addr = [] then Inr () else listen metrics_addr) of
          Inl e \<Rightarrow> (Inl e, sys1\<lparr>sys_metrics := Some \<lparr>registry_made = True, exposer_at = None\<rparr>\<rparr>)
        | Inr _ \<Rightarrow>
            let sys2 = sys1\<lparr>sys_metrics := Some (initialize_metrics metrics_addr)\<rparr> in
            (case initialize_tracer env g service_name otlp_endpoint of
               Inl e \<Rightarrow> (Inl e, sys2)
             | Inr p \<Rightarrow> (Inr (), sys2\<lparr>sys_tracer := p, sys_initialized := True\<rparr>)))"

definition shutdown_system :: "observability_system \<Rightarrow> observability_system" where
  "shutdown_system sys =
     (if sys_initialized sys
      then sys\<lparr>sys_tracer := fst (shutdown_tracer (sys_tracer sys)), sys_metrics := map_option shutdown_metrics (sys_metrics sys),
               sys_initialized := False\<rparr>
      else sys)"

section \<open>Properties\<close>

lemma initialized_level: "level (set_level s (initialize_logger n f fmt svc)) = (case parse_level s of None \<Rightarrow> Debug | Some v \<Rightarrow> v)"
  by (simp add: set_level_def initialize_logger_def split: option.split)

text \<open>Which messages reach which sink, for every setting of the level: nothing below the level, the console
  from \<open>debug\<close> on, the file from \<open>info\<close> on.\<close>

lemma takes_initialized:
  "takes (set_level s (initialize_logger n f fmt svc)) m =
     (if level (set_level s (initialize_logger n f fmt svc)) \<le> m
      then (if Debug \<le> m then [None] else []) @ (if f \<noteq> [] \<and> Info \<le> m then [Some f] else []) else [])"
  by (simp add: takes_def set_level_def initialize_logger_def split: option.split)

lemma takes_sinks:
  "None \<in> set (takes (set_level s (initialize_logger n f fmt svc)) m) \<longleftrightarrow>
     max Debug (level (set_level s (initialize_logger n f fmt svc))) \<le> m"
  "f \<noteq> [] \<Longrightarrow> Some f \<in> set (takes (set_level s (initialize_logger n f fmt svc)) m) \<longleftrightarrow>
     max Info (level (set_level s (initialize_logger n f fmt svc))) \<le> m"
  by (auto simp: takes_initialized max_def dest: order.trans)

lemma shutdown_tracer_twice: "snd (shutdown_tracer (fst (shutdown_tracer p))) = False"
  by (simp add: shutdown_tracer_def)

lemma system_stops:
  "fst (initialize_system env g listen n f a svc ep fmt new_system) = Inr () \<Longrightarrow>
     shutdown_system (snd (initialize_system env g listen n f a svc ep fmt new_system)) =
       new_system\<lparr>sys_logger := Some (initialize_logger n f fmt svc), sys_metrics := Some \<lparr>registry_made = False, exposer_at = None\<rparr>\<rparr>"
  by (auto simp: initialize_system_def new_system_def shutdown_system_def shutdown_tracer_def shutdown_metrics_def
      initialize_metrics_def Let_def split: sum.splits if_splits)

end
