(* ===== verification/Spec2Isabelle.thy ===== *)
theory Spec2Isabelle
  imports Demasker Sse ExtractSpec PrefilterSound Base64 RulesYaml Upkeep Calendar Telemetry
begin

text \<open>
  Verification of cybercapybara-llm-guard: the guard engine (\<open>src/src/guard\<close>) and the service it runs in.
  The engine is a header-only C++ library that a gateway puts between a client and a large language
  model: it scans the texts of a request for sensitive data, replaces each finding by a placeholder such
  as \<open><EMAIL_1>\<close>, and puts the originals back into the response, also when the response is streamed.
  The service is a Drogon server with a database, migrations, a cache, timers and observability.

  \<^bold>\<open>How the parts of the engine interact.\<close>  A catalog of rules is loaded from YAML documents (RulesYaml),
  validated and compiled into a registry (Registry), which derives from each rule's regex whether a keyword
  pre-filter is sound (Prefilter) and a recogniser for the drifted spellings of its placeholder
  (PlaceholderRegex).  The texts of a body are located by its JSON spans (Extract over Json).  The scanner
  runs the rules over a text, asks the validators about each match, and resolves overlaps (Scanner,
  Validators, Checksums).  The masker turns the spans of all texts into placeholders over one masking state
  (Masker).  The demasker takes that state and restores the originals in the response, chunk by chunk
  (Demasker), whose server-sent events are framed and classified by Sse.

  \<^bold>\<open>How the parts of the service interact.\<close>  \<open>main\<close> (Program) reads the command line and starts the modules
  in order: configuration, observability, database, cache, timers (Lifecycle over Boot).  A start that
  fails is unwound; the shutdown stops the modules in reverse order.  The settings of each module are read
  from the configuration (Config), whose text may hold environment placeholders.  The database manager
  borrows connections from a pool (Database over Pool) and repeats what failed transiently (Retry); the
  migrations are run against it (Migrations).  The cache manager fails open (Cache).  A request passes the
  advices of the middleware (Advice), which join or begin a trace (Tracing), and its parameters and body
  are checked by Requests.

  \<^bold>\<open>Theories and sources of the engine.\<close>
  \<^item> \<open>Prelude\<close>: byte classes, substrings, searching, sorting, results, and lists shared by the components,
    with the interfaces more than one component provides.
  \<^item> \<open>Unicode\<close>: \<open>Unicode.hpp\<close>.  \<open>Rules\<close>: \<open>Rule.hpp\<close>, \<open>MaskingState.hpp\<close>, \<open>Errors.hpp\<close>.
  \<^item> \<open>Checksums\<close>, \<open>Validators\<close>: \<open>Validators.hpp\<close>, the checksum validators and the others.
  \<^item> \<open>Compiled\<close>, \<open>Scanner\<close>: \<open>Scanner.hpp\<close> and the compiled rule it works on.
  \<^item> \<open>Masker\<close>: \<open>Masker.hpp\<close>.  \<open>Registry\<close>: \<open>Registry.hpp\<close>.  \<open>RulesYaml\<close>: \<open>RulesYaml.hpp\<close>.
    \<open>Prefilter\<close>: \<open>Prefilter.hpp\<close>, and \<open>PrefilterSound\<close> its effect on a scan.
    \<open>PlaceholderRegex\<close>: \<open>PlaceholderRegex.hpp\<close>.
  \<^item> \<open>Json\<close>: \<open>json/Json.hpp\<close>.  \<open>JsonPath\<close> and \<open>JsonScope\<close> add no code: they show how lookups compose, that a
    lookup scoped to a container is the lookup from the root, and that paths that part address disjoint
    spans.
  \<^item> \<open>Extract\<close>: \<open>extract/*.hpp\<close>, the text fields of a body in the three wire formats.  \<open>ExtractSpec\<close> states
    which paths each format lists and shows that the extractors return exactly their values.
  \<^item> \<open>Restore\<close>: the specification of demasking, which is not in the code: \<open>restore\<close> replaces the
    literals of a table from left to right, and the locale \<open>bracketed_table\<close> states what a table of
    placeholders and a hold-back length must satisfy for that to commute with cutting the text.
  \<^item> \<open>Demasker\<close>: \<open>demask/Demasker.hpp\<close>; the exact pass refines \<open>restore\<close>.
  \<^item> \<open>Sse\<close>: \<open>sse/Common.hpp\<close>.
  \<^item> this theory: the properties that span masker and demasker.

  \<^bold>\<open>Theories and sources of the service.\<close>
  \<^item> \<open>Utils\<close>: \<open>utils/Strings.hpp\<close>, \<open>Pg.hpp\<close>, \<open>Crypto.hpp\<close>, \<open>Time.hpp\<close>.  \<open>Base64\<close>: \<open>utils/Base64.hpp\<close>.
    \<open>Retry\<close>: \<open>utils/Retry.hpp\<close>.  \<open>Config\<close>: \<open>utils/Config.hpp\<close>.
  \<^item> \<open>Pool\<close>, \<open>Database\<close>: \<open>database/Database.hpp\<close>, the pool as a step relation of threads under one mutex,
    and the manager.  \<open>Migrations\<close>: \<open>database/Migrations.hpp\<close>, as steps of instances against one server.
    \<open>Cache\<close>: \<open>cache/Cache.hpp\<close>.
  \<^item> \<open>Boot\<close>, \<open>Lifecycle\<close>: \<open>core/Core.hpp\<close> and \<open>tasks/Tasks.hpp\<close>, the start of the modules and the life of
    the application, with \<open>api/HealthController.hpp\<close>.
  \<^item> \<open>Tracing\<close>: \<open>observability/Trace.hpp\<close> and the trace flags of the log in \<open>Observability.hpp\<close>.
    \<open>Telemetry\<close>: the logger and the providers of \<open>Observability.hpp\<close>.
  \<^item> \<open>Requests\<close>: \<open>api/RequestUtils.hpp\<close>, \<open>api/Validation.hpp\<close>, \<open>utils/ErrorResponse.hpp\<close>.
    \<open>Advice\<close>: \<open>api/Middleware.hpp\<close>.
  \<^item> \<open>Program\<close>: \<open>main.cpp\<close>, \<open>api/Api.hpp\<close>, \<open>api/Endpoints.hpp\<close>.

  \<^bold>\<open>Data.\<close>  A \<open>std::string\<close> or \<open>std::string_view\<close> is a list of bytes, a \<open>std::size_t\<close> position or length a
  natural number, written with the guards of the code before each read; where a 64-bit size saturates
  (PlaceholderRegex), a register shifts (Base64), an integer is cut to its width (Requests) or a digit sum
  is bounded (Validators) the width is written out.  A struct is a record with the code's fields, a variant
  or enum a datatype, an optional an option, an \<open>unordered_map\<close> a function to option.  An exception is the
  left summand of a result, and a member function that changes its object returns the new object.  A global
  instance is an option of the state that the modules are started and stopped on.

  \<^bold>\<open>Loops.\<close>  Loops over positions are recursive functions whose measure is what is left of the text.  A
  loop that the code leaves only when an engine makes progress carries the engine as a parameter, and
  a step that makes none is the value \<open>ScanDiverges\<close> (Scanner), \<open>DemaskDiverges\<close> or None (Demasker);
  the properties prove that it does not occur under the documented contract of the engine.  The
  bounded-depth parsers (PlaceholderRegex, Prefilter) recurse on the depth and the length left, as
  the code's own depth guards do.  What several threads or processes do to one pool or one server is an
  inductive step relation (Pool, Migrations), and its properties are invariants of the reachable states.

  \<^bold>\<open>Parameters.\<close>  RE2 is a matching function of a compiled rule (\<open>re2_contract\<close>: a match lies in the text,
  at or after the start position), \<open>RE2::QuoteMeta\<close>, utf8proc's case map, \<open>inet_pton\<close> for IPv6 and
  \<open>std::thread::hardware_concurrency\<close> are arguments of the definitions that use them.  So are the outcome of
  yaml-cpp on a file, of libpqxx on a statement, of redis++ on a command and of OpenSSL on a digest, the
  parsers of the configuration file and of a JSON body, the OpenTelemetry tracer, the clock, the random
  engine, the environment, and what Drogon does between \<open>run()\<close> and \<open>quit()\<close>.

  \<^bold>\<open>What is shown of the engine.\<close>  Masking replaces exactly the scanned spans, one-to-one and with fresh
  placeholders, whatever the number of worker threads; scanning finds every accepted match and the
  pre-filter loses none; demasking undoes masking, for every way of cutting the response; the streaming
  contract of one call holds with any recogniser and on every error path; tool-call arguments stay valid
  JSON; event framing loses nothing and is independent of the cuts; the JSON scanner returns complete values
  and encodes and decodes inversely; the extractors find exactly the texts their formats list, and what
  they find can always be patched; the validators accept exactly what their checksums say; a catalog that
  loads has distinct rules, which the registry built from it keeps.

  \<^bold>\<open>What is shown of the service.\<close>  A write never commits twice and a retried call stops when it should; the
  pool never exceeds its size and no waiting thread is forgotten; a migration takes effect at most once
  whatever crashes, and a success leaves all of them recorded; a read through the cache answers whatever
  Redis does; base64url, connection strings, trace headers and log lines parse to what they were
  printed from; the placeholders of the configuration are all replaced; shutting down undoes the start, and
  what a failed start leaves behind is stated exactly; a request has one trace id, and only a path
  without identifiers reaches its log line; a body that passes validation has the types asked for; and the
  exit code of the program says whether it did what its mode was asked for.

  \<^bold>\<open>Not modelled.\<close>  When Drogon calls each advice, its event loop and the thread that watches for the
  shutdown signal; the bodies of the metric-refresh timers and the creation of metric families, which only
  call prometheus-cpp; the clock readings and the \<open>strftime\<close> rendering of \<open>Time.hpp\<close>; the fixed page of the
  API documentation; the scoped span helper, whose effects are the tracer's; the bounded wait of the
  pool's shutdown for connections still in use; tests, build, deployment and the rule catalogs.  The time
  and memory the code takes, and the interleaving of the scanner's worker threads below the level of whole
  buckets, are not part of the model either.
\<close>

section \<open>Masking and demasking\<close>

lemma masked_table:
  assumes "\<forall>cr\<in>set rules. scannable cr" "ids_unique rules"
    and "mask_texts hw pf texts rules opts = Inr res"
    and "\<forall>cr\<in>set rules. list_all is_word_char (placeholder (rule_masking (cr_rule (the cr))))"
    and "r \<in> set (replacements (mask_state res))"
  shows "lookup (make_config (mask_state res) snapshot) (rep_placeholder r) False = Some (rep_original r)"
proof -
  note tab = mask_texts_table [OF assms(1-4)]
  let ?reps = "replacements (mask_state res)"
  have "rep_placeholder q \<noteq> []" if "q \<in> set ?reps" for q
    using tab(2) that by (auto simp: bracketed_def)
  then have "restore_pairs False ?reps = map (\<lambda>q. (rep_placeholder q, rep_original q)) ?reps"
    by (simp add: restore_pairs_def restored_def)
  then show ?thesis using tab(1) assms(5) by (auto simp: lookup_make_config comp_def intro!: map_of_is_SomeI)
qed

lemma restore_masked:
  assumes "\<forall>cr\<in>set rules. scannable cr" "ids_unique rules"
    and "mask_texts hw pf texts rules opts = Inr res"
    and "\<forall>cr\<in>set rules. list_all is_word_char (placeholder (rule_masking (cr_rule (the cr))))"
    and "i < length texts"
  shows "config_ok (make_config (mask_state res) snapshot)" "all_bracketed (make_config (mask_state res) snapshot)"
    "restore (exact_table (make_config (mask_state res) snapshot) False) (masked_texts res ! i) = texts ! i"
    "literal_free (exact_table (make_config (mask_state res) snapshot) json) (texts ! i)"
proof -
  let ?cfg = "make_config (mask_state res) snapshot"
  note tab = mask_texts_table [OF assms(1-4)]
  show ok: "config_ok ?cfg" "all_bracketed ?cfg"
    using make_config_ok make_config_bracketed tab(2) by blast+
  show free: "literal_free (exact_table ?cfg json) (texts ! i)" for json
    using tab(2) assms(5) by (intro literal_free_make_config) auto
  obtain ps where ps: "pieces_of (masked_texts res ! i) (texts ! i) (replacements (mask_state res)) ps"
    using tab(3) assms(5) by (auto simp: list_all2_conv_all_nth)
  have "\<forall>r. Hole r \<in> set ps \<longrightarrow> exact_table ?cfg False (rep_placeholder r) = Some (rep_original r)"
    using ps masked_table [OF assms(1-4)] exact_table_lookup [OF ok] by (simp add: pieces_of_def)
  then show "restore (exact_table ?cfg False) (masked_texts res ! i) = texts ! i"
    using exact.restore_pieces [of ps ?cfg False] free [of False] ps by (simp add: pieces_of_def)
qed

text \<open>A recogniser that finds nothing in the text leaves it alone.\<close>

lemma tolerant_scan_none:
  assumes "\<forall>cr\<in>set crs. \<forall>re. cr_placeholder_re cr = Some re \<longrightarrow> re_match re text 0 = None"
  shows "tolerant_scan crs text = Inr []"
proof -
  have "scan_placeholder_rules text crs [] = Inr []"
    using assms
  proof (induction crs)
    case (Cons cr crs)
    have "scan_rule text cr [] = Inr []"
      using Cons.prems by (cases "cr_placeholder_re cr") (auto simp: scan_rule_def)
    then show ?case using Cons by simp
  qed simp
  then show ?thesis by (simp add: tolerant_scan_def resolve_placeholder_conflicts_def)
qed

text \<open>C1. Demasking undoes masking: for rules whose placeholder types are made of letters, digits and
  underscores, demasking a masked text with the request's own table gives the original text back, byte
  for byte, with any snapshot whose recognisers find nothing in the original.\<close>

theorem mask_demask_roundtrip:
  assumes "\<forall>cr\<in>set rules. scannable cr" "ids_unique rules"
    and "\<forall>cr\<in>set rules. list_all is_word_char (placeholder (rule_masking (cr_rule (the cr))))"
    and "mask_texts hw pf texts rules opts = Inr res" "i < length texts"
    and "\<forall>reg j cr re. snapshot = Some reg \<longrightarrow> by_id reg j = Some cr \<longrightarrow> cr_placeholder_re cr = Some re \<longrightarrow>
      re_match re (texts ! i) 0 = None"
  shows "demask_all (make_config (mask_state res) snapshot) (masked_texts res ! i) False = Inr (texts ! i)"
proof -
  let ?cfg = "make_config (mask_state res) snapshot"
  note res = restore_masked [OF assms(1,2,4,3,5), where snapshot = snapshot]
  have exact: "apply_exact ?cfg False (masked_texts res ! i) = Some (texts ! i)"
    using apply_exact_restore [OF res(1,2)] res(3) by simp
  have regex: "apply_placeholder_regex ?cfg False (texts ! i) = Inr (texts ! i)"
  proof (cases "cfg_scan ?cfg")
    case (Some scan)
    then obtain reg where reg: "snapshot = Some reg"
        "scan = tolerant_scan (resolve_rules reg (sort_by string_less (triggered_rule_ids (mask_state res))))"
      using make_config_scan_cases [of "mask_state res" snapshot] by auto
    have "scan (texts ! i) = Inr []"
      unfolding reg(2) using assms(6) reg(1) by (intro tolerant_scan_none) (auto simp: set_resolve_rules)
    then show ?thesis using Some by (simp add: apply_placeholder_regex_def)
  qed (simp add: apply_placeholder_regex_def)
  have "texts ! i = []" if "masked_texts res ! i = []" using res(3) that by simp
  then show ?thesis using exact regex
    by (auto simp: demask_all_def demask_chunk_def new_demasker_def Let_def)
qed


section \<open>Witnesses\<close>

lemma sample_masking:
  "\<exists>res. mask_texts hw pf [''say abc'', ''abc''] [Some (literal_rule ''r'' ''abc'')] sample_options = Inr res"
proof -
  have "\<forall>cr\<in>set [Some (literal_rule ''r'' ''abc'')]. scannable cr" "ids_unique [Some (literal_rule ''r'' ''abc'')]"
    by (simp_all add: ids_unique_def)
  then show ?thesis using mask_texts_result by blast
qed

lemma sample_rules_ok:
  "\<forall>cr\<in>set [Some (literal_rule i lit)]. scannable cr" "ids_unique [Some (literal_rule i lit)]"
  "\<forall>cr\<in>set [Some (literal_rule i lit)]. list_all is_word_char (placeholder (rule_masking (cr_rule (the cr))))"
  by (simp_all add: ids_unique_def byte_defs)

theorem mask_demask_roundtrip_witness:
  "\<forall>hw pf. \<exists>res. mask_texts hw pf [''say abc'', ''abc''] [Some (literal_rule ''r'' ''abc'')] sample_options = Inr res \<and>
     demask_all (make_config (mask_state res) None) (masked_texts res ! 0) False = Inr ''say abc''"
proof (intro allI)
  fix hw pf
  obtain res where res: "mask_texts hw pf [''say abc'', ''abc''] [Some (literal_rule ''r'' ''abc'')] sample_options = Inr res"
    using sample_masking by blast
  have "demask_all (make_config (mask_state res) None) (masked_texts res ! 0) False = Inr ([''say abc'', ''abc''] ! 0)"
    by (rule mask_demask_roundtrip [OF sample_rules_ok res]) simp_all
  then show "\<exists>res. mask_texts hw pf [''say abc'', ''abc''] [Some (literal_rule ''r'' ''abc'')] sample_options = Inr res \<and>
     demask_all (make_config (mask_state res) None) (masked_texts res ! 0) False = Inr ''say abc''"
    using res by auto
qed


end
